(* ===== verification/Onak_Prelude.thy ===== *)
theory Onak_Prelude
  imports Main "HOL-Library.Word" "HOL-Library.Monad_Syntax" "HOL-Library.Multiset"
    "HOL-Library.Sublist"
begin

text \<open>
  What every component shares: the machine types, the convention for undefined behaviour,
  the C library functions the sources call on byte buffers, and two interfaces.

  A C function that reads memory or an uninitialised variable is a function into
  \<open>'a option\<close>, where \<open>None\<close> means that the C program has no defined behaviour there (a read
  past the end of an allocation, a read of a local nothing has written) or that the call does
  not return. A theorem that concludes \<open>\<dots> = Some r\<close> therefore states that the code is
  memory safe and terminates on these inputs, as well as what it returns.
\<close>

unbundle bit_operations_syntax

section \<open>Machine types\<close>

type_synonym u8 = "8 word"
type_synonym u32 = "32 word"
type_synonym u64 = "64 word"
type_synonym bytes = "u8 list"

named_theorems be_simps \<open>big-endian encodings\<close>
named_theorems run_simps \<open>evaluation of the definitions on concrete inputs\<close>

text \<open>Subtraction of unsigned integers modulo \<open>m\<close>, where it does not wrap around.\<close>

lemma unsigned_diff: "b \<le> a \<Longrightarrow> a < m \<Longrightarrow> (a + m - b) mod m = a - (b :: nat)"
proof -
  assume "b \<le> a" and "a < m"
  then have "a + m - b = (a - b) + m" by simp
  then have "(a + m - b) mod m = (a - b) mod m" by (simp only: mod_add_self2)
  also have "\<dots> = a - b" using \<open>a < m\<close> by (intro mod_less) simp
  finally show ?thesis .
qed

lemma image_neq: "k \<notin> f ` S \<Longrightarrow> x \<in> S \<Longrightarrow> f x \<noteq> k"
  by auto

section \<open>Reads from a buffer\<close>

definition rd :: "bytes \<Rightarrow> nat \<Rightarrow> u8 option" where
  "rd d i = (if i < length d then Some (d ! i) else None)"

lemma rd_in [simp]: "i < length d \<Longrightarrow> rd d i = Some (d ! i)"
  by (simp add: rd_def)

lemma rd_out [simp]: "length d \<le> i \<Longrightarrow> rd d i = None"
  by (simp add: rd_def)

lemma rd_eq_None [simp]: "rd d i = None \<longleftrightarrow> length d \<le> i"
  by (simp add: rd_def)

lemma rd_eq_Some: "rd d i = Some x \<longleftrightarrow> i < length d \<and> d ! i = x"
  by (auto simp: rd_def)

lemma rd_drop: "n \<le> length d \<Longrightarrow> rd (drop n d) i = rd d (n + i)"
  by (auto simp: rd_def)

lemma rd_less: "n \<le> length d \<Longrightarrow> i < n \<Longrightarrow> rd d i = Some (d ! i)"
  by simp

lemma rd_0_Cons [simp]: "rd (x # xs) 0 = Some x"
  by (simp add: rd_def)

lemma rd_numeral_Cons [simp]: "rd (x # xs) (numeral k) = rd xs (pred_numeral k)"
  by (auto simp: rd_def numeral_eq_Suc)

lemma rd_Suc_Cons [simp]: "rd (x # xs) (Suc i) = rd xs i"
  by (simp add: rd_def)

text \<open>The bytes of an array from index \<open>i\<close>, \<open>n\<close> of them, as \<open>memcpy\<close> reads them.\<close>

definition rds :: "bytes \<Rightarrow> nat \<Rightarrow> nat \<Rightarrow> bytes option" where
  "rds d i n = (if i + n \<le> length d then Some (take n (drop i d)) else None)"

lemma rds_in [simp]: "i + n \<le> length d \<Longrightarrow> rds d i n = Some (take n (drop i d))"
  by (simp add: rds_def)

lemma rds_eq_Some: "rds d i n = Some xs \<longleftrightarrow> i + n \<le> length d \<and> xs = take n (drop i d)"
  by (auto simp: rds_def)

section \<open>Big-endian integers\<close>

text \<open>
  \<open>v = d[0]; v <<= 8; v += d[1]; \<dots>\<close> on a \<^typ>\<open>u64\<close>, the idiom of \<open>keyid.c\<close> and
  \<open>decodekey.c\<close>.
\<close>

definition be_word :: "bytes \<Rightarrow> u64" where
  "be_word bs = foldl (\<lambda>k b. push_bit 8 k + ucast b) 0 bs"

text \<open>The value the same bytes have as a number.\<close>

definition be_nat :: "bytes \<Rightarrow> nat" where
  "be_nat bs = foldl (\<lambda>k b. k * 256 + unat b) 0 bs"

text \<open>The \<open>n\<close> low-order bytes of a number, most significant first (\<open>htonl\<close> for \<open>n = 4\<close>).\<close>

fun be_bytes :: "nat \<Rightarrow> nat \<Rightarrow> bytes" where
  "be_bytes 0 v = []"
| "be_bytes (Suc n) v = be_bytes n (v div 256) @ [word_of_nat v]"

lemma length_be_bytes [simp]: "length (be_bytes n v) = n"
  by (induction n arbitrary: v) auto

lemma be_nat_Nil [simp]: "be_nat [] = 0"
  by (simp add: be_nat_def)

lemma be_nat_snoc [be_simps]: "be_nat (bs @ [b]) = be_nat bs * 256 + unat b"
  by (simp add: be_nat_def)

lemma unat_word_of_nat_u8 [simp]: "unat (word_of_nat v :: u8) = v mod 256"
  by (simp add: unat_of_nat)

lemma be_nat_be_bytes: "be_nat (be_bytes n v) = v mod 256 ^ n"
proof (induction n arbitrary: v)
  case 0
  then show ?case by simp
next
  case (Suc n)
  have "v mod (256 ^ n * 256) = 256 * (v div 256 mod 256 ^ n) + v mod 256"
    using mod_mult2_eq [of v 256 "256 ^ n"] by (simp add: mult.commute)
  then show ?case using Suc by (simp add: be_nat_snoc mult.commute)
qed

lemma be_nat_bound: "be_nat bs < 256 ^ length bs"
proof (induction bs rule: rev_induct)
  case (snoc b bs)
  have "unat b < 256" using unsigned_less [of b] by simp
  with snoc show ?case by (simp add: be_nat_snoc)
qed simp

lemma be_bytes_be_nat: "length bs = n \<Longrightarrow> be_bytes n (be_nat bs) = bs"
proof (induction bs arbitrary: n rule: rev_induct)
  case (snoc b bs)
  have "unat b < 256" using unsigned_less [of b] by simp
  with snoc have "be_bytes (length bs) (be_nat (bs @ [b]) div 256) = bs"
    by (simp add: be_nat_snoc)
  moreover have "(word_of_nat (be_nat (bs @ [b])) :: u8) = b"
  proof (rule word_unat_eq_iff [THEN iffD2])
    show "unat (word_of_nat (be_nat (bs @ [b])) :: u8) = unat b"
      using \<open>unat b < 256\<close> by (simp only: unat_word_of_nat_u8 be_nat_snoc mod_mult_self3 mod_less)
  qed
  ultimately show ?case using snoc.prems by auto
qed simp

lemma be_word_be_nat: "be_word bs = word_of_nat (be_nat bs)"
proof (induction bs rule: rev_induct)
  case Nil
  then show ?case by (simp add: be_word_def)
next
  case (snoc b bs)
  have "be_word (bs @ [b]) = push_bit 8 (be_word bs) + ucast b"
    by (simp add: be_word_def)
  also have "\<dots> = word_of_nat (be_nat bs) * 256 + word_of_nat (unat b)"
    using snoc by (simp add: push_bit_eq_mult mult.commute unsigned_ucast_eq)
  finally show ?case by (simp add: be_nat_snoc)
qed

section \<open>memcmp\<close>

text \<open>
  The sign of the first difference of the two arrays among their first \<open>n\<close> bytes. The C
  standard fixes only the sign of the result, and the sources use only that.
\<close>

fun memcmp :: "nat \<Rightarrow> bytes \<Rightarrow> bytes \<Rightarrow> int" where
  "memcmp (Suc n) (x # xs) (y # ys) =
     (if x < y then -1 else if y < x then 1 else memcmp n xs ys)"
| "memcmp _ _ _ = 0"

lemma memcmp_refl [simp]: "memcmp n xs xs = 0"
  by (induction xs arbitrary: n) (case_tac n; simp)+

lemma memcmp_sym: "memcmp n ys xs = - memcmp n xs ys"
  by (induction n xs ys rule: memcmp.induct) auto

lemma memcmp_eq_0:
  "n \<le> length xs \<Longrightarrow> n \<le> length ys \<Longrightarrow> memcmp n xs ys = 0 \<longleftrightarrow> take n xs = take n ys"
  by (induction n xs ys rule: memcmp.induct) (auto simp: not_less_iff_gr_or_eq)

lemma memcmp_trans:
  "length ys = length xs \<Longrightarrow> length zs = length xs \<Longrightarrow>
   memcmp (length xs) xs ys \<le> 0 \<Longrightarrow> memcmp (length xs) ys zs \<le> 0 \<Longrightarrow>
   memcmp (length xs) xs zs \<le> 0"
proof (induction xs arbitrary: ys zs)
  case Nil
  then show ?case by simp
next
  case (Cons x xs)
  then obtain y ys' z zs' where e: "ys = y # ys'" "zs = z # zs'"
    by (metis length_Suc_conv)
  have "x \<le> y" "y \<le> z" using Cons.prems e by (auto split: if_splits)
  consider "x < z" | "x = y" "y = z"
    using \<open>x \<le> y\<close> \<open>y \<le> z\<close> by fastforce
  then show ?case
  proof cases
    case 1
    then show ?thesis by (simp add: e)
  next
    case 2
    then show ?thesis using Cons.IH [of ys' zs'] Cons.prems e by simp
  qed
qed

end
