(* ===== verification/Packets.thy ===== *)
theory Packets
  imports Onak_Prelude
begin

text \<open>
  The data model of \<open>keystructs.h\<close>, \<open>openpgp.h\<close> and \<open>onak.h\<close>, and the copying functions of
  \<open>mem.c\<close>.

  A packet's \<open>data\<close> buffer is the list of its bytes and its \<open>length\<close> field is the length of
  that list: every statement of the sources that sets one of the two fields allocates or
  assigns the other with it. A singly linked list is a HOL list; the \<open>last_sig\<close>,
  \<open>last_uid\<close> and \<open>last_subkey\<close> fields, which cache the last node for appending, are the end
  of that list.
\<close>

section \<open>Status codes (onak.h)\<close>

datatype onak_status =
    ONAK_E_OK | ONAK_E_NOMEM | ONAK_E_NOT_FOUND | ONAK_E_INVALID_PARAM | ONAK_E_INVALID_PKT
  | ONAK_E_UNKNOWN_VER | ONAK_E_UNSUPPORTED_FEATURE | ONAK_E_BAD_SIGNATURE
  | ONAK_E_WEAK_SIGNATURE | ONAK_E_IO_ERROR

primrec status_code :: "onak_status \<Rightarrow> int" where
  "status_code ONAK_E_OK = 0"
| "status_code ONAK_E_NOMEM = 1"
| "status_code ONAK_E_NOT_FOUND = 2"
| "status_code ONAK_E_INVALID_PARAM = 3"
| "status_code ONAK_E_INVALID_PKT = 4"
| "status_code ONAK_E_UNKNOWN_VER = 5"
| "status_code ONAK_E_UNSUPPORTED_FEATURE = 6"
| "status_code ONAK_E_BAD_SIGNATURE = 7"
| "status_code ONAK_E_WEAK_SIGNATURE = 8"
| "status_code ONAK_E_IO_ERROR = 9"

section \<open>Packet tags and signature types (openpgp.h)\<close>

abbreviation (input) OPENPGP_PACKET_PKSESSIONKEY :: nat where "OPENPGP_PACKET_PKSESSIONKEY \<equiv> 1"
abbreviation (input) OPENPGP_PACKET_SIGNATURE :: nat where "OPENPGP_PACKET_SIGNATURE \<equiv> 2"
abbreviation (input) OPENPGP_PACKET_SYMSESSIONKEY :: nat where "OPENPGP_PACKET_SYMSESSIONKEY \<equiv> 3"
abbreviation (input) OPENPGP_PACKET_ONEPASSSIG :: nat where "OPENPGP_PACKET_ONEPASSSIG \<equiv> 4"
abbreviation (input) OPENPGP_PACKET_SECRETKEY :: nat where "OPENPGP_PACKET_SECRETKEY \<equiv> 5"
abbreviation (input) OPENPGP_PACKET_PUBLICKEY :: nat where "OPENPGP_PACKET_PUBLICKEY \<equiv> 6"
abbreviation (input) OPENPGP_PACKET_TRUST :: nat where "OPENPGP_PACKET_TRUST \<equiv> 12"
abbreviation (input) OPENPGP_PACKET_UID :: nat where "OPENPGP_PACKET_UID \<equiv> 13"
abbreviation (input) OPENPGP_PACKET_PUBLICSUBKEY :: nat where "OPENPGP_PACKET_PUBLICSUBKEY \<equiv> 14"
abbreviation (input) OPENPGP_PACKET_UAT :: nat where "OPENPGP_PACKET_UAT \<equiv> 17"
abbreviation (input) OPENPGP_PACKET_ENCRYPTED_MDC :: nat where "OPENPGP_PACKET_ENCRYPTED_MDC \<equiv> 18"
abbreviation (input) OPENPGP_PACKET_COMMENT :: nat where "OPENPGP_PACKET_COMMENT \<equiv> 61"

abbreviation (input) OPENPGP_SIGTYPE_KEY_REV :: u8 where "OPENPGP_SIGTYPE_KEY_REV \<equiv> 0x20"
abbreviation (input) OPENPGP_SIGTYPE_SUBKEY_REV :: u8 where "OPENPGP_SIGTYPE_SUBKEY_REV \<equiv> 0x28"
abbreviation (input) OPENPGP_SIGTYPE_CERT_REV :: u8 where "OPENPGP_SIGTYPE_CERT_REV \<equiv> 0x30"

section \<open>The structures (keystructs.h)\<close>

abbreviation (input) MAX_FINGERPRINT_LEN :: nat where "MAX_FINGERPRINT_LEN \<equiv> 32"

record openpgp_fingerprint =
  fp_length :: nat
  fp :: bytes

record openpgp_packet =
  tag :: nat
  newformat :: bool
  data :: bytes

definition plength :: "openpgp_packet \<Rightarrow> nat" where
  "plength p = length (data p)"

record openpgp_signedpacket =
  sp_packet :: openpgp_packet
  sp_sigs :: "openpgp_packet list"

record openpgp_publickey =
  publickey :: openpgp_packet
  revoked :: bool
  sigs :: "openpgp_packet list"
  uids :: "openpgp_signedpacket list"
  subkeys :: "openpgp_signedpacket list"

lemma signedpacket_eta [simp]: "\<lparr>sp_packet = sp_packet sp, sp_sigs = sp_sigs sp\<rparr> = sp"
  by simp

text \<open>Only the first \<open>fp_length\<close> bytes of a fingerprint are valid; the model keeps just those.\<close>

definition fingerprint_ok :: "openpgp_fingerprint \<Rightarrow> bool" where
  "fingerprint_ok f \<longleftrightarrow> length (fp f) = fp_length f \<and> fp_length f \<le> MAX_FINGERPRINT_LEN"

section \<open>Copying packets (mem.c)\<close>

definition packet_dup :: "openpgp_packet \<Rightarrow> openpgp_packet" where
  "packet_dup p = \<lparr>tag = tag p, newformat = newformat p, data = take (plength p) (data p)\<rparr>"

lemma packet_dup_id [simp]: "packet_dup p = p"
  by (simp add: packet_dup_def plength_def)

fun packet_list_add :: "openpgp_packet list \<Rightarrow> openpgp_packet list \<Rightarrow> openpgp_packet list" where
  "packet_list_add list [] = list"
| "packet_list_add list (p # packet_list) = packet_list_add (list @ [packet_dup p]) packet_list"

lemma packet_list_add_append [simp]: "packet_list_add xs ys = xs @ ys"
  by (induction ys arbitrary: xs) auto

end
