(* ===== verification/Streams.thy ===== *)
theory Streams
  imports Packets
begin

text \<open>
  The character streams of \<open>charfuncs.c\<close>: every reader and writer of the program takes a
  function \<open>getchar_func(ctx, count, c)\<close> or \<open>putchar_func(ctx, count, c)\<close> and a context. Here
  a reader maps a context and a count to the bytes it delivered (their number is the C
  function's return value) and the new context; a writer maps a context and the bytes to the
  new context. The in-memory buffer of \<open>charfuncs.c\<close> provides both; the armor code wraps
  any reader or writer into another one. The two locales are the contracts that the packet
  code relies on.
\<close>

type_synonym 's reader = "'s \<Rightarrow> nat \<Rightarrow> (bytes \<times> 's) option"
type_synonym 's writer = "'s \<Rightarrow> bytes \<Rightarrow> 's option"

section \<open>The buffer of charfuncs.c\<close>

text \<open>
  \<open>buf_data\<close> has one entry per allocated byte, \<open>None\<close> where nothing has been written since
  the allocation.
\<close>

record buffer_ctx =
  buf_data :: "u8 option list"
  buf_offset :: nat
  buf_size :: nat

definition init_buffer :: "bytes \<Rightarrow> buffer_ctx" where
  "init_buffer bs = \<lparr>buf_data = map Some bs, buf_offset = 0, buf_size = length bs\<rparr>"

text \<open>\<open>memcpy\<close> out of the buffer reads only allocated and initialised bytes.\<close>

definition buffer_read :: "u8 option list \<Rightarrow> nat \<Rightarrow> nat \<Rightarrow> bytes option" where
  "buffer_read b i n =
     (if i + n \<le> length b \<and> None \<notin> set (take n (drop i b))
      then Some (map the (take n (drop i b))) else None)"

definition buffer_fetchchar :: "buffer_ctx reader" where
  "buffer_fetchchar buf n =
     (let n' = (if buf_offset buf + n > buf_size buf
                    then (buf_size buf + 2 ^ 64 - buf_offset buf) mod 2 ^ 64 else n)
      in do { c \<leftarrow> buffer_read (buf_data buf) (buf_offset buf) n';
              Some (c, buf\<lparr>buf_offset := buf_offset buf + n'\<rparr>) })"

text \<open>The loop that doubles the allocation; \<open>newsize\<close> is a 64-bit \<open>size_t\<close>.\<close>

partial_function (option) buffer_grow :: "nat \<Rightarrow> nat \<Rightarrow> nat option" where
  "buffer_grow newsize need =
     (if newsize < need then buffer_grow (newsize * 2 mod 2 ^ 64) need else Some newsize)"

definition buffer_write :: "u8 option list \<Rightarrow> nat \<Rightarrow> bytes \<Rightarrow> u8 option list option" where
  "buffer_write b i c =
     (if i + length c \<le> length b
      then Some (take i b @ map Some c @ drop (i + length c) b) else None)"

definition buffer_putchar :: "buffer_ctx writer" where
  "buffer_putchar buf c =
     do { newsize \<leftarrow> buffer_grow (buf_size buf) (buf_offset buf + length c);
          let b = (if newsize \<noteq> buf_size buf
                   then take newsize (buf_data buf) @ replicate (newsize - length (buf_data buf)) None
                   else buf_data buf);
          b' \<leftarrow> buffer_write b (buf_offset buf) c;
          Some \<lparr>buf_data = b', buf_offset = buf_offset buf + length c, buf_size = newsize\<rparr> }"

definition buffer_ok :: "buffer_ctx \<Rightarrow> bool" where
  "buffer_ok buf \<longleftrightarrow> length (buf_data buf) = buf_size buf \<and> buf_offset buf \<le> buf_size buf \<and> buf_size buf < 2 ^ 64"

text \<open>What a buffer will deliver, and what has been written to it.\<close>

definition buffer_delivers :: "buffer_ctx \<Rightarrow> bytes \<Rightarrow> bool" where
  "buffer_delivers buf xs \<longleftrightarrow> buffer_ok buf \<and> drop (buf_offset buf) (buf_data buf) = map Some xs"

definition buffer_holds :: "buffer_ctx \<Rightarrow> bytes \<Rightarrow> bool" where
  "buffer_holds buf xs \<longleftrightarrow>
     buffer_ok buf \<and> 0 < buf_size buf \<and> take (buf_offset buf) (buf_data buf) = map Some xs"

section \<open>The contracts\<close>

text \<open>
  \<open>delivers s xs\<close>: from context \<open>s\<close> the reader delivers exactly \<open>xs\<close>. A request that \<open>xs\<close>
  can satisfy is satisfied; a larger one is answered with fewer bytes than requested.
\<close>

locale byte_source =
  fixes getc :: "'s reader"
    and delivers :: "'s \<Rightarrow> bytes \<Rightarrow> bool"
  assumes get_full: "delivers s (xs @ ys) \<Longrightarrow> \<exists>s'. getc s (length xs) = Some (xs, s') \<and> delivers s' ys"
    and get_short: "delivers s xs \<Longrightarrow> length xs < n \<Longrightarrow> \<exists>ys s'. getc s n = Some (ys, s') \<and> length ys < n"

text \<open>
  \<open>holds s xs\<close>: the writer in context \<open>s\<close> has taken the bytes \<open>xs\<close>. Up to a capacity, it
  takes any further bytes after them.
\<close>

locale byte_sink =
  fixes put :: "'s writer"
    and holds :: "'s \<Rightarrow> bytes \<Rightarrow> bool"
    and capacity :: nat
  assumes put_holds: "holds s xs \<Longrightarrow> length xs + length ys \<le> capacity \<Longrightarrow>
      \<exists>s'. put s ys = Some s' \<and> holds s' (xs @ ys)"

section \<open>The buffer meets both contracts\<close>

lemma buffer_grow_enough:
  assumes "0 < newsize" and "need \<le> 2 ^ 63" and "newsize < 2 ^ 64"
  shows "\<exists>m. buffer_grow newsize need = Some m \<and> newsize \<le> m \<and> need \<le> m \<and> m < 2 ^ 64"
  using assms
proof (induction "need - newsize" arbitrary: newsize rule: less_induct)
  case less
  show ?case
  proof (cases "newsize < need")
    case True
    then have "newsize * 2 mod 2 ^ 64 = newsize * 2"
      using less.prems by simp
    moreover from True have "\<exists>m. buffer_grow (newsize * 2) need = Some m \<and>
        newsize * 2 \<le> m \<and> need \<le> m \<and> m < 2 ^ 64"
      using less.prems by (intro less.hyps) auto
    ultimately show ?thesis
      using True by (subst buffer_grow.simps) auto
  next
    case False
    then show ?thesis using less.prems by (subst buffer_grow.simps) auto
  qed
qed

lemma None_notin_map_Some [simp]: "None \<notin> Some ` S"
  by auto

lemma buffer_fetch_full:
  assumes "buffer_delivers s (xs @ ys)"
  shows "\<exists>s'. buffer_fetchchar s (length xs) = Some (xs, s') \<and> buffer_delivers s' ys"
proof -
  let ?s' = "s\<lparr>buf_offset := buf_offset s + length xs\<rparr>"
  have d: "drop (buf_offset s) (buf_data s) = map Some xs @ map Some ys"
    and ok: "buffer_ok s"
    using assms by (simp_all add: buffer_delivers_def)
  have "length (buf_data s) - buf_offset s = length xs + length ys"
    using arg_cong [OF d, of length] by simp
  with ok have le: "buf_offset s + length xs \<le> buf_size s" and len: "length (buf_data s) = buf_size s"
    by (auto simp: buffer_ok_def)
  have "buffer_read (buf_data s) (buf_offset s) (length xs) = Some xs"
    using d le len by (simp add: buffer_read_def comp_def)
  then have "buffer_fetchchar s (length xs) = Some (xs, ?s')"
    using le by (simp add: buffer_fetchchar_def)
  moreover have "drop (buf_offset ?s') (buf_data ?s') = map Some ys"
    using arg_cong [OF d, of "drop (length xs)"] by (simp add: add.commute)
  then have "buffer_delivers ?s' ys"
    using ok le by (simp add: buffer_delivers_def buffer_ok_def)
  ultimately show ?thesis by blast
qed

lemma buffer_fetch_short:
  assumes "buffer_delivers s xs" and "length xs < n"
  shows "\<exists>ys s'. buffer_fetchchar s n = Some (ys, s') \<and> length ys < n"
proof -
  have d: "drop (buf_offset s) (buf_data s) = map Some xs" and ok: "buffer_ok s"
    using assms by (simp_all add: buffer_delivers_def)
  have "length (buf_data s) - buf_offset s = length xs"
    using arg_cong [OF d, of length] by simp
  with ok have le: "buf_offset s + length xs = buf_size s" and len: "length (buf_data s) = buf_size s"
    and "length xs < 2 ^ 64"
    unfolding buffer_ok_def by linarith+
  then have "(buf_size s + 2 ^ 64 - buf_offset s) mod 2 ^ 64 = length xs"
    by (metis add.commute add_diff_cancel_left' group_cancel.add1 mod_add_self2 mod_less)
  moreover have "buffer_read (buf_data s) (buf_offset s) (length xs) = Some xs"
    using d le len by (simp add: buffer_read_def comp_def)
  moreover have "buf_offset s + n > buf_size s"
    using le assms(2) by linarith
  ultimately show ?thesis
    using assms(2) by (simp add: buffer_fetchchar_def)
qed

lemma buffer_put_holds:
  assumes "buffer_holds s xs" and "length xs + length ys \<le> 2 ^ 63"
  shows "\<exists>s'. buffer_putchar s ys = Some s' \<and> buffer_holds s' (xs @ ys)"
proof -
  have t: "take (buf_offset s) (buf_data s) = map Some xs" and ok: "buffer_ok s" and pos: "0 < buf_size s"
    using assms by (simp_all add: buffer_holds_def)
  have off: "buf_offset s = length xs"
    using arg_cong [OF t, of length] ok by (simp add: buffer_ok_def)
  obtain m where m: "buffer_grow (buf_size s) (buf_offset s + length ys) = Some m"
      "buf_size s \<le> m" "buf_offset s + length ys \<le> m" "m < 2 ^ 64"
    using buffer_grow_enough [OF pos, of "buf_offset s + length ys"] assms(2) off ok
    by (auto simp: buffer_ok_def)
  let ?b = "if m \<noteq> buf_size s then take m (buf_data s) @ replicate (m - length (buf_data s)) None
            else buf_data s"
  have lb: "length ?b = m" and tb: "take (buf_offset s) ?b = map Some xs"
    using m ok t by (auto simp: buffer_ok_def)
  let ?b' = "take (buf_offset s) ?b @ map Some ys @ drop (buf_offset s + length ys) ?b"
  let ?s' = "\<lparr>buf_data = ?b', buf_offset = buf_offset s + length ys, buf_size = m\<rparr>"
  have "buffer_putchar s ys = Some ?s'"
    using m lb by (simp add: buffer_putchar_def buffer_write_def Let_def)
  moreover have "buffer_holds ?s' (xs @ ys)"
    using m lb tb pos off by (auto simp: buffer_holds_def buffer_ok_def)
  ultimately show ?thesis by blast
qed

interpretation buf_source: byte_source buffer_fetchchar buffer_delivers
  by unfold_locales (use buffer_fetch_full buffer_fetch_short in blast)+

interpretation buf_sink: byte_sink buffer_putchar buffer_holds "2 ^ 63"
  by unfold_locales (simp add: buffer_put_holds)

lemma init_buffer_delivers: "length bs < 2 ^ 64 \<Longrightarrow> buffer_delivers (init_buffer bs) bs"
  by (simp add: buffer_delivers_def init_buffer_def buffer_ok_def)

end
