(* ===== verification/Parse_Key.thy ===== *)
theory Parse_Key
  imports Streams
begin

text \<open>
  The packet layer of \<open>parsekey.c\<close>: reading a stream of OpenPGP packets
  (\<open>read_openpgp_stream\<close>) and writing one (\<open>write_openpgp_stream\<close>). The lemmas show that
  writing emits a fixed byte encoding, that reading inverts it over any byte source, what a
  truncated stream and a stream with a trailing byte give, and that every packet read is
  well formed.
\<close>

section \<open>Reading packets\<close>

text \<open>\<open>getchar_func(ctx, 1, &curchar)\<close>: \<open>None\<close> where it does not return 1.\<close>

definition read_char :: "'s reader \<Rightarrow> 's \<Rightarrow> (u8 option \<times> 's) option" where
  "read_char getc s =
     do { (cs, s') \<leftarrow> getc s 1;
          Some (case cs of [] \<Rightarrow> None | c # _ \<Rightarrow> Some c, s') }"

text \<open>The runs of \<open>length <<= 8; length += curchar\<close>: \<open>n\<close> more octets of a length.\<close>

fun read_length_octets :: "'s reader \<Rightarrow> nat \<Rightarrow> nat \<Rightarrow> 's \<Rightarrow> (onak_status \<times> nat \<times> 's) option" where
  "read_length_octets getc 0 len s = Some (ONAK_E_OK, len, s)"
| "read_length_octets getc (Suc n) len s =
     do { (c, s) \<leftarrow> read_char getc s;
          (case c of None \<Rightarrow> Some (ONAK_E_INVALID_PKT, len, s)
           | Some curchar \<Rightarrow> read_length_octets getc n (len * 256 + unat curchar) s) }"

definition read_new_length :: "'s reader \<Rightarrow> 's \<Rightarrow> (onak_status \<times> nat \<times> 's) option" where
  "read_new_length getc s =
     do { (c, s) \<leftarrow> read_char getc s;
          (case c of None \<Rightarrow> Some (ONAK_E_INVALID_PKT, 0, s)
           | Some curchar \<Rightarrow>
               let len = unat curchar in
               if 191 < len \<and> len < 224 then
                 do { (c, s) \<leftarrow> read_char getc s;
                      (case c of None \<Rightarrow> Some (ONAK_E_IO_ERROR, 0, s)
                       | Some curchar \<Rightarrow>
                           Some (ONAK_E_OK, (len - 192) * 256 + unat curchar + 192, s)) }
               else if 223 < len \<and> len < 255 then Some (ONAK_E_UNSUPPORTED_FEATURE, 0, s)
               else if len = 255 then read_length_octets getc 4 0 s
               else Some (ONAK_E_OK, len, s)) }"

definition read_old_length :: "'s reader \<Rightarrow> u8 \<Rightarrow> 's \<Rightarrow> (onak_status \<times> nat \<times> 's) option" where
  "read_old_length getc curchar s =
     (let lentype = curchar AND 3 in
      if lentype = 0 then read_length_octets getc 1 0 s
      else if lentype = 1 then read_length_octets getc 2 0 s
      else if lentype = 2 then read_length_octets getc 4 0 s
      else Some (ONAK_E_UNSUPPORTED_FEATURE, 0, s))"

text \<open>The switch that makes sure the packet version is sane; it reads \<open>data[0]\<close>.\<close>

definition packet_version_ok :: "openpgp_packet \<Rightarrow> bool option" where
  "packet_version_ok p =
     (if tag p = OPENPGP_PACKET_ENCRYPTED_MDC
      then map_option (\<lambda>v. v = 1) (rd (data p) 0)
      else if tag p = OPENPGP_PACKET_PKSESSIONKEY \<or> tag p = OPENPGP_PACKET_ONEPASSSIG
      then map_option (\<lambda>v. v = 3) (rd (data p) 0)
      else if tag p = OPENPGP_PACKET_SYMSESSIONKEY
      then map_option (\<lambda>v. v = 4) (rd (data p) 0)
      else if tag p = OPENPGP_PACKET_SIGNATURE \<or> tag p = OPENPGP_PACKET_SECRETKEY \<or>
              tag p = OPENPGP_PACKET_PUBLICKEY
      then map_option (\<lambda>v. 2 \<le> v) (rd (data p) 0)
      else Some True)"

text \<open>
  One packet, after its header octet \<open>curchar\<close> (with bit 7 set) has been read. The packet
  returned with a status other than \<open>ONAK_E_OK\<close> is the incomplete one the loop leaves at
  the end of the list. \<open>mal n\<close> says whether \<open>malloc(n)\<close> succeeds.
\<close>

definition read_packet ::
    "(nat \<Rightarrow> bool) \<Rightarrow> 's reader \<Rightarrow> u8 \<Rightarrow> 's \<Rightarrow> (onak_status \<times> openpgp_packet \<times> 's) option" where
  "read_packet mal getc curchar s =
     (let new = (curchar AND 0x40 \<noteq> 0);
          ptag = (if new then unat (curchar AND 0x3F) else unat (drop_bit 2 (curchar AND 0x3C)))
      in do { (rc, len, s) \<leftarrow> (if new then read_new_length getc s else read_old_length getc curchar s);
              if rc \<noteq> ONAK_E_OK then Some (rc, \<lparr>tag = ptag, newformat = new, data = []\<rparr>, s)
              else if \<not> mal len then Some (ONAK_E_NOMEM, \<lparr>tag = ptag, newformat = new, data = []\<rparr>, s)
              else do { (body, s) \<leftarrow> getc s len;
                        let p = \<lparr>tag = ptag, newformat = new, data = body\<rparr>;
                        if length body \<noteq> len then Some (ONAK_E_IO_ERROR, p, s)
                        else do { ok \<leftarrow> packet_version_ok p;
                                  Some (if ok then ONAK_E_OK else ONAK_E_INVALID_PKT, p, s) } } })"

text \<open>
  The loop. \<open>packets\<close> is the list so far, \<open>added\<close> says that the loop has put a node on
  it (\<open>packetend != NULL\<close>), \<open>keys\<close> counts public key packets.
\<close>

partial_function (option) read_packets ::
    "(nat \<Rightarrow> bool) \<Rightarrow> 's reader \<Rightarrow> int \<Rightarrow> 's \<Rightarrow> openpgp_packet list \<Rightarrow> bool \<Rightarrow> int \<Rightarrow>
     (onak_status \<times> openpgp_packet list \<times> bool \<times> 's) option" where
  "read_packets mal getc maxnum s packets added keys =
     (if maxnum = 0 \<or> keys < maxnum then
        do { (c, s) \<leftarrow> read_char getc s;
             (case c of None \<Rightarrow> Some (ONAK_E_OK, packets, added, s)
              | Some curchar \<Rightarrow>
                  if curchar AND 0x80 \<noteq> 0 then
                    do { (rc, p, s) \<leftarrow> read_packet mal getc curchar s;
                         if rc = ONAK_E_OK
                         then read_packets mal getc maxnum s (packets @ [p]) True
                                (if tag p = OPENPGP_PACKET_PUBLICKEY then keys + 1 else keys)
                         else Some (rc, packets @ [p], True, s) }
                  else Some (ONAK_E_INVALID_PKT, packets, added, s)) }
      else Some (ONAK_E_OK, packets, added, s))"

text \<open>After the loop: if it failed, the last node it added is freed and unlinked.\<close>

definition read_openpgp_stream ::
    "(nat \<Rightarrow> bool) \<Rightarrow> 's reader \<Rightarrow> 's \<Rightarrow> openpgp_packet list \<Rightarrow> int \<Rightarrow>
     (onak_status \<times> openpgp_packet list \<times> 's) option" where
  "read_openpgp_stream mal getc s packets maxnum =
     do { (rc, packets', added, s') \<leftarrow> read_packets mal getc maxnum s packets False 0;
          Some (rc, if added \<and> rc \<noteq> ONAK_E_OK then butlast packets' else packets', s') }"

section \<open>Writing packets\<close>

text \<open>A run of \<open>putchar_func(ctx, 1, &curchar)\<close> calls, one octet each.\<close>

fun put_octets :: "'s writer \<Rightarrow> bytes \<Rightarrow> 's \<Rightarrow> 's option" where
  "put_octets put [] s = Some s"
| "put_octets put (curchar # cs) s = do { s \<leftarrow> put s [curchar]; put_octets put cs s }"

definition write_new_header :: "'s writer \<Rightarrow> openpgp_packet \<Rightarrow> 's \<Rightarrow> (onak_status \<times> 's) option" where
  "write_new_header put p s =
     do { s \<leftarrow> put_octets put [0x80 OR 0x40 OR word_of_nat (tag p)] s;
          if plength p < 192 then
            do { s \<leftarrow> put_octets put [word_of_nat (plength p)] s; Some (ONAK_E_OK, s) }
          else if 191 < plength p \<and> plength p < 8383 then
            do { s \<leftarrow> put_octets put
                        [word_of_nat (((plength p - 192) div 256) mod 256 + 192),
                         word_of_nat ((plength p - 192) mod 256)] s;
                 Some (ONAK_E_OK, s) }
          else if 8382 < plength p \<and> plength p < 0xFFFFFFFF then
            do { s \<leftarrow> put_octets put
                        [255, word_of_nat (plength p div 2 ^ 24), word_of_nat (plength p div 2 ^ 16),
                         word_of_nat (plength p div 2 ^ 8), word_of_nat (plength p)] s;
                 Some (ONAK_E_OK, s) }
          else Some (ONAK_E_UNSUPPORTED_FEATURE, s) }"

definition write_old_header :: "'s writer \<Rightarrow> openpgp_packet \<Rightarrow> 's \<Rightarrow> 's option" where
  "write_old_header put p s =
     (let curchar = 0x80 OR word_of_nat (tag p * 4) in
      if plength p < 256 then put_octets put [curchar, word_of_nat (plength p)] s
      else if plength p < 0x10000 then
        put_octets put [curchar OR 1, word_of_nat (plength p div 2 ^ 8),
                        word_of_nat (plength p mod 256)] s
      else
        put_octets put [curchar OR 2, word_of_nat (plength p div 2 ^ 24),
                        word_of_nat (plength p div 2 ^ 16 mod 256),
                        word_of_nat (plength p div 2 ^ 8 mod 256),
                        word_of_nat (plength p mod 256)] s)"

fun write_openpgp_stream ::
    "'s writer \<Rightarrow> 's \<Rightarrow> openpgp_packet list \<Rightarrow> (onak_status \<times> 's) option" where
  "write_openpgp_stream put s [] = Some (ONAK_E_OK, s)"
| "write_openpgp_stream put s (p # packets) =
     do { (rc, s) \<leftarrow> (if newformat p then write_new_header put p s
                      else do { s \<leftarrow> write_old_header put p s; Some (ONAK_E_OK, s) });
          if rc \<noteq> ONAK_E_OK then Some (rc, s)
          else do { s \<leftarrow> put s (data p); write_openpgp_stream put s packets } }"

section \<open>The byte encoding of packets\<close>

text \<open>The octets \<open>write_openpgp_stream\<close> emits, as a function of the packet.\<close>

definition length_octets :: "openpgp_packet \<Rightarrow> bytes" where
  "length_octets p =
     (if newformat p then
        if plength p < 192 then be_bytes 1 (plength p)
        else if plength p < 8383
        then [word_of_nat ((plength p - 192) div 256 + 192), word_of_nat (plength p - 192)]
        else 255 # be_bytes 4 (plength p)
      else if plength p < 256 then be_bytes 1 (plength p)
      else if plength p < 0x10000 then be_bytes 2 (plength p)
      else be_bytes 4 (plength p))"

definition header_octet :: "openpgp_packet \<Rightarrow> u8" where
  "header_octet p =
     (if newformat p then 0x80 OR 0x40 OR word_of_nat (tag p)
      else 0x80 OR word_of_nat (tag p * 4) OR
           (if plength p < 256 then 0 else if plength p < 0x10000 then 1 else 2))"

definition packet_encoding :: "openpgp_packet \<Rightarrow> bytes" where
  "packet_encoding p = header_octet p # length_octets p @ data p"

lemma packet_encoding_not_Nil [simp]: "packet_encoding p \<noteq> []"
  by (simp add: packet_encoding_def)

definition stream_encoding :: "openpgp_packet list \<Rightarrow> bytes" where
  "stream_encoding ps = concat (map packet_encoding ps)"

lemma stream_encoding_simps [simp]:
  "stream_encoding [] = []"
  "stream_encoding (p # ps) = packet_encoding p @ stream_encoding ps"
  "stream_encoding (ps @ qs) = stream_encoding ps @ stream_encoding qs"
  by (simp_all add: stream_encoding_def)

text \<open>What the header octet and the length octets can express.\<close>

definition packet_writable :: "openpgp_packet \<Rightarrow> bool" where
  "packet_writable p \<longleftrightarrow>
     (if newformat p then tag p < 64 \<and> plength p < 0xFFFFFFFF
      else tag p < 16 \<and> plength p < 2 ^ 32)"

text \<open>A packet that reading can produce: expressible, with an acceptable version octet.\<close>

definition packet_wf :: "openpgp_packet \<Rightarrow> bool" where
  "packet_wf p \<longleftrightarrow> packet_writable p \<and> packet_version_ok p = Some True"

lemma word_of_nat_mod_u8: "(word_of_nat (n mod 256) :: u8) = word_of_nat n"
  by (rule word_unat_eq_iff [THEN iffD2]) simp

lemma be_bytes_div:
  "be_bytes 1 n = [word_of_nat n]"
  "be_bytes 2 n = [word_of_nat (n div 2 ^ 8), word_of_nat n]"
  "be_bytes 4 n = [word_of_nat (n div 2 ^ 24), word_of_nat (n div 2 ^ 16),
                   word_of_nat (n div 2 ^ 8), word_of_nat n]"
proof -
  have e: "(1::nat) = Suc 0" "(2::nat) = Suc (Suc 0)" "(4::nat) = Suc (Suc (Suc (Suc 0)))"
    by simp_all
  show "be_bytes 1 n = [word_of_nat n]"
    by simp
  show "be_bytes 2 n = [word_of_nat (n div 2 ^ 8), word_of_nat n]"
    by (subst e(2)) simp
  show "be_bytes 4 n = [word_of_nat (n div 2 ^ 24), word_of_nat (n div 2 ^ 16),
                   word_of_nat (n div 2 ^ 8), word_of_nat n]"
    by (subst e(3)) (simp add: div_mult2_eq [symmetric])
qed

section \<open>Writing emits the encoding\<close>

context byte_sink
begin

lemma put_octets_holds:
  assumes "holds s xs" and "length xs + length bs \<le> capacity"
  shows "\<exists>s'. put_octets put bs s = Some s' \<and> holds s' (xs @ bs)"
  using assms
proof (induction bs arbitrary: s xs)
  case Nil
  then show ?case by simp
next
  case (Cons b bs)
  obtain s1 where s1: "put s [b] = Some s1" "holds s1 (xs @ [b])"
    using put_holds [of s xs "[b]"] Cons.prems by auto
  with Cons.prems Cons.IH [of s1 "xs @ [b]"] show ?case by auto
qed

lemma write_new_header_holds:
  assumes "holds s xs" and "newformat p" and "plength p < 0xFFFFFFFF"
    and "length xs + length (header_octet p # length_octets p) \<le> capacity"
  shows "\<exists>s'. write_new_header put p s = Some (ONAK_E_OK, s') \<and>
           holds s' (xs @ header_octet p # length_octets p)"
proof -
  have h: "header_octet p = 0x80 OR 0x40 OR word_of_nat (tag p)"
    using assms(2) by (simp add: header_octet_def)
  obtain s1 where s1: "put_octets put [0x80 OR 0x40 OR word_of_nat (tag p)] s = Some s1"
      "holds s1 (xs @ [header_octet p])"
    using put_octets_holds [OF assms(1), of "[header_octet p]"] assms(4)
    by (auto simp: h)
  have len: "length (xs @ [header_octet p]) + length (length_octets p) \<le> capacity"
    using assms(4) by simp
  obtain s2 where s2: "put_octets put (length_octets p) s1 = Some s2"
      "holds s2 (xs @ header_octet p # length_octets p)"
    using put_octets_holds [OF s1(2) len] by auto
  consider "plength p < 192" | "192 \<le> plength p" "plength p < 8383" | "8383 \<le> plength p"
    by linarith
  then have "write_new_header put p s = Some (ONAK_E_OK, s2)"
  proof cases
    case 1
    with s2(1) assms(2) show ?thesis
      unfolding write_new_header_def s1(1)
      by (simp add: length_octets_def be_bytes_div del: put_octets.simps)
  next
    case 2
    then have "(plength p - 192) div 256 mod 256 = (plength p - 192) div 256" by simp
    with 2 s2(1) assms(2) show ?thesis
      unfolding write_new_header_def s1(1)
      by (simp add: length_octets_def word_of_nat_mod_u8 del: put_octets.simps)
  next
    case 3
    with s2(1) assms(2,3) show ?thesis
      unfolding write_new_header_def s1(1)
      by (simp add: length_octets_def be_bytes_div del: put_octets.simps)
  qed
  with s2(2) show ?thesis by blast
qed

lemma write_old_header_eq:
  "\<not> newformat p \<Longrightarrow>
   write_old_header put p s = put_octets put (header_octet p # length_octets p) s"
  unfolding write_old_header_def Let_def header_octet_def length_octets_def be_bytes_div
  by (simp add: word_of_nat_mod_u8 or.assoc)

lemma write_stream_holds:
  assumes "holds s xs" and "\<forall>p \<in> set ps. newformat p \<longrightarrow> plength p < 0xFFFFFFFF"
    and "length xs + length (stream_encoding ps) \<le> capacity"
  shows "\<exists>s'. write_openpgp_stream put s ps = Some (ONAK_E_OK, s') \<and>
           holds s' (xs @ stream_encoding ps)"
  using assms
proof (induction ps arbitrary: s xs)
  case Nil
  then show ?case by simp
next
  case (Cons p ps)
  let ?h = "header_octet p # length_octets p"
  have len: "length xs + length ?h + length (data p) + length (stream_encoding ps) \<le> capacity"
    using Cons.prems(3) by (simp add: packet_encoding_def)
  obtain s1 where s1: "(if newformat p then write_new_header put p s
        else do { s \<leftarrow> write_old_header put p s; Some (ONAK_E_OK, s) }) = Some (ONAK_E_OK, s1)"
      "holds s1 (xs @ ?h)"
  proof (cases "newformat p")
    case True
    then show ?thesis
      using that write_new_header_holds [OF Cons.prems(1), of p] Cons.prems(2) len by auto
  next
    case False
    then show ?thesis
      using that put_octets_holds [OF Cons.prems(1), of ?h] len
      by (auto simp: write_old_header_eq simp del: put_octets.simps)
  qed
  obtain s2 where s2: "put s1 (data p) = Some s2" "holds s2 ((xs @ ?h) @ data p)"
    using put_holds [OF s1(2), of "data p"] len by auto
  obtain s3 where "write_openpgp_stream put s2 ps = Some (ONAK_E_OK, s3)"
      "holds s3 (((xs @ ?h) @ data p) @ stream_encoding ps)"
    using Cons.IH [OF s2(2)] Cons.prems(2) len by auto
  with s1(1) s2(1) show ?case
    by (simp add: packet_encoding_def)
qed

end

section \<open>Reading inverts the encoding\<close>

lemma new_header_bits:
  assumes "t < 64"
  shows "(0x80 OR 0x40 OR word_of_nat t :: u8) AND 0x80 \<noteq> 0"
    and "(0x80 OR 0x40 OR word_of_nat t :: u8) AND 0x40 \<noteq> 0"
    and "unat ((0x80 OR 0x40 OR word_of_nat t :: u8) AND 0x3F) = t"
proof -
  have "list_all (\<lambda>t. (0x80 OR 0x40 OR word_of_nat t :: u8) AND 0x80 \<noteq> 0 \<and>
      (0x80 OR 0x40 OR word_of_nat t :: u8) AND 0x40 \<noteq> 0 \<and>
      unat ((0x80 OR 0x40 OR word_of_nat t :: u8) AND 0x3F) = t) [0..<64]"
    by code_simp
  with assms show "(0x80 OR 0x40 OR word_of_nat t :: u8) AND 0x80 \<noteq> 0"
    and "(0x80 OR 0x40 OR word_of_nat t :: u8) AND 0x40 \<noteq> 0"
    and "unat ((0x80 OR 0x40 OR word_of_nat t :: u8) AND 0x3F) = t"
    unfolding list_all_iff by auto
qed

lemma old_header_bits:
  assumes "t < 16" and "l \<in> {0, 1, 2}"
  shows "(0x80 OR word_of_nat (t * 4) OR l :: u8) AND 0x80 \<noteq> 0"
    and "(0x80 OR word_of_nat (t * 4) OR l :: u8) AND 0x40 = 0"
    and "unat (drop_bit 2 ((0x80 OR word_of_nat (t * 4) OR l :: u8) AND 0x3C)) = t"
    and "(0x80 OR word_of_nat (t * 4) OR l :: u8) AND 3 = l"
proof -
  have "list_all (\<lambda>t. list_all (\<lambda>l. (0x80 OR word_of_nat (t * 4) OR l :: u8) AND 0x80 \<noteq> 0 \<and>
      (0x80 OR word_of_nat (t * 4) OR l :: u8) AND 0x40 = 0 \<and>
      unat (drop_bit 2 ((0x80 OR word_of_nat (t * 4) OR l :: u8) AND 0x3C)) = t \<and>
      (0x80 OR word_of_nat (t * 4) OR l :: u8) AND 3 = l) [0, 1, 2]) [0..<16]"
    by code_simp
  with assms show "(0x80 OR word_of_nat (t * 4) OR l :: u8) AND 0x80 \<noteq> 0"
    and "(0x80 OR word_of_nat (t * 4) OR l :: u8) AND 0x40 = 0"
    and "unat (drop_bit 2 ((0x80 OR word_of_nat (t * 4) OR l :: u8) AND 0x3C)) = t"
    and "(0x80 OR word_of_nat (t * 4) OR l :: u8) AND 3 = l"
    unfolding list_all_iff by auto
qed

lemma header_octet_high: "packet_writable p \<Longrightarrow> header_octet p AND 0x80 \<noteq> 0"
  using new_header_bits(1) [of "tag p"] old_header_bits(1) [of "tag p"]
  by (auto simp: header_octet_def packet_writable_def)

context byte_source
begin

lemma read_char_full: "delivers s (c # ys) \<Longrightarrow> \<exists>s'. read_char getc s = Some (Some c, s') \<and> delivers s' ys"
  using get_full [of s "[c]" ys] by (auto simp: read_char_def)

lemma read_char_end: "delivers s [] \<Longrightarrow> \<exists>s'. read_char getc s = Some (None, s')"
  using get_short [of s "[]" 1] by (auto simp: read_char_def)

lemma read_length_octets_full:
  "delivers s (bs @ ys) \<Longrightarrow>
   \<exists>s'. read_length_octets getc (length bs) len s =
          Some (ONAK_E_OK, foldl (\<lambda>k b. k * 256 + unat b) len bs, s') \<and> delivers s' ys"
proof (induction bs arbitrary: s len)
  case Nil
  then show ?case by simp
next
  case (Cons b bs)
  obtain s1 where "read_char getc s = Some (Some b, s1)" "delivers s1 (bs @ ys)"
    using read_char_full [of s b "bs @ ys"] Cons.prems by auto
  with Cons.IH [of s1 "len * 256 + unat b"] show ?case by auto
qed

lemma read_be_full:
  assumes "delivers s (be_bytes n v @ ys)" and "v < 256 ^ n"
  shows "\<exists>s'. read_length_octets getc n 0 s = Some (ONAK_E_OK, v, s') \<and> delivers s' ys"
  using read_length_octets_full [OF assms(1), of 0] assms(2) be_nat_be_bytes [of n v]
  by (simp add: be_nat_def)

lemma read_new_length_full:
  assumes "delivers s (length_octets p @ ys)" and "newformat p" and "plength p < 0xFFFFFFFF"
  shows "\<exists>s'. read_new_length getc s = Some (ONAK_E_OK, plength p, s') \<and> delivers s' ys"
proof -
  consider "plength p < 192" | "192 \<le> plength p" "plength p < 8383" | "8383 \<le> plength p"
    by linarith
  then show ?thesis
  proof cases
    case 1
    then have "delivers s (word_of_nat (plength p) # ys)"
      using assms(1,2) by (simp add: length_octets_def)
    from read_char_full [OF this] 1 show ?thesis
      by (auto simp: read_new_length_def Let_def)
  next
    case 2
    define l where "l = plength p - 192"
    then have l: "plength p = l + 192" "l < 8191" using 2 by simp_all
    have "delivers s (word_of_nat (l div 256 + 192) # word_of_nat l # ys)"
      using assms(1,2) 2 by (simp add: length_octets_def l_def)
    then obtain s1 where s1: "read_char getc s = Some (Some (word_of_nat (l div 256 + 192)), s1)"
        and d1: "delivers s1 (word_of_nat l # ys)"
      using read_char_full by blast
    obtain s2 where s2: "read_char getc s1 = Some (Some (word_of_nat l), s2)"
        and d2: "delivers s2 ys"
      using read_char_full [OF d1] by blast
    have u1: "unat (word_of_nat (l div 256 + 192) :: u8) = l div 256 + 192"
      and lt: "191 < l div 256 + 192" "l div 256 + 192 < 224"
      using l(2) by (simp_all only: unat_word_of_nat_u8) simp_all
    show ?thesis
      unfolding read_new_length_def s1 using s2 d2 lt
      by (simp add: u1 l(1) Let_def div_mult_mod_eq del: of_nat_add)
  next
    case 3
    then have "delivers s (255 # be_bytes 4 (plength p) @ ys)"
      using assms(1,2) by (simp add: length_octets_def)
    then obtain s1 where s1: "read_char getc s = Some (Some 255, s1)"
        and d1: "delivers s1 (be_bytes 4 (plength p) @ ys)"
      using read_char_full by blast
    from read_be_full [OF d1] assms(3) s1 show ?thesis
      by (auto simp: read_new_length_def Let_def)
  qed
qed

lemma read_old_length_full:
  assumes "delivers s (length_octets p @ ys)" and "\<not> newformat p" and "packet_writable p"
  shows "\<exists>s'. read_old_length getc (header_octet p) s = Some (ONAK_E_OK, plength p, s') \<and>
           delivers s' ys"
proof -
  have t: "tag p < 16" and l: "plength p < 2 ^ 32"
    using assms(2,3) by (simp_all add: packet_writable_def)
  consider "plength p < 256" | "256 \<le> plength p" "plength p < 0x10000" | "0x10000 \<le> plength p"
    by linarith
  then show ?thesis
  proof cases
    case 1
    then have "header_octet p AND 3 = 0"
      using old_header_bits(4) [OF t, of 0] assms(2) by (simp add: header_octet_def)
    moreover have "delivers s (be_bytes 1 (plength p) @ ys)"
      using 1 assms(1,2) by (simp add: length_octets_def)
    ultimately show ?thesis
      using read_be_full [of s 1 "plength p" ys] 1 by (simp add: read_old_length_def)
  next
    case 2
    then have "header_octet p AND 3 = 1"
      using old_header_bits(4) [OF t, of 1] assms(2) by (simp add: header_octet_def)
    moreover have "delivers s (be_bytes 2 (plength p) @ ys)"
      using 2 assms(1,2) by (simp add: length_octets_def)
    ultimately show ?thesis
      using read_be_full [of s 2 "plength p" ys] 2 by (simp add: read_old_length_def)
  next
    case 3
    then have "header_octet p AND 3 = 2"
      using old_header_bits(4) [OF t, of 2] assms(2) by (simp add: header_octet_def)
    moreover have "delivers s (be_bytes 4 (plength p) @ ys)"
      using 3 assms(1,2) by (simp add: length_octets_def)
    ultimately show ?thesis
      using read_be_full [of s 4 "plength p" ys] l by (simp add: read_old_length_def)
  qed
qed

lemma read_packet_full:
  assumes "delivers s (length_octets p @ data p @ ys)" and "packet_wf p" and "mal (plength p)"
  shows "\<exists>s'. read_packet mal getc (header_octet p) s = Some (ONAK_E_OK, p, s') \<and> delivers s' ys"
proof -
  have w: "packet_writable p" and v: "packet_version_ok p = Some True"
    using assms(2) by (simp_all add: packet_wf_def)
  have h: "(header_octet p AND 0x40 \<noteq> 0) = newformat p"
    "(if newformat p then unat (header_octet p AND 0x3F)
      else unat (drop_bit 2 (header_octet p AND 0x3C))) = tag p"
    using w new_header_bits(2,3) [of "tag p"] old_header_bits(2,3) [of "tag p"]
    by (auto simp: header_octet_def packet_writable_def)
  obtain s1 where s1: "(if newformat p then read_new_length getc s
        else read_old_length getc (header_octet p) s) = Some (ONAK_E_OK, plength p, s1)"
      and d1: "delivers s1 (data p @ ys)"
    using read_new_length_full [OF assms(1)] read_old_length_full [OF assms(1)] w
    by (cases "newformat p") (auto simp: packet_writable_def)
  obtain s2 where s2: "getc s1 (plength p) = Some (data p, s2)" and d2: "delivers s2 ys"
    using get_full [OF d1] by (auto simp: plength_def)
  have p: "\<lparr>tag = tag p, newformat = newformat p, data = data p\<rparr> = p" by simp
  show ?thesis
    unfolding read_packet_def Let_def h s1
    using s2 d2 v assms(3) by (simp add: plength_def p)
qed

lemma read_packets_Cons:
  assumes "delivers s (packet_encoding p @ ys)" and "packet_wf p" and "mal (plength p)"
  shows "\<exists>s' keys'. delivers s' ys \<and>
           read_packets mal getc 0 s acc added keys =
           read_packets mal getc 0 s' (acc @ [p]) True keys'"
proof -
  have "delivers s (header_octet p # length_octets p @ data p @ ys)"
    using assms(1) by (simp add: packet_encoding_def)
  then obtain s1 where s1: "read_char getc s = Some (Some (header_octet p), s1)"
      and d1: "delivers s1 (length_octets p @ data p @ ys)"
    using read_char_full by blast
  obtain s2 where s2: "read_packet mal getc (header_octet p) s1 = Some (ONAK_E_OK, p, s2)"
      and d2: "delivers s2 ys"
    using read_packet_full [OF d1 assms(2), of mal] assms(3) by blast
  have "header_octet p AND 0x80 \<noteq> 0"
    using assms(2) by (simp add: packet_wf_def header_octet_high)
  with s1 s2 d2 show ?thesis
    by (subst read_packets.simps) auto
qed

lemma read_packets_run:
  assumes "delivers s (stream_encoding ps @ ys)" and "\<forall>p \<in> set ps. packet_wf p \<and> mal (plength p)"
  shows "\<exists>s' keys'. delivers s' ys \<and>
           read_packets mal getc 0 s acc added keys =
           read_packets mal getc 0 s' (acc @ ps) (added \<or> ps \<noteq> []) keys'"
  using assms
proof (induction ps arbitrary: s acc added keys)
  case Nil
  then show ?case by auto
next
  case (Cons p ps)
  obtain s1 k1 where d1: "delivers s1 (stream_encoding ps @ ys)"
      and r1: "read_packets mal getc 0 s acc added keys =
               read_packets mal getc 0 s1 (acc @ [p]) True k1"
    using read_packets_Cons [of s p "stream_encoding ps @ ys" mal acc added keys] Cons.prems
    by auto
  show ?case
    using Cons.IH [OF d1, of "acc @ [p]" True k1] Cons.prems(2) r1 by auto
qed

lemma read_packets_end:
  "delivers s [] \<Longrightarrow> \<exists>s'. read_packets mal getc 0 s acc added keys = Some (ONAK_E_OK, acc, added, s')"
  using read_char_end [of s] by (subst read_packets.simps) auto

lemma read_stream_full:
  assumes "delivers s (stream_encoding ps)" and "\<forall>p \<in> set ps. packet_wf p \<and> mal (plength p)"
  shows "\<exists>s'. read_openpgp_stream mal getc s acc 0 = Some (ONAK_E_OK, acc @ ps, s')"
proof -
  obtain s1 k1 where "delivers s1 []"
      and "read_packets mal getc 0 s acc False 0 =
           read_packets mal getc 0 s1 (acc @ ps) (ps \<noteq> []) k1"
    using read_packets_run [of s ps "[]" mal acc False 0] assms by auto
  with read_packets_end [of s1 mal "acc @ ps" "ps \<noteq> []" k1] show ?thesis
    by (auto simp: read_openpgp_stream_def)
qed

lemma read_stream_junk:
  assumes "delivers s (stream_encoding (ps @ [p]) @ b # ys)" and "b AND 0x80 = 0"
    and "\<forall>p \<in> set (ps @ [p]). packet_wf p \<and> mal (plength p)"
  shows "\<exists>s'. read_openpgp_stream mal getc s acc 0 = Some (ONAK_E_INVALID_PKT, acc @ ps, s')"
proof -
  obtain s1 k1 where d1: "delivers s1 (b # ys)"
      and r1: "read_packets mal getc 0 s acc False 0 =
           read_packets mal getc 0 s1 (acc @ ps @ [p]) True k1"
    using read_packets_run [OF assms(1,3), of acc False 0] by auto
  obtain s2 where "read_char getc s1 = Some (Some b, s2)"
    using read_char_full [OF d1] by blast
  then have "read_packets mal getc 0 s1 (acc @ ps @ [p]) True k1 =
      Some (ONAK_E_INVALID_PKT, acc @ ps @ [p], True, s2)"
    using assms(2) by (subst read_packets.simps) simp
  with r1 show ?thesis
    by (simp add: read_openpgp_stream_def butlast_append)
qed

lemma read_length_octets_short:
  "delivers s xs \<Longrightarrow> length xs < n \<Longrightarrow>
   \<exists>l s'. read_length_octets getc n len s = Some (ONAK_E_INVALID_PKT, l, s')"
proof (induction n arbitrary: s xs len)
  case 0
  then show ?case by simp
next
  case (Suc n)
  show ?case
  proof (cases xs)
    case Nil
    with Suc.prems read_char_end [of s] show ?thesis by auto
  next
    case (Cons b bs)
    with Suc.prems read_char_full [of s b bs] obtain s1 where
      "read_char getc s = Some (Some b, s1)" "delivers s1 bs" by auto
    with Suc.IH [of s1 bs "len * 256 + unat b"] Suc.prems Cons show ?thesis by auto
  qed
qed

lemma read_length_short:
  assumes "delivers s xs" and "xs @ zs = length_octets p" and "zs \<noteq> []" and "packet_writable p"
  shows "\<exists>rc l s'. (if newformat p then read_new_length getc s
                   else read_old_length getc (header_octet p) s) = Some (rc, l, s') \<and> rc \<noteq> ONAK_E_OK"
proof (cases "newformat p")
  case False
  have less: "length xs < length (length_octets p)"
    using assms(2,3) by (metis length_append length_greater_0_conv less_add_same_cancel1)
  have "header_octet p AND 3 =
      (if plength p < 256 then 0 else if plength p < 0x10000 then 1 else 2)"
    using False assms(4) old_header_bits(4) [of "tag p"]
    by (auto simp: header_octet_def packet_writable_def)
  then have "read_old_length getc (header_octet p) s =
      read_length_octets getc (length (length_octets p)) 0 s"
    using False
    by (simp add: read_old_length_def length_octets_def Let_def del: read_length_octets.simps)
  with False read_length_octets_short [OF assms(1) less, of 0] show ?thesis by auto
next
  case True
  show ?thesis
  proof (cases xs)
    case Nil
    with assms(1) True show ?thesis
      using read_char_end by (fastforce simp: read_new_length_def)
  next
    case (Cons b bs)
    then obtain s1 where s1: "read_char getc s = Some (Some b, s1)" and d1: "delivers s1 bs"
      using read_char_full assms(1) by blast
    consider "plength p < 192" | "192 \<le> plength p" "plength p < 8383" | "8383 \<le> plength p"
      by linarith
    then show ?thesis
    proof cases
      case 1
      with True Cons assms(2,3) show ?thesis by (simp add: length_octets_def)
    next
      case 2
      then have b: "b = word_of_nat ((plength p - 192) div 256 + 192)" and "bs = []"
        using True Cons assms(2,3) by (auto simp: length_octets_def append_eq_Cons_conv)
      moreover have "unat b = (plength p - 192) div 256 + 192"
        unfolding b unat_word_of_nat_u8 using 2 by simp
      moreover have "(plength p - 192) div 256 + 192 < 224" using 2 by simp
      ultimately show ?thesis
        using True s1 d1 read_char_end [of s1] unfolding read_new_length_def s1
        by (auto simp: Let_def)
    next
      case 3
      then have "b = 255" and "bs @ zs = be_bytes 4 (plength p)"
        using True Cons assms(2) by (auto simp: length_octets_def)
      then have "length bs < 4"
        using assms(3) by (metis length_append length_be_bytes length_greater_0_conv
            less_add_same_cancel1)
      with True s1 \<open>b = 255\<close> read_length_octets_short [OF d1, of 4 0] show ?thesis
        by (auto simp: read_new_length_def Let_def)
    qed
  qed
qed

text \<open>A packet cut off anywhere after its header octet is refused.\<close>

lemma read_packet_short:
  assumes "delivers s xs" and "xs @ zs = length_octets p @ data p" and "zs \<noteq> []"
    and "packet_writable p"
  shows "\<exists>rc q s'. read_packet mal getc (header_octet p) s = Some (rc, q, s') \<and> rc \<noteq> ONAK_E_OK"
proof -
  have h: "(header_octet p AND 0x40 \<noteq> 0) = newformat p"
    using assms(4) new_header_bits(2) [of "tag p"] old_header_bits(2) [of "tag p"]
    by (auto simp: header_octet_def packet_writable_def)
  consider us where "xs @ us = length_octets p" "us \<noteq> []"
    | us where "xs = length_octets p @ us" "length us < plength p"
  proof -
    from assms(2) consider us where "xs @ us = length_octets p" "zs = us @ data p"
      | us where "xs = length_octets p @ us" "us @ zs = data p"
      by (auto simp: append_eq_append_conv2)
    then show ?thesis
    proof cases
      case 1
      then show ?thesis
      proof (cases "us = []")
        case True
        with 1 assms(3) have "data p \<noteq> []" by simp
        then show ?thesis using that(2) [of "[]"] 1 True by (simp add: plength_def)
      qed (use 1 that(1) in blast)
    next
      case 2
      then have "length us < plength p"
        using assms(3) by (metis length_append length_greater_0_conv less_add_same_cancel1
            plength_def)
      with 2 that(2) show ?thesis by blast
    qed
  qed
  then show ?thesis
  proof cases
    case 1
    from read_length_short [OF assms(1) this assms(4)] show ?thesis
      unfolding read_packet_def Let_def h by fastforce
  next
    case 2
    then have "delivers s (length_octets p @ us)" using assms(1) by simp
    then obtain s1 where s1: "(if newformat p then read_new_length getc s
        else read_old_length getc (header_octet p) s) = Some (ONAK_E_OK, plength p, s1)"
        and d1: "delivers s1 us"
      using read_new_length_full [of s p us] read_old_length_full [of s p us] assms(4)
      by (cases "newformat p") (auto simp: packet_writable_def)
    obtain ys s2 where "getc s1 (plength p) = Some (ys, s2)" "length ys < plength p"
      using get_short [OF d1 2(2)] by blast
    then show ?thesis
      unfolding read_packet_def Let_def h s1 by auto
  qed
qed

lemma read_stream_truncated:
  assumes "delivers s (stream_encoding ps @ xs)" and "xs @ zs = packet_encoding p"
    and "xs \<noteq> []" and "zs \<noteq> []" and "packet_writable p"
    and "\<forall>p \<in> set ps. packet_wf p \<and> mal (plength p)"
  shows "\<exists>rc s'. read_openpgp_stream mal getc s acc 0 = Some (rc, acc @ ps, s') \<and> rc \<noteq> ONAK_E_OK"
proof -
  obtain us where xs: "xs = header_octet p # us" and us: "us @ zs = length_octets p @ data p"
    using assms(2,3) by (cases xs) (auto simp: packet_encoding_def)
  obtain s1 k1 where d1: "delivers s1 (header_octet p # us)"
      and r1: "read_packets mal getc 0 s acc False 0 =
           read_packets mal getc 0 s1 (acc @ ps) (ps \<noteq> []) k1"
    using read_packets_run [OF assms(1,6), of acc False 0] xs by auto
  obtain s2 where s2: "read_char getc s1 = Some (Some (header_octet p), s2)" "delivers s2 us"
    using read_char_full [OF d1] by blast
  obtain rc q s3 where "read_packet mal getc (header_octet p) s2 = Some (rc, q, s3)"
      "rc \<noteq> ONAK_E_OK"
    using read_packet_short [OF s2(2) us assms(4,5)] by blast
  with s2 header_octet_high [OF assms(5)]
  have "read_packets mal getc 0 s1 (acc @ ps) (ps \<noteq> []) k1 = Some (rc, acc @ ps @ [q], True, s3)"
    by (subst read_packets.simps) simp
  with r1 \<open>rc \<noteq> ONAK_E_OK\<close> show ?thesis
    by (auto simp: read_openpgp_stream_def butlast_append)
qed

end

section \<open>Properties\<close>

text \<open>The bytes written to a buffer so far.\<close>

definition buffer_contents :: "buffer_ctx \<Rightarrow> bytes" where
  "buffer_contents buf = map the (take (buf_offset buf) (buf_data buf))"

lemma buffer_holds_contents: "buffer_holds buf xs \<Longrightarrow> buffer_contents buf = xs"
  by (simp add: buffer_holds_def buffer_contents_def comp_def)

text \<open>A buffer as \<open>calloc(1, n)\<close> makes it, with nothing written yet.\<close>

definition empty_buffer :: "nat \<Rightarrow> buffer_ctx" where
  "empty_buffer n = \<lparr>buf_data = replicate n (Some 0), buf_offset = 0, buf_size = n\<rparr>"

lemma empty_buffer_holds: "0 < n \<Longrightarrow> n < 2 ^ 64 \<Longrightarrow> buffer_holds (empty_buffer n) []"
  by (simp add: buffer_holds_def empty_buffer_def buffer_ok_def)

text \<open>
  C1. Round trip of the packet stream. Writing any list of well-formed packets into a growing
  buffer succeeds, and reading the bytes in the buffer back returns exactly these packets
  with status \<open>ONAK_E_OK\<close>: both functions return, read and write inside their allocations,
  and no packet, tag, format flag or data byte is lost or changed.
\<close>

theorem write_read_roundtrip:
  assumes "\<forall>p \<in> set ps. packet_wf p \<and> mal (plength p)" and "length (stream_encoding ps) \<le> 2 ^ 63"
  shows "\<exists>buf. write_openpgp_stream buffer_putchar (empty_buffer 1024) ps = Some (ONAK_E_OK, buf) \<and>
     (\<exists>s'. read_openpgp_stream mal buffer_fetchchar (init_buffer (buffer_contents buf)) [] 0 =
             Some (ONAK_E_OK, ps, s'))"
proof -
  have "\<forall>p \<in> set ps. newformat p \<longrightarrow> plength p < 0xFFFFFFFF"
    using assms(1) by (auto simp: packet_wf_def packet_writable_def)
  then obtain buf where buf: "write_openpgp_stream buffer_putchar (empty_buffer 1024) ps =
      Some (ONAK_E_OK, buf)" "buffer_holds buf (stream_encoding ps)"
    using buf_sink.write_stream_holds [of "empty_buffer 1024" "[]" ps] assms(2)
      empty_buffer_holds [of 1024] by auto
  have "buffer_delivers (init_buffer (buffer_contents buf)) (stream_encoding ps)"
    using init_buffer_delivers [of "stream_encoding ps"] assms(2)
    by (simp add: buffer_holds_contents [OF buf(2)])
  from buf_source.read_stream_full [OF this assms(1), of "[]"] buf(1) show ?thesis by auto
qed

definition sample_packet :: openpgp_packet where
  "sample_packet = \<lparr>tag = 13, newformat = False, data = [0x62, 0x6F, 0x62]\<rparr>"

lemma sample_packet_wf: "packet_wf sample_packet"
  by (simp add: sample_packet_def packet_wf_def packet_writable_def packet_version_ok_def plength_def)

theorem write_read_roundtrip_witness:
  "\<exists>buf. write_openpgp_stream buffer_putchar (empty_buffer 1024) [sample_packet] =
       Some (ONAK_E_OK, buf) \<and>
     (\<exists>s'. read_openpgp_stream (\<lambda>_. True) buffer_fetchchar (init_buffer (buffer_contents buf)) [] 0 =
             Some (ONAK_E_OK, [sample_packet], s'))"
proof (rule write_read_roundtrip)
  show "\<forall>p \<in> set [sample_packet]. packet_wf p \<and> True"
    by (simp add: sample_packet_wf)
  show "length (stream_encoding [sample_packet]) \<le> 2 ^ 63"
    by (simp add: packet_encoding_def length_octets_def sample_packet_def plength_def)
qed

text \<open>
  C2. Truncated input. If a stream of well-formed packets ends inside a further packet (after
  at least its header octet and before its last octet), then reading it returns an error
  status together with exactly the complete packets: the partial packet is discarded, and
  none of the packets before it is.
\<close>

theorem read_stream_truncated_keeps_complete:
  assumes "\<forall>p \<in> set ps. packet_wf p \<and> mal (plength p)" and "packet_writable p"
    and "0 < k" and "k < length (packet_encoding p)"
    and "length (stream_encoding ps @ take k (packet_encoding p)) < 2 ^ 64"
  shows "\<exists>rc s'. read_openpgp_stream mal buffer_fetchchar
           (init_buffer (stream_encoding ps @ take k (packet_encoding p))) [] 0 =
           Some (rc, ps, s') \<and> rc \<noteq> ONAK_E_OK"
  using buf_source.read_stream_truncated [OF init_buffer_delivers [OF assms(5)],
      of "drop k (packet_encoding p)" p mal "[]"] assms(1-4)
  by auto

theorem read_stream_truncated_keeps_complete_witness:
  "\<exists>rc s'. read_openpgp_stream (\<lambda>_. True) buffer_fetchchar
       (init_buffer (stream_encoding [sample_packet] @ take 3 (packet_encoding sample_packet))) [] 0 =
       Some (rc, [sample_packet], s') \<and> rc \<noteq> ONAK_E_OK"
proof (rule read_stream_truncated_keeps_complete)
  show "\<forall>p \<in> set [sample_packet]. packet_wf p \<and> True"
    by (simp add: sample_packet_wf)
  show "packet_writable sample_packet"
    using sample_packet_wf by (simp add: packet_wf_def)
  show "3 < length (packet_encoding sample_packet)" "(0::nat) < 3"
    "length (stream_encoding [sample_packet] @ take 3 (packet_encoding sample_packet)) < 2 ^ 64"
    by (simp_all add: packet_encoding_def length_octets_def sample_packet_def plength_def)
qed

text \<open>
  A trailing octet costs the last packet. If a stream of complete, well-formed packets is
  followed by one octet without bit 7 (a line feed, say), reading returns
  \<open>ONAK_E_INVALID_PKT\<close> and drops the last well-formed packet: the clean-up after the loop
  frees the last node on the list whether or not that node is the invalid packet.
\<close>

theorem read_stream_trailing_octet:
  assumes "\<forall>q \<in> set (ps @ [p]). packet_wf q \<and> mal (plength q)" and "b AND 0x80 = 0"
    and "length (stream_encoding (ps @ [p]) @ b # ys) < 2 ^ 64"
  shows "\<exists>s'. read_openpgp_stream mal buffer_fetchchar
           (init_buffer (stream_encoding (ps @ [p]) @ b # ys)) [] 0 =
           Some (ONAK_E_INVALID_PKT, ps, s')"
  using buf_source.read_stream_junk [OF init_buffer_delivers [OF assms(3)] assms(2,1), of "[]"]
  by simp

theorem read_stream_trailing_octet_witness:
  "\<exists>s'. read_openpgp_stream (\<lambda>_. True) buffer_fetchchar
       (init_buffer (stream_encoding ([] @ [sample_packet]) @ 0x0A # [])) [] 0 =
       Some (ONAK_E_INVALID_PKT, [], s')"
proof (rule read_stream_trailing_octet)
  show "\<forall>p \<in> set ([] @ [sample_packet]). packet_wf p \<and> True"
    by (simp add: sample_packet_wf)
  show "(0x0A :: u8) AND 0x80 = 0" by simp
  show "length (stream_encoding ([] @ [sample_packet]) @ 0x0A # []) < 2 ^ 64"
    by (simp add: packet_encoding_def length_octets_def sample_packet_def plength_def)
qed

end
