(* ===== verification/Key_Packets.thy ===== *)
theory Key_Packets
  imports Parse_Key
begin

text \<open>
  The key layer of \<open>parsekey.c\<close>: \<open>parse_keys\<close> groups a packet list into public keys with
  signatures, user ids and subkeys; \<open>flatten_publickey\<close> turns keys into packets again. The
  lemmas relate the two in both directions, and say on which packets \<open>parse_keys\<close> reads
  past the end of a signature.
\<close>

section \<open>Grouping packets into keys\<close>

definition empty_key :: "openpgp_packet \<Rightarrow> openpgp_publickey" where
  "empty_key p = \<lparr>publickey = packet_dup p, revoked = False, sigs = [], uids = [], subkeys = []\<rparr>"

text \<open>\<open>ADD_PACKET_TO_LIST_END(list, sig, item)\<close> on the last element of a signed packet list.\<close>

definition add_sig_last :: "openpgp_packet \<Rightarrow> openpgp_signedpacket list \<Rightarrow> openpgp_signedpacket list" where
  "add_sig_last sig l =
     butlast l @ [(last l)\<lparr>sp_sigs := sp_sigs (last l) @ [packet_dup sig]\<rparr>]"

text \<open>The revocation test on a signature made directly on the key.\<close>

definition is_key_rev :: "openpgp_packet \<Rightarrow> bool option" where
  "is_key_rev p =
     do { v \<leftarrow> rd (data p) 0;
          if v = 3 then map_option (\<lambda>t. t = OPENPGP_SIGTYPE_KEY_REV) (rd (data p) 2)
          else if v = 4 then map_option (\<lambda>t. t = OPENPGP_SIGTYPE_KEY_REV) (rd (data p) 1)
          else Some False }"

definition add_signature :: "openpgp_publickey \<Rightarrow> openpgp_packet \<Rightarrow> openpgp_publickey option" where
  "add_signature curkey p =
     (if subkeys curkey \<noteq> [] then Some (curkey\<lparr>subkeys := add_sig_last p (subkeys curkey)\<rparr>)
      else if uids curkey \<noteq> [] then Some (curkey\<lparr>uids := add_sig_last p (uids curkey)\<rparr>)
      else do { rev \<leftarrow> is_key_rev p;
                Some (curkey\<lparr>sigs := sigs curkey @ [packet_dup p],
                             revoked := revoked curkey \<or> rev\<rparr>) })"

text \<open>
  One round of the loop: the switch on the packet's tag. \<open>Inl\<close> is the early return with an
  error status.
\<close>

definition parse_packet ::
    "openpgp_packet \<Rightarrow> openpgp_publickey list \<Rightarrow> (onak_status + openpgp_publickey list) option" where
  "parse_packet p keys =
     (if tag p = OPENPGP_PACKET_SIGNATURE then
        if keys = [] then Some (Inl ONAK_E_INVALID_PARAM)
        else do { k \<leftarrow> add_signature (last keys) p; Some (Inr (butlast keys @ [k])) }
      else if tag p = OPENPGP_PACKET_PUBLICKEY then
        Some (Inr (keys @ [empty_key p]))
      else if tag p = OPENPGP_PACKET_UID \<or> tag p = OPENPGP_PACKET_UAT then
        if keys = [] then Some (Inl ONAK_E_INVALID_PARAM)
        else if subkeys (last keys) \<noteq> [] then Some (Inl ONAK_E_INVALID_PARAM)
        else Some (Inr (butlast keys @ [(last keys)\<lparr>uids := uids (last keys) @
                  [\<lparr>sp_packet = packet_dup p, sp_sigs = []\<rparr>]\<rparr>]))
      else if tag p = OPENPGP_PACKET_PUBLICSUBKEY then
        if keys = [] then Some (Inl ONAK_E_INVALID_PARAM)
        else Some (Inr (butlast keys @ [(last keys)\<lparr>subkeys := subkeys (last keys) @
                  [\<lparr>sp_packet = packet_dup p, sp_sigs = []\<rparr>]\<rparr>]))
      else Some (Inr keys))"

text \<open>
  The result is the C return value and \<open>*keys\<close>: the number of keys added, or the number of
  the status \<open>ONAK_E_INVALID_PARAM\<close>.
\<close>

fun parse_keys_loop ::
    "openpgp_packet list \<Rightarrow> openpgp_publickey list \<Rightarrow> int \<Rightarrow> (int \<times> openpgp_publickey list) option" where
  "parse_keys_loop [] keys n = Some (n, keys)"
| "parse_keys_loop (p # packets) keys n =
     do { r \<leftarrow> parse_packet p keys;
          (case r of Inl rc \<Rightarrow> Some (status_code rc, keys)
           | Inr keys' \<Rightarrow> parse_keys_loop packets keys'
                          (if tag p = OPENPGP_PACKET_PUBLICKEY then n + 1 else n)) }"

definition parse_keys ::
    "openpgp_packet list \<Rightarrow> openpgp_publickey list \<Rightarrow> (int \<times> openpgp_publickey list) option" where
  "parse_keys packets keys = parse_keys_loop packets keys 0"

section \<open>Flattening keys into packets\<close>

fun flatten_signed ::
    "openpgp_signedpacket list \<Rightarrow> openpgp_packet list \<Rightarrow> openpgp_packet list" where
  "flatten_signed [] packets = packets"
| "flatten_signed (sp # l) packets =
     flatten_signed l (packets @ packet_dup (sp_packet sp) # map packet_dup (sp_sigs sp))"

fun flatten_publickey ::
    "openpgp_publickey list \<Rightarrow> openpgp_packet list \<Rightarrow> openpgp_packet list" where
  "flatten_publickey [] packets = packets"
| "flatten_publickey (key # keys) packets =
     flatten_publickey keys
       (flatten_signed (subkeys key)
         (flatten_signed (uids key)
           (packets @ packet_dup (publickey key) # map packet_dup (sigs key))))"

section \<open>Keys as packet sequences\<close>

definition signed_packets :: "openpgp_signedpacket list \<Rightarrow> openpgp_packet list" where
  "signed_packets l = concat (map (\<lambda>sp. sp_packet sp # sp_sigs sp) l)"

definition key_packets :: "openpgp_publickey \<Rightarrow> openpgp_packet list" where
  "key_packets k = publickey k # sigs k @ signed_packets (uids k) @ signed_packets (subkeys k)"

lemma signed_packets_simps [simp]:
  "signed_packets [] = []"
  "signed_packets (sp # l) = sp_packet sp # sp_sigs sp @ signed_packets l"
  "signed_packets (l @ l') = signed_packets l @ signed_packets l'"
  by (simp_all add: signed_packets_def)

lemma flatten_signed_eq: "flatten_signed l packets = packets @ signed_packets l"
proof -
  have "map packet_dup xs = xs" for xs by (simp add: map_idI)
  then show ?thesis by (induction l arbitrary: packets) simp_all
qed

lemma flatten_publickey_eq: "flatten_publickey keys packets = packets @ concat (map key_packets keys)"
proof -
  have "map packet_dup xs = xs" for xs by (simp add: map_idI)
  then show ?thesis
    by (induction keys arbitrary: packets) (simp_all add: flatten_signed_eq key_packets_def)
qed

text \<open>The packets \<open>parse_keys\<close> keeps; it ignores all others.\<close>

definition key_packet :: "openpgp_packet \<Rightarrow> bool" where
  "key_packet p \<longleftrightarrow> tag p \<in> {OPENPGP_PACKET_SIGNATURE, OPENPGP_PACKET_PUBLICKEY,
     OPENPGP_PACKET_UID, OPENPGP_PACKET_UAT, OPENPGP_PACKET_PUBLICSUBKEY}"

text \<open>The shape of a key: each kind of packet in its place, and the revocation flag in step.\<close>

definition sig_list_ok :: "openpgp_packet list \<Rightarrow> bool" where
  "sig_list_ok l \<longleftrightarrow> (\<forall>s \<in> set l. tag s = OPENPGP_PACKET_SIGNATURE)"

definition key_ok :: "openpgp_publickey \<Rightarrow> bool" where
  "key_ok k \<longleftrightarrow>
     tag (publickey k) = OPENPGP_PACKET_PUBLICKEY \<and> sig_list_ok (sigs k) \<and>
     (\<forall>s \<in> set (sigs k). is_key_rev s \<noteq> None) \<and>
     revoked k = (\<exists>s \<in> set (sigs k). is_key_rev s = Some True) \<and>
     (\<forall>sp \<in> set (uids k). tag (sp_packet sp) \<in> {OPENPGP_PACKET_UID, OPENPGP_PACKET_UAT} \<and>
        sig_list_ok (sp_sigs sp)) \<and>
     (\<forall>sp \<in> set (subkeys k). tag (sp_packet sp) = OPENPGP_PACKET_PUBLICSUBKEY \<and>
        sig_list_ok (sp_sigs sp))"

lemma add_sig_last_snoc [simp]:
  "add_sig_last p (l @ [sp]) = l @ [sp\<lparr>sp_sigs := sp_sigs sp @ [p]\<rparr>]"
  by (simp add: add_sig_last_def)

lemma signed_packets_add_sig_last [simp]:
  "l \<noteq> [] \<Longrightarrow> signed_packets (add_sig_last p l) = signed_packets l @ [p]"
  by (cases l rule: rev_cases) auto

lemma add_sig_last_not_Nil [simp]: "add_sig_last p l \<noteq> []"
  by (simp add: add_sig_last_def)

lemma add_sig_last_ok:
  assumes "l \<noteq> []" and "\<forall>sp \<in> set l. P (sp_packet sp) \<and> sig_list_ok (sp_sigs sp)"
    and "tag p = OPENPGP_PACKET_SIGNATURE"
  shows "\<forall>sp \<in> set (add_sig_last p l). P (sp_packet sp) \<and> sig_list_ok (sp_sigs sp)"
  using assms by (cases l rule: rev_cases) (auto simp: sig_list_ok_def)

lemma add_signature_packets:
  "add_signature k p = Some k' \<Longrightarrow> key_packets k' = key_packets k @ [p]"
  by (auto simp: add_signature_def key_packets_def split: if_splits bind_splits)

lemma add_signature_ok:
  assumes "add_signature k p = Some k'" and "key_ok k" and "tag p = OPENPGP_PACKET_SIGNATURE"
  shows "key_ok k'"
proof -
  consider (sub) "subkeys k \<noteq> []" | (uid) "subkeys k = []" "uids k \<noteq> []"
    | (key) "subkeys k = []" "uids k = []" by blast
  then show ?thesis
  proof cases
    case sub
    with assms add_sig_last_ok [of "subkeys k" "\<lambda>q. tag q = OPENPGP_PACKET_PUBLICSUBKEY" p]
    show ?thesis by (auto simp: add_signature_def key_ok_def)
  next
    case uid
    with assms add_sig_last_ok [of "uids k" "\<lambda>q. tag q \<in> {OPENPGP_PACKET_UID, OPENPGP_PACKET_UAT}" p]
    show ?thesis by (auto simp: add_signature_def key_ok_def)
  next
    case key
    with assms show ?thesis
      by (auto simp: add_signature_def key_ok_def sig_list_ok_def split: bind_splits)
  qed
qed

section \<open>What parse\_keys returns\<close>

lemma concat_replace_last:
  "keys \<noteq> [] \<Longrightarrow> key_packets k' = key_packets (last keys) @ [p] \<Longrightarrow>
   concat (map key_packets (butlast keys @ [k'])) = concat (map key_packets keys) @ [p]"
  by (cases keys rule: rev_cases) auto

lemma parse_packet_step:
  assumes "parse_packet p keys = Some (Inr keys')"
  shows "concat (map key_packets keys') = concat (map key_packets keys) @ filter key_packet [p]"
    and "int (length keys') = int (length keys) + (if tag p = OPENPGP_PACKET_PUBLICKEY then 1 else 0)"
proof -
  let ?last = "\<lambda>k'. keys \<noteq> [] \<and> keys' = butlast keys @ [k'] \<and>
    key_packets k' = key_packets (last keys) @ [p] \<and> key_packet p \<and> tag p \<noteq> OPENPGP_PACKET_PUBLICKEY"
  consider (ext) k' where "?last k'"
    | (new) "tag p = OPENPGP_PACKET_PUBLICKEY" "keys' = keys @ [empty_key p]"
    | (ign) "\<not> key_packet p" "keys' = keys"
    using assms unfolding parse_packet_def key_packet_def
    by (auto split: if_splits bind_splits simp: add_signature_packets)
      (auto simp: key_packets_def)
  note cs = this
  from cs show "concat (map key_packets keys') = concat (map key_packets keys) @ filter key_packet [p]"
  proof cases
    case (ext k')
    with concat_replace_last [of keys k' p] show ?thesis by simp
  next
    case new
    then show ?thesis by (simp add: empty_key_def key_packet_def key_packets_def)
  next
    case ign
    then show ?thesis by simp
  qed
  from cs show "int (length keys') = int (length keys) +
      (if tag p = OPENPGP_PACKET_PUBLICKEY then 1 else 0)"
    by cases (auto simp: key_packet_def)
qed

lemma parse_packet_error: "parse_packet p keys = Some (Inl rc) \<Longrightarrow> rc = ONAK_E_INVALID_PARAM"
  by (auto simp: parse_packet_def split: if_splits bind_splits)

lemma key_ok_snoc_uid:
  "key_ok k \<Longrightarrow> tag p = OPENPGP_PACKET_UID \<or> tag p = OPENPGP_PACKET_UAT \<Longrightarrow>
   key_ok (k\<lparr>uids := uids k @ [\<lparr>sp_packet = p, sp_sigs = []\<rparr>]\<rparr>)"
  by (auto simp: key_ok_def sig_list_ok_def)

lemma key_ok_snoc_subkey:
  "key_ok k \<Longrightarrow> tag p = OPENPGP_PACKET_PUBLICSUBKEY \<Longrightarrow>
   key_ok (k\<lparr>subkeys := subkeys k @ [\<lparr>sp_packet = p, sp_sigs = []\<rparr>]\<rparr>)"
  by (auto simp: key_ok_def sig_list_ok_def)

lemma key_ok_empty_key: "tag p = OPENPGP_PACKET_PUBLICKEY \<Longrightarrow> key_ok (empty_key p)"
  by (simp add: key_ok_def empty_key_def sig_list_ok_def)

lemma parse_packet_ok:
  assumes "parse_packet p keys = Some (Inr keys')" and "\<forall>k \<in> set keys. key_ok k"
  shows "\<forall>k \<in> set keys'. key_ok k"
  using assms unfolding parse_packet_def
  by (cases keys rule: rev_cases)
    (auto split: if_splits bind_splits
      intro: add_signature_ok key_ok_snoc_uid key_ok_snoc_subkey key_ok_empty_key)

lemma parse_keys_loop_packets:
  "parse_keys_loop ps keys n = Some (r, keys') \<Longrightarrow>
   (\<exists>us. concat (map key_packets keys') @ us = concat (map key_packets keys) @ filter key_packet ps \<and>
         (us = [] \<and> r = n + int (length keys') - int (length keys) \<or> r = 3))"
proof (induction ps arbitrary: keys n)
  case Nil
  then show ?case by simp
next
  case (Cons p ps)
  from Cons.prems obtain x where x: "parse_packet p keys = Some x" by (auto split: bind_splits)
  show ?case
  proof (cases x)
    case (Inl rc)
    with Cons.prems x parse_packet_error [of p keys rc] show ?thesis by auto
  next
    case (Inr keys2)
    let ?n = "if tag p = OPENPGP_PACKET_PUBLICKEY then n + 1 else n"
    have "parse_keys_loop ps keys2 ?n = Some (r, keys')"
      using Cons.prems x Inr by simp
    from Cons.IH [OF this] parse_packet_step [of p keys keys2] x Inr show ?thesis
      by (auto split: if_splits)
  qed
qed

lemma parse_keys_loop_ok:
  "parse_keys_loop ps keys n = Some (r, keys') \<Longrightarrow> \<forall>k \<in> set keys. key_ok k \<Longrightarrow>
   \<forall>k \<in> set keys'. key_ok k"
proof (induction ps arbitrary: keys n)
  case Nil
  then show ?case by simp
next
  case (Cons p ps)
  then show ?case
    using parse_packet_ok by (fastforce split: bind_splits sum.splits)
qed

section \<open>Parsing a flattened key\<close>

lemma parse_sigs_on_key:
  "uids k = [] \<Longrightarrow> subkeys k = [] \<Longrightarrow> sig_list_ok ss \<Longrightarrow> \<forall>s \<in> set ss. is_key_rev s \<noteq> None \<Longrightarrow>
   parse_keys_loop (ss @ rest) (ks @ [k]) n =
   parse_keys_loop rest (ks @ [k\<lparr>sigs := sigs k @ ss,
     revoked := revoked k \<or> (\<exists>s \<in> set ss. is_key_rev s = Some True)\<rparr>]) n"
proof (induction ss arbitrary: k)
  case Nil
  then show ?case by simp
next
  case (Cons s ss)
  then obtain b where b: "is_key_rev s = Some b" by auto
  let ?k = "k\<lparr>sigs := sigs k @ [s], revoked := revoked k \<or> b\<rparr>"
  have "parse_keys_loop ((s # ss) @ rest) (ks @ [k]) n = parse_keys_loop (ss @ rest) (ks @ [?k]) n"
    using Cons.prems b by (simp add: parse_packet_def add_signature_def sig_list_ok_def)
  also have "\<dots> = parse_keys_loop rest (ks @ [?k\<lparr>sigs := sigs ?k @ ss,
      revoked := revoked ?k \<or> (\<exists>s \<in> set ss. is_key_rev s = Some True)\<rparr>]) n"
    using Cons.prems by (intro Cons.IH) (auto simp: sig_list_ok_def)
  finally show ?case using b by (simp add: disj_assoc)
qed

lemma parse_sigs_on_uid:
  "subkeys k = [] \<Longrightarrow> sig_list_ok ss \<Longrightarrow>
   parse_keys_loop (ss @ rest) (ks @ [k\<lparr>uids := us @ [sp]\<rparr>]) n =
   parse_keys_loop rest (ks @ [k\<lparr>uids := us @ [sp\<lparr>sp_sigs := sp_sigs sp @ ss\<rparr>]\<rparr>]) n"
proof (induction ss arbitrary: sp)
  case Nil
  then show ?case by simp
next
  case (Cons s ss)
  then show ?case
    using Cons.IH [of "sp\<lparr>sp_sigs := sp_sigs sp @ [s]\<rparr>"]
    by (simp add: parse_packet_def add_signature_def sig_list_ok_def)
qed

lemma parse_sigs_on_subkey:
  "sig_list_ok ss \<Longrightarrow>
   parse_keys_loop (ss @ rest) (ks @ [k\<lparr>subkeys := us @ [sp]\<rparr>]) n =
   parse_keys_loop rest (ks @ [k\<lparr>subkeys := us @ [sp\<lparr>sp_sigs := sp_sigs sp @ ss\<rparr>]\<rparr>]) n"
proof (induction ss arbitrary: sp)
  case Nil
  then show ?case by simp
next
  case (Cons s ss)
  then show ?case
    using Cons.IH [of "sp\<lparr>sp_sigs := sp_sigs sp @ [s]\<rparr>"]
    by (simp add: parse_packet_def add_signature_def sig_list_ok_def)
qed

lemma parse_uids:
  "subkeys k = [] \<Longrightarrow>
   \<forall>sp \<in> set us. tag (sp_packet sp) \<in> {OPENPGP_PACKET_UID, OPENPGP_PACKET_UAT} \<and>
     sig_list_ok (sp_sigs sp) \<Longrightarrow>
   parse_keys_loop (signed_packets us @ rest) (ks @ [k]) n =
   parse_keys_loop rest (ks @ [k\<lparr>uids := uids k @ us\<rparr>]) n"
proof (induction us arbitrary: k)
  case Nil
  then show ?case by simp
next
  case (Cons sp us)
  let ?sp0 = "\<lparr>sp_packet = sp_packet sp, sp_sigs = []\<rparr>"
  have "parse_keys_loop (signed_packets (sp # us) @ rest) (ks @ [k]) n =
      parse_keys_loop (sp_sigs sp @ signed_packets us @ rest) (ks @ [k\<lparr>uids := uids k @ [?sp0]\<rparr>]) n"
    using Cons.prems by (auto simp: parse_packet_def)
  also have "\<dots> = parse_keys_loop (signed_packets us @ rest) (ks @ [k\<lparr>uids := uids k @ [sp]\<rparr>]) n"
    using parse_sigs_on_uid [of k "sp_sigs sp" "signed_packets us @ rest" ks "uids k" ?sp0 n] Cons.prems
    by simp
  also have "\<dots> = parse_keys_loop rest (ks @ [k\<lparr>uids := uids k @ [sp]\<rparr>\<lparr>uids := (uids k @ [sp]) @ us\<rparr>]) n"
    using Cons.IH [of "k\<lparr>uids := uids k @ [sp]\<rparr>"] Cons.prems by simp
  finally show ?case by simp
qed

lemma parse_subkeys:
  "\<forall>sp \<in> set us. tag (sp_packet sp) = OPENPGP_PACKET_PUBLICSUBKEY \<and> sig_list_ok (sp_sigs sp) \<Longrightarrow>
   parse_keys_loop (signed_packets us @ rest) (ks @ [k]) n =
   parse_keys_loop rest (ks @ [k\<lparr>subkeys := subkeys k @ us\<rparr>]) n"
proof (induction us arbitrary: k)
  case Nil
  then show ?case by simp
next
  case (Cons sp us)
  let ?sp0 = "\<lparr>sp_packet = sp_packet sp, sp_sigs = []\<rparr>"
  have "parse_keys_loop (signed_packets (sp # us) @ rest) (ks @ [k]) n =
      parse_keys_loop (sp_sigs sp @ signed_packets us @ rest)
        (ks @ [k\<lparr>subkeys := subkeys k @ [?sp0]\<rparr>]) n"
    using Cons.prems by (auto simp: parse_packet_def)
  also have "\<dots> = parse_keys_loop (signed_packets us @ rest) (ks @ [k\<lparr>subkeys := subkeys k @ [sp]\<rparr>]) n"
    using parse_sigs_on_subkey [where ss = "sp_sigs sp" and rest = "signed_packets us @ rest" and ks = ks
        and k = k and us = "subkeys k" and sp = ?sp0 and n = n]
      Cons.prems by simp
  also have "\<dots> = parse_keys_loop rest
      (ks @ [k\<lparr>subkeys := subkeys k @ [sp]\<rparr>\<lparr>subkeys := (subkeys k @ [sp]) @ us\<rparr>]) n"
    using Cons.IH [of "k\<lparr>subkeys := subkeys k @ [sp]\<rparr>"] Cons.prems by simp
  finally show ?case by simp
qed

lemma parse_one_key:
  assumes "key_ok k"
  shows "parse_keys_loop (key_packets k @ rest) ks n = parse_keys_loop rest (ks @ [k]) (n + 1)"
proof -
  let ?k1 = "(empty_key (publickey k))\<lparr>sigs := sigs k, revoked := revoked k\<rparr>"
  have "parse_keys_loop (key_packets k @ rest) ks n =
      parse_keys_loop (sigs k @ signed_packets (uids k) @ signed_packets (subkeys k) @ rest)
        (ks @ [empty_key (publickey k)]) (n + 1)"
    using assms by (simp add: key_packets_def parse_packet_def key_ok_def)
  also have "\<dots> = parse_keys_loop (signed_packets (uids k) @ signed_packets (subkeys k) @ rest)
        (ks @ [?k1]) (n + 1)"
    using assms by (subst parse_sigs_on_key) (auto simp: empty_key_def key_ok_def)
  also have "\<dots> = parse_keys_loop (signed_packets (subkeys k) @ rest)
        (ks @ [?k1\<lparr>uids := uids k\<rparr>]) (n + 1)"
    using assms by (subst parse_uids) (auto simp: empty_key_def key_ok_def)
  also have "\<dots> = parse_keys_loop rest (ks @ [?k1\<lparr>uids := uids k, subkeys := subkeys k\<rparr>]) (n + 1)"
    using assms by (subst parse_subkeys) (auto simp: empty_key_def key_ok_def)
  also have "?k1\<lparr>uids := uids k, subkeys := subkeys k\<rparr> = k"
    by (simp add: empty_key_def)
  finally show ?thesis .
qed

lemma parse_all_keys:
  "\<forall>k \<in> set ks. key_ok k \<Longrightarrow>
   parse_keys_loop (concat (map key_packets ks)) acc n = Some (n + int (length ks), acc @ ks)"
  by (induction ks arbitrary: acc n) (simp_all add: parse_one_key)

lemma is_key_rev_defined:
  assumes "3 \<le> plength p"
  shows "is_key_rev p \<noteq> None"
  using rd_less [OF assms [unfolded plength_def]] by (auto simp: is_key_rev_def)

lemma parse_packet_defined:
  "(tag p = OPENPGP_PACKET_SIGNATURE \<Longrightarrow> 3 \<le> plength p) \<Longrightarrow> \<exists>r. parse_packet p keys = Some r"
  using is_key_rev_defined [of p]
  by (cases "tag p = OPENPGP_PACKET_SIGNATURE") (auto simp: parse_packet_def add_signature_def)

lemma parse_keys_loop_defined:
  "\<forall>p \<in> set ps. tag p = OPENPGP_PACKET_SIGNATURE \<longrightarrow> 3 \<le> plength p \<Longrightarrow>
   \<exists>r. parse_keys_loop ps keys n = Some r"
proof (induction ps arbitrary: keys n)
  case Nil
  then show ?case by simp
next
  case (Cons p ps)
  obtain x where "parse_packet p keys = Some x"
    using parse_packet_defined [of p keys] Cons.prems by auto
  with Cons show ?case by (cases x) auto
qed

section \<open>Properties\<close>

lemma parse_flatten:
  assumes "\<forall>k \<in> set ks. key_ok k"
  shows "parse_keys (flatten_publickey ks []) [] = Some (int (length ks), ks)"
  using parse_all_keys [OF assms, of "[]" 0] by (simp add: parse_keys_def flatten_publickey_eq)

text \<open>
  C3. Parsing inverts flattening. For every list of keys of the shape \<open>key_ok\<close>,
  \<open>parse_keys\<close> applied to the packets \<open>flatten_publickey\<close> makes of them returns the number
  of keys and exactly the same keys: user ids, subkeys, all signatures under their own
  packet, in order, and the revocation flags.
\<close>

theorem parse_flatten_roundtrip:
  assumes "\<forall>k \<in> set ks. key_ok k"
  shows "parse_keys (flatten_publickey ks []) [] = Some (int (length ks), ks)"
  using assms by (rule parse_flatten)

definition sample_key :: openpgp_publickey where
  "sample_key = \<lparr>publickey = \<lparr>tag = 6, newformat = False, data = [4, 0, 0, 0, 1, 17]\<rparr>,
     revoked = True,
     sigs = [\<lparr>tag = 2, newformat = False, data = [4, 0x20, 17, 2]\<rparr>],
     uids = [\<lparr>sp_packet = \<lparr>tag = 13, newformat = False, data = [0x61]\<rparr>,
              sp_sigs = [\<lparr>tag = 2, newformat = False, data = [4, 0x13, 17, 2]\<rparr>]\<rparr>],
     subkeys = [\<lparr>sp_packet = \<lparr>tag = 14, newformat = False, data = [4]\<rparr>, sp_sigs = []\<rparr>]\<rparr>"

lemma sample_key_ok: "key_ok sample_key"
  by (simp add: sample_key_def key_ok_def sig_list_ok_def is_key_rev_def)

lemma sample_key_packets:
  "\<forall>p \<in> set (flatten_publickey [sample_key] []). packet_wf p"
  "length (stream_encoding (flatten_publickey [sample_key] [])) < 2 ^ 30"
proof -
  have packets: "flatten_publickey [sample_key] [] =
      [publickey sample_key, hd (sigs sample_key), sp_packet (hd (uids sample_key)), hd (sp_sigs (hd (uids sample_key))),
       sp_packet (hd (subkeys sample_key))]"
    by (simp add: sample_key_def flatten_publickey_eq key_packets_def signed_packets_simps)
  show "\<forall>p \<in> set (flatten_publickey [sample_key] []). packet_wf p"
    unfolding packets by (simp add: sample_key_def packet_wf_def packet_writable_def packet_version_ok_def plength_def)
  show "length (stream_encoding (flatten_publickey [sample_key] [])) < 2 ^ 30"
    unfolding packets by (simp add: sample_key_def packet_encoding_def plength_def length_octets_def)
qed

theorem parse_flatten_roundtrip_witness:
  "parse_keys (flatten_publickey [sample_key] []) [] = Some (1, [sample_key])"
  using parse_flatten_roundtrip [of "[sample_key]"] sample_key_ok by simp

text \<open>
  C4. What \<open>parse_keys\<close> keeps. Whatever packets it is given, if it returns, every key it
  returns has the shape \<open>key_ok\<close> (in particular its \<open>revoked\<close> flag is set exactly when one
  of its direct signatures is a version 3 or 4 key revocation), and the packets of the
  returned keys, in order, are an initial part of the key packets of the input: nothing is
  invented, moved or duplicated. Either all of them are kept and the return value counts the
  keys, or the return value is 3, the number of \<open>ONAK_E_INVALID_PARAM\<close>.
\<close>

theorem parse_keys_keeps_packets:
  assumes "parse_keys ps [] = Some (r, ks)"
  shows "(\<forall>k \<in> set ks. key_ok k) \<and>
    (\<exists>rest. flatten_publickey ks [] @ rest = filter key_packet ps \<and>
            (rest = [] \<and> r = int (length ks) \<or> r = 3))"
  using parse_keys_loop_ok [of ps "[]" 0 r ks] parse_keys_loop_packets [of ps "[]" 0 r ks] assms
  by (auto simp: parse_keys_def flatten_publickey_eq)

theorem parse_keys_keeps_packets_witness:
  "key_ok sample_key \<and>
    (\<exists>rest. flatten_publickey [sample_key] [] @ rest =
            filter key_packet (flatten_publickey [sample_key] [] @
              [\<lparr>tag = 12, newformat = False, data = [1]\<rparr>]) \<and>
            (rest = [] \<and> (1::int) = int (length [sample_key]) \<or> (1::int) = 3))"
proof -
  have "parse_keys (flatten_publickey [sample_key] [] @
      [\<lparr>tag = 12, newformat = False, data = [1]\<rparr>]) [] = Some (1, [sample_key])"
    by (simp add: parse_keys_def sample_key_def parse_packet_def add_signature_def empty_key_def
        is_key_rev_def add_sig_last_def)
  from parse_keys_keeps_packets [OF this] show ?thesis by auto
qed

text \<open>
  Memory safety of \<open>parse_keys\<close>. If every signature packet has at least three octets,
  \<open>parse_keys\<close> returns and reads only inside the packets' data, whatever the packets are and
  whatever keys the list already holds.
\<close>

theorem parse_keys_defined:
  assumes "\<forall>p \<in> set ps. tag p = OPENPGP_PACKET_SIGNATURE \<longrightarrow> 3 \<le> plength p"
  shows "\<exists>r ks. parse_keys ps keys = Some (r, ks)"
  using parse_keys_loop_defined [OF assms, of keys 0] by (simp add: parse_keys_def)

theorem parse_keys_defined_witness:
  "\<exists>r ks. parse_keys (flatten_publickey [sample_key] []) [sample_key] = Some (r, ks)"
  by (rule parse_keys_defined) (simp add: sample_key_def plength_def)

text \<open>
  A short signature makes \<open>parse_keys\<close> read out of bounds. The six octets
  \<open>98 01 04 88 01 04\<close> are accepted by \<open>read_openpgp_stream\<close> as a public key packet and a
  signature packet of one octet each, and \<open>parse_keys\<close> then reads the second octet of that
  signature, which does not exist.
\<close>

lemma parse_keys_short_signature_undefined:
  "\<exists>ps s'. read_openpgp_stream (\<lambda>_. True) buffer_fetchchar
       (init_buffer [0x98, 0x01, 0x04, 0x88, 0x01, 0x04]) [] 0 = Some (ONAK_E_OK, ps, s') \<and>
     parse_keys ps [] = None"
proof -
  let ?p = "\<lparr>tag = 6, newformat = False, data = [4]\<rparr>"
  let ?s = "\<lparr>tag = 2, newformat = False, data = [4]\<rparr>"
  have e: "stream_encoding [?p, ?s] = [0x98, 0x01, 0x04, 0x88, 0x01, 0x04]"
    by (simp add: packet_encoding_def header_octet_def length_octets_def plength_def)
  have "\<forall>p \<in> set [?p, ?s]. packet_wf p \<and> True"
    by (simp add: packet_wf_def packet_writable_def packet_version_ok_def plength_def)
  then obtain s' where "read_openpgp_stream (\<lambda>_. True) buffer_fetchchar
       (init_buffer [0x98, 0x01, 0x04, 0x88, 0x01, 0x04]) [] 0 = Some (ONAK_E_OK, [?p, ?s], s')"
    using buf_source.read_stream_full [OF init_buffer_delivers, of "[?p, ?s]" "\<lambda>_. True" "[]"]
    unfolding e by auto
  moreover have "parse_keys [?p, ?s] [] = None"
    by (simp add: parse_keys_def parse_packet_def add_signature_def empty_key_def is_key_rev_def)
  ultimately show ?thesis by blast
qed

text \<open>
  The error return of \<open>parse_keys\<close> looks like a count. On a packet list that starts with
  a signature, user id, user attribute or subkey, \<open>parse_keys\<close> returns 3 and no key at all,
  although its result is documented as the number of keys parsed.
\<close>

lemma parse_keys_error_is_a_count:
  assumes "tag p \<in> {OPENPGP_PACKET_SIGNATURE, OPENPGP_PACKET_UID, OPENPGP_PACKET_UAT,
     OPENPGP_PACKET_PUBLICSUBKEY}"
  shows "parse_keys (p # ps) [] = Some (3, [])"
  using assms by (auto simp: parse_keys_def parse_packet_def)

lemma parse_keys_error_is_a_count_witness:
  "parse_keys [sample_packet] [] = Some (3, [])"
  by (rule parse_keys_error_is_a_count) (simp add: sample_packet_def)

end
