(* ===== verification/Compare.thy ===== *)
theory Compare
  imports Packets
begin

text \<open>
  The three-way comparisons of the program, \<open>compare_packets\<close> (\<open>merge.c\<close>) and
  \<open>fingerprint_cmp\<close> (\<open>keyarray.c\<close>), the contract their clients rely on, and what follows from
  the contract for the two clients: the insertion sort of \<open>keyid.c\<close> and the binary search of
  \<open>keyarray.c\<close>.
\<close>

section \<open>The comparisons\<close>

text \<open>\<open>len\<close> is an \<open>int\<close>; the length of a packet read from a stream fits in 32 bits.\<close>

definition compare_packets :: "openpgp_packet \<Rightarrow> openpgp_packet \<Rightarrow> int" where
  "compare_packets a b =
     (if tag a > tag b then 1
      else if tag b > tag a then -1
      else let len = (if plength a < plength b then plength a else plength b);
               ret = memcmp len (data a) (data b)
           in if ret = 0 \<and> plength a \<noteq> plength b
              then (if plength a < plength b then -1 else 1) else ret)"

definition fingerprint_cmp :: "openpgp_fingerprint \<Rightarrow> openpgp_fingerprint \<Rightarrow> int" where
  "fingerprint_cmp a b =
     (if fp_length a < fp_length b then -1
      else if fp_length a > fp_length b then 1
      else memcmp (fp_length a) (fp a) (fp b))"

section \<open>The contract\<close>

text \<open>
  A three-way comparison of the elements that satisfy \<open>ok\<close>. Elements that compare equal need
  not be equal; they agree in \<open>key\<close>, which is all their order depends on.
\<close>

locale comparator =
  fixes cmp :: "'a \<Rightarrow> 'a \<Rightarrow> int"
    and key :: "'a \<Rightarrow> 'k"
    and ok :: "'a \<Rightarrow> bool"
  assumes cmp_zero: "ok a \<Longrightarrow> ok b \<Longrightarrow> cmp a b = 0 \<longleftrightarrow> key a = key b"
    and cmp_sym: "ok a \<Longrightarrow> ok b \<Longrightarrow> cmp b a = - cmp a b"
    and cmp_trans: "ok a \<Longrightarrow> ok b \<Longrightarrow> ok c \<Longrightarrow> cmp a b \<le> 0 \<Longrightarrow> cmp b c \<le> 0 \<Longrightarrow> cmp a c \<le> 0"

text \<open>Insertion in front of the first element that is not less.\<close>

fun insert_by :: "('a \<Rightarrow> 'a \<Rightarrow> int) \<Rightarrow> 'a \<Rightarrow> 'a list \<Rightarrow> 'a list" where
  "insert_by cmp x [] = [x]"
| "insert_by cmp x (y # ys) = (if cmp y x < 0 then y # insert_by cmp x ys else x # y # ys)"

lemma mset_insert_by [simp]: "mset (insert_by cmp x ys) = add_mset x (mset ys)"
  by (induction ys) auto

lemma set_insert_by [simp]: "set (insert_by cmp x ys) = insert x (set ys)"
  using mset_insert_by [of cmp x ys] by (metis set_mset_add_mset_insert set_mset_mset)

context comparator
begin

lemma cmp_refl: "ok a \<Longrightarrow> cmp a a = 0"
  by (simp add: cmp_zero)

lemma cmp_cong: "ok a \<Longrightarrow> ok a' \<Longrightarrow> ok b \<Longrightarrow> key a = key a' \<Longrightarrow> cmp a b \<le> 0 \<Longrightarrow> cmp a' b \<le> 0"
  using cmp_trans [of a' a b] cmp_zero [of a' a] by simp

abbreviation cmp_sorted :: "'a list \<Rightarrow> bool" where
  "cmp_sorted \<equiv> sorted_wrt (\<lambda>a b. cmp a b \<le> 0)"

lemma insert_by_sorted:
  "list_all ok (x # xs) \<Longrightarrow> cmp_sorted xs \<Longrightarrow> cmp_sorted (insert_by cmp x xs)"
proof (induction xs)
  case (Cons y ys)
  then have ok: "ok x" "ok y" "\<forall>z \<in> set ys. ok z" by (auto simp: list_all_iff)
  show ?case
  proof (cases "cmp y x < 0")
    case True
    then show ?thesis using Cons by auto
  next
    case False
    then have "cmp x y \<le> 0" using cmp_sym [of x y] ok by simp
    then show ?thesis using False Cons.prems ok cmp_trans [of x y] by auto
  qed
qed simp

lemma fold_insert_by:
  "list_all ok (xs @ acc) \<Longrightarrow> cmp_sorted acc \<Longrightarrow>
   cmp_sorted (fold (insert_by cmp) xs acc) \<and> mset (fold (insert_by cmp) xs acc) = mset xs + mset acc"
  by (induction xs arbitrary: acc) (auto simp: insert_by_sorted list_all_iff)

lemma sorted_head_le:
  assumes "cmp_sorted (y # ys)" and "key x \<in> set (map key (y # ys))" and "ok x" "\<forall>z \<in> set (y # ys). ok z"
  shows "cmp y x \<le> 0"
proof -
  obtain x' where x': "x' \<in> set (y # ys)" "key x = key x'"
    using assms(2) unfolding set_map by blast
  then have "cmp y x' \<le> 0" using assms(1,4) cmp_refl [of y] by auto
  moreover have "cmp x' x \<le> 0" using x' assms(3,4) cmp_zero [of x' x] by auto
  ultimately show ?thesis using cmp_trans [of y x' x] x'(1) assms(3,4) by auto
qed

text \<open>The keys of a sorted list are determined by their multiset.\<close>

lemma sorted_keys_unique:
  "cmp_sorted xs \<Longrightarrow> cmp_sorted ys \<Longrightarrow> list_all ok (xs @ ys) \<Longrightarrow>
   mset (map key xs) = mset (map key ys) \<Longrightarrow> map key xs = map key ys"
proof (induction xs arbitrary: ys)
  case Nil
  then show ?case by simp
next
  case (Cons x xs)
  then obtain y ys' where ys: "ys = y # ys'" by (cases ys) auto
  have ok: "ok x" "ok y" "\<forall>z \<in> set xs. ok z" "\<forall>z \<in> set ys'. ok z"
    using Cons.prems(3) by (auto simp: ys list_all_iff)
  have "key x \<in> set (map key ys)" "key y \<in> set (map key (x # xs))"
    using mset_eq_setD [OF Cons.prems(4)] by (auto simp: ys)
  then have "cmp y x \<le> 0" "cmp x y \<le> 0"
    using sorted_head_le [of y ys' x] sorted_head_le [of x xs y] Cons.prems(1,2) ok by (auto simp: ys)
  then have "key x = key y" using cmp_sym [of x y] cmp_zero [of x y] ok by simp
  then show ?case using Cons.IH [of ys'] Cons.prems by (simp add: ys)
qed

end

section \<open>Both comparisons meet the contract\<close>

lemma memcmp_sign: "memcmp n xs ys \<in> {-1, 0, 1}"
  by (induction n xs ys rule: memcmp.induct) auto

text \<open>Comparison up to the shorter length, then by length, is the lexicographic order.\<close>

fun lexcmp :: "bytes \<Rightarrow> bytes \<Rightarrow> int" where
  "lexcmp [] [] = 0"
| "lexcmp [] (y # ys) = -1"
| "lexcmp (x # xs) [] = 1"
| "lexcmp (x # xs) (y # ys) = (if x < y then -1 else if y < x then 1 else lexcmp xs ys)"

lemma lexcmp_memcmp:
  "lexcmp xs ys =
     (let ret = memcmp (min (length xs) (length ys)) xs ys
      in if ret = 0 \<and> length xs \<noteq> length ys then (if length xs < length ys then -1 else 1) else ret)"
  by (induction xs ys rule: lexcmp.induct) (auto simp: Let_def)

lemma lexcmp_zero: "lexcmp xs ys = 0 \<longleftrightarrow> xs = ys"
  by (induction xs ys rule: lexcmp.induct) auto

lemma lexcmp_sym: "lexcmp ys xs = - lexcmp xs ys"
  by (induction xs ys rule: lexcmp.induct) auto

lemma lexcmp_trans: "lexcmp xs ys \<le> 0 \<Longrightarrow> lexcmp ys zs \<le> 0 \<Longrightarrow> lexcmp xs zs \<le> 0"
proof (induction xs zs arbitrary: ys rule: lexcmp.induct)
  case (3 x xs)
  then show ?case by (cases ys) auto
next
  case (4 x xs z zs)
  then obtain y ys' where ys: "ys = y # ys'" by (cases ys) auto
  then show ?case using 4 by (auto split: if_splits)
qed auto

lemma compare_packets_lexcmp:
  "compare_packets a b =
     (if tag a > tag b then 1 else if tag b > tag a then -1 else lexcmp (data a) (data b))"
proof -
  have "(if plength a < plength b then plength a else plength b) = min (length (data a)) (length (data b))"
    by (simp add: plength_def)
  then show ?thesis by (simp only: compare_packets_def lexcmp_memcmp plength_def Let_def)
qed

interpretation packet_order: comparator compare_packets "\<lambda>p. (tag p, data p)" "\<lambda>_. True"
proof
  fix a b c :: openpgp_packet
  show "compare_packets a b = 0 \<longleftrightarrow> (tag a, data a) = (tag b, data b)"
    by (auto simp: compare_packets_lexcmp lexcmp_zero)
  show "compare_packets b a = - compare_packets a b"
    using lexcmp_sym [of "data b" "data a"] by (auto simp: compare_packets_lexcmp)
  show "compare_packets a b \<le> 0 \<Longrightarrow> compare_packets b c \<le> 0 \<Longrightarrow> compare_packets a c \<le> 0"
    using lexcmp_trans [of "data a" "data b" "data c"] by (auto simp: compare_packets_lexcmp split: if_splits)
qed

interpretation fingerprint_order: comparator fingerprint_cmp id fingerprint_ok
proof
  fix a b c :: openpgp_fingerprint
  assume ok: "fingerprint_ok a" "fingerprint_ok b"
  show "fingerprint_cmp a b = 0 \<longleftrightarrow> id a = id b"
    using ok memcmp_eq_0 [of "fp_length a" "fp a" "fp b"]
    by (auto simp: fingerprint_cmp_def fingerprint_ok_def intro: openpgp_fingerprint.equality)
  show "fingerprint_cmp b a = - fingerprint_cmp a b"
    by (auto simp: fingerprint_cmp_def memcmp_sym [of _ "fp a" "fp b"])
  assume "fingerprint_ok c"
  then show "fingerprint_cmp a b \<le> 0 \<Longrightarrow> fingerprint_cmp b c \<le> 0 \<Longrightarrow> fingerprint_cmp a c \<le> 0"
    using ok memcmp_trans [of "fp b" "fp a" "fp c"]
    by (auto simp: fingerprint_cmp_def fingerprint_ok_def split: if_splits)
qed

end
