(* ===== verification/Key_Id.thy ===== *)
theory Key_Id
  imports Key_Packets Compare
begin

text \<open>
  Key ids, fingerprints and the SKS hash (\<open>keyid.c\<close>).

  The hash functions are parameters: the program takes them from the nettle library, or from
  its own \<open>md5.c\<close> and \<open>sha1.c\<close> when built without nettle. A call sequence
  \<open>x_init; x_update; \<dots>; x_digest\<close> is the hash of the concatenated updates. The two flags are
  the preprocessor symbols \<open>HAVE_NETTLE\<close> and \<open>NETTLE_WITH_RIPEMD160\<close>.
\<close>

record hash_funs =
  md5 :: "bytes \<Rightarrow> bytes"
  sha1 :: "bytes \<Rightarrow> bytes"
  ripemd160 :: "bytes \<Rightarrow> bytes"
  sha224 :: "bytes \<Rightarrow> bytes"
  sha256 :: "bytes \<Rightarrow> bytes"
  sha384 :: "bytes \<Rightarrow> bytes"
  sha512 :: "bytes \<Rightarrow> bytes"
  have_nettle :: bool
  nettle_with_ripemd160 :: bool

text \<open>The digest sizes the functions are documented to have.\<close>

definition hash_funs_ok :: "hash_funs \<Rightarrow> bool" where
  "hash_funs_ok H \<longleftrightarrow> (\<forall>x. length (md5 H x) = 16 \<and> length (sha1 H x) = 20 \<and>
     length (ripemd160 H x) = 20 \<and> length (sha224 H x) = 28 \<and> length (sha256 H x) = 32 \<and>
     length (sha384 H x) = 48 \<and> length (sha512 H x) = 64)"

section \<open>Fingerprints and key ids\<close>

definition fingerprint2keyid :: "openpgp_fingerprint \<Rightarrow> u64 option" where
  "fingerprint2keyid f =
     (if fp_length f = 20 then map_option be_word (rds (fp f) 12 8)
      else if fp_length f = 32 then map_option be_word (rds (fp f) 0 8)
      else Some (-1))"

text \<open>\<open>((packet->data[i] << 8) + packet->data[i + 1] + 7) >> 3\<close>: the octets of an MPI.\<close>

definition mpi_octets :: "bytes \<Rightarrow> nat \<Rightarrow> nat option" where
  "mpi_octets d i = do { a \<leftarrow> rd d i; b \<leftarrow> rd d (i + 1); Some ((unat a * 256 + unat b + 7) div 8) }"

definition get_fingerprint ::
    "hash_funs \<Rightarrow> openpgp_packet \<Rightarrow> (onak_status \<times> openpgp_fingerprint) option" where
  "get_fingerprint H p =
     do { v \<leftarrow> rd (data p) 0;
          if v = 2 \<or> v = 3 then
            do { modlen \<leftarrow> mpi_octets (data p) 8;
                 m \<leftarrow> rds (data p) 10 modlen;
                 explen \<leftarrow> mpi_octets (data p) (10 + modlen);
                 e \<leftarrow> rds (data p) (12 + modlen) explen;
                 Some (ONAK_E_OK, \<lparr>fp_length = 16, fp = md5 H (m @ e)\<rparr>) }
          else if v = 4 then
            Some (ONAK_E_OK, \<lparr>fp_length = 20,
              fp = sha1 H ([0x99, word_of_nat (plength p div 2 ^ 8), word_of_nat (plength p mod 256)] @
                           data p)\<rparr>)
          else if v = 5 \<and> have_nettle H then
            Some (ONAK_E_OK, \<lparr>fp_length = 32,
              fp = sha256 H ([0x9A, word_of_nat (plength p div 2 ^ 24), word_of_nat (plength p div 2 ^ 16),
                              word_of_nat (plength p div 2 ^ 8), word_of_nat (plength p mod 256)] @
                             data p)\<rparr>)
          else Some (ONAK_E_UNKNOWN_VER, \<lparr>fp_length = 0, fp = []\<rparr>) }"

text \<open>The second component is \<open>*keyid\<close>, \<open>None\<close> where the function does not write it.\<close>

definition get_packetid :: "hash_funs \<Rightarrow> openpgp_packet \<Rightarrow> (onak_status \<times> u64 option) option" where
  "get_packetid H p =
     do { v \<leftarrow> rd (data p) 0;
          if v = 2 \<or> v = 3 then
            do { algo \<leftarrow> rd (data p) 7;
                 if nettle_with_ripemd160 H \<and> algo = 16 then
                   do { keyid \<leftarrow> fingerprint2keyid \<lparr>fp_length = 20,
                          fp = ripemd160 H ([0x99, word_of_nat (plength p div 2 ^ 8),
                                 word_of_nat (plength p mod 256)] @ data p)\<rparr>;
                        Some (ONAK_E_OK, Some keyid) }
                 else if algo < 1 \<or> algo > 3 then Some (ONAK_E_INVALID_PKT, None)
                 else
                   do { m \<leftarrow> mpi_octets (data p) 8;
                        bs \<leftarrow> rds (data p) (m + 2) 8;
                        Some (ONAK_E_OK, Some (be_word bs)) } }
          else if v = 4 \<or> v = 5 then
            do { (_, f) \<leftarrow> get_fingerprint H p;
                 keyid \<leftarrow> fingerprint2keyid f;
                 Some (ONAK_E_OK, Some keyid) }
          else Some (ONAK_E_UNKNOWN_VER, None) }"

definition get_keyid :: "hash_funs \<Rightarrow> openpgp_publickey \<Rightarrow> (onak_status \<times> u64 option) option" where
  "get_keyid H k = get_packetid H (publickey k)"

section \<open>The SKS hash\<close>

definition sortpackets :: "openpgp_packet list \<Rightarrow> openpgp_packet list" where
  "sortpackets packets = fold (insert_by compare_packets) packets []"

definition skshash_input :: "openpgp_packet \<Rightarrow> bytes" where
  "skshash_input p = be_bytes 4 (tag p) @ be_bytes 4 (plength p) @ data p"

definition get_skshash :: "hash_funs \<Rightarrow> openpgp_publickey \<Rightarrow> bytes" where
  "get_skshash H key =
     md5 H (concat (map skshash_input (sortpackets (flatten_publickey [key] []))))"

text \<open>A character string is the list of its codes, without the final NUL.\<close>

definition hexdigit :: "u8 \<Rightarrow> u8" where
  "hexdigit c =
     (if c \<ge> 48 \<and> c \<le> 57 then c - 48
      else if c \<ge> 97 \<and> c \<le> 102 then c - 97 + 10
      else if c \<ge> 65 \<and> c \<le> 70 then c - 65 + 10
      else 0)"

text \<open>The loop over \<open>i += 2\<close>; at an odd length \<open>search[i + 1]\<close> is the final NUL.\<close>

fun hex_octets :: "bytes \<Rightarrow> bytes" where
  "hex_octets [] = []"
| "hex_octets [c] = [push_bit 4 (hexdigit c) + hexdigit 0]"
| "hex_octets (c # d # r) = (push_bit 4 (hexdigit c) + hexdigit d) # hex_octets r"

text \<open>The hash is the caller's array of 16 octets, \<open>None\<close> where it is uninitialised.\<close>

definition parse_skshash :: "bytes \<Rightarrow> u8 option list \<Rightarrow> int \<times> u8 option list" where
  "parse_skshash search hash =
     (if length search > 32 then (0, hash)
      else (1, map Some (hex_octets search) @ drop (length (hex_octets search)) hash))"

section \<open>Lemmas\<close>

lemma be_word_append_8: "length bs = 8 \<Longrightarrow> unat (be_word bs) = be_nat bs"
proof -
  assume "length bs = 8"
  then have "be_nat bs < 256 ^ 8" using be_nat_bound [of bs] by simp
  then show ?thesis by (simp add: be_word_be_nat unat_of_nat)
qed

lemma sortpackets_sorted: "sorted_wrt (\<lambda>a b. compare_packets a b \<le> 0) (sortpackets ps)"
  and mset_sortpackets: "mset (sortpackets ps) = mset ps"
  using packet_order.fold_insert_by [of ps "[]"] by (simp_all add: sortpackets_def list_all_iff)

lemma sortpackets_keys:
  assumes "mset (map (\<lambda>p. (tag p, data p)) ps) = mset (map (\<lambda>p. (tag p, data p)) qs)"
  shows "map skshash_input (sortpackets ps) = map skshash_input (sortpackets qs)"
proof -
  have "map (\<lambda>p. (tag p, data p)) (sortpackets ps) = map (\<lambda>p. (tag p, data p)) (sortpackets qs)"
    using packet_order.sorted_keys_unique [OF sortpackets_sorted sortpackets_sorted, of ps qs] assms
    by (simp add: mset_sortpackets list_all_iff)
  then have "map ((\<lambda>(t, d). be_bytes 4 t @ be_bytes 4 (length d) @ d) \<circ> (\<lambda>p. (tag p, data p))) (sortpackets ps) =
      map ((\<lambda>(t, d). be_bytes 4 t @ be_bytes 4 (length d) @ d) \<circ> (\<lambda>p. (tag p, data p))) (sortpackets qs)"
    by (simp only: map_map [symmetric])
  then show ?thesis by (simp add: skshash_input_def plength_def comp_def [abs_def] skshash_input_def [abs_def])
qed

text \<open>The upper-case hexadecimal digits of an octet string.\<close>

definition hex_char :: "u8 \<Rightarrow> u8" where
  "hex_char x = (if x < 10 then x + 48 else x + 55)"

definition hex_string :: "bytes \<Rightarrow> bytes" where
  "hex_string bs = concat (map (\<lambda>b. [hex_char (drop_bit 4 b), hex_char (b AND 0xF)]) bs)"

lemma hexdigit_hex_char: "x < 16 \<Longrightarrow> hexdigit (hex_char x) = x"
proof -
  have "list_all (\<lambda>n. hexdigit (hex_char (word_of_nat n)) = word_of_nat n) [0..<16]" by code_simp
  then have all: "\<forall>n \<in> {0..<16}. hexdigit (hex_char (word_of_nat n)) = word_of_nat n"
    by (simp add: list_all_iff)
  assume "x < 16"
  then have "unat x \<in> {0..<16}" by (simp add: word_less_nat_alt)
  from bspec [OF all this] show ?thesis by simp
qed

lemma nibbles: "drop_bit 4 (b :: u8) < 16" "b AND 0xF < 16" "push_bit 4 (drop_bit 4 b) + (b AND 0xF) = b"
proof -
  have "unat b < 256" using unsigned_less [of b] by simp
  then have "unat (drop_bit 4 b) < 16" by (simp only: unat_drop_bit_eq) (simp add: drop_bit_eq_div)
  then show "drop_bit 4 b < 16" by (simp add: word_less_nat_alt)
  have m: "b AND 0xF = take_bit 4 b" by (simp add: take_bit_eq_mask mask_eq_exp_minus_1)
  have "unat (take_bit 4 b) < 2 ^ 4" by (simp only: unsigned_take_bit_eq take_bit_nat_less_exp)
  then show "b AND 0xF < 16" by (simp add: m word_less_nat_alt)
  show "push_bit 4 (drop_bit 4 b) + (b AND 0xF) = b" unfolding m by (rule bits_ident)
qed

lemma hex_octets_hex_string [simp]: "hex_octets (hex_string bs) = bs"
  by (induction bs) (simp_all add: hex_string_def hexdigit_hex_char nibbles)

lemma length_hex_string [simp]: "length (hex_string bs) = 2 * length bs"
  by (induction bs) (auto simp: hex_string_def)

section \<open>Properties\<close>

text \<open>
  C6. The SKS hash does not depend on the order of packets. Two keys whose packets (tag and
  data) are the same up to order have the same hash, whatever the hash function: the packets
  are sorted by a total order on tag and data before they are hashed.
\<close>

theorem skshash_order_independent:
  assumes "mset (map (\<lambda>p. (tag p, data p)) (flatten_publickey [k1] [])) =
           mset (map (\<lambda>p. (tag p, data p)) (flatten_publickey [k2] []))"
  shows "get_skshash H k1 = get_skshash H k2"
  using sortpackets_keys [OF assms] by (simp add: get_skshash_def)

definition sample_hashes :: hash_funs where
  "sample_hashes = \<lparr>md5 = \<lambda>x. take 16 (x @ replicate 16 0), sha1 = \<lambda>x. take 20 (x @ replicate 20 0),
     ripemd160 = \<lambda>x. take 20 (x @ replicate 20 0),
     sha224 = \<lambda>x. take 28 (x @ replicate 28 0), sha256 = \<lambda>x. take 32 (x @ replicate 32 0),
     sha384 = \<lambda>x. take 48 (x @ replicate 48 0), sha512 = \<lambda>x. take 64 (x @ replicate 64 0),
     have_nettle = True, nettle_with_ripemd160 = True\<rparr>"

lemma sample_hashes_ok: "hash_funs_ok sample_hashes"
  by (auto simp: hash_funs_ok_def sample_hashes_def)

theorem skshash_order_independent_witness:
  "get_skshash sample_hashes \<lparr>publickey = sample_packet, revoked = False, sigs = [],
       uids = [\<lparr>sp_packet = sample_packet\<lparr>data := [1]\<rparr>, sp_sigs = []\<rparr>,
               \<lparr>sp_packet = sample_packet\<lparr>data := [2]\<rparr>, sp_sigs = []\<rparr>], subkeys = []\<rparr> =
   get_skshash sample_hashes \<lparr>publickey = sample_packet, revoked = False, sigs = [],
       uids = [\<lparr>sp_packet = sample_packet\<lparr>data := [2]\<rparr>, sp_sigs = []\<rparr>,
               \<lparr>sp_packet = sample_packet\<lparr>data := [1]\<rparr>, sp_sigs = []\<rparr>], subkeys = []\<rparr>"
  by (rule skshash_order_independent) (simp add: flatten_publickey_eq key_packets_def)

text \<open>
  A printed SKS hash is read back. The 32 upper-case hexadecimal digits of any 16 octets
  are accepted by \<open>parse_skshash\<close>, which fills all of the array with these octets.
\<close>

lemma parse_skshash_hex_string:
  assumes "length bs = 16" and "length hash = 16"
  shows "parse_skshash (hex_string bs) hash = (1, map Some bs)"
  using assms by (simp add: parse_skshash_def)

lemma parse_skshash_hex_string_witness:
  "parse_skshash (hex_string (replicate 16 0xAB)) (replicate 16 None) = (1, map Some (replicate 16 0xAB))"
  by (rule parse_skshash_hex_string) simp_all

text \<open>
  A short search string is accepted with part of the hash uninitialised: fewer than 31
  digits make \<open>parse_skshash\<close> return success although at least the last octet of the caller's
  array has not been written.
\<close>

lemma parse_skshash_short:
  assumes "length search < 31" and "length hash = 16"
  shows "\<exists>hash'. parse_skshash search hash = (1, hash') \<and> hash' ! 15 = hash ! 15"
proof -
  have "length (hex_octets cs) = (length cs + 1) div 2" for cs
    by (induction cs rule: hex_octets.induct) auto
  then show ?thesis using assms by (auto simp: parse_skshash_def nth_append)
qed

lemma parse_skshash_short_witness:
  "\<exists>hash'. parse_skshash [0x41] (replicate 16 None) = (1, hash') \<and> hash' ! 15 = replicate 16 None ! 15"
  by (rule parse_skshash_short) simp_all

text \<open>
  The key id of a version 4 key. For every version 4 key packet \<open>get_packetid\<close> succeeds,
  reading only inside the packet, and the id is the number formed by the last 8 of the 20
  octets of the fingerprint that \<open>get_fingerprint\<close> computes.
\<close>

theorem v4_keyid_is_end_of_fingerprint:
  assumes "hash_funs_ok H" and "0 < plength p" and "data p ! 0 = 4"
  shows "\<exists>f keyid. get_fingerprint H p = Some (ONAK_E_OK, f) \<and> fingerprint_ok f \<and>
     get_packetid H p = Some (ONAK_E_OK, Some keyid) \<and> unat keyid = be_nat (drop 12 (fp f))"
proof -
  let ?f = "\<lparr>fp_length = 20, fp = sha1 H ([0x99, word_of_nat (plength p div 2 ^ 8),
    word_of_nat (plength p mod 256)] @ data p)\<rparr>"
  have v: "rd (data p) 0 = Some 4" using assms(2,3) by (simp add: plength_def)
  then have g: "get_fingerprint H p = Some (ONAK_E_OK, ?f)"
    by (simp add: get_fingerprint_def)
  have len: "length (fp ?f) = 20" using assms(1) by (simp add: hash_funs_ok_def)
  then have "fingerprint2keyid ?f = Some (be_word (drop 12 (fp ?f)))"
    by (simp add: fingerprint2keyid_def)
  then have "get_packetid H p = Some (ONAK_E_OK, Some (be_word (drop 12 (fp ?f))))"
    unfolding get_packetid_def v g by simp
  moreover have "unat (be_word (drop 12 (fp ?f))) = be_nat (drop 12 (fp ?f))"
    using len by (intro be_word_append_8) simp
  moreover have "fingerprint_ok ?f" using len by (simp add: fingerprint_ok_def)
  ultimately show ?thesis using g by blast
qed

theorem v4_keyid_is_end_of_fingerprint_witness:
  "\<exists>f keyid. get_fingerprint sample_hashes \<lparr>tag = 6, newformat = False, data = [4, 1]\<rparr> =
       Some (ONAK_E_OK, f) \<and> fingerprint_ok f \<and>
     get_packetid sample_hashes \<lparr>tag = 6, newformat = False, data = [4, 1]\<rparr> = Some (ONAK_E_OK, Some keyid) \<and>
     unat keyid = be_nat (drop 12 (fp f))"
  by (rule v4_keyid_is_end_of_fingerprint) (simp_all add: sample_hashes_ok plength_def)

end
