(* ===== verification/Decode_Key.thy ===== *)
theory Decode_Key
  imports Key_Id
begin

text \<open>
  What can be read out of signatures and keys (\<open>decodekey.c\<close>): the subpackets of a
  signature, its issuer and creation time, the user ids and subkeys of a key, the curve of an
  elliptic curve key, whether a signed packet is revoked.
\<close>

section \<open>Output parameters\<close>

text \<open>
  A pointer argument through which a function returns a value: the null pointer, or a
  variable that holds \<open>None\<close> until it is first written.
\<close>

datatype 'a out = Null | Var "'a option"

definition set_out :: "'a \<Rightarrow> 'a out \<Rightarrow> 'a out" where
  "set_out v r = (case r of Null \<Rightarrow> Null | Var _ \<Rightarrow> Var (Some v))"

lemma set_out_simps [simp]: "set_out v Null = Null" "set_out v (Var w) = Var (Some v)"
  by (simp_all add: set_out_def)

section \<open>Subpackets of a signature\<close>

abbreviation (input) OPENPGP_SIGSUB_CREATION :: u8 where "OPENPGP_SIGSUB_CREATION \<equiv> 2"
abbreviation (input) OPENPGP_SIGSUB_ISSUER :: u8 where "OPENPGP_SIGSUB_ISSUER \<equiv> 16"
abbreviation (input) OPENPGP_SIGSUB_ISSUER_FINGER :: u8 where "OPENPGP_SIGSUB_ISSUER_FINGER \<equiv> 33"

text \<open>The types the switch knows about but does nothing with.\<close>

definition ignored_subpackets :: "u8 list" where
  "ignored_subpackets = [3, 4, 5, 6, 7, 8, 9, 10, 11, 12, 17, 18, 19, 20, 21, 22, 23, 24, 25, 26, 27, 28, 29,
     30, 31, 32]"

text \<open>
  The length field of the subpacket at \<open>offset\<close>: \<open>Inr\<close> gives \<open>packetlen\<close> and the offset of
  the type octet.
\<close>

definition subpacket_length :: "bytes \<Rightarrow> nat \<Rightarrow> nat \<Rightarrow> (onak_status + nat \<times> nat) option" where
  "subpacket_length d len offset =
     do { b0 \<leftarrow> rd d offset;
          r \<leftarrow> (if b0 > 191 \<and> b0 < 255 then
                 do { b1 \<leftarrow> rd d (offset + 1);
                      Some (Inr ((unat b0 - 192) * 256 + unat b1 + 192, offset + 2)) }
               else if b0 = 255 then
                 if offset + 1 + 5 > len then Some (Inl ONAK_E_INVALID_PKT)
                 else do { bs \<leftarrow> rds d (offset + 1) 4; Some (Inr (be_nat bs, offset + 5)) }
               else Some (Inr (unat b0, offset + 1)));
          (case r of Inl rc \<Rightarrow> Some (Inl rc)
           | Inr (packetlen, offset) \<Rightarrow>
               if packetlen = 0 \<or> packetlen > (len + 2 ^ 32 - offset) mod 2 ^ 32
               then Some (Inl ONAK_E_INVALID_PKT) else Some (Inr (packetlen, offset))) }"

text \<open>The switch on the type octet of the subpacket.\<close>

definition subpacket_body ::
    "bytes \<Rightarrow> nat \<Rightarrow> nat \<Rightarrow> u64 out \<Rightarrow> u64 out \<Rightarrow> (onak_status \<times> u64 out \<times> u64 out) option" where
  "subpacket_body d offset packetlen keyid creation =
     do { t \<leftarrow> rd d offset;
          if t AND 0x7F = OPENPGP_SIGSUB_CREATION then
            if packetlen < 5 then Some (ONAK_E_INVALID_PKT, keyid, creation)
            else if creation \<noteq> Null then
              do { bs \<leftarrow> rds d (offset + packetlen - 4) 4;
                   Some (ONAK_E_OK, keyid, set_out (be_word bs) creation) }
            else Some (ONAK_E_OK, keyid, creation)
          else if t AND 0x7F = OPENPGP_SIGSUB_ISSUER then
            if packetlen < 9 then Some (ONAK_E_INVALID_PKT, keyid, creation)
            else if keyid \<noteq> Null then
              do { bs \<leftarrow> rds d (offset + packetlen - 8) 8;
                   Some (ONAK_E_OK, set_out (be_word bs) keyid, creation) }
            else Some (ONAK_E_OK, keyid, creation)
          else if t AND 0x7F = OPENPGP_SIGSUB_ISSUER_FINGER then
            if (packetlen + 2 ^ 32 - 2) mod 2 ^ 32 \<le> MAX_FINGERPRINT_LEN \<and> keyid \<noteq> Null then
              do { bs \<leftarrow> rds d (offset + 2) (packetlen - 2);
                   k \<leftarrow> fingerprint2keyid \<lparr>fp_length = packetlen - 2, fp = bs\<rparr>;
                   Some (ONAK_E_OK, set_out k keyid, creation) }
            else Some (ONAK_E_OK, keyid, creation)
          else if t AND 0x7F \<in> set ignored_subpackets then Some (ONAK_E_OK, keyid, creation)
          else if t AND 0x80 \<noteq> 0 then Some (ONAK_E_UNSUPPORTED_FEATURE, keyid, creation)
          else Some (ONAK_E_OK, keyid, creation) }"

lemma subpacket_length_progress:
  "subpacket_length d len offset = Some (Inr (packetlen, offset')) \<Longrightarrow> offset < offset' \<and> 0 < packetlen"
  by (auto simp: subpacket_length_def split: Option.bind_splits if_splits sum.splits prod.splits)

function parse_subpackets_loop ::
    "bytes \<Rightarrow> nat \<Rightarrow> nat \<Rightarrow> u64 out \<Rightarrow> u64 out \<Rightarrow> (onak_status \<times> u64 out \<times> u64 out) option" where
  "parse_subpackets_loop d len offset keyid creation =
     (if offset + 2 < len then
        (case subpacket_length d len offset of
           None \<Rightarrow> None
         | Some (Inl rc) \<Rightarrow> Some (rc, keyid, creation)
         | Some (Inr (packetlen, offset')) \<Rightarrow>
             (case subpacket_body d offset' packetlen keyid creation of
                None \<Rightarrow> None
              | Some (rc, keyid, creation) \<Rightarrow>
                  if rc \<noteq> ONAK_E_OK then Some (rc, keyid, creation)
                  else parse_subpackets_loop d len (offset' + packetlen) keyid creation))
      else Some (ONAK_E_OK, keyid, creation))"
  by pat_completeness auto
termination
  by (relation "measure (\<lambda>(d, len, offset, keyid, creation). len - offset)")
     (auto dest!: subpacket_length_progress)

declare parse_subpackets_loop.simps [simp del]

text \<open>
  \<open>d\<close> is the memory from \<open>data\<close> to the end of its allocation; \<open>len\<close> is what the caller says
  is available. The result is the status, \<open>*parselen\<close> (\<open>None\<close> where it is not written),
  \<open>*keyid\<close> and \<open>*creation\<close>.
\<close>

definition parse_subpackets ::
    "bytes \<Rightarrow> nat \<Rightarrow> u64 out \<Rightarrow> u64 out \<Rightarrow> (onak_status \<times> nat option \<times> u64 out \<times> u64 out) option" where
  "parse_subpackets d len keyid creation =
     (if len < 4 then Some (ONAK_E_INVALID_PKT, None, keyid, creation)
      else do { a \<leftarrow> rd d 0; b \<leftarrow> rd d 1;
                let length = unat a * 256 + unat b + 2;
                if len < length then Some (ONAK_E_INVALID_PKT, None, keyid, creation)
                else do { (rc, keyid, creation) \<leftarrow> parse_subpackets_loop d length 2 keyid creation;
                          Some (rc, Some length, keyid, creation) } })"

definition sig_info ::
    "openpgp_packet \<Rightarrow> u64 out \<Rightarrow> u64 out \<Rightarrow> (onak_status \<times> u64 out \<times> u64 out) option" where
  "sig_info p keyid creation =
     do { v \<leftarrow> rd (data p) 0;
          if v = 2 \<or> v = 3 then
            do { keyid \<leftarrow> (if keyid \<noteq> Null
                          then do { bs \<leftarrow> rds (data p) 7 8; Some (set_out (be_word bs) keyid) }
                          else Some keyid);
                 creation \<leftarrow> (if creation \<noteq> Null
                             then do { bs \<leftarrow> rds (data p) 3 4; Some (set_out (be_word bs) creation) }
                             else Some creation);
                 Some (ONAK_E_OK, keyid, creation) }
          else if v = 4 \<or> v = 5 then
            do { let keyid = set_out 0 keyid;
                 (res, parselen, keyid, creation) \<leftarrow>
                   parse_subpackets (drop 4 (data p)) ((plength p + 2 ^ 64 - 4) mod 2 ^ 64) keyid creation;
                 if res \<noteq> ONAK_E_OK then Some (res, keyid, creation)
                 else if keyid = Var (Some 0) then
                   do { length \<leftarrow> parselen;
                        (res, _, keyid, _) \<leftarrow>
                          parse_subpackets (drop (length + 4) (data p))
                            ((plength p + 2 ^ 64 - (4 + length)) mod 2 ^ 64) keyid Null;
                        Some (res, keyid, creation) }
                 else Some (ONAK_E_OK, keyid, creation) }
          else Some (ONAK_E_OK, keyid, creation) }"

definition sig_keyid :: "openpgp_packet \<Rightarrow> u64 option" where
  "sig_keyid p =
     do { (_, keyid, _) \<leftarrow> sig_info p (Var (Some 0)) Null;
          (case keyid of Var (Some k) \<Rightarrow> Some k | _ \<Rightarrow> None) }"

section \<open>User ids and subkeys\<close>

definition spsize :: "openpgp_signedpacket list \<Rightarrow> nat" where
  "spsize l = length l"

text \<open>
  \<open>snprintf(buf, 1023, "%.*s", (int) length, data)\<close> copies the data up to its first NUL, at most
  1022 octets. The result is the array without its final null pointer, or \<open>None\<close> for the
  null pointer that a key without user ids gets; the second component is \<open>*primary\<close>.
\<close>

definition uid_string :: "openpgp_packet \<Rightarrow> bytes" where
  "uid_string p = take 1022 (takeWhile (\<lambda>c. c \<noteq> 0) (data p))"

definition keyuids :: "openpgp_publickey \<Rightarrow> bytes list option \<times> bytes option" where
  "keyuids key =
     (if uids key \<noteq> [] then
        let us = map uid_string (filter (\<lambda>p. tag p = OPENPGP_PACKET_UID) (map sp_packet (uids key)))
        in (Some us, case us of [] \<Rightarrow> None | u # _ \<Rightarrow> Some u)
      else (None, None))"

text \<open>
  The result is the array without its end marker (a fingerprint of length 0). A subkey
  whose version is unknown has a fingerprint of length 0 too.
\<close>

fun subkey_fingerprints ::
    "hash_funs \<Rightarrow> openpgp_signedpacket list \<Rightarrow> openpgp_fingerprint list option" where
  "subkey_fingerprints H [] = Some []"
| "subkey_fingerprints H (sp # l) =
     do { (_, f) \<leftarrow> get_fingerprint H (sp_packet sp); fs \<leftarrow> subkey_fingerprints H l; Some (f # fs) }"

definition keysubkeys :: "hash_funs \<Rightarrow> openpgp_publickey \<Rightarrow> openpgp_fingerprint list option option" where
  "keysubkeys H key =
     (if subkeys key \<noteq> [] then map_option Some (subkey_fingerprints H (subkeys key)) else Some None)"

section \<open>Elliptic curves\<close>

datatype onak_oid =
    ONAK_OID_UNKNOWN | ONAK_OID_INVALID | ONAK_OID_CURVE25519 | ONAK_OID_ED25519 | ONAK_OID_NISTP256
  | ONAK_OID_NISTP384 | ONAK_OID_NISTP521 | ONAK_OID_BRAINPOOLP256R1 | ONAK_OID_BRAINPOOLP384R1
  | ONAK_OID_BRAINPOOLP512R1 | ONAK_OID_SECP256K1

text \<open>
  The comparisons \<open>buf[0] == n && buf[1] == \<dots>\<close>, in order, stopping at the first that fails:
  octet \<open>i\<close> is read only when all octets before it agree.
\<close>

fun octets_are :: "bytes \<Rightarrow> nat \<Rightarrow> bytes \<Rightarrow> bool option" where
  "octets_are buf i [] = Some True"
| "octets_are buf i (x # xs) = do { b \<leftarrow> rd buf i; if b = x then octets_are buf (i + 1) xs else Some False }"

definition oid_table :: "(bytes \<times> onak_oid) list" where
  "oid_table =
    [([10, 0x2B, 0x06, 0x01, 0x04, 0x01, 0x97, 0x55, 0x01, 0x05, 0x01], ONAK_OID_CURVE25519),
     ([9, 0x2B, 0x06, 0x01, 0x04, 0x01, 0xDA, 0x47, 0x0F, 0x01], ONAK_OID_ED25519),
     ([8, 0x2A, 0x86, 0x48, 0xCE, 0x3D, 0x03, 0x01, 0x07], ONAK_OID_NISTP256),
     ([5, 0x2B, 0x81, 0x04, 0x00, 0x22], ONAK_OID_NISTP384),
     ([5, 0x2B, 0x81, 0x04, 0x00, 0x23], ONAK_OID_NISTP521),
     ([9, 0x2B, 0x24, 0x03, 0x03, 0x02, 0x08, 0x01, 0x01, 0x07], ONAK_OID_BRAINPOOLP256R1),
     ([9, 0x2B, 0x24, 0x03, 0x03, 0x02, 0x08, 0x01, 0x01, 0x0B], ONAK_OID_BRAINPOOLP384R1),
     ([9, 0x2B, 0x24, 0x03, 0x03, 0x02, 0x08, 0x01, 0x01, 0x0D], ONAK_OID_BRAINPOOLP512R1),
     ([5, 0x2B, 0x81, 0x04, 0x00, 0x0A], ONAK_OID_SECP256K1)]"

fun find_oid :: "bytes \<Rightarrow> (bytes \<times> onak_oid) list \<Rightarrow> onak_oid option" where
  "find_oid buf [] = Some ONAK_OID_UNKNOWN"
| "find_oid buf ((xs, oid) # tab) =
     do { r \<leftarrow> octets_are buf 0 xs; if r then Some oid else find_oid buf tab }"

text \<open>\<open>buf\<close> is the memory from the pointer to the end of its allocation.\<close>

definition onak_parse_oid :: "bytes \<Rightarrow> nat \<Rightarrow> onak_oid option" where
  "onak_parse_oid buf len =
     (if len = 0 then Some ONAK_OID_INVALID
      else do { b0 \<leftarrow> rd buf 0;
                if unat b0 \<ge> len then Some ONAK_OID_INVALID else find_oid buf oid_table })"

section \<open>Revoked user ids\<close>

fun sigs_revoke :: "openpgp_packet list \<Rightarrow> bool option" where
  "sigs_revoke [] = Some False"
| "sigs_revoke (p # l) =
     (if plength p < 2 then sigs_revoke l
      else do { v \<leftarrow> rd (data p) 0;
                if v = 4 \<or> v = 5
                then do { t \<leftarrow> rd (data p) 1;
                          if t = OPENPGP_SIGTYPE_CERT_REV then Some True else sigs_revoke l }
                else sigs_revoke l })"

definition signedpacket_is_revoked :: "openpgp_signedpacket \<Rightarrow> bool option" where
  "signedpacket_is_revoked sp = sigs_revoke (sp_sigs sp)"

section \<open>Memory safety\<close>

text \<open>What a call may do to an output parameter: a null pointer stays, a value is not lost.\<close>

definition out_le :: "'a out \<Rightarrow> 'a out \<Rightarrow> bool" where
  "out_le r r' \<longleftrightarrow> (r = Null \<longleftrightarrow> r' = Null) \<and> (r' = Var None \<longrightarrow> r = Var None)"

lemma out_le_refl [simp]: "out_le r r"
  by (simp add: out_le_def)

lemma out_le_trans: "out_le r s \<Longrightarrow> out_le s t \<Longrightarrow> out_le r t"
  by (auto simp: out_le_def)

lemma out_le_set_out [simp]: "out_le r (set_out v r)"
  by (cases r) (auto simp: out_le_def)

lemma out_le_Var: "out_le (Var (Some v)) r \<Longrightarrow> \<exists>w. r = Var (Some w)"
  by (cases r) (auto simp: out_le_def)

lemma be_nat_4_bound: "length bs = 4 \<Longrightarrow> be_nat bs < 2 ^ 32"
  using be_nat_bound [of bs] by simp

lemma subpacket_length_safe:
  assumes "offset + 2 < len" and "len \<le> length d" and "len < 2 ^ 32"
  shows "\<exists>r. subpacket_length d len offset = Some r \<and>
           (\<forall>pl off. r = Inr (pl, off) \<longrightarrow> 0 < pl \<and> off + pl \<le> len)"
proof -
  have fits: "(len + 2 ^ 32 - off) mod 2 ^ 32 = len - off" if "off \<le> len" for off
    using that assms(3) by (rule unsigned_diff)
  have rd: "rd d offset = Some (d ! offset)" "rd d (offset + 1) = Some (d ! (offset + 1))"
    using assms(1,2) by (simp_all del: add_Suc_right)
  consider (two) "d ! offset > 191 \<and> d ! offset < 255" | (five) "d ! offset = 255" |
    (one) "\<not> (d ! offset > 191 \<and> d ! offset < 255)" "d ! offset \<noteq> 255" by blast
  then show ?thesis
  proof cases
    case two
    then show ?thesis unfolding subpacket_length_def rd
      using fits [of "offset + 2"] assms(1) by (simp del: One_nat_def) linarith
  next
    case five
    show ?thesis
    proof (cases "offset + 1 + 5 > len")
      case True
      then show ?thesis unfolding subpacket_length_def rd using five by simp
    next
      case False
      then have "rds d (offset + 1) 4 = Some (take 4 (drop (offset + 1) d))"
        using assms(2) by (intro rds_in) simp
      then show ?thesis unfolding subpacket_length_def rd
        using five False fits [of "offset + 5"] by simp linarith
    qed
  next
    case one
    then show ?thesis unfolding subpacket_length_def rd
      using fits [of "offset + 1"] assms(1) by simp linarith
  qed
qed

lemma fingerprint2keyid_defined: "length (fp f) = fp_length f \<Longrightarrow> \<exists>k. fingerprint2keyid f = Some k"
  by (simp add: fingerprint2keyid_def)

lemma subpacket_body_safe:
  assumes "0 < pl" and "off + pl \<le> length d" and "pl < 2 ^ 32"
  shows "\<exists>rc k c. subpacket_body d off pl keyid creation = Some (rc, k, c) \<and>
           out_le keyid k \<and> out_le creation c"
proof -
  have w: "(pl + 2 ^ 32 - 2) mod 2 ^ 32 = (if pl = 1 then 2 ^ 32 - 1 else pl - 2)"
  proof (cases "pl = 1")
    case False
    then show ?thesis using unsigned_diff [of 2 pl "2 ^ 32"] assms(1,3) by simp
  qed simp
  obtain k where k: "2 \<le> pl \<Longrightarrow> pl \<le> 34 \<Longrightarrow>
      fingerprint2keyid \<lparr>fp_length = pl - 2, fp = take (pl - 2) (drop (off + 2) d)\<rparr> = Some k"
    using fingerprint2keyid_defined [of "\<lparr>fp_length = pl - 2, fp = take (pl - 2) (drop (off + 2) d)\<rparr>"]
      assms(2) by fastforce
  have t: "rd d off = Some (d ! off)" using assms by simp
  show ?thesis
    unfolding subpacket_body_def t w
    using assms k by (auto simp: rds_def)
qed

lemma parse_subpackets_loop_safe:
  "len \<le> length d \<Longrightarrow> len < 2 ^ 32 \<Longrightarrow>
   \<exists>rc k c. parse_subpackets_loop d len offset keyid creation = Some (rc, k, c) \<and>
     out_le keyid k \<and> out_le creation c"
proof (induction d len offset keyid creation rule: parse_subpackets_loop.induct)
  case (1 d len offset keyid creation)
  show ?case
  proof (cases "offset + 2 < len")
    case True
    obtain r where r: "subpacket_length d len offset = Some r"
        "\<forall>pl off. r = Inr (pl, off) \<longrightarrow> 0 < pl \<and> off + pl \<le> len"
      using subpacket_length_safe [OF True "1.prems"] by blast
    show ?thesis
    proof (cases r)
      case (Inl rc)
      then show ?thesis using r(1) True by (subst parse_subpackets_loop.simps) simp
    next
      case (Inr x)
      obtain pl off where x: "x = (pl, off)" by (cases x)
      obtain rc k c where b: "subpacket_body d off pl keyid creation = Some (rc, k, c)"
          "out_le keyid k" "out_le creation c"
        using subpacket_body_safe [of pl off d keyid creation] r(2) Inr x "1.prems" by auto
      show ?thesis
      proof (cases "rc = ONAK_E_OK")
        case ok: True
        from "1.IH" [OF True r(1) Inr x [symmetric] b(1) refl refl] ok "1.prems"
        obtain rc' k' c' where "parse_subpackets_loop d len (off + pl) k c = Some (rc', k', c')"
            "out_le k k'" "out_le c c'" by auto
        then show ?thesis using r(1) Inr x b True ok
          by (subst parse_subpackets_loop.simps) (auto intro: out_le_trans)
      next
        case False
        then show ?thesis using r(1) Inr x b True by (subst parse_subpackets_loop.simps) simp
      qed
    qed
  next
    case False
    then show ?thesis by (subst parse_subpackets_loop.simps) simp
  qed
qed

lemma parse_subpackets_safe:
  assumes "len \<le> length d"
  shows "\<exists>rc pl k c. parse_subpackets d len keyid creation = Some (rc, pl, k, c) \<and>
    out_le keyid k \<and> out_le creation c \<and> (rc = ONAK_E_OK \<longrightarrow> (\<exists>n. pl = Some n \<and> 2 \<le> n \<and> n \<le> len))"
proof (cases "len < 4")
  case True
  then show ?thesis by (simp add: parse_subpackets_def)
next
  case False
  let ?n = "unat (d ! 0) * 256 + unat (d ! 1) + 2"
  have "unat (d ! 0) < 256" "unat (d ! 1) < 256"
    using unsigned_less [of "d ! 0"] unsigned_less [of "d ! 1"] by simp_all
  then have n: "?n < 2 ^ 32" by simp
  have rd: "rd d 0 = Some (d ! 0)" "rd d 1 = Some (d ! 1)" using False assms by (intro rd_in; linarith)+
  show ?thesis
  proof (cases "len < ?n")
    case True
    then show ?thesis using False rd by (simp add: parse_subpackets_def)
  next
    case ok: False
    then obtain rc k c where "parse_subpackets_loop d ?n 2 keyid creation = Some (rc, k, c)"
        "out_le keyid k" "out_le creation c"
      using parse_subpackets_loop_safe [of ?n d 2 keyid creation] assms n by auto
    then show ?thesis using False rd ok by (simp add: parse_subpackets_def)
  qed
qed

text \<open>The packets on which \<open>sig_info\<close> stays inside the packet.\<close>

definition sig_long_enough :: "openpgp_packet \<Rightarrow> bool" where
  "sig_long_enough p \<longleftrightarrow> 4 \<le> plength p \<and> plength p < 2 ^ 64 \<and>
     (data p ! 0 \<in> {2, 3} \<longrightarrow> 15 \<le> plength p)"

text \<open>What of the two results is written: always the key id, except for unknown versions.\<close>

lemma sig_info_safe:
  assumes "sig_long_enough p"
  shows "\<exists>rc k c. sig_info p keyid creation = Some (rc, k, c) \<and> out_le keyid k \<and> out_le creation c \<and>
    (data p ! 0 \<in> {2, 3, 4, 5} \<longrightarrow> k \<noteq> Var None)"
proof -
  have len: "4 \<le> length (data p)" "length (data p) < 2 ^ 64"
    and v: "rd (data p) 0 = Some (data p ! 0)"
    and old: "data p ! 0 = 2 \<or> data p ! 0 = 3 \<Longrightarrow> 15 \<le> length (data p)"
    using assms by (auto simp: sig_long_enough_def plength_def rd_def)
  consider (old) "data p ! 0 = 2 \<or> data p ! 0 = 3" | (new) "data p ! 0 = 4 \<or> data p ! 0 = 5"
    | (other) "\<not> (data p ! 0 = 2 \<or> data p ! 0 = 3 \<or> data p ! 0 = 4 \<or> data p ! 0 = 5)" by blast
  then show ?thesis
  proof cases
    case old
    then show ?thesis using \<open>data p ! 0 = 2 \<or> data p ! 0 = 3 \<Longrightarrow> 15 \<le> length (data p)\<close>
      unfolding sig_info_def v by (cases keyid; cases creation) (auto simp: rds_def out_le_def)
  next
    case new
    let ?d = "drop 4 (data p)"
    have m: "(plength p + 2 ^ 64 - 4) mod 2 ^ 64 = length ?d"
      using unsigned_diff [OF len] by (simp add: plength_def)
    obtain rc pl k c where s1: "parse_subpackets ?d (length ?d) (set_out 0 keyid) creation = Some (rc, pl, k, c)"
        "out_le (set_out 0 keyid) k" "out_le creation c"
        "rc = ONAK_E_OK \<longrightarrow> (\<exists>n. pl = Some n \<and> 2 \<le> n \<and> n \<le> length ?d)"
      using parse_subpackets_safe [of "length ?d" ?d "set_out 0 keyid" creation] by auto
    have k: "out_le keyid k" "k \<noteq> Var None"
      using s1(2) by (cases keyid; auto simp: out_le_def)+
    show ?thesis
    proof (cases "rc = ONAK_E_OK \<and> k = Var (Some 0)")
      case True
      then obtain n where n: "pl = Some n" "n \<le> length ?d" using s1(4) by auto
      have m2: "(plength p + 2 ^ 64 - (4 + n)) mod 2 ^ 64 = length (drop (n + 4) (data p))"
        using unsigned_diff [of "4 + n" "length (data p)" "2 ^ 64"] n(2) len by (simp add: plength_def)
      obtain rc2 pl2 k2 c2 where "parse_subpackets (drop (n + 4) (data p))
          (length (drop (n + 4) (data p))) k Null = Some (rc2, pl2, k2, c2)" "out_le k k2"
        using parse_subpackets_safe [of "length (drop (n + 4) (data p))" "drop (n + 4) (data p)" k Null]
        by auto
      then show ?thesis using True n s1 k new
        unfolding sig_info_def v m by (auto simp: m2 [simplified] Let_def out_le_def)
    next
      case False
      then show ?thesis using s1 k new unfolding sig_info_def v m by (auto simp: Let_def)
    qed
  next
    case other
    then show ?thesis unfolding sig_info_def v by auto
  qed
qed

section \<open>What the subpackets say\<close>

text \<open>
  A subpacket is its type octet and its body. The area of a signature is a two-octet length
  followed by the encoded subpackets.
\<close>

type_synonym subpacket = "u8 \<times> bytes"

definition encode_subpacket :: "subpacket \<Rightarrow> bytes" where
  "encode_subpacket sp =
     (let n = length (snd sp) + 1
      in (if n < 192 then [word_of_nat n] else 255 # be_bytes 4 n) @ fst sp # snd sp)"

definition subpacket_area :: "subpacket list \<Rightarrow> bytes" where
  "subpacket_area sps =
     (let b = concat (map encode_subpacket sps) in be_bytes 2 (length b) @ b)"

text \<open>The issuer and the creation time a subpacket states, if it states one.\<close>

definition subpacket_issuer :: "subpacket \<Rightarrow> u64 option" where
  "subpacket_issuer sp =
     (if fst sp AND 0x7F = 16 then Some (be_word (snd sp))
      else if fst sp AND 0x7F = 33 then
        (if length (snd sp) = 21 then Some (be_word (drop 13 (snd sp)))
         else if length (snd sp) = 33 then Some (be_word (take 8 (drop 1 (snd sp)))) else Some (-1))
      else None)"

definition subpacket_creation :: "subpacket \<Rightarrow> u64 option" where
  "subpacket_creation sp = (if fst sp AND 0x7F = 2 then Some (be_word (snd sp)) else None)"

text \<open>Well-formed subpackets: fixed-size bodies have their size, unknown types are not critical.\<close>

definition subpacket_ok :: "subpacket \<Rightarrow> bool" where
  "subpacket_ok sp \<longleftrightarrow> snd sp \<noteq> [] \<and>
     (fst sp AND 0x7F = 2 \<longrightarrow> length (snd sp) = 4) \<and>
     (fst sp AND 0x7F = 16 \<longrightarrow> length (snd sp) = 8) \<and>
     (fst sp AND 0x7F = 33 \<longrightarrow> length (snd sp) \<le> 33) \<and>
     (fst sp AND 0x7F \<in> {2, 16, 33} \<union> set ignored_subpackets \<or> fst sp AND 0x80 = 0)"

definition set_out_opt :: "'a option \<Rightarrow> 'a out \<Rightarrow> 'a out" where
  "set_out_opt v r = (case v of None \<Rightarrow> r | Some w \<Rightarrow> set_out w r)"

lemma subpacket_length_encode:
  assumes "d = pre @ encode_subpacket sp @ suf" and "snd sp \<noteq> []"
    and "length (pre @ encode_subpacket sp) \<le> len" and "len < 2 ^ 32"
  shows "subpacket_length d len (length pre) =
    Some (Inr (length (snd sp) + 1,
               length pre + length (encode_subpacket sp) - (length (snd sp) + 1)))"
proof -
  let ?n = "length (snd sp) + 1"
  have fits: "(len + 2 ^ 32 - off) mod 2 ^ 32 = len - off" if "off \<le> len" for off
    using that assms(4) by (rule unsigned_diff)
  have big: "?n < 2 ^ 32" using assms(3,4) by (simp add: encode_subpacket_def Let_def split: if_splits)
  show ?thesis
  proof (cases "?n < 192")
    case True
    have e: "d = pre @ word_of_nat ?n # fst sp # snd sp @ suf"
      using True assms(1) by (simp add: encode_subpacket_def Let_def)
    then have "rd d (length pre) = Some (word_of_nat ?n)" by (simp add: rd_def)
    moreover have u: "unat (word_of_nat ?n :: u8) = ?n" unfolding unat_word_of_nat_u8 using True by simp
    then have "\<not> (word_of_nat ?n > (191 :: u8))" "word_of_nat ?n \<noteq> (255 :: u8)"
      using True by (auto simp only: word_less_nat_alt word_unat_eq_iff) auto
    moreover have "length (encode_subpacket sp) = ?n + 1" using True by (simp add: encode_subpacket_def Let_def)
    ultimately show ?thesis
      using u fits [of "length pre + 1"] assms(3) by (simp add: subpacket_length_def)
  next
    case False
    have e: "d = pre @ 255 # be_bytes 4 ?n @ fst sp # snd sp @ suf"
      using False assms(1) by (simp add: encode_subpacket_def Let_def)
    have l: "length (encode_subpacket sp) = ?n + 5" using False by (simp add: encode_subpacket_def Let_def)
    have "rd d (length pre) = Some 255" by (simp add: e rd_def)
    moreover have "rds d (length pre + 1) 4 = Some (be_bytes 4 ?n)"
      by (simp add: e rds_def)
    moreover have "be_nat (be_bytes 4 ?n) = ?n" using big by (simp add: be_nat_be_bytes)
    ultimately show ?thesis
      using fits [of "length pre + 5"] assms(3) l by (simp add: subpacket_length_def)
  qed
qed

lemma subpacket_body_decode:
  assumes "d = pre @ fst sp # snd sp @ suf" and "subpacket_ok sp" and "length (snd sp) + 1 < 2 ^ 32"
  shows "subpacket_body d (length pre) (length (snd sp) + 1) keyid creation =
    Some (ONAK_E_OK, set_out_opt (subpacket_issuer sp) keyid, set_out_opt (subpacket_creation sp) creation)"
proof -
  let ?t = "fst sp AND 0x7F" and ?n = "length (snd sp) + 1"
  have t: "rd d (length pre) = Some (fst sp)" by (simp add: assms(1) rd_def)
  have w: "(?n + 2 ^ 32 - 2) mod 2 ^ 32 = ?n - 2"
    using unsigned_diff [of 2 ?n "2 ^ 32"] assms(2,3) by (cases "snd sp") (auto simp: subpacket_ok_def)
  have body: "rds d (length pre + 1 + i) m = Some (take m (drop i (snd sp)))" if "i + m \<le> length (snd sp)" for i m
    using that by (simp add: assms(1) rds_def)
  consider "?t = 2" | "?t = 16" | "?t = 33" | "?t \<notin> {2, 16, 33}" by blast
  then show ?thesis
  proof cases
    case 1
    then show ?thesis using t assms(2) body [of 0 4]
      by (cases creation) (simp_all add: subpacket_body_def subpacket_issuer_def subpacket_creation_def
          set_out_opt_def subpacket_ok_def)
  next
    case 2
    then show ?thesis using t assms(2) body [of 0 8]
      by (cases keyid) (simp_all add: subpacket_body_def subpacket_issuer_def subpacket_creation_def
          set_out_opt_def subpacket_ok_def)
  next
    case 3
    then have len: "1 \<le> length (snd sp)" "length (snd sp) \<le> 33"
      using assms(2) by (cases "snd sp"; simp add: subpacket_ok_def)+
    have b: "rds d (length pre + 2) (?n - 2) = Some (drop 1 (snd sp))"
      using body [of 1 "?n - 2"] len by simp
    have "fingerprint2keyid \<lparr>fp_length = ?n - 2, fp = drop 1 (snd sp)\<rparr> = subpacket_issuer sp"
      using 3 len by (auto simp: fingerprint2keyid_def subpacket_issuer_def)
    then show ?thesis unfolding subpacket_body_def t w using 3 b len
      by (cases keyid) (auto simp: subpacket_creation_def set_out_opt_def subpacket_issuer_def)
  next
    case 4
    then show ?thesis unfolding subpacket_body_def t using assms(2)
      by (auto simp: subpacket_issuer_def subpacket_creation_def set_out_opt_def subpacket_ok_def)
  qed
qed

text \<open>The last value the subpackets state.\<close>

fun stated :: "(subpacket \<Rightarrow> 'a option) \<Rightarrow> subpacket list \<Rightarrow> 'a option" where
  "stated f [] = None"
| "stated f (sp # sps) = (case stated f sps of None \<Rightarrow> f sp | Some v \<Rightarrow> Some v)"

lemma set_out_opt_stated:
  "set_out_opt (stated f sps) (set_out_opt (f sp) r) = set_out_opt (stated f (sp # sps)) r"
  by (cases r) (auto simp: set_out_opt_def split: option.splits)

lemma parse_subpackets_loop_decode:
  "d = pre @ concat (map encode_subpacket sps) @ suf \<Longrightarrow> len = length (pre @ concat (map encode_subpacket sps)) \<Longrightarrow>
   len < 2 ^ 32 \<Longrightarrow> \<forall>sp \<in> set sps. subpacket_ok sp \<Longrightarrow>
   parse_subpackets_loop d len (length pre) keyid creation =
     Some (ONAK_E_OK, set_out_opt (stated subpacket_issuer sps) keyid,
           set_out_opt (stated subpacket_creation sps) creation)"
proof (induction sps arbitrary: pre keyid creation)
  case Nil
  then show ?case by (subst parse_subpackets_loop.simps) (simp add: set_out_opt_def)
next
  case (Cons sp sps)
  let ?e = "encode_subpacket sp" and ?n = "length (snd sp) + 1"
  define h where "h = (if ?n < 192 then [word_of_nat ?n] else 255 # be_bytes 4 ?n)"
  have h: "h \<noteq> []" by (simp add: h_def)
  have ok: "subpacket_ok sp" and e: "?e = h @ fst sp # snd sp"
    using Cons.prems(4) by (simp_all add: encode_subpacket_def Let_def h_def)
  have ne: "snd sp \<noteq> []" using ok by (simp add: subpacket_ok_def)
  have d: "d = pre @ ?e @ concat (map encode_subpacket sps) @ suf" using Cons.prems(1) by simp
  have len: "length (pre @ ?e) \<le> len" using Cons.prems(2) by simp
  have l: "subpacket_length d len (length pre) = Some (Inr (?n, length (pre @ h)))"
    using subpacket_length_encode [OF d ne len Cons.prems(3)] by (simp add: e)
  have d2: "d = (pre @ h) @ fst sp # snd sp @ concat (map encode_subpacket sps) @ suf"
    unfolding d e by simp
  have b: "subpacket_body d (length (pre @ h)) ?n keyid creation = Some (ONAK_E_OK,
      set_out_opt (subpacket_issuer sp) keyid, set_out_opt (subpacket_creation sp) creation)"
    using len Cons.prems(3) by (intro subpacket_body_decode [OF d2 ok]) (simp add: e)
  have "length pre + 2 < len" using len ne h by (cases "snd sp"; cases h) (auto simp: e)
  moreover have "length (pre @ h) + ?n = length (pre @ ?e)" by (simp add: e)
  ultimately have "parse_subpackets_loop d len (length pre) keyid creation =
      parse_subpackets_loop d len (length (pre @ ?e)) (set_out_opt (subpacket_issuer sp) keyid)
        (set_out_opt (subpacket_creation sp) creation)"
    using l b by (subst parse_subpackets_loop.simps) (simp add: add.assoc del: One_nat_def add_Suc_right)
  also have "\<dots> = Some (ONAK_E_OK,
      set_out_opt (stated subpacket_issuer sps) (set_out_opt (subpacket_issuer sp) keyid),
      set_out_opt (stated subpacket_creation sps) (set_out_opt (subpacket_creation sp) creation))"
    using Cons.prems d by (intro Cons.IH) simp_all
  finally show ?case by (simp only: set_out_opt_stated)
qed

lemma parse_subpackets_decode:
  assumes "\<forall>sp \<in> set sps. subpacket_ok sp" and "length (subpacket_area sps) < 2 ^ 16"
    and "4 \<le> length (subpacket_area sps @ suf)"
  shows "parse_subpackets (subpacket_area sps @ suf) (length (subpacket_area sps @ suf)) keyid creation =
    Some (ONAK_E_OK, Some (length (subpacket_area sps)),
          set_out_opt (stated subpacket_issuer sps) keyid,
          set_out_opt (stated subpacket_creation sps) creation)"
proof -
  let ?b = "concat (map encode_subpacket sps)" and ?a = "subpacket_area sps"
  have a: "?a = be_bytes 2 (length ?b) @ ?b" by (simp add: subpacket_area_def Let_def)
  obtain x y where xy: "be_bytes 2 (length ?b) = [x, y]" by (simp add: numeral_2_eq_2)
  have "length ?b < 2 ^ 16" using assms(2) by (simp add: a)
  then have "be_nat [x, y] = length ?b" by (simp add: xy [symmetric] be_nat_be_bytes)
  then have n: "unat x * 256 + unat y + 2 = length ?a" by (simp add: be_nat_def a xy)
  have "parse_subpackets_loop (?a @ suf) (length ?a) (length [x, y]) keyid creation = Some (ONAK_E_OK,
      set_out_opt (stated subpacket_issuer sps) keyid, set_out_opt (stated subpacket_creation sps) creation)"
    using assms(1,2) by (intro parse_subpackets_loop_decode [where suf = suf]) (simp_all add: a xy)
  then have "parse_subpackets_loop (?a @ suf) (length ?a) 2 keyid creation = Some (ONAK_E_OK,
      set_out_opt (stated subpacket_issuer sps) keyid, set_out_opt (stated subpacket_creation sps) creation)"
    by (simp add: numeral_2_eq_2)
  moreover have "rd (?a @ suf) 0 = Some x" "rd (?a @ suf) 1 = Some y" by (simp_all add: a xy)
  ultimately show ?thesis
    unfolding parse_subpackets_def using assms(3) n by (simp add: Let_def)
qed

text \<open>A version 4 or 5 signature packet with these subpackets, and \<open>rest\<close> after them.\<close>

definition sig_octets :: "bytes \<Rightarrow> subpacket list \<Rightarrow> subpacket list \<Rightarrow> bytes \<Rightarrow> bytes" where
  "sig_octets fixed hashed unhashed rest = fixed @ subpacket_area hashed @ subpacket_area unhashed @ rest"

lemma set_out_opt_Var: "set_out_opt v (Var w) = Var (case v of None \<Rightarrow> w | Some x \<Rightarrow> Some x)"
  by (simp add: set_out_opt_def split: option.split)

lemma sig_info_decode:
  assumes "data p = sig_octets [v, t, a, h] hashed unhashed rest" and "v = 4 \<or> v = 5"
    and "\<forall>sp \<in> set (hashed @ unhashed). subpacket_ok sp" and "2 \<le> length rest"
    and "length (subpacket_area hashed) < 2 ^ 16" and "length (subpacket_area unhashed) < 2 ^ 16"
    and "plength p < 2 ^ 64"
  shows "sig_info p (Var k0) (Var c0) = Some (ONAK_E_OK,
    Var (Some (case stated subpacket_issuer hashed of
          Some k \<Rightarrow> if k \<noteq> 0 then k else (case stated subpacket_issuer unhashed of Some k \<Rightarrow> k | None \<Rightarrow> 0)
        | None \<Rightarrow> (case stated subpacket_issuer unhashed of Some k \<Rightarrow> k | None \<Rightarrow> 0))),
    set_out_opt (stated subpacket_creation hashed) (Var c0))"
proof -
  let ?ha = "subpacket_area hashed" and ?ua = "subpacket_area unhashed"
  have d: "data p = v # t # a # h # ?ha @ ?ua @ rest" using assms(1) by (simp add: sig_octets_def)
  then have v: "rd (data p) 0 = Some v" by simp
  have drops: "drop 4 (data p) = ?ha @ ?ua @ rest" "drop (length ?ha + 4) (data p) = ?ua @ rest"
    by (simp_all add: d drop_drop [of "length ?ha" 4, symmetric])
  have "length (data p) < 2 ^ 64" using assms(7) by (simp add: plength_def)
  then have m: "(plength p + 2 ^ 64 - 4) mod 2 ^ 64 = length (?ha @ ?ua @ rest)"
    "(plength p + 2 ^ 64 - (4 + length ?ha)) mod 2 ^ 64 = length (?ua @ rest)"
    using unsigned_diff [of 4 "length (data p)" "2 ^ 64"] unsigned_diff [of "4 + length ?ha" "length (data p)" "2 ^ 64"]
    by (simp_all add: plength_def d)
  have l: "2 \<le> length ?ha" "2 \<le> length ?ua" by (simp_all add: subpacket_area_def Let_def)
  have p1: "parse_subpackets (?ha @ ?ua @ rest) (length (?ha @ ?ua @ rest)) (set_out 0 (Var k0)) (Var c0) =
      Some (ONAK_E_OK, Some (length ?ha), set_out_opt (stated subpacket_issuer hashed) (set_out 0 (Var k0)),
        set_out_opt (stated subpacket_creation hashed) (Var c0))"
    using assms(3-5) l by (intro parse_subpackets_decode) auto
  have p2: "parse_subpackets (?ua @ rest) (length (?ua @ rest)) (Var (Some 0)) Null =
      Some (ONAK_E_OK, Some (length ?ua), set_out_opt (stated subpacket_issuer unhashed) (Var (Some 0)),
        set_out_opt (stated subpacket_creation unhashed) Null)"
    using assms(3,4,6) l by (intro parse_subpackets_decode) auto
  show ?thesis
    unfolding sig_info_def v m(1) drops(1) Let_def p1
    using assms(2) p2 by (auto simp: drops(2) m(2) [simplified] set_out_opt_Var split: option.splits)
qed

section \<open>Calls with different output parameters agree\<close>

text \<open>
  \<open>over k r\<close> is what an output parameter \<open>k\<close> ends up as, where a variable that was
  uninitialised before the same call ends up as \<open>r\<close>.
\<close>

definition over :: "'a out \<Rightarrow> 'a out \<Rightarrow> 'a out" where
  "over k r = (case k of Null \<Rightarrow> Null | Var v \<Rightarrow> (case r of Var (Some w) \<Rightarrow> r | _ \<Rightarrow> Var v))"

lemma over_simps [simp]:
  "over Null r = Null" "over (Var v) (Var (Some w)) = Var (Some w)" "over k (Var None) = k"
  by (simp_all add: over_def split: out.split)

lemma over_set_out [simp]: "r \<noteq> Null \<Longrightarrow> set_out v (over k r) = over k (set_out v r)"
  by (cases k; cases r) (simp_all add: over_def split: option.split)

lemma over_eq_Null [simp]: "over k r = Null \<longleftrightarrow> k = Null"
  by (cases k) (auto simp: over_def split: out.split option.split)

lemma set_out_not_Null [simp]: "set_out v r = Null \<longleftrightarrow> r = Null"
  by (cases r) auto

lemma over_Null_right [simp]: "k = Null \<Longrightarrow> over k r = Null"
  by simp

lemma subpacket_body_over:
  assumes "subpacket_body d off pl r r' = Some (rc, s, s')" and "r \<noteq> Null" and "r' \<noteq> Null"
  shows "subpacket_body d off pl (over k r) (over c r') = Some (rc, over k s, over c s') \<and> s \<noteq> Null \<and> s' \<noteq> Null"
proof -
  obtain t where t: "rd d off = Some t" using assms(1) by (cases "rd d off") (auto simp: subpacket_body_def)
  consider "t AND 0x7F = 2" | "t AND 0x7F = 16" | "t AND 0x7F = 33" | "t AND 0x7F \<notin> {2, 16, 33}" by blast
  then show ?thesis
  proof cases
    case 1
    then show ?thesis using assms t
      by (cases "pl < 5"; cases "rds d (off + pl - 4) 4"; cases c) (auto simp: subpacket_body_def)
  next
    case 2
    then show ?thesis using assms t
      by (cases "pl < 9"; cases "rds d (off + pl - 8) 8"; cases k) (auto simp: subpacket_body_def)
  next
    case 3
    show ?thesis
    proof (cases "(pl + 2 ^ 32 - 2) mod 2 ^ 32 \<le> MAX_FINGERPRINT_LEN")
      case True
      then show ?thesis using assms t 3 unfolding subpacket_body_def t
        by (cases k; cases "rds d (off + 2) (pl - 2)";
            cases "fingerprint2keyid \<lparr>fp_length = pl - 2, fp = the (rds d (off + 2) (pl - 2))\<rparr>") auto
    next
      case False
      then show ?thesis using assms t 3 unfolding subpacket_body_def t by auto
    qed
  next
    case 4
    then show ?thesis using assms t
      by (cases "t AND 0x7F \<in> set ignored_subpackets"; cases "t AND 0x80 = 0")
         (auto simp: subpacket_body_def)
  qed
qed

lemma parse_subpackets_loop_over:
  "parse_subpackets_loop d len off r r' = Some (rc, s, s') \<Longrightarrow> r \<noteq> Null \<Longrightarrow> r' \<noteq> Null \<Longrightarrow>
   parse_subpackets_loop d len off (over k r) (over c r') = Some (rc, over k s, over c s') \<and>
   s \<noteq> Null \<and> s' \<noteq> Null"
proof (induction d len off r r' rule: parse_subpackets_loop.induct)
  case (1 d len off r r')
  show ?case
  proof (cases "off + 2 < len")
    case True
    note simps = parse_subpackets_loop.simps [of d len off r r']
      parse_subpackets_loop.simps [of d len off "over k r" "over c r'"]
    obtain x where x: "subpacket_length d len off = Some x"
      using "1.prems"(1) True simps(1) by (cases "subpacket_length d len off") auto
    show ?thesis
    proof (cases x)
      case (Inl e)
      then show ?thesis using "1.prems" True simps x by simp
    next
      case (Inr y)
      obtain pl off' where y: "y = (pl, off')" by (cases y)
      obtain rc1 s1 s1' where b: "subpacket_body d off' pl r r' = Some (rc1, s1, s1')"
        using "1.prems"(1) True simps(1) x Inr y by (cases "subpacket_body d off' pl r r'") auto
      note o = subpacket_body_over [OF b "1.prems"(2,3), of k c]
      show ?thesis
      proof (cases "rc1 = ONAK_E_OK")
        case ok: True
        have "parse_subpackets_loop d len (off' + pl) s1 s1' = Some (rc, s, s')"
          using "1.prems"(1) True simps(1) x Inr y b ok by simp
        from "1.IH" [OF True x Inr y [symmetric] b refl refl _ this] o ok
        show ?thesis using True simps(2) x Inr y by simp
      next
        case False
        then show ?thesis using "1.prems"(1) True simps x Inr y b o by simp
      qed
    qed
  next
    case False
    then show ?thesis using "1.prems" by (simp add: parse_subpackets_loop.simps)
  qed
qed

lemma parse_subpackets_over:
  assumes "parse_subpackets d len r r' = Some (rc, pl, s, s')" and "r \<noteq> Null" and "r' \<noteq> Null"
  shows "parse_subpackets d len (over k r) (over c r') = Some (rc, pl, over k s, over c s') \<and>
     s \<noteq> Null \<and> s' \<noteq> Null"
proof (cases "len < 4")
  case True
  then show ?thesis using assms by (auto simp: parse_subpackets_def)
next
  case False
  obtain a b where ab: "rd d 0 = Some a" "rd d 1 = Some b"
    using assms(1) False by (cases "rd d 0"; cases "rd d 1") (auto simp: parse_subpackets_def)
  let ?n = "unat a * 256 + unat b + 2"
  show ?thesis
  proof (cases "len < ?n")
    case True
    then show ?thesis using assms ab False by (auto simp: parse_subpackets_def)
  next
    case ok: False
    then have "parse_subpackets_loop d ?n 2 r r' = Some (rc, s, s')" and "pl = Some ?n"
      using assms(1) ab False by (cases "parse_subpackets_loop d ?n 2 r r'"; auto simp: parse_subpackets_def)+
    then show ?thesis using parse_subpackets_loop_over [OF _ assms(2,3), of d ?n 2 rc s s' k c] ab False ok
      by (simp add: parse_subpackets_def)
  qed
qed

lemma subpacket_body_result: "subpacket_body d off pl k c = Some (rc, k', c') \<Longrightarrow> out_le k k' \<and> out_le c c'"
  by (auto simp: subpacket_body_def split: Option.bind_splits if_splits)

lemma parse_subpackets_loop_result:
  "parse_subpackets_loop d len off k c = Some (rc, k', c') \<Longrightarrow> out_le k k' \<and> out_le c c'"
proof (induction d len off k c rule: parse_subpackets_loop.induct)
  case (1 d len off k c)
  note simps = parse_subpackets_loop.simps [of d len off k c]
  show ?case
  proof (cases "off + 2 < len")
    case True
    then consider e where "subpacket_length d len off = Some (Inl e)"
      | pl off' rc1 k1 c1 where "subpacket_length d len off = Some (Inr (pl, off'))"
          "subpacket_body d off' pl k c = Some (rc1, k1, c1)"
      using "1.prems" simps by (auto split: option.splits sum.splits)
    then show ?thesis
    proof cases
      case 1
      then show ?thesis using "1.prems" True simps by simp
    next
      case 2
      then show ?thesis using "1.prems" "1.IH" [OF True 2(1) refl refl 2(2) refl refl] True simps
          subpacket_body_result [OF 2(2)]
        by (cases "rc1 = ONAK_E_OK") (auto intro: out_le_trans)
    qed
  qed (use "1.prems" simps in simp)
qed

lemma parse_subpackets_result:
  "parse_subpackets d len k c = Some (rc, pl, k', c') \<Longrightarrow> out_le k k'"
  by (auto simp: parse_subpackets_def Let_def split: Option.bind_splits if_splits
      dest: parse_subpackets_loop_result)

lemma sig_info_over:
  assumes "sig_info p (Var None) (Var None) = Some (rc, s, s')"
  shows "(\<exists>rc'. sig_info p k c = Some (rc', over k s, over c s')) \<and> s \<noteq> Null \<and> s' \<noteq> Null"
proof -
  obtain v where v: "rd (data p) 0 = Some v" using assms by (cases "rd (data p) 0") (auto simp: sig_info_def)
  consider (old) "v = 2 \<or> v = 3" | (new) "v = 4 \<or> v = 5" | (other) "v \<notin> {2, 3, 4, 5}" by blast
  then show ?thesis
  proof cases
    case old
    obtain bs cs where "rds (data p) 7 8 = Some bs" "rds (data p) 3 4 = Some cs"
      using assms old v by (cases "rds (data p) 7 8"; cases "rds (data p) 3 4") (auto simp: sig_info_def)
    then show ?thesis using assms old v by (cases k; cases c) (auto simp: sig_info_def)
  next
    case new
    let ?d = "drop 4 (data p)" and ?l = "(plength p + 2 ^ 64 - 4) mod 2 ^ 64"
    obtain rc1 pl s1 s1' where p1: "parse_subpackets ?d ?l (Var (Some 0)) (Var None) = Some (rc1, pl, s1, s1')"
      using assms new v
      by (cases "parse_subpackets ?d ?l (Var (Some 0)) (Var None)") (auto simp: sig_info_def)
    have k0: "over k (Var (Some 0)) = set_out 0 k" by (cases k) simp_all
    note o1 = parse_subpackets_over [OF p1, of k c, simplified k0, simplified]
    show ?thesis
    proof (cases "rc1 = ONAK_E_OK \<and> s1 = Var (Some 0)")
      case True
      obtain n where n: "pl = Some n" using assms new v p1 True by (cases pl) (auto simp: sig_info_def)
      let ?d2 = "drop (n + 4) (data p)" and ?l2 = "(plength p + 2 ^ 64 - (4 + n)) mod 2 ^ 64"
      obtain rc2 pl2 s2 c2 where p2: "parse_subpackets ?d2 ?l2 (Var (Some 0)) Null = Some (rc2, pl2, s2, c2)"
        using assms new v p1 True n
        by (cases "parse_subpackets ?d2 ?l2 (Var (Some 0)) Null") (auto simp: sig_info_def)
      have s: "s = s2" "s' = s1'" using assms new v p1 True n p2 by (auto simp: sig_info_def)
      obtain w where w: "s2 = Var (Some w)"
        using out_le_Var [OF parse_subpackets_result [OF p2]] by blast
      show ?thesis using o1 True new v n p2 s w by (cases k) (auto simp: sig_info_def)
    next
      case False
      have s: "s = s1" "s' = s1'" using assms new v p1 False by (auto simp: sig_info_def split: if_splits)
      obtain w where w: "s1 = Var (Some w)"
        using out_le_Var [OF parse_subpackets_result [OF p1]] by blast
      show ?thesis using o1 False new v s w by (cases k) (auto simp: sig_info_def)
    qed
  next
    case other
    then show ?thesis using assms v by (auto simp: sig_info_def)
  qed
qed

lemma octets_are_safe:
  "i + length xs \<le> length buf \<Longrightarrow> octets_are buf i xs = Some (take (length xs) (drop i buf) = xs)"
proof (induction xs arbitrary: i)
  case (Cons x xs)
  then have "drop i buf = buf ! i # drop (Suc i) buf" by (intro Cons_nth_drop_Suc [symmetric]) simp
  with Cons show ?case by simp
qed simp

lemma octets_are_entry:
  assumes "buf \<noteq> []" and "unat (buf ! 0) < length buf" and "unat (xs ! 0) + 1 = length xs"
  shows "octets_are buf 0 xs = Some (take (length xs) buf = xs)"
proof (cases "buf ! 0 = xs ! 0")
  case True
  then show ?thesis using octets_are_safe [of 0 xs buf] assms by simp
next
  case False
  obtain x ys where xs: "xs = x # ys" using assms(3) by (cases xs) auto
  obtain b bs where "buf = b # bs" using assms(1) by (cases buf) auto
  with False xs show ?thesis by simp
qed

lemma find_oid_safe:
  assumes "buf \<noteq> []" and "unat (buf ! 0) < length buf"
  shows "\<forall>(xs, oid) \<in> set tab. unat (xs ! 0) + 1 = length xs \<Longrightarrow>
    find_oid buf tab = Some (case find (\<lambda>(xs, oid). take (length xs) buf = xs) tab of
      None \<Rightarrow> ONAK_OID_UNKNOWN | Some (xs, oid) \<Rightarrow> oid)"
  by (induction tab) (auto simp: octets_are_entry [OF assms])

lemma onak_parse_oid_eq:
  "onak_parse_oid buf (length buf) = Some (
    if buf = [] \<or> unat (buf ! 0) \<ge> length buf then ONAK_OID_INVALID
    else (case find (\<lambda>(xs, oid). take (length xs) buf = xs) oid_table of
      None \<Rightarrow> ONAK_OID_UNKNOWN | Some (xs, oid) \<Rightarrow> oid))"
  using find_oid_safe [of buf oid_table] by (cases buf) (simp_all add: onak_parse_oid_def oid_table_def)

section \<open>Properties\<close>


definition sample_sig :: openpgp_packet where
  "sample_sig = \<lparr>tag = 2, newformat = False,
     data = sig_octets [4, 0x13, 1, 8] [(2, [0x5F, 0, 0, 1])] [(16, [0, 0, 0, 0, 0, 0, 0, 7])] [0xAA, 0xBB]\<rparr>"

lemma sample_sig_area:
  "length (subpacket_area [(2, [0x5F, 0, 0, 1])]) = 8"
  "length (subpacket_area [(16, [0, 0, 0, 0, 0, 0, 0, 7])]) = 12"
  by (simp_all add: subpacket_area_def encode_subpacket_def Let_def)


text \<open>
  C8. Memory safety of \<open>sig_info\<close>. A signature packet of at least 4 octets (15 for versions 2
  and 3), whatever its contents, is read only inside its data, and for versions 2 to 5 the key
  id is always written.
\<close>

theorem sig_info_memory_safe:
  assumes "4 \<le> plength p" and "plength p < 2 ^ 64" and "data p ! 0 \<in> {2, 3} \<longrightarrow> 15 \<le> plength p"
  shows "\<exists>rc k c. sig_info p keyid creation = Some (rc, k, c) \<and> out_le keyid k \<and> out_le creation c \<and>
    (data p ! 0 \<in> {2, 3, 4, 5} \<longrightarrow> k \<noteq> Var None)"
  using assms by (intro sig_info_safe) (simp add: sig_long_enough_def)

theorem sig_info_memory_safe_witness:
  "\<exists>rc k c. sig_info \<lparr>tag = 2, newformat = False, data = [4, 0x13, 1, 8]\<rparr> (Var None) (Var None) =
     Some (rc, k, c) \<and> out_le (Var None) k \<and> out_le (Var None) c \<and> k \<noteq> Var None"
  using sig_info_memory_safe [of "\<lparr>tag = 2, newformat = False, data = [4, 0x13, 1, 8]\<rparr>" "Var None" "Var None"]
  by (simp add: plength_def)

text \<open>
  A signature packet of version 4 or 5 with fewer than 4 octets makes \<open>sig_info\<close> read
  outside its data: \<open>packet->length - 4\<close> wraps around to almost \<open>2 ^ 64\<close>, so that the
  length check in \<open>parse_subpackets\<close> does not stop it.
\<close>

lemma sig_info_short_packet_undefined:
  assumes "0 < plength p" and "plength p < 4" and "data p ! 0 = 4 \<or> data p ! 0 = 5"
  shows "sig_info p keyid creation = None"
proof -
  have "rd (data p) 0 = Some (data p ! 0)" using assms(1) by (simp add: plength_def)
  moreover have "(plength p + 2 ^ 64 - 4) mod 2 ^ 64 = plength p + 2 ^ 64 - 4"
    using assms(2) by (intro mod_less) simp
  moreover have "drop 4 (data p) = []" using assms(2) by (simp add: plength_def)
  ultimately show ?thesis
    using assms(3) by (auto simp: sig_info_def parse_subpackets_def Let_def)
qed

lemma sig_info_short_packet_undefined_witness:
  "sig_info \<lparr>tag = 2, newformat = False, data = [4, 0x13]\<rparr> (Var None) (Var None) = None"
  by (rule sig_info_short_packet_undefined) (simp_all add: plength_def)

text \<open>
  Curve recognition is memory safe and exact: whenever \<open>len\<close> octets are allocated,
  \<open>onak_parse_oid\<close> reads only these, rejects a length octet that points past \<open>len\<close>, and
  otherwise returns the first entry of the curve table the octets start with.
\<close>

lemma onak_parse_oid_exact:
  assumes "len = length buf"
  shows "onak_parse_oid buf len = Some (
    if buf = [] \<or> unat (buf ! 0) \<ge> len then ONAK_OID_INVALID
    else (case find (\<lambda>(xs, oid). take (length xs) buf = xs) oid_table of
      None \<Rightarrow> ONAK_OID_UNKNOWN | Some (xs, oid) \<Rightarrow> oid))"
  unfolding assms by (rule onak_parse_oid_eq)

lemma onak_parse_oid_exact_witness:
  "onak_parse_oid [5, 0x2B, 0x81, 0x04, 0x00, 0x23] 6 = Some ONAK_OID_NISTP521"
  using onak_parse_oid_exact [of 6 "[5, 0x2B, 0x81, 0x04, 0x00, 0x23]"] by (simp add: oid_table_def)

text \<open>
  \<open>signedpacket_is_revoked\<close> reads only inside the signatures, whatever they are, and
  answers exactly whether one of them is a version 4 or 5 certification revocation (0x30).
\<close>

lemma signedpacket_is_revoked_exact:
  "signedpacket_is_revoked sp = Some (\<exists>p. p \<in> set (sp_sigs sp) \<and> 2 \<le> plength p \<and>
     (data p ! 0 = 4 \<or> data p ! 0 = 5) \<and> data p ! 1 = OPENPGP_SIGTYPE_CERT_REV)"
proof -
  have "sigs_revoke l = Some (\<exists>p. p \<in> set l \<and> 2 \<le> plength p \<and>
      (data p ! 0 = 4 \<or> data p ! 0 = 5) \<and> data p ! 1 = 0x30)" for l
  proof (induction l)
    case (Cons p l)
    then show ?case
      by (cases "plength p < 2") (auto simp: plength_def rd_def)
  qed simp
  then show ?thesis by (simp only: signedpacket_is_revoked_def)
qed

end
