(* ===== verification/Merge.thy ===== *)
theory Merge
  imports Decode_Key
begin

text \<open>
  Merging keys (\<open>merge.c\<close>): comparing signatures, collapsing the signatures of one signer,
  and merging a submitted key into a stored one, which also leaves in the submitted key the
  difference that is sent to the other key servers.

  The list nodes the code frees are the ones that disappear from the lists here.
  Uninitialised variables are kept: a comparison that reads one has no result (\<open>None\<close>).
\<close>

section \<open>Signatures of one signer\<close>

definition out_val :: "'a out \<Rightarrow> 'a option" where
  "out_val r = (case r of Null \<Rightarrow> None | Var v \<Rightarrow> v)"

lemma out_val_simps [simp]: "out_val (Var v) = v" "out_val Null = None"
  by (simp_all add: out_val_def)

definition sig_sigtype :: "openpgp_packet \<Rightarrow> u8" where
  "sig_sigtype p =
     (if plength p < 3 then 0xFF
      else if data p ! 0 = 3 then data p ! 2
      else if data p ! 0 = 4 \<or> data p ! 0 = 5 then data p ! 1
      else 0xFF)"

definition sig_is_revocation :: "u8 \<Rightarrow> bool" where
  "sig_is_revocation sigtype \<longleftrightarrow>
     sigtype = OPENPGP_SIGTYPE_KEY_REV \<or> sigtype = OPENPGP_SIGTYPE_SUBKEY_REV \<or>
     sigtype = OPENPGP_SIGTYPE_CERT_REV"

definition signatures_match_signer :: "openpgp_packet \<Rightarrow> openpgp_packet \<Rightarrow> bool option" where
  "signatures_match_signer a b =
     (if tag a \<noteq> OPENPGP_PACKET_SIGNATURE \<or> tag b \<noteq> OPENPGP_PACKET_SIGNATURE then Some False
      else do { va \<leftarrow> rd (data a) 0; vb \<leftarrow> rd (data b) 0;
                if va \<noteq> vb then Some False
                else if sig_sigtype a \<noteq> sig_sigtype b then Some False
                else do { (_, ka, _) \<leftarrow> sig_info a (Var None) Null;
                          (_, kb, _) \<leftarrow> sig_info b (Var None) Null;
                          a_keyid \<leftarrow> out_val ka;
                          if a_keyid = 0 then Some False
                          else do { b_keyid \<leftarrow> out_val kb;
                                    if b_keyid = 0 then Some False
                                    else Some (a_keyid = b_keyid) } } })"

text \<open>
  The inner loop of \<open>dedupe_sigs\<close>: the signatures after \<open>outer\<close>. The result is
  \<open>drop_outer\<close>, the signatures that stay, how many were dropped, and the two variables
  \<open>outer_t\<close> and \<open>inner_t\<close>, which keep their value where \<open>sig_info\<close> finds no creation time.
\<close>

fun dedupe_inner ::
    "openpgp_packet \<Rightarrow> openpgp_packet list \<Rightarrow> u64 out \<times> u64 out \<Rightarrow>
     (bool \<times> openpgp_packet list \<times> nat \<times> (u64 out \<times> u64 out)) option" where
  "dedupe_inner outer [] ts = Some (False, [], 0, ts)"
| "dedupe_inner outer (inner # l) ts =
     do { m \<leftarrow> signatures_match_signer outer inner;
          if \<not> m then
            do { (drop_outer, r, n, ts) \<leftarrow> dedupe_inner outer l ts;
                 Some (drop_outer, inner # r, n, ts) }
          else if sig_is_revocation (sig_sigtype outer) then
            do { (drop_outer, r, n, ts) \<leftarrow> dedupe_inner outer l ts;
                 Some (drop_outer, r, n + 1, ts) }
          else
            do { (_, _, ot) \<leftarrow> sig_info outer Null (fst ts);
                 (_, _, it) \<leftarrow> sig_info inner Null (snd ts);
                 inner_t \<leftarrow> out_val it; outer_t \<leftarrow> out_val ot;
                 if inner_t > outer_t then Some (True, inner # l, 0, (ot, it))
                 else do { (drop_outer, r, n, ts) \<leftarrow> dedupe_inner outer l (ot, it);
                           Some (drop_outer, r, n + 1, ts) } } }"

lemma dedupe_inner_length:
  "dedupe_inner outer l ts = Some (b, r, n, ts') \<Longrightarrow> length r + n = length l \<and> subseq r l"
proof (induction l arbitrary: ts b r n ts')
  case (Cons p l)
  from Cons.prems show ?case
    by (auto split: Option.bind_splits if_splits dest!: Cons.IH intro: list_emb_Cons)
       (rule list_emb_Cons, assumption)+
qed simp

function dedupe_loop ::
    "openpgp_packet list \<Rightarrow> u64 out \<times> u64 out \<Rightarrow> nat \<Rightarrow> (openpgp_packet list \<times> nat) option" where
  "dedupe_loop [] ts dropped = Some ([], dropped)"
| "dedupe_loop (outer # l) ts dropped =
     (case dedupe_inner outer l ts of
        None \<Rightarrow> None
      | Some (drop_outer, r, n, ts) \<Rightarrow>
          if drop_outer then dedupe_loop r ts (dropped + n + 1)
          else do { (l', dropped) \<leftarrow> dedupe_loop r ts (dropped + n); Some (outer # l', dropped) })"
  by pat_completeness auto
termination
  by (relation "measure (\<lambda>(l, ts, n). length l)") (auto dest!: dedupe_inner_length)

definition dedupe_sigs :: "openpgp_packet list \<Rightarrow> (openpgp_packet list \<times> nat) option" where
  "dedupe_sigs l = dedupe_loop l (Var None, Var None) 0"

section \<open>Finding packets\<close>

definition compare_signatures :: "openpgp_packet \<Rightarrow> openpgp_packet \<Rightarrow> bool option" where
  "compare_signatures a b =
     do { va \<leftarrow> rd (data a) 0; vb \<leftarrow> rd (data b) 0;
          if va \<noteq> vb then Some False
          else do { differ \<leftarrow> (if va = 4 then do { ta \<leftarrow> rd (data a) 1; tb \<leftarrow> rd (data b) 1; Some (ta \<noteq> tb) }
                               else Some False);
                    if differ then Some False
                    else do { (_, ka, ca) \<leftarrow> sig_info a (Var None) (Var None);
                              (_, kb, cb) \<leftarrow> sig_info b (Var None) (Var None);
                              a_creation \<leftarrow> out_val ca; b_creation \<leftarrow> out_val cb;
                              if a_creation = b_creation then
                                do { a_keyid \<leftarrow> out_val ka; b_keyid \<leftarrow> out_val kb;
                                     Some (a_keyid = b_keyid) }
                              else Some False } } }"

fun find_packet :: "openpgp_packet list \<Rightarrow> openpgp_packet \<Rightarrow> bool" where
  "find_packet [] p = False"
| "find_packet (q # l) p = (if compare_packets q p = 0 then True else find_packet l p)"

fun find_signature :: "openpgp_packet list \<Rightarrow> openpgp_packet \<Rightarrow> openpgp_packet option option" where
  "find_signature [] p = Some None"
| "find_signature (q # l) p =
     do { r \<leftarrow> compare_signatures q p; if r then Some (Some q) else find_signature l p }"

text \<open>The position of the packet in the list, where the C function returns a pointer to the node.\<close>

fun find_signed_packet :: "openpgp_signedpacket list \<Rightarrow> openpgp_packet \<Rightarrow> nat option" where
  "find_signed_packet [] p = None"
| "find_signed_packet (sp # l) p =
     (if compare_packets (sp_packet sp) p = 0 then Some 0 else map_option Suc (find_signed_packet l p))"

fun remove_signed_packet :: "openpgp_signedpacket list \<Rightarrow> openpgp_packet \<Rightarrow> openpgp_signedpacket list" where
  "remove_signed_packet [] p = []"
| "remove_signed_packet (sp # l) p =
     (if compare_packets (sp_packet sp) p = 0 then l else sp # remove_signed_packet l p)"

section \<open>Merging\<close>

text \<open>The loop that takes the signatures the old packet has already off the new one.\<close>

fun new_signatures :: "openpgp_packet list \<Rightarrow> openpgp_packet list \<Rightarrow> openpgp_packet list option" where
  "new_signatures old [] = Some []"
| "new_signatures old (p # l) =
     do { found \<leftarrow> find_signature old p;
          rest \<leftarrow> new_signatures old l;
          Some (if found \<noteq> None then rest else p # rest) }"

text \<open>The results are \<open>old\<close> and \<open>new\<close> after the call; a failed \<open>assert\<close> is \<open>None\<close>.\<close>

definition merge_packet_sigs ::
    "openpgp_signedpacket \<Rightarrow> openpgp_signedpacket \<Rightarrow> (openpgp_signedpacket \<times> openpgp_signedpacket) option" where
  "merge_packet_sigs old new =
     (if compare_packets (sp_packet old) (sp_packet new) \<noteq> 0 then None
      else do { rest \<leftarrow> new_signatures (sp_sigs old) (sp_sigs new);
                (merged, _) \<leftarrow> dedupe_sigs (packet_list_add (sp_sigs old) rest);
                Some (old\<lparr>sp_sigs := merged\<rparr>, new\<lparr>sp_sigs := rest\<rparr>) })"

text \<open>The first loop of \<open>merge_signed_packets\<close>, over the old list.\<close>

fun merge_common ::
    "openpgp_signedpacket list \<Rightarrow> openpgp_signedpacket list \<Rightarrow>
     (openpgp_signedpacket list \<times> openpgp_signedpacket list) option" where
  "merge_common [] new = Some ([], new)"
| "merge_common (curelem # old) new =
     do { (curelem, new) \<leftarrow>
            (case find_signed_packet new (sp_packet curelem) of
               None \<Rightarrow> Some (curelem, new)
             | Some i \<Rightarrow>
                 do { (curelem, newelem) \<leftarrow> merge_packet_sigs curelem (new ! i);
                      Some (curelem, if sp_sigs newelem = []
                                     then remove_signed_packet new (sp_packet newelem)
                                     else new[i := newelem]) });
          (old, new) \<leftarrow> merge_common old new;
          Some (curelem # old, new) }"

text \<open>The second loop, over what is left of the new list.\<close>

fun merge_added :: "openpgp_signedpacket list \<Rightarrow> openpgp_signedpacket list \<Rightarrow> openpgp_signedpacket list" where
  "merge_added old [] = old"
| "merge_added old (curelem # new) =
     (if find_signed_packet old (sp_packet curelem) = None
      then merge_added (old @ [\<lparr>sp_packet = packet_dup (sp_packet curelem),
                                sp_sigs = packet_list_add [] (sp_sigs curelem)\<rparr>]) new
      else merge_added old new)"

definition merge_signed_packets ::
    "openpgp_signedpacket list \<Rightarrow> openpgp_signedpacket list \<Rightarrow>
     (openpgp_signedpacket list \<times> openpgp_signedpacket list) option" where
  "merge_signed_packets old new =
     do { (old, new) \<leftarrow> merge_common old new; Some (merge_added old new, new) }"

text \<open>The result is the return code and the two keys after the call.\<close>

definition merge_keys ::
    "hash_funs \<Rightarrow> openpgp_publickey \<Rightarrow> openpgp_publickey \<Rightarrow>
     (int \<times> openpgp_publickey \<times> openpgp_publickey) option" where
  "merge_keys H a b =
     do { (rca, keya) \<leftarrow> get_keyid H a;
          if rca \<noteq> ONAK_E_OK then Some (1, a, b)
          else do { (rcb, keyb) \<leftarrow> get_keyid H b;
          if rcb \<noteq> ONAK_E_OK then Some (1, a, b)
          else do {
            (rc, a, b) \<leftarrow>
              (if keya \<noteq> keyb then Some (-1, a, b)
               else do { let rest = filter (\<lambda>p. \<not> find_packet (sigs a) p) (sigs b);
                         (ua, ub) \<leftarrow> merge_signed_packets (uids a) (uids b);
                         (sa, sb) \<leftarrow> merge_signed_packets (subkeys a) (subkeys b);
                         Some (0, a\<lparr>sigs := packet_list_add (sigs a) rest, uids := ua, subkeys := sa\<rparr>,
                                  b\<lparr>sigs := rest, uids := ub, subkeys := sb\<rparr>) });
            Some (if revoked a \<or> revoked b
                  then (rc, a\<lparr>revoked := True\<rparr>, b\<lparr>revoked := True\<rparr>) else (rc, a, b)) } } }"

section \<open>Signatures with an issuer and a creation time\<close>

definition sig_fields :: "openpgp_packet \<Rightarrow> (u64 \<times> u64) option" where
  "sig_fields p =
     (case sig_info p (Var None) (Var None) of
        Some (_, Var (Some k), Var (Some c)) \<Rightarrow> Some (k, c) | _ \<Rightarrow> None)"

text \<open>
  A regular signature: a signature packet that \<open>sig_info\<close> can read and that states an issuer
  (possibly 0, if it has none) and a creation time.
\<close>

definition regular :: "openpgp_packet \<Rightarrow> bool" where
  "regular p \<longleftrightarrow> tag p = OPENPGP_PACKET_SIGNATURE \<and> 2 \<le> plength p \<and> sig_fields p \<noteq> None"

definition issuer :: "openpgp_packet \<Rightarrow> u64" where
  "issuer p = fst (the (sig_fields p))"

definition created :: "openpgp_packet \<Rightarrow> u64" where
  "created p = snd (the (sig_fields p))"

text \<open>The same signer makes a signature of the same version and type.\<close>

definition same_signer :: "openpgp_packet \<Rightarrow> openpgp_packet \<Rightarrow> bool" where
  "same_signer a b \<longleftrightarrow> data a ! 0 = data b ! 0 \<and> sig_sigtype a = sig_sigtype b \<and>
     issuer a = issuer b \<and> issuer a \<noteq> 0"

definition same_signature :: "openpgp_packet \<Rightarrow> openpgp_packet \<Rightarrow> bool" where
  "same_signature a b \<longleftrightarrow> data a ! 0 = data b ! 0 \<and> (data a ! 0 = 4 \<longrightarrow> data a ! 1 = data b ! 1) \<and>
     created a = created b \<and> issuer a = issuer b"

lemma same_signer_sym: "same_signer a b \<Longrightarrow> same_signer b a"
  by (auto simp: same_signer_def)

lemma same_signer_trans: "same_signer a b \<Longrightarrow> same_signer b c \<Longrightarrow> same_signer a c"
  by (auto simp: same_signer_def)

lemma regular_sig_info:
  assumes "regular p"
  shows "\<exists>rc. sig_info p k c = Some (rc, over k (Var (Some (issuer p))), over c (Var (Some (created p))))"
proof -
  obtain rc where "sig_info p (Var None) (Var None) = Some (rc, Var (Some (issuer p)), Var (Some (created p)))"
    using assms by (auto simp: regular_def sig_fields_def issuer_def created_def
        split: option.splits out.splits)
  from sig_info_over [OF this] show ?thesis by blast
qed

lemma regular_rd: "regular p \<Longrightarrow> rd (data p) 0 = Some (data p ! 0) \<and> rd (data p) 1 = Some (data p ! 1)"
  by (auto simp: regular_def plength_def rd_def)

lemma match_signer_regular:
  assumes "regular a" and "regular b"
  shows "signatures_match_signer a b = Some (same_signer a b)"
proof -
  obtain rc rc' where "sig_info a (Var None) Null = Some (rc, Var (Some (issuer a)), Null)"
      "sig_info b (Var None) Null = Some (rc', Var (Some (issuer b)), Null)"
    using regular_sig_info [OF assms(1), of "Var None" Null] regular_sig_info [OF assms(2), of "Var None" Null]
    by auto
  then show ?thesis
    using regular_rd [OF assms(1)] regular_rd [OF assms(2)] assms
    by (auto simp: signatures_match_signer_def same_signer_def regular_def)
qed

lemma compare_signatures_regular:
  assumes "regular a" and "regular b"
  shows "compare_signatures a b = Some (same_signature a b)"
proof -
  obtain rc rc' where
    "sig_info a (Var None) (Var None) = Some (rc, Var (Some (issuer a)), Var (Some (created a)))"
    "sig_info b (Var None) (Var None) = Some (rc', Var (Some (issuer b)), Var (Some (created b)))"
    using regular_sig_info [OF assms(1), of "Var None" "Var None"]
      regular_sig_info [OF assms(2), of "Var None" "Var None"]
    by auto
  then show ?thesis
    using regular_rd [OF assms(1)] regular_rd [OF assms(2)]
    by (auto simp: compare_signatures_def same_signature_def)
qed

section \<open>What dedupe\_sigs keeps\<close>

text \<open>
  \<open>outranks a b\<close>: \<open>b\<close> may be dropped in favour of \<open>a\<close>, a signature of the same signer that is
  not older (or a revocation, where the first one counts).
\<close>

definition outranks :: "openpgp_packet \<Rightarrow> openpgp_packet \<Rightarrow> bool" where
  "outranks a b \<longleftrightarrow> same_signer a b \<and> (sig_is_revocation (sig_sigtype b) \<or> created b \<le> created a)"

lemma outranks_trans: "outranks a b \<Longrightarrow> outranks b c \<Longrightarrow> outranks a c"
  by (auto simp: outranks_def same_signer_def)

text \<open>What the inner loop promises: \<open>f\<close> is \<open>drop_outer\<close>, \<open>r\<close> what stays of \<open>l\<close>.\<close>

definition inner_spec :: "openpgp_packet \<Rightarrow> openpgp_packet list \<Rightarrow> bool \<Rightarrow> openpgp_packet list \<Rightarrow> bool" where
  "inner_spec outer l f r \<longleftrightarrow>
     filter (\<lambda>p. \<not> same_signer outer p) r = filter (\<lambda>p. \<not> same_signer outer p) l \<and>
     (\<forall>p \<in> set l. p \<in> set r \<or> outranks outer p) \<and>
     (f \<longrightarrow> \<not> sig_is_revocation (sig_sigtype outer) \<and> (\<exists>p \<in> set r. outranks p outer)) \<and>
     (\<not> f \<longrightarrow> (\<forall>p \<in> set r. \<not> same_signer outer p))"

lemma inner_spec_Nil: "inner_spec outer [] False []"
  by (simp add: inner_spec_def)

lemma inner_spec_keep: "inner_spec outer l f r \<Longrightarrow> \<not> same_signer outer p \<Longrightarrow> inner_spec outer (p # l) f (p # r)"
  by (auto simp: inner_spec_def)

lemma inner_spec_drop: "inner_spec outer l f r \<Longrightarrow> outranks outer p \<Longrightarrow> inner_spec outer (p # l) f r"
  by (auto simp: inner_spec_def outranks_def)

lemma inner_spec_newer:
  "outranks p outer \<Longrightarrow> \<not> sig_is_revocation (sig_sigtype outer) \<Longrightarrow> inner_spec outer (p # l) True (p # l)"
  by (auto simp: inner_spec_def)

lemma dedupe_inner_spec:
  assumes "regular outer" and "\<forall>p \<in> set l. regular p"
    and "fst ts \<noteq> Null" and "snd ts \<noteq> Null"
  shows "\<exists>f r n ts'. dedupe_inner outer l ts = Some (f, r, n, ts') \<and> fst ts' \<noteq> Null \<and> snd ts' \<noteq> Null \<and>
    inner_spec outer l f r"
  using assms(2-4)
proof (induction l arbitrary: ts)
  case Nil
  then show ?case using inner_spec_Nil by auto
next
  case (Cons p l)
  have p: "regular p" and l: "\<forall>p \<in> set l. regular p" using Cons.prems by simp_all
  note m = match_signer_regular [OF assms(1) p]
  obtain f r n ts' where IH: "dedupe_inner outer l ts = Some (f, r, n, ts')" "fst ts' \<noteq> Null" "snd ts' \<noteq> Null"
      "inner_spec outer l f r"
    using Cons.IH [OF l Cons.prems(2,3)] by blast
  consider (keep) "\<not> same_signer outer p"
    | (rev) "same_signer outer p" "sig_is_revocation (sig_sigtype outer)"
    | (cert) "same_signer outer p" "\<not> sig_is_revocation (sig_sigtype outer)" by blast
  then show ?case
  proof cases
    case keep
    then show ?thesis using IH m inner_spec_keep by simp
  next
    case rev
    then have "outranks outer p" by (auto simp: outranks_def same_signer_def)
    then show ?thesis using IH m rev inner_spec_drop by simp
  next
    case cert
    let ?ot = "Var (Some (created outer))" and ?it = "Var (Some (created p))"
    obtain rc rc' where i: "sig_info outer Null (fst ts) = Some (rc, Null, ?ot)"
        "sig_info p Null (snd ts) = Some (rc', Null, ?it)"
      using regular_sig_info [OF assms(1), of Null "fst ts"] regular_sig_info [OF p, of Null "snd ts"]
        Cons.prems(2,3) by (cases "fst ts"; cases "snd ts") auto
    show ?thesis
    proof (cases "created outer < created p")
      case True
      then have "outranks p outer" using cert by (auto simp: outranks_def same_signer_def)
      then show ?thesis using True m cert i inner_spec_newer by auto
    next
      case False
      then have "outranks outer p" using cert by (simp add: outranks_def not_less)
      moreover obtain f r n ts' where "dedupe_inner outer l (?ot, ?it) = Some (f, r, n, ts')"
          "fst ts' \<noteq> Null" "snd ts' \<noteq> Null" "inner_spec outer l f r"
        using Cons.IH [OF l, of "(?ot, ?it)"] by auto
      ultimately show ?thesis using m cert i False inner_spec_drop by simp
    qed
  qed
qed

text \<open>What \<open>dedupe_sigs\<close> promises of the list it leaves.\<close>

definition dedupe_spec :: "openpgp_packet list \<Rightarrow> openpgp_packet list \<Rightarrow> bool" where
  "dedupe_spec l r \<longleftrightarrow> subseq r l \<and> sorted_wrt (\<lambda>a b. \<not> same_signer a b) r \<and>
     (\<forall>p \<in> set l. p \<in> set r \<or> (\<exists>q \<in> set r. outranks q p)) \<and>
     (\<forall>p \<in> set l. sig_is_revocation (sig_sigtype p) \<and> issuer p \<noteq> 0 \<longrightarrow>
        hd (filter (same_signer p) l) \<in> set r)"

lemma same_signer_refl: "issuer p \<noteq> 0 \<Longrightarrow> same_signer p p"
  by (simp add: same_signer_def)

text \<open>The first match of another signer is not touched by the inner loop.\<close>

lemma inner_spec_other:
  assumes "inner_spec outer l f r" and "\<not> same_signer outer p"
  shows "filter (same_signer p) r = filter (same_signer p) l"
proof -
  have "\<not> same_signer outer q" if "same_signer p q" for q
    using that assms(2) same_signer_trans [of outer q p] same_signer_sym by metis
  then have "filter (same_signer p) xs = filter (same_signer p) (filter (\<lambda>q. \<not> same_signer outer q) xs)" for xs
    by (induction xs) auto
  then show ?thesis using assms(1) by (metis inner_spec_def)
qed

lemma dedupe_spec_keep:
  assumes "inner_spec outer l False r" and "subseq r l" and "dedupe_spec r r'"
  shows "dedupe_spec (outer # l) (outer # r')"
proof -
  have sub: "set r' \<subseteq> set r" using assms(3) by (auto simp: dedupe_spec_def dest: list_emb_set)
  have first: "hd (filter (same_signer p) (outer # l)) \<in> set (outer # r')"
    if "p \<in> set (outer # l)" "sig_is_revocation (sig_sigtype p)" "issuer p \<noteq> 0" for p
  proof (cases "same_signer p outer")
    case False
    then have "\<not> same_signer outer p" using same_signer_sym by blast
    moreover from this that have "p \<in> set r"
      using assms(1) same_signer_refl by (auto simp: inner_spec_def outranks_def)
    ultimately show ?thesis using False that assms(3) inner_spec_other [OF assms(1), of p]
      by (auto simp: dedupe_spec_def)
  qed simp
  have "\<forall>p \<in> set (outer # l). p \<in> set (outer # r') \<or> (\<exists>q \<in> set (outer # r'). outranks q p)"
    using assms(1,3) by (auto simp: inner_spec_def dedupe_spec_def)
  moreover have "subseq (outer # r') (outer # l)"
    using assms(2,3) by (auto simp: dedupe_spec_def intro: subseq_order.trans)
  moreover have "\<forall>b \<in> set r'. \<not> same_signer outer b" using assms(1) sub by (auto simp: inner_spec_def)
  ultimately show ?thesis using first assms(3) by (auto simp: dedupe_spec_def)
qed

lemma dedupe_spec_drop:
  assumes "inner_spec outer l True r" and "subseq r l" and "dedupe_spec r r'"
  shows "dedupe_spec (outer # l) r'"
proof -
  obtain q where q: "q \<in> set r" "outranks q outer" and nr: "\<not> sig_is_revocation (sig_sigtype outer)"
    using assms(1) by (auto simp: inner_spec_def)
  have rep: "\<exists>q' \<in> set r'. outranks q' p" if "outranks outer p \<or> p = outer" for p
    using that q assms(3) outranks_trans unfolding dedupe_spec_def by metis
  have first: "hd (filter (same_signer p) (outer # l)) \<in> set r'"
    if "p \<in> set (outer # l)" "sig_is_revocation (sig_sigtype p)" "issuer p \<noteq> 0" for p
  proof -
    have d: "\<not> same_signer p outer" "\<not> same_signer outer p"
      using that(2) nr by (auto simp: same_signer_def)
    then have "p \<in> set r" using that assms(1) nr by (auto simp: inner_spec_def outranks_def)
    then show ?thesis using d that assms(3) inner_spec_other [OF assms(1) d(2)]
      by (auto simp: dedupe_spec_def)
  qed
  have "\<forall>p \<in> set (outer # l). p \<in> set r' \<or> (\<exists>q \<in> set r'. outranks q p)"
    using assms(1,3) rep by (auto simp: inner_spec_def dedupe_spec_def)
  moreover have "subseq r' (outer # l)"
    using assms(2,3) by (auto simp: dedupe_spec_def intro: subseq_order.trans list_emb_Cons)
  ultimately show ?thesis using first assms(3) by (auto simp: dedupe_spec_def)
qed

lemma dedupe_loop_spec:
  "\<forall>p \<in> set l. regular p \<Longrightarrow> fst ts \<noteq> Null \<Longrightarrow> snd ts \<noteq> Null \<Longrightarrow>
   \<exists>r. dedupe_loop l ts n = Some (r, n + length l - length r) \<and> dedupe_spec l r"
proof (induction l arbitrary: ts n rule: length_induct)
  case (1 l)
  show ?case
  proof (cases l)
    case Nil
    then show ?thesis by (simp add: dedupe_spec_def)
  next
    case (Cons outer l')
    then have "regular outer" "\<forall>p \<in> set l'. regular p" using "1.prems" by simp_all
    from dedupe_inner_spec [OF this "1.prems"(2,3)]
    obtain f r k ts' where i: "dedupe_inner outer l' ts = Some (f, r, k, ts')" "fst ts' \<noteq> Null"
        "snd ts' \<noteq> Null" "inner_spec outer l' f r" by blast
    have len: "length r + k = length l'" and sub: "subseq r l'"
      using dedupe_inner_length [OF i(1)] by simp_all
    then have "length r < length l" "\<forall>p \<in> set r. regular p"
      using "1.prems"(1) Cons by (auto dest: list_emb_set)
    then have IH: "\<exists>r'. dedupe_loop r ts' m = Some (r', m + length r - length r') \<and> dedupe_spec r r'" for m
      using "1.IH" i(2,3) by blast
    show ?thesis
    proof (cases f)
      case True
      obtain r' where "dedupe_loop r ts' (n + k + 1) = Some (r', n + k + 1 + length r - length r')"
          "dedupe_spec r r'" using IH by blast
      then show ?thesis
        using Cons i(1) True len dedupe_spec_drop [of outer l' r r'] i(4) sub by (simp add: ac_simps)
    next
      case False
      obtain r' where r': "dedupe_loop r ts' (n + k) = Some (r', n + k + length r - length r')"
          "dedupe_spec r r'" using IH by blast
      have "length r' \<le> length r" using r'(2) by (auto simp: dedupe_spec_def dest: list_emb_length)
      then show ?thesis
        using Cons i(1) False len dedupe_spec_keep [of outer l' r r'] i(4) sub r' by (simp add: ac_simps)
    qed
  qed
qed

lemma dedupe_sigs_spec:
  assumes "\<forall>p \<in> set l. regular p"
  shows "\<exists>r. dedupe_sigs l = Some (r, length l - length r) \<and> dedupe_spec l r"
  using dedupe_loop_spec [OF assms, of "(Var None, Var None)" 0] by (simp add: dedupe_sigs_def)

text \<open>A list with at most one signature of every signer stays as it is.\<close>

definition one_per_signer :: "openpgp_packet list \<Rightarrow> bool" where
  "one_per_signer l \<longleftrightarrow> sorted_wrt (\<lambda>a b. \<not> same_signer a b) l"

lemma dedupe_inner_none:
  "regular outer \<Longrightarrow> \<forall>p \<in> set l. regular p \<and> \<not> same_signer outer p \<Longrightarrow>
   dedupe_inner outer l ts = Some (False, l, 0, ts)"
  by (induction l) (auto simp: match_signer_regular)

lemma dedupe_loop_none:
  "\<forall>p \<in> set l. regular p \<Longrightarrow> one_per_signer l \<Longrightarrow> dedupe_loop l ts n = Some (l, n)"
  by (induction l arbitrary: ts n) (auto simp: one_per_signer_def dedupe_inner_none)

lemma dedupe_sigs_none: "\<forall>p \<in> set l. regular p \<Longrightarrow> one_per_signer l \<Longrightarrow> dedupe_sigs l = Some (l, 0)"
  by (simp add: dedupe_sigs_def dedupe_loop_none)

section \<open>Merging as an operation on lists\<close>

definition pkey :: "openpgp_signedpacket \<Rightarrow> nat \<times> bytes" where
  "pkey sp = (tag (sp_packet sp), data (sp_packet sp))"

text \<open>The lists the program merges: no packet twice, regular signatures.\<close>

definition mergeable :: "openpgp_signedpacket list \<Rightarrow> bool" where
  "mergeable l \<longleftrightarrow> distinct (map pkey l) \<and> (\<forall>sp \<in> set l. \<forall>p \<in> set (sp_sigs sp). regular p)"

definition fresh :: "openpgp_packet list \<Rightarrow> openpgp_packet list \<Rightarrow> openpgp_packet list" where
  "fresh old l = filter (\<lambda>p. \<not> (\<exists>q \<in> set old. same_signature q p)) l"

definition deduped :: "openpgp_packet list \<Rightarrow> openpgp_packet list" where
  "deduped l = fst (the (dedupe_sigs l))"

definition merged_with :: "openpgp_signedpacket list \<Rightarrow> openpgp_signedpacket \<Rightarrow> openpgp_signedpacket" where
  "merged_with new c =
     (case find (\<lambda>n. pkey n = pkey c) new of
        None \<Rightarrow> c
      | Some n \<Rightarrow> c\<lparr>sp_sigs := deduped (sp_sigs c @ fresh (sp_sigs c) (sp_sigs n))\<rparr>)"

definition difference_to :: "openpgp_signedpacket list \<Rightarrow> openpgp_signedpacket \<Rightarrow> openpgp_signedpacket list" where
  "difference_to old n =
     (case find (\<lambda>c. pkey c = pkey n) old of
        None \<Rightarrow> [n]
      | Some c \<Rightarrow> (let r = fresh (sp_sigs c) (sp_sigs n)
                  in if r = [] then [] else [n\<lparr>sp_sigs := r\<rparr>]))"

lemma compare_packets_eq: "compare_packets a b = 0 \<longleftrightarrow> (tag a, data a) = (tag b, data b)"
  using packet_order.cmp_zero by simp

lemma find_packet_iff: "find_packet l p \<longleftrightarrow> (tag p, data p) \<in> set (map (\<lambda>q. (tag q, data q)) l)"
  by (induction l) (auto simp: compare_packets_eq)

lemma find_signature_regular:
  "\<forall>q \<in> set l. regular q \<Longrightarrow> regular p \<Longrightarrow>
   \<exists>r. find_signature l p = Some r \<and> (r \<noteq> None \<longleftrightarrow> (\<exists>q \<in> set l. same_signature q p))"
  by (induction l) (auto simp: compare_signatures_regular)

lemma new_signatures_regular:
  "\<forall>q \<in> set old. regular q \<Longrightarrow> \<forall>p \<in> set l. regular p \<Longrightarrow> new_signatures old l = Some (fresh old l)"
proof (induction l)
  case (Cons p l)
  then show ?case using find_signature_regular [of old p] by (auto simp: fresh_def)
qed (simp add: fresh_def)

lemma deduped_eq: "\<forall>p \<in> set l. regular p \<Longrightarrow> \<exists>n. dedupe_sigs l = Some (deduped l, n)"
  using dedupe_sigs_spec [of l] by (auto simp: deduped_def)

lemma deduped_spec: "\<forall>p \<in> set l. regular p \<Longrightarrow> dedupe_spec l (deduped l)"
  using dedupe_sigs_spec [of l] by (auto simp: deduped_def)

lemma fresh_subset: "set (fresh old l) \<subseteq> set l"
  by (auto simp: fresh_def)

lemma merge_packet_sigs_regular:
  assumes "pkey c = pkey n" and "\<forall>p \<in> set (sp_sigs c). regular p" and "\<forall>p \<in> set (sp_sigs n). regular p"
  shows "merge_packet_sigs c n = Some
    (c\<lparr>sp_sigs := deduped (sp_sigs c @ fresh (sp_sigs c) (sp_sigs n))\<rparr>,
     n\<lparr>sp_sigs := fresh (sp_sigs c) (sp_sigs n)\<rparr>)"
proof -
  have "\<forall>p \<in> set (sp_sigs c @ fresh (sp_sigs c) (sp_sigs n)). regular p"
    using assms(2,3) by (auto simp: fresh_def)
  from deduped_eq [OF this] show ?thesis
    using assms by (auto simp: merge_packet_sigs_def compare_packets_eq pkey_def new_signatures_regular)
qed

lemma find_signed_packet_find:
  "find_signed_packet l (sp_packet c) = None \<longleftrightarrow> find (\<lambda>n. pkey n = pkey c) l = None"
  "find_signed_packet l (sp_packet c) = Some i \<Longrightarrow> find (\<lambda>n. pkey n = pkey c) l = Some (l ! i) \<and> i < length l \<and>
     pkey (l ! i) = pkey c"
proof -
  show "find_signed_packet l (sp_packet c) = None \<longleftrightarrow> find (\<lambda>n. pkey n = pkey c) l = None"
    by (induction l) (auto simp: compare_packets_eq pkey_def)
  show "find_signed_packet l (sp_packet c) = Some i \<Longrightarrow> find (\<lambda>n. pkey n = pkey c) l = Some (l ! i) \<and> i < length l \<and>
     pkey (l ! i) = pkey c"
    by (induction l arbitrary: i) (auto simp: compare_packets_eq pkey_def split: if_splits)
qed

text \<open>The difference to one old packet, and how it composes to the difference to all.\<close>

lemma difference_to_one:
  "difference_to [c] n =
     (if pkey c = pkey n
      then if fresh (sp_sigs c) (sp_sigs n) = [] then [] else [n\<lparr>sp_sigs := fresh (sp_sigs c) (sp_sigs n)\<rparr>]
      else [n])"
  by (simp add: difference_to_def Let_def)

lemma pkey_sigs_update [simp]: "pkey (n\<lparr>sp_sigs := l\<rparr>) = pkey n"
  by (simp add: pkey_def)

lemma difference_to_Cons:
  "pkey c \<notin> pkey ` set old \<Longrightarrow>
   concat (map (difference_to old) (difference_to [c] n)) = difference_to (c # old) n"
proof (cases "pkey c = pkey n")
  case True
  assume "pkey c \<notin> pkey ` set old"
  then have "find (\<lambda>c. pkey c = pkey n) old = None" using True image_neq by (force simp: find_None_iff)
  then show ?thesis using True by (simp add: difference_to_one) (simp add: difference_to_def Let_def)
qed (simp add: difference_to_one, simp add: difference_to_def)

lemma find_difference:
  "k \<noteq> pkey c \<Longrightarrow> find (\<lambda>n. pkey n = k) (concat (map (difference_to [c]) new)) = find (\<lambda>n. pkey n = k) new"
  by (induction new) (auto simp: difference_to_one)

lemma merged_with_difference:
  "pkey c' \<noteq> pkey c \<Longrightarrow> merged_with (concat (map (difference_to [c]) new)) c' = merged_with new c'"
  by (simp add: merged_with_def find_difference)

lemma difference_elem:
  "n' \<in> set (difference_to old n) \<Longrightarrow> pkey n' = pkey n \<and> set (sp_sigs n') \<subseteq> set (sp_sigs n)"
  by (auto simp: difference_to_def Let_def fresh_def split: option.splits if_splits)

lemma difference_length: "length (difference_to old n) \<le> 1"
  by (auto simp: difference_to_def Let_def split: option.split)

lemma mergeable_difference: "mergeable new \<Longrightarrow> mergeable (concat (map (difference_to old) new))"
proof (induction new)
  case (Cons n new)
  have "distinct (map pkey (difference_to old n))"
    using difference_length [of old n] by (cases "difference_to old n") auto
  moreover have "mergeable new" "pkey n \<notin> pkey ` set new" using Cons.prems by (auto simp: mergeable_def)
  moreover have "mergeable (concat (map (difference_to old) new))" using Cons by (simp add: mergeable_def)
  moreover have "\<forall>m \<in> set new. \<forall>n' \<in> set (difference_to old m). pkey n' \<noteq> pkey n"
    using calculation(3) difference_elem image_neq by fastforce
  moreover have "\<forall>n' \<in> set (difference_to old n). pkey n' = pkey n \<and> (\<forall>p \<in> set (sp_sigs n'). regular p)"
    using Cons.prems difference_elem [of _ old n] by (fastforce simp: mergeable_def)
  ultimately show ?case unfolding mergeable_def by (auto dest: sym)
qed (simp add: mergeable_def)

lemma remove_signed_packet_nth:
  "distinct (map pkey l) \<Longrightarrow> i < length l \<Longrightarrow> (tag p, data p) = pkey (l ! i) \<Longrightarrow>
   remove_signed_packet l p = take i l @ drop (Suc i) l"
proof (induction l arbitrary: i)
  case (Cons sp l)
  show ?case
  proof (cases i)
    case 0
    then show ?thesis using Cons.prems by (simp add: compare_packets_eq pkey_def)
  next
    case (Suc j)
    then have "l ! j \<in> set l" "pkey sp \<notin> pkey ` set l" using Cons.prems by simp_all
    then have "pkey (l ! j) \<noteq> pkey sp" by (intro image_neq)
    then have "compare_packets (sp_packet sp) p \<noteq> 0"
      using Cons.prems(3) Suc by (simp add: compare_packets_eq pkey_def [of sp])
    then show ?thesis using Suc Cons by simp
  qed
qed simp

lemma difference_nth:
  assumes "distinct (map pkey new)" and "i < length new" and "pkey (new ! i) = pkey c"
  shows "concat (map (difference_to [c]) new) =
    (if fresh (sp_sigs c) (sp_sigs (new ! i)) = [] then take i new @ drop (Suc i) new
     else new[i := (new ! i)\<lparr>sp_sigs := fresh (sp_sigs c) (sp_sigs (new ! i))\<rparr>])"
proof -
  let ?n = "new ! i"
  have new: "new = take i new @ ?n # drop (Suc i) new" using assms(2) by (rule id_take_nth_drop)
  have same: "concat (map (difference_to [c]) l) = l" if "pkey c \<notin> pkey ` set l" for l
    using that by (induction l) (auto simp: difference_to_one)
  have "distinct (map pkey (take i new @ ?n # drop (Suc i) new))" using assms(1) new by simp
  then have out: "pkey c \<notin> pkey ` set (take i new)" "pkey c \<notin> pkey ` set (drop (Suc i) new)"
    using assms(3) by auto
  have "concat (map (difference_to [c]) new) =
      concat (map (difference_to [c]) (take i new @ ?n # drop (Suc i) new))" using new by simp
  also have "\<dots> = take i new @ difference_to [c] ?n @ drop (Suc i) new"
    using same [OF out(1)] same [OF out(2)] by simp
  finally show ?thesis
    using assms(2,3) by (simp add: difference_to_one upd_conv_take_nth_drop)
qed

lemma merge_common_spec:
  "mergeable old \<Longrightarrow> mergeable new \<Longrightarrow>
   merge_common old new = Some (map (merged_with new) old, concat (map (difference_to old) new))"
proof (induction old arbitrary: new)
  case Nil
  have "concat (map (difference_to []) l) = l" for l by (induction l) (auto simp: difference_to_def)
  then show ?case by simp
next
  case (Cons c old)
  let ?new1 = "concat (map (difference_to [c]) new)"
  have old: "mergeable old" and c: "pkey c \<notin> pkey ` set old" and rc: "\<forall>p \<in> set (sp_sigs c). regular p"
    using Cons.prems(1) by (auto simp: mergeable_def)
  have step: "(case find_signed_packet new (sp_packet c) of None \<Rightarrow> Some (c, new)
      | Some i \<Rightarrow> do { (curelem, newelem) \<leftarrow> merge_packet_sigs c (new ! i);
                      Some (curelem, if sp_sigs newelem = [] then remove_signed_packet new (sp_packet newelem)
                                     else new[i := newelem]) }) = Some (merged_with new c, ?new1)"
  proof (cases "find_signed_packet new (sp_packet c)")
    case None
    then have "find (\<lambda>n. pkey n = pkey c) new = None" by (simp add: find_signed_packet_find)
    moreover from this have "?new1 = new" by (induction new) (auto simp: difference_to_one split: if_splits)
    ultimately show ?thesis using None by (simp add: merged_with_def)
  next
    case (Some i)
    have f: "find (\<lambda>n. pkey n = pkey c) new = Some (new ! i)" "i < length new" "pkey (new ! i) = pkey c"
      using find_signed_packet_find(2) [OF Some] by simp_all
    have "merge_packet_sigs c (new ! i) = Some
        (c\<lparr>sp_sigs := deduped (sp_sigs c @ fresh (sp_sigs c) (sp_sigs (new ! i)))\<rparr>,
         (new ! i)\<lparr>sp_sigs := fresh (sp_sigs c) (sp_sigs (new ! i))\<rparr>)"
      using f Cons.prems(2) rc by (intro merge_packet_sigs_regular) (auto simp: mergeable_def)
    moreover have "remove_signed_packet new (sp_packet (new ! i)) = take i new @ drop (Suc i) new"
      using Cons.prems(2) f by (intro remove_signed_packet_nth) (auto simp: mergeable_def pkey_def)
    ultimately show ?thesis
      using Some f difference_nth [of new i c] Cons.prems(2) by (simp add: merged_with_def mergeable_def)
  qed
  have "map (merged_with ?new1) old = map (merged_with new) old"
    using c by (intro map_cong refl merged_with_difference) (rule image_neq)
  moreover have "concat (map (difference_to old) ?new1) = concat (map (difference_to (c # old)) new)"
    using difference_to_Cons [OF c] by (induction new) simp_all
  ultimately have "merge_common old ?new1 =
      Some (map (merged_with new) old, concat (map (difference_to (c # old)) new))"
    using Cons.IH [OF old mergeable_difference [OF Cons.prems(2)], of "[c]"] by simp
  then show ?case unfolding merge_common.simps step by simp
qed

lemma find_signed_packet_None: "find_signed_packet l (sp_packet c) = None \<longleftrightarrow> pkey c \<notin> pkey ` set l"
  by (induction l) (auto simp: compare_packets_eq pkey_def)

lemma merge_added_spec:
  "distinct (map pkey new) \<Longrightarrow> merge_added old new = old @ filter (\<lambda>n. pkey n \<notin> pkey ` set old) new"
proof (induction new arbitrary: old)
  case (Cons n new)
  have n: "\<lparr>sp_packet = sp_packet n, sp_sigs = sp_sigs n\<rparr> = n" by simp
  have "pkey n \<notin> pkey ` set new" using Cons.prems by simp
  then have "filter (\<lambda>m. pkey m \<notin> pkey ` set (old @ [n])) new = filter (\<lambda>m. pkey m \<notin> pkey ` set old) new"
    using image_neq by (intro filter_cong) fastforce+
  then show ?case using Cons by (simp add: find_signed_packet_None n)
qed simp

lemma pkey_merged_with [simp]: "pkey (merged_with new c) = pkey c"
  by (simp add: merged_with_def split: option.split)

lemma filter_difference:
  "filter (\<lambda>n. pkey n \<notin> pkey ` set old) (concat (map (difference_to old) new)) =
   filter (\<lambda>n. pkey n \<notin> pkey ` set old) new"
proof (induction new)
  case (Cons n new)
  have "filter (\<lambda>m. pkey m \<notin> pkey ` set old) (difference_to old n) =
      (if pkey n \<notin> pkey ` set old then [n] else [])"
  proof (cases "pkey n \<in> pkey ` set old")
    case True
    then show ?thesis using difference_elem [of _ old n] by (auto simp: filter_empty_conv)
  next
    case False
    then have "find (\<lambda>c. pkey c = pkey n) old = None" using image_neq by (force simp: find_None_iff)
    then show ?thesis using False by (simp add: difference_to_def)
  qed
  then show ?case using Cons by simp
qed simp

text \<open>
  Merging two lists: the old packets in their order, each with its new signatures, then the
  packets only the new list has; what is left in the new list is what the old one lacked.
\<close>

definition merge_lists :: "openpgp_signedpacket list \<Rightarrow> openpgp_signedpacket list \<Rightarrow> openpgp_signedpacket list" where
  "merge_lists old new = map (merged_with new) old @ filter (\<lambda>n. pkey n \<notin> pkey ` set old) new"

definition difference :: "openpgp_signedpacket list \<Rightarrow> openpgp_signedpacket list \<Rightarrow> openpgp_signedpacket list" where
  "difference old new = concat (map (difference_to old) new)"

lemma merge_signed_packets_eq:
  assumes "mergeable old" and "mergeable new"
  shows "merge_signed_packets old new = Some (merge_lists old new, difference old new)"
proof -
  have "distinct (map pkey (difference old new))"
    using mergeable_difference [OF assms(2)] by (simp add: mergeable_def difference_def)
  then have "merge_added (map (merged_with new) old) (difference old new) = merge_lists old new"
    by (simp add: merge_added_spec merge_lists_def difference_def filter_difference image_image)
  then show ?thesis
    by (simp add: merge_signed_packets_def merge_common_spec [OF assms] difference_def)
qed

section \<open>The difference is enough, and nothing twice\<close>

text \<open>A list every signature of which is the only one of its signer.\<close>

definition tidy :: "openpgp_signedpacket list \<Rightarrow> bool" where
  "tidy l \<longleftrightarrow> mergeable l \<and> (\<forall>sp \<in> set l. one_per_signer (sp_sigs sp))"

lemma fresh_fresh: "fresh old (fresh old l) = fresh old l"
  by (simp add: fresh_def)

lemma fresh_self: "fresh l l = []"
  by (auto simp: fresh_def filter_empty_conv same_signature_def)

lemma deduped_tidy: "tidy l \<Longrightarrow> c \<in> set l \<Longrightarrow> deduped (sp_sigs c) = sp_sigs c"
  by (auto simp: tidy_def mergeable_def deduped_def dedupe_sigs_none)

lemma find_concat_difference:
  assumes "distinct (map pkey old)" and "c \<in> set old" and "distinct (map pkey new)"
  shows "find (\<lambda>n. pkey n = pkey c) (difference old new) =
    (case find (\<lambda>n. pkey n = pkey c) new of
       None \<Rightarrow> None
     | Some n \<Rightarrow> (let r = fresh (sp_sigs c) (sp_sigs n) in if r = [] then None else Some (n\<lparr>sp_sigs := r\<rparr>)))"
  using assms(3)
proof (induction new)
  case Nil
  then show ?case by (simp add: difference_def)
next
  case (Cons n new)
  have other: "find (\<lambda>m. pkey m = pkey c) (difference_to old n) = None" if "pkey n \<noteq> pkey c"
    using that difference_elem [of _ old n] by (auto simp: find_None_iff)
  have app: "find P (xs @ ys) = (case find P xs of None \<Rightarrow> find P ys | Some x \<Rightarrow> Some x)" for P xs ys
    by (induction xs) auto
  show ?case
  proof (cases "pkey n = pkey c")
    case False
    then show ?thesis using Cons other by (simp add: difference_def app)
  next
    case True
    have "find (\<lambda>x. pkey x = pkey n) old = Some c"
      using assms(1,2) True by (induction old) (auto dest: image_neq)
    moreover have "find (\<lambda>m. pkey m = pkey c) new = None"
      using Cons.prems True image_neq by (force simp: find_None_iff)
    ultimately show ?thesis
      using Cons True by (simp add: difference_def app) (simp add: difference_to_def Let_def)
  qed
qed

lemma merged_with_difference_all:
  assumes "tidy old" and "c \<in> set old" and "mergeable new"
  shows "merged_with (difference old new) c = merged_with new c"
proof -
  have d: "distinct (map pkey old)" "distinct (map pkey new)"
    using assms by (simp_all add: tidy_def mergeable_def)
  show ?thesis
    unfolding merged_with_def find_concat_difference [OF d(1) assms(2) d(2)]
    using deduped_tidy [OF assms(1,2)] by (auto simp: Let_def fresh_fresh split: option.split)
qed

lemma difference_difference:
  assumes "distinct (map pkey old)"
  shows "difference old (difference old new) = difference old new"
proof (induction new)
  case (Cons n new)
  have "concat (map (difference_to old) (difference_to old n)) = difference_to old n"
    by (auto simp: difference_to_def Let_def fresh_fresh split: option.splits)
  then show ?case using Cons by (simp add: difference_def)
qed (simp add: difference_def)

lemma merge_lists_difference:
  "tidy old \<Longrightarrow> mergeable new \<Longrightarrow> merge_lists old (difference old new) = merge_lists old new"
  by (simp add: merge_lists_def merged_with_difference_all) (simp add: difference_def filter_difference)

lemma merge_lists_self: "tidy l \<Longrightarrow> merge_lists l l = l \<and> difference l l = []"
proof -
  assume l: "tidy l"
  have f: "find (\<lambda>n. pkey n = pkey c) l = Some c" if "c \<in> set l" "distinct (map pkey l)" for c l
    using that by (induction l) (auto dest: image_neq)
  have d: "distinct (map pkey l)" using l by (simp add: tidy_def mergeable_def)
  then have "map (merged_with l) l = l"
    using f deduped_tidy [OF l] by (intro map_idI) (simp add: merged_with_def fresh_self)
  moreover have "difference_to l c = []" if "c \<in> set l" for c
    using f [OF that d] by (simp add: difference_to_def fresh_self)
  then have "difference l l = []" by (auto simp: difference_def)
  ultimately show ?thesis by (auto simp: merge_lists_def filter_empty_conv)
qed

section \<open>Properties\<close>

definition key_mergeable :: "openpgp_publickey \<Rightarrow> bool" where
  "key_mergeable k \<longleftrightarrow> mergeable (uids k) \<and> mergeable (subkeys k)"

definition key_tidy :: "openpgp_publickey \<Rightarrow> bool" where
  "key_tidy k \<longleftrightarrow> tidy (uids k) \<and> tidy (subkeys k)"

text \<open>What \<open>merge_keys\<close> does with two keys of one key id.\<close>

lemma merge_keys_eq:
  assumes "get_keyid H a = Some (ONAK_E_OK, Some i)" and "get_keyid H b = Some (ONAK_E_OK, Some i)"
    and "key_mergeable a" and "key_mergeable b"
  shows "merge_keys H a b = Some (0,
    a\<lparr>sigs := sigs a @ filter (\<lambda>p. \<not> find_packet (sigs a) p) (sigs b), uids := merge_lists (uids a) (uids b),
      subkeys := merge_lists (subkeys a) (subkeys b), revoked := revoked a \<or> revoked b\<rparr>,
    b\<lparr>sigs := filter (\<lambda>p. \<not> find_packet (sigs a) p) (sigs b), uids := difference (uids a) (uids b),
      subkeys := difference (subkeys a) (subkeys b), revoked := revoked a \<or> revoked b\<rparr>)"
  using assms by (cases a; cases b)
    (simp add: merge_keys_def key_mergeable_def merge_signed_packets_eq Let_def get_keyid_def)

lemma merge_lists_pkeys: "pkey ` set (merge_lists old new) = pkey ` set old \<union> pkey ` set new"
  by (auto simp: merge_lists_def image_image image_Un; force)

text \<open>
  C9. What \<open>dedupe_sigs\<close> keeps. On any list of signatures that state a creation time it
  terminates without reading outside a packet; what it leaves is a sublist with at most one
  signature per signer, version and type, and the result counts the dropped ones; every
  signature is still there or has a representative by the same signer, of the same type, that
  is not older (revocations: the first one of the signer is kept).
\<close>

theorem dedupe_sigs_keeps_newest:
  assumes "\<forall>p \<in> set l. regular p"
  shows "\<exists>r. dedupe_sigs l = Some (r, length l - length r) \<and> subseq r l \<and>
    sorted_wrt (\<lambda>a b. \<not> same_signer a b) r \<and>
    (\<forall>p \<in> set l. p \<in> set r \<or> (\<exists>q \<in> set r. same_signer q p \<and>
       (sig_is_revocation (sig_sigtype p) \<or> created p \<le> created q))) \<and>
    (\<forall>p \<in> set l. sig_is_revocation (sig_sigtype p) \<and> issuer p \<noteq> 0 \<longrightarrow> hd (filter (same_signer p) l) \<in> set r)"
  using dedupe_sigs_spec [OF assms] by (auto simp: dedupe_spec_def outranks_def)

lemma sample_sig_fields: "sig_info sample_sig (Var None) (Var None) =
    Some (ONAK_E_OK, Var (Some 7), Var (Some 0x5F000001))"
proof -
  have "sig_info sample_sig (Var None) (Var None) = Some (ONAK_E_OK,
    Var (Some (case stated subpacket_issuer [(2, [0x5F, 0, 0, 1])] of
          Some k \<Rightarrow> if k \<noteq> 0 then k
            else (case stated subpacket_issuer [(16, [0, 0, 0, 0, 0, 0, 0, 7])] of Some k \<Rightarrow> k | None \<Rightarrow> 0)
        | None \<Rightarrow> (case stated subpacket_issuer [(16, [0, 0, 0, 0, 0, 0, 0, 7])] of Some k \<Rightarrow> k | None \<Rightarrow> 0))),
    set_out_opt (stated subpacket_creation [(2, [0x5F, 0, 0, 1])]) (Var None))"
    by (rule sig_info_decode [where v = "4" and t = "0x13" and a = "1" and h = "8" and rest = "[0xAA, 0xBB]"])
       (simp_all add: sample_sig_def subpacket_ok_def sample_sig_area plength_def sig_octets_def)
  then show ?thesis
    by (simp add: subpacket_issuer_def subpacket_creation_def set_out_opt_def be_word_def push_bit_eq_mult)
qed

lemma sample_sig_regular [simp]: "regular sample_sig" "issuer sample_sig = 7" "created sample_sig = 0x5F000001"
  by (simp_all add: regular_def issuer_def created_def sig_fields_def sample_sig_fields)
     (simp_all add: sample_sig_def plength_def sig_octets_def)

lemma sample_sig_octets [simp]: "data sample_sig ! 0 = 4" "sig_sigtype sample_sig = 0x13"
  by (simp_all add: sig_sigtype_def plength_def) (simp_all add: sample_sig_def sig_octets_def)

theorem dedupe_sigs_keeps_newest_witness:
  "\<exists>r. dedupe_sigs [sample_sig, sample_sig] = Some (r, 2 - length r) \<and> subseq r [sample_sig, sample_sig] \<and>
    sorted_wrt (\<lambda>a b. \<not> same_signer a b) r"
  using dedupe_sigs_keeps_newest [of "[sample_sig, sample_sig]"] by (simp add: numeral_2_eq_2) blast

text \<open>
  C10. Merging two lists of signed packets does what \<open>merge_lists\<close> and \<open>difference\<close> say: for
  lists without a packet twice and with readable signatures, the loops with their searches,
  removals and in-place updates compute, in \<open>old\<close>, the old packets in order, each with the
  deduplicated union of its signatures, followed by the packets only \<open>new\<close> has; and, in
  \<open>new\<close>, exactly the packets and signatures that \<open>old\<close> lacked.
\<close>

theorem merge_signed_packets_refines:
  assumes "mergeable old" and "mergeable new"
  shows "merge_signed_packets old new = Some (merge_lists old new, difference old new)"
  using assms by (rule merge_signed_packets_eq)

definition sample_uid :: "u8 \<Rightarrow> openpgp_packet list \<Rightarrow> openpgp_signedpacket" where
  "sample_uid c l = \<lparr>sp_packet = \<lparr>tag = 13, newformat = False, data = [c]\<rparr>, sp_sigs = l\<rparr>"

lemma sample_uid_mergeable: "mergeable [sample_uid 1 [sample_sig], sample_uid 2 []]" "mergeable [sample_uid 2 [sample_sig]]"
  by (simp_all add: mergeable_def sample_uid_def pkey_def)

theorem merge_signed_packets_refines_witness:
  "merge_signed_packets [sample_uid 1 [sample_sig], sample_uid 2 []] [sample_uid 2 [sample_sig]] =
     Some (merge_lists [sample_uid 1 [sample_sig], sample_uid 2 []] [sample_uid 2 [sample_sig]],
           difference [sample_uid 1 [sample_sig], sample_uid 2 []] [sample_uid 2 [sample_sig]])"
  by (rule merge_signed_packets_refines [OF sample_uid_mergeable])

text \<open>
  C11. Nothing is lost in a merge. Merging two keys of the same key id succeeds; the merged key
  has every user id and subkey of both keys, the stored key's first and in their order; every
  signature made directly on either key; for every signature on a user id of the stored key
  the same signature or one of the same signer that is not older; and it is revoked if either
  key was.
\<close>

theorem merge_keys_keeps_all:
  assumes "get_keyid H a = Some (ONAK_E_OK, Some i)" and "get_keyid H b = Some (ONAK_E_OK, Some i)"
    and "key_mergeable a" and "key_mergeable b"
  shows "\<exists>a' b'. merge_keys H a b = Some (0, a', b') \<and> publickey a' = publickey a \<and>
    pkey ` set (uids a') = pkey ` set (uids a) \<union> pkey ` set (uids b) \<and>
    take (length (uids a)) (map pkey (uids a')) = map pkey (uids a) \<and>
    pkey ` set (subkeys a') = pkey ` set (subkeys a) \<union> pkey ` set (subkeys b) \<and>
    set (sigs a) \<subseteq> set (sigs a') \<and> (\<forall>p \<in> set (sigs b). find_packet (sigs a') p) \<and>
    (\<forall>u \<in> set (uids a). \<forall>s \<in> set (sp_sigs u). \<exists>u' \<in> set (uids a'). pkey u' = pkey u \<and>
       (\<exists>q \<in> set (sp_sigs u'). q = s \<or> outranks q s)) \<and>
    revoked a' = (revoked a \<or> revoked b)"
proof -
  have kept: "\<exists>q \<in> set (sp_sigs (merged_with l u)). q = s \<or> outranks q s"
    if "mergeable l" "\<forall>p \<in> set (sp_sigs u). regular p" "s \<in> set (sp_sigs u)" for l u s
  proof (cases "find (\<lambda>n. pkey n = pkey u) l")
    case (Some n)
    then have "n \<in> set l" by (auto simp: find_Some_iff)
    then have "\<forall>p \<in> set (sp_sigs u @ fresh (sp_sigs u) (sp_sigs n)). regular p"
      using that(1,2) by (auto simp: mergeable_def fresh_def)
    from deduped_spec [OF this] that(3) Some show ?thesis by (auto simp: merged_with_def dedupe_spec_def)
  qed (use that in \<open>auto simp: merged_with_def\<close>)
  have "\<forall>u \<in> set (uids a). \<forall>s \<in> set (sp_sigs u). \<exists>u' \<in> set (merge_lists (uids a) (uids b)). pkey u' = pkey u \<and>
       (\<exists>q \<in> set (sp_sigs u'). q = s \<or> outranks q s)"
    using kept [of "uids b"] assms(3,4) unfolding merge_lists_def key_mergeable_def mergeable_def
    by (metis (no_types, lifting) UnI1 image_eqI list.set_map pkey_merged_with set_append)
  moreover have "take (length (uids a)) (map pkey (merge_lists (uids a) (uids b))) = map pkey (uids a)"
    by (simp add: merge_lists_def comp_def)
  ultimately show ?thesis
    unfolding merge_keys_eq [OF assms] by (auto simp: merge_lists_pkeys find_packet_iff)
qed

definition sample_pubkey :: openpgp_packet where
  "sample_pubkey = \<lparr>tag = 6, newformat = False, data = [4, 1]\<rparr>"

definition key_with :: "openpgp_signedpacket list \<Rightarrow> openpgp_publickey" where
  "key_with l = \<lparr>publickey = sample_pubkey, revoked = False, sigs = [], uids = l, subkeys = []\<rparr>"

lemma key_with_id: "\<exists>i. get_keyid sample_hashes (key_with l) = Some (ONAK_E_OK, Some i)"
  by (simp add: key_with_def sample_pubkey_def get_keyid_def get_packetid_def get_fingerprint_def
      sample_hashes_def fingerprint2keyid_def)

lemma key_with_same_id: "get_keyid H (key_with l) = get_keyid H (key_with l')"
  by (simp add: key_with_def get_keyid_def)

lemma key_with_fields [simp]: "uids (key_with l) = l" "subkeys (key_with l) = []" "sigs (key_with l) = []"
  "revoked (key_with l) = False" "publickey (key_with l) = sample_pubkey"
  by (simp_all add: key_with_def)

theorem merge_keys_keeps_all_witness:
  "\<exists>a' b'. merge_keys sample_hashes (key_with [sample_uid 1 [sample_sig], sample_uid 2 []])
       (key_with [sample_uid 2 [sample_sig]]) = Some (0, a', b') \<and> pkey ` set (uids a') = {(13, [1]), (13, [2])}"
proof -
  let ?a = "key_with [sample_uid 1 [sample_sig], sample_uid 2 []]" and ?b = "key_with [sample_uid 2 [sample_sig]]"
  obtain i where i: "get_keyid sample_hashes ?a = Some (ONAK_E_OK, Some i)" using key_with_id by blast
  then have "get_keyid sample_hashes ?b = Some (ONAK_E_OK, Some i)"
    using key_with_same_id [of sample_hashes "uids ?a" "uids ?b"] by simp
  moreover have "key_mergeable ?a" "key_mergeable ?b"
    using sample_uid_mergeable by (simp_all add: key_mergeable_def) (simp_all add: mergeable_def)
  moreover have "pkey ` set (uids ?a) \<union> pkey ` set (uids ?b) = {(13, [1]), (13, [2])}"
    by (auto simp: sample_uid_def pkey_def)
  ultimately show ?thesis using merge_keys_keeps_all [OF i, of ?b] by metis
qed

text \<open>
  C12. The difference is enough. Let a key \<open>b\<close> be merged into a stored key \<open>a\<close> (which, like
  everything \<open>merge_keys\<close> stores, has no packet twice and one signature per signer), with the
  result \<open>a'\<close> and the difference \<open>d\<close> that is sent to other servers. A server that has \<open>a\<close>
  and merges only \<open>d\<close> gets the same \<open>a'\<close>, and has itself nothing but \<open>d\<close> to pass on.
\<close>

theorem merge_keys_difference_suffices:
  assumes "get_keyid H a = Some (ONAK_E_OK, Some i)" and "get_keyid H b = Some (ONAK_E_OK, Some i)"
    and "key_tidy a" and "key_mergeable b" and "merge_keys H a b = Some (rc, a', d)"
  shows "merge_keys H a d = Some (rc, a', d)"
proof -
  have ma: "key_mergeable a" using assms(3) by (simp add: key_tidy_def key_mergeable_def tidy_def)
  have eq: "rc = 0"
    "a' = a\<lparr>sigs := sigs a @ filter (\<lambda>p. \<not> find_packet (sigs a) p) (sigs b), uids := merge_lists (uids a) (uids b),
      subkeys := merge_lists (subkeys a) (subkeys b), revoked := revoked a \<or> revoked b\<rparr>"
    "d = b\<lparr>sigs := filter (\<lambda>p. \<not> find_packet (sigs a) p) (sigs b), uids := difference (uids a) (uids b),
      subkeys := difference (subkeys a) (subkeys b), revoked := revoked a \<or> revoked b\<rparr>"
    using assms(5) merge_keys_eq [OF assms(1,2) ma assms(4)] by simp_all
  have d: "get_keyid H d = Some (ONAK_E_OK, Some i)" "key_mergeable d"
    using assms(2,4) mergeable_difference by (auto simp: eq get_keyid_def key_mergeable_def difference_def)
  have t: "tidy (uids a)" "tidy (subkeys a)" "mergeable (uids b)" "mergeable (subkeys b)"
    and dist: "distinct (map pkey (uids a))" "distinct (map pkey (subkeys a))"
    using assms(3,4) by (simp_all add: key_tidy_def key_mergeable_def tidy_def mergeable_def)
  show ?thesis
    using merge_keys_eq [OF assms(1) d(1) ma d(2)] t dist
    by (simp add: eq merge_lists_difference difference_difference)
qed

lemma sample_uid_tidy: "tidy [sample_uid 1 [sample_sig]]" "tidy [sample_uid 1 [sample_sig], sample_uid 2 []]"
  by (simp_all add: tidy_def mergeable_def one_per_signer_def) (simp_all add: sample_uid_def pkey_def one_per_signer_def)

theorem merge_keys_difference_suffices_witness:
  "\<exists>a' d. merge_keys sample_hashes (key_with [sample_uid 1 [sample_sig]])
       (key_with [sample_uid 1 [sample_sig], sample_uid 2 []]) = Some (0, a', d) \<and>
     merge_keys sample_hashes (key_with [sample_uid 1 [sample_sig]]) d = Some (0, a', d)"
proof -
  let ?a = "key_with [sample_uid 1 [sample_sig]]" and ?b = "key_with [sample_uid 1 [sample_sig], sample_uid 2 []]"
  obtain i where i: "get_keyid sample_hashes ?a = Some (ONAK_E_OK, Some i)" using key_with_id by blast
  then have ib: "get_keyid sample_hashes ?b = Some (ONAK_E_OK, Some i)"
    using key_with_same_id [of sample_hashes "uids ?a" "uids ?b"] by simp
  have a: "key_tidy ?a" "key_mergeable ?a" "key_mergeable ?b"
    using sample_uid_tidy by (simp_all add: key_tidy_def key_mergeable_def tidy_def) (simp_all add: mergeable_def)
  obtain a' d where m: "merge_keys sample_hashes ?a ?b = Some (0, a', d)"
    using merge_keys_eq [OF i ib a(2,3)] by blast
  with merge_keys_difference_suffices [OF i ib a(1,3) m] show ?thesis by blast
qed

text \<open>
  Merging a key with itself changes nothing: the stored key stays as it is, and the
  difference has no signature, user id or subkey, so that there is nothing to send on.
\<close>

lemma merge_keys_self:
  assumes "get_keyid H a = Some (ONAK_E_OK, Some i)" and "key_tidy a"
  shows "merge_keys H a a = Some (0, a, a\<lparr>sigs := [], uids := [], subkeys := []\<rparr>)"
proof -
  have m: "key_mergeable a" using assms(2) by (simp add: key_tidy_def key_mergeable_def tidy_def)
  have "filter (\<lambda>p. \<not> find_packet (sigs a) p) (sigs a) = []" by (auto simp: find_packet_iff filter_empty_conv)
  then show ?thesis
    using merge_keys_eq [OF assms(1,1) m m] assms(2) merge_lists_self [of "uids a"] merge_lists_self [of "subkeys a"]
    by (simp add: key_tidy_def)
qed

lemma merge_keys_self_witness:
  "merge_keys sample_hashes (key_with [sample_uid 1 [sample_sig]]) (key_with [sample_uid 1 [sample_sig]]) =
     Some (0, key_with [sample_uid 1 [sample_sig]], key_with [])"
proof -
  obtain i where i: "get_keyid sample_hashes (key_with [sample_uid 1 [sample_sig]]) = Some (ONAK_E_OK, Some i)"
    using key_with_id by blast
  have "key_tidy (key_with [sample_uid 1 [sample_sig]])"
    using sample_uid_tidy by (simp add: key_tidy_def) (simp add: tidy_def mergeable_def)
  from merge_keys_self [OF i this] show ?thesis by (simp add: key_with_def)
qed

text \<open>
  Version 5 signatures of different types are taken for the same. \<open>compare_signatures\<close>
  looks at the signature type only for version 4: two version 5 signatures by one issuer with
  one creation time compare equal whatever their types, so that a revocation made in the same
  second as a certification is dropped by \<open>merge_packet_sigs\<close> as already known.
\<close>

theorem compare_signatures_v5_ignores_type:
  assumes "regular a" and "regular b" and "data a ! 0 = 5" and "data b ! 0 = 5"
    and "issuer a = issuer b" and "created a = created b"
  shows "compare_signatures a b = Some True"
  using assms by (simp add: compare_signatures_regular same_signature_def)

definition v5_sig :: "u8 \<Rightarrow> openpgp_packet" where
  "v5_sig t = \<lparr>tag = 2, newformat = False,
     data = sig_octets [5, t, 1, 8] [(2, [0x5F, 0, 0, 1])] [(16, [0, 0, 0, 0, 0, 0, 0, 7])] [0xAA, 0xBB]\<rparr>"

lemma v5_sig_fields:
  "regular (v5_sig t)" "issuer (v5_sig t) = 7" "created (v5_sig t) = 0x5F000001" "data (v5_sig t) ! 0 = 5"
proof -
  have "sig_info (v5_sig t) (Var None) (Var None) = Some (ONAK_E_OK,
    Var (Some (case stated subpacket_issuer [(2, [0x5F, 0, 0, 1])] of
          Some k \<Rightarrow> if k \<noteq> 0 then k
            else (case stated subpacket_issuer [(16, [0, 0, 0, 0, 0, 0, 0, 7])] of Some k \<Rightarrow> k | None \<Rightarrow> 0)
        | None \<Rightarrow> (case stated subpacket_issuer [(16, [0, 0, 0, 0, 0, 0, 0, 7])] of Some k \<Rightarrow> k | None \<Rightarrow> 0))),
    set_out_opt (stated subpacket_creation [(2, [0x5F, 0, 0, 1])]) (Var None))"
    by (rule sig_info_decode [where v = "5" and t = t and a = "1" and h = "8" and rest = "[0xAA, 0xBB]"])
       (simp_all add: v5_sig_def subpacket_ok_def sample_sig_area plength_def sig_octets_def)
  then have "sig_info (v5_sig t) (Var None) (Var None) =
      Some (ONAK_E_OK, Var (Some 7), Var (Some 0x5F000001))"
    by (simp add: subpacket_issuer_def subpacket_creation_def set_out_opt_def be_word_def push_bit_eq_mult)
  then show "regular (v5_sig t)" "issuer (v5_sig t) = 7" "created (v5_sig t) = 0x5F000001" "data (v5_sig t) ! 0 = 5"
    by (simp_all add: regular_def issuer_def created_def sig_fields_def)
       (simp_all add: v5_sig_def plength_def sig_octets_def)
qed

theorem compare_signatures_v5_ignores_type_witness:
  "compare_signatures (v5_sig 0x13) (v5_sig 0x30) = Some True"
  by (rule compare_signatures_v5_ignores_type) (simp_all add: v5_sig_fields)

text \<open>
  A merge that is refused still marks keys as revoked. When the key ids differ,
  \<open>merge_keys\<close> returns -1 and merges nothing, but if either key is revoked both are marked
  as revoked afterwards, a key that has nothing to do with the revocation included.
\<close>

lemma merge_keys_mismatch_marks_revoked:
  assumes "get_keyid H a = Some (ONAK_E_OK, Some i)" and "get_keyid H b = Some (ONAK_E_OK, Some j)"
    and "i \<noteq> j" and "revoked b"
  shows "merge_keys H a b = Some (-1, a\<lparr>revoked := True\<rparr>, b\<lparr>revoked := True\<rparr>)"
  using assms by (simp add: merge_keys_def)

definition other_key :: openpgp_publickey where
  "other_key = \<lparr>publickey = \<lparr>tag = 6, newformat = False, data = 4 # replicate 30 9\<rparr>, revoked = True,
     sigs = [], uids = [], subkeys = []\<rparr>"

lemma merge_keys_mismatch_marks_revoked_witness:
  "merge_keys sample_hashes (key_with []) other_key =
     Some (-1, (key_with [])\<lparr>revoked := True\<rparr>, other_key\<lparr>revoked := True\<rparr>)"
proof (rule merge_keys_mismatch_marks_revoked)
  show "get_keyid sample_hashes (key_with []) = Some (ONAK_E_OK, Some 0)" by code_simp
  show "get_keyid sample_hashes other_key = Some (ONAK_E_OK, Some 0x0909090909090909)" by code_simp
qed (simp_all add: other_key_def)

text \<open>
  Signatures of an unknown version are compared by uninitialised variables: for two
  signature packets of one version other than 2 to 5, \<open>signatures_match_signer\<close> reads
  \<open>a_keyid\<close>, which \<open>sig_info\<close> has not written. The packet reader accepts such packets.
\<close>

lemma match_signer_unknown_version_undefined:
  assumes "tag a = OPENPGP_PACKET_SIGNATURE" and "tag b = OPENPGP_PACKET_SIGNATURE"
    and "0 < plength a" and "0 < plength b" and "data a ! 0 = data b ! 0" and "data a ! 0 \<notin> {2, 3, 4, 5}"
  shows "signatures_match_signer a b = None"
proof -
  have rd: "rd (data a) 0 = Some (data a ! 0)" "rd (data b) 0 = Some (data b ! 0)"
    using assms(3,4) by (simp_all add: plength_def)
  have "sig_sigtype a = 0xFF" "sig_sigtype b = 0xFF" using assms(5,6) by (simp_all add: sig_sigtype_def)
  moreover have "sig_info a (Var None) Null = Some (ONAK_E_OK, Var None, Null)"
    "sig_info b (Var None) Null = Some (ONAK_E_OK, Var None, Null)"
    using assms(5,6) rd by (simp_all add: sig_info_def)
  ultimately show ?thesis using assms(1,2,5) rd by (simp add: signatures_match_signer_def)
qed

lemma match_signer_unknown_version_undefined_witness:
  "signatures_match_signer \<lparr>tag = 2, newformat = False, data = [6]\<rparr> \<lparr>tag = 2, newformat = False, data = [6]\<rparr> = None"
  by (rule match_signer_unknown_version_undefined) (simp_all add: plength_def)

end
