(* ===== verification/Sha1x.thy ===== *)
theory Sha1x
  imports Onak_Prelude
begin

text \<open>
  SHA-1 of double width (\<open>sha1x.c\<close>), over any SHA-1: \<open>sha1\<close> maps the octets of all updates to the digest, so that
  a \<open>struct sha1_ctx\<close> is the list of octets it was updated with.
\<close>

section \<open>Operations\<close>

record sha1x_ctx =
  ctx_a :: bytes
  ctx_b :: bytes
  ctx_c :: bytes
  ctx_d :: bytes
  ctx_odd :: bool

definition sha1x_init :: sha1x_ctx where
  "sha1x_init = \<lparr>ctx_a = [], ctx_b = [0], ctx_c = [0, 0], ctx_d = [0, 0, 0], ctx_odd = False\<rparr>"

text \<open>The inner loop: filling the two buffers. The results are the buffers and the data left.\<close>

fun fill_buffers :: "bytes \<Rightarrow> bytes \<Rightarrow> bytes \<Rightarrow> bytes \<times> bytes \<times> bytes" where
  "fill_buffers evenbuf oddbuf [] = (evenbuf, oddbuf, [])"
| "fill_buffers evenbuf oddbuf [x] = (if length oddbuf < 64 then (evenbuf @ [x], oddbuf, []) else (evenbuf, oddbuf, [x]))"
| "fill_buffers evenbuf oddbuf (x # y # l) =
     (if length oddbuf < 64 then fill_buffers (evenbuf @ [x]) (oddbuf @ [y]) l else (evenbuf, oddbuf, x # y # l))"

lemma fill_buffers_shorter:
  "length (snd (snd (fill_buffers evenbuf oddbuf l))) \<le> length l"
  "length oddbuf < 64 \<Longrightarrow> l \<noteq> [] \<Longrightarrow> length (snd (snd (fill_buffers evenbuf oddbuf l))) < length l"
  by (induction evenbuf oddbuf l rule: fill_buffers.induct) (auto simp: le_SucI less_SucI)

definition hash_buffers :: "bytes \<Rightarrow> bytes \<Rightarrow> sha1x_ctx \<Rightarrow> sha1x_ctx" where
  "hash_buffers evenbuf oddbuf ctx =
     ctx\<lparr>ctx_a := ctx_a ctx @ evenbuf, ctx_b := ctx_b ctx @ evenbuf, ctx_c := ctx_c ctx @ oddbuf, ctx_d := ctx_d ctx @ oddbuf\<rparr>"

text \<open>The outer loop; \<open>first\<close> is what the odd buffer starts with.\<close>

function update_loop :: "u8 option \<Rightarrow> bytes \<Rightarrow> sha1x_ctx \<Rightarrow> sha1x_ctx" where
  "update_loop first l ctx =
     (if l = [] then ctx
      else case fill_buffers [] (case first of None \<Rightarrow> [] | Some x \<Rightarrow> [x]) l of
        (evenbuf, oddbuf, l) \<Rightarrow> update_loop None l (hash_buffers evenbuf oddbuf ctx))"
  by pat_completeness auto

lemma fill_first_shorter:
  assumes "l \<noteq> []" and "(e, b, m) = fill_buffers [] (case first of None \<Rightarrow> [] | Some x \<Rightarrow> [x]) l"
  shows "length m < length l"
proof -
  have "length (case first of None \<Rightarrow> [] | Some x \<Rightarrow> [x]) < 64" by (simp split: option.split)
  from fill_buffers_shorter(2) [OF this assms(1), of "[]"] show ?thesis using assms(2) [symmetric] by simp
qed

termination update_loop
  by (relation "measure (\<lambda>(_, l, _). length l)") (auto dest: fill_first_shorter)

declare update_loop.simps [simp del]

definition sha1x_update :: "sha1x_ctx \<Rightarrow> bytes \<Rightarrow> sha1x_ctx" where
  "sha1x_update ctx l =
     (let newodd = (ctx_odd ctx \<noteq> odd (length l)) in
      if ctx_odd ctx \<and> l \<noteq> [] then update_loop (Some (hd l)) (tl l) (ctx\<lparr>ctx_odd := newodd\<rparr>)
      else update_loop None l (ctx\<lparr>ctx_odd := newodd\<rparr>))"

text \<open>The eight digests of 20 octets; the last line is \<open>SHA1X_DIGEST_SIZE\<close> octets of the result.\<close>

definition xor_bytes :: "bytes \<Rightarrow> bytes \<Rightarrow> bytes" where
  "xor_bytes = map2 (XOR)"

definition sha1x_digest :: "(bytes \<Rightarrow> bytes) \<Rightarrow> sha1x_ctx \<Rightarrow> nat \<Rightarrow> bytes" where
  "sha1x_digest sha1 ctx len =
     (let f0 = xor_bytes (sha1 (ctx_a ctx)) (sha1 (ctx_c ctx));
          f1 = xor_bytes (sha1 (ctx_b ctx)) (sha1 (ctx_d ctx));
          f6 = sha1 (replicate 6 0 @ f1);
          f4 = xor_bytes (sha1 (replicate 4 0 @ f0)) f6;
          f5 = xor_bytes (sha1 (replicate 5 0 @ f0)) (sha1 (replicate 7 0 @ f1))
      in take (min len 40) (f4 @ f6))"

text \<open>The calls of \<open>onak_hash\<close>.\<close>

definition sha1x_hash :: "(bytes \<Rightarrow> bytes) \<Rightarrow> bytes list \<Rightarrow> bytes" where
  "sha1x_hash sha1 chunks = sha1x_digest sha1 (foldl sha1x_update sha1x_init chunks) 40"

section \<open>What is hashed\<close>

fun evens :: "'a list \<Rightarrow> 'a list" where
  "evens [] = []"
| "evens [x] = [x]"
| "evens (x # y # l) = x # evens l"

fun odds :: "'a list \<Rightarrow> 'a list" where
  "odds [] = []"
| "odds [x] = []"
| "odds (x # y # l) = y # odds l"

lemma evens_odds_Cons: "evens (x # l) = x # odds l" "odds (x # l) = evens l"
proof (induction l arbitrary: x rule: evens.induct)
  case (3 y z l)
  case 1 then show ?case using 3 by simp
  case 2 then show ?case using 3 by simp
qed simp_all

lemma evens_odds_append:
  "evens (l @ m) = evens l @ (if even (length l) then evens m else odds m)"
  "odds (l @ m) = odds l @ (if even (length l) then odds m else evens m)"
  by (induction l) (simp_all add: evens_odds_Cons del: evens.simps(2,3) odds.simps(2,3))

lemma fill_buffers_spec:
  "\<exists>p q. l = p @ q \<and> fill_buffers e b l = (e @ evens p, b @ odds p, q) \<and> (q = [] \<or> even (length p))"
proof (induction e b l rule: fill_buffers.induct)
  case (2 e b x)
  then show ?case by (cases "length b < 64") (auto intro: exI [of _ "[x]"] exI [of _ "[]"])
next
  case (3 e b x y l)
  show ?case
  proof (cases "length b < 64")
    case True
    from "3.IH" [OF True] obtain p q where "l = p @ q" "q = [] \<or> even (length p)"
      "fill_buffers (e @ [x]) (b @ [y]) l = ((e @ [x]) @ evens p, (b @ [y]) @ odds p, q)" by blast
    then show ?thesis using True by (intro exI [of _ "x # y # p"] exI [of _ q]) auto
  qed (auto intro: exI [of _ "[]"])
qed auto

lemma update_loop_spec:
  assumes "l \<noteq> [] \<or> first = None"
  shows "update_loop first l ctx = hash_buffers (evens l) ((case first of None \<Rightarrow> [] | Some x \<Rightarrow> [x]) @ odds l) ctx"
  using assms
proof (induction first l ctx rule: update_loop.induct)
  case (1 first l ctx)
  let ?o = "case first of None \<Rightarrow> [] | Some x \<Rightarrow> [x]"
  show ?case
  proof (cases "l = []")
    case True
    then show ?thesis using "1.prems" by (simp add: update_loop.simps hash_buffers_def)
  next
    case False
    obtain p q where f: "l = p @ q" "fill_buffers [] ?o l = (evens p, ?o @ odds p, q)" "q = [] \<or> even (length p)"
      using fill_buffers_spec [of l "[]" ?o] by auto
    have "update_loop None q (hash_buffers (evens p) (?o @ odds p) ctx) =
        hash_buffers (evens q) (odds q) (hash_buffers (evens p) (?o @ odds p) ctx)"
      using "1.IH" [OF False f(2) [symmetric] refl] by simp
    then have "update_loop first l ctx = hash_buffers (evens q) (odds q) (hash_buffers (evens p) (?o @ odds p) ctx)"
      using False f(2) by (simp add: update_loop.simps [of first])
    moreover have "evens l = evens p @ evens q" "odds l = odds p @ odds q" using f(1,3) by (auto simp: evens_odds_append)
    ultimately show ?thesis by (simp add: hash_buffers_def)
  qed
qed

text \<open>The context after the octets \<open>s\<close>, if none has been lost.\<close>

definition ctx_of :: "bytes \<Rightarrow> sha1x_ctx" where
  "ctx_of s = \<lparr>ctx_a = evens s, ctx_b = 0 # evens s, ctx_c = [0, 0] @ odds s, ctx_d = [0, 0, 0] @ odds s, ctx_odd = odd (length s)\<rparr>"

lemma update_ctx_of:
  assumes "even (length s) \<or> length l \<noteq> 1"
  shows "sha1x_update (ctx_of s) l = ctx_of (s @ l)"
proof (cases "even (length s) \<or> l = []")
  case True
  then show ?thesis
    by (cases "l = []") (auto simp: sha1x_update_def Let_def ctx_of_def update_loop_spec [of l None] update_loop_spec [of "[]" None] hash_buffers_def evens_odds_append)
next
  case False
  then obtain x m where l: "l = x # m" "m \<noteq> []" using assms by (cases l) auto
  have "evens (s @ l) = evens s @ evens m" "odds (s @ l) = odds s @ x # odds m"
    using False l(1) by (simp_all add: evens_odds_append evens_odds_Cons)
  moreover have "sha1x_update (ctx_of s) l = hash_buffers (evens m) (x # odds m) (ctx_of s\<lparr>ctx_odd := (odd (length s) \<noteq> odd (length l))\<rparr>)"
    using False l update_loop_spec [of m "Some x"] by (simp add: sha1x_update_def ctx_of_def)
  ultimately show ?thesis using False l by (simp add: ctx_of_def hash_buffers_def)
qed

fun no_octet_lost :: "bytes \<Rightarrow> bytes list \<Rightarrow> bool" where
  "no_octet_lost s [] = True"
| "no_octet_lost s (l # chunks) = ((even (length s) \<or> length l \<noteq> 1) \<and> no_octet_lost (s @ l) chunks)"

lemma updates_ctx_of: "no_octet_lost s chunks \<Longrightarrow> foldl sha1x_update (ctx_of s) chunks = ctx_of (s @ concat chunks)"
  by (induction chunks arbitrary: s) (auto simp: update_ctx_of)

lemma init_ctx_of: "sha1x_init = ctx_of []"
  by (simp add: sha1x_init_def ctx_of_def)

lemma update_odd: "ctx_odd (sha1x_update ctx l) = (ctx_odd ctx \<noteq> odd (length l))"
proof -
  have "ctx_odd (update_loop first m c) = ctx_odd c" for first m c
  proof (cases "m = []")
    case True
    then show ?thesis by (simp add: update_loop.simps [of first "[]"])
  next
    case False
    then show ?thesis by (simp add: update_loop_spec [of m] hash_buffers_def)
  qed
  then show ?thesis by (simp add: sha1x_update_def Let_def)
qed

lemma updates_odd: "ctx_odd (foldl sha1x_update ctx chunks) = (ctx_odd ctx \<noteq> odd (length (concat chunks)))"
  by (induction chunks arbitrary: ctx) (auto simp: update_odd)

lemma sha1x_odd_octet:
  assumes "odd (length (concat pre))"
  shows "sha1x_hash sha1 (pre @ [[x]] @ post) = sha1x_hash sha1 (pre @ [[y]] @ post)"
proof -
  let ?ctx = "foldl sha1x_update sha1x_init pre"
  have "ctx_odd ?ctx" using assms updates_odd [of sha1x_init pre] by (simp add: sha1x_init_def)
  then have "sha1x_update ?ctx [z] = ?ctx\<lparr>ctx_odd := False\<rparr>" for z
    by (simp add: sha1x_update_def Let_def update_loop.simps)
  then show ?thesis by (simp add: sha1x_hash_def)
qed

section \<open>Properties\<close>

text \<open>
  The hash does not depend on how the data is divided, as long as no chunk of a single octet starts at an odd offset: it is then that of
  all the octets in one chunk.
\<close>

theorem sha1x_chunks:
  assumes "no_octet_lost [] chunks"
  shows "sha1x_hash sha1 chunks = sha1x_hash sha1 [concat chunks]"
proof -
  have "foldl sha1x_update sha1x_init chunks = ctx_of (concat chunks)" using updates_ctx_of [OF assms] by (simp add: init_ctx_of)
  moreover have "foldl sha1x_update sha1x_init [concat chunks] = ctx_of (concat chunks)"
    using update_ctx_of [of "[]" "concat chunks"] by (simp add: init_ctx_of)
  ultimately show ?thesis by (simp add: sha1x_hash_def)
qed

theorem sha1x_chunks_witness:
  "sha1x_hash (\<lambda>x. x) [[1, 2, 3], [4, 5]] = sha1x_hash (\<lambda>x. x) [[1, 2, 3, 4, 5]]"
  using sha1x_chunks [of "[[1, 2, 3], [4, 5]]"] by simp

lemma sha1x_hash_length:
  assumes "\<And>x. length (sha1 x) = 20"
  shows "length (sha1x_hash sha1 chunks) = 40"
  using assms by (simp add: sha1x_hash_def sha1x_digest_def Let_def xor_bytes_def)

end
