(* ===== verification/Sig_Check.thy ===== *)
theory Sig_Check
  imports Decode_Key Sha1x
begin

text \<open>
  Checking signatures (\<open>sigcheck.c\<close>, \<open>hash-helper.c\<close>): the octets a signature is computed over
  and their hash, the parsing of key and signature material, and the dispatch to the
  verification functions.

  The verification functions of the nettle library are parameters. A number imported by
  \<open>mpz_import\<close> is the natural number its octets denote.
\<close>

section \<open>Hashing (hash-helper.c)\<close>

abbreviation (input) OPENPGP_HASH_MD5 :: u8 where "OPENPGP_HASH_MD5 \<equiv> 1"
abbreviation (input) OPENPGP_HASH_SHA1 :: u8 where "OPENPGP_HASH_SHA1 \<equiv> 2"
abbreviation (input) OPENPGP_HASH_RIPEMD160 :: u8 where "OPENPGP_HASH_RIPEMD160 \<equiv> 3"
abbreviation (input) OPENPGP_HASH_SHA1X :: u8 where "OPENPGP_HASH_SHA1X \<equiv> 4"
abbreviation (input) OPENPGP_HASH_SHA256 :: u8 where "OPENPGP_HASH_SHA256 \<equiv> 8"
abbreviation (input) OPENPGP_HASH_SHA384 :: u8 where "OPENPGP_HASH_SHA384 \<equiv> 9"
abbreviation (input) OPENPGP_HASH_SHA512 :: u8 where "OPENPGP_HASH_SHA512 \<equiv> 10"
abbreviation (input) OPENPGP_HASH_SHA224 :: u8 where "OPENPGP_HASH_SHA224 \<equiv> 11"

abbreviation (input) MAX_HASH_CHUNKS :: nat where "MAX_HASH_CHUNKS \<equiv> 8"

text \<open>The result is the status and what has been written to \<open>hash\<close>, if anything.\<close>

definition onak_hash :: "hash_funs \<Rightarrow> u8 \<Rightarrow> bytes list \<Rightarrow> onak_status \<times> bytes option" where
  "onak_hash H hashtype chunks =
     (if length chunks > MAX_HASH_CHUNKS then (ONAK_E_INVALID_PARAM, None)
      else if hashtype = OPENPGP_HASH_MD5 then (ONAK_E_OK, Some (md5 H (concat chunks)))
      else if hashtype = OPENPGP_HASH_SHA1 then (ONAK_E_OK, Some (sha1 H (concat chunks)))
      else if hashtype = OPENPGP_HASH_SHA1X then (ONAK_E_OK, Some (sha1x_hash (sha1 H) chunks))
      else if \<not> have_nettle H then (ONAK_E_UNSUPPORTED_FEATURE, None)
      else if hashtype = OPENPGP_HASH_RIPEMD160 then (ONAK_E_OK, Some (ripemd160 H (concat chunks)))
      else if hashtype = OPENPGP_HASH_SHA224 then (ONAK_E_OK, Some (sha224 H (concat chunks)))
      else if hashtype = OPENPGP_HASH_SHA256 then (ONAK_E_OK, Some (sha256 H (concat chunks)))
      else if hashtype = OPENPGP_HASH_SHA384 then (ONAK_E_OK, Some (sha384 H (concat chunks)))
      else if hashtype = OPENPGP_HASH_SHA512 then (ONAK_E_OK, Some (sha512 H (concat chunks)))
      else (ONAK_E_UNSUPPORTED_FEATURE, None))"

section \<open>Key material\<close>

abbreviation (input) OPENPGP_PKALGO_RSA :: u8 where "OPENPGP_PKALGO_RSA \<equiv> 1"
abbreviation (input) OPENPGP_PKALGO_RSA_ENC :: u8 where "OPENPGP_PKALGO_RSA_ENC \<equiv> 2"
abbreviation (input) OPENPGP_PKALGO_RSA_SIGN :: u8 where "OPENPGP_PKALGO_RSA_SIGN \<equiv> 3"
abbreviation (input) OPENPGP_PKALGO_DSA :: u8 where "OPENPGP_PKALGO_DSA \<equiv> 17"
abbreviation (input) OPENPGP_PKALGO_ECDSA :: u8 where "OPENPGP_PKALGO_ECDSA \<equiv> 19"
abbreviation (input) OPENPGP_PKALGO_EDDSA :: u8 where "OPENPGP_PKALGO_EDDSA \<equiv> 22"

text \<open>The union in \<open>struct onak_key_material\<close>; the \<open>type\<close> field is kept beside it.\<close>

datatype key_material =
    ECC onak_oid nat nat
  | ED25519 bytes
  | DSA nat nat nat nat
  | RSA nat nat nat

text \<open>
  \<open>MPI_TO_MPZ\<close>: \<open>Inl\<close> is the status it sets, \<open>Inr\<close> the number and the offset after it.
\<close>

definition mpi_to_mpz :: "bytes \<Rightarrow> nat \<Rightarrow> (onak_status + nat \<times> nat) option" where
  "mpi_to_mpz d ofs =
     (if length d < ofs + 2 then Some (Inl ONAK_E_INVALID_PKT)
      else do { len \<leftarrow> mpi_octets d ofs;
                if length d < ofs + len + 2 then Some (Inl ONAK_E_INVALID_PKT)
                else do { bs \<leftarrow> rds d (ofs + 2) len; Some (Inr (be_nat bs, ofs + len + 2)) } })"

text \<open>\<open>n\<close> numbers in a row, each read only if the ones before it were.\<close>

fun mpis :: "nat \<Rightarrow> bytes \<Rightarrow> nat \<Rightarrow> (onak_status + nat list) option" where
  "mpis 0 d ofs = Some (Inr [])"
| "mpis (Suc n) d ofs =
     do { r \<leftarrow> mpi_to_mpz d ofs;
          (case r of
             Inl rc \<Rightarrow> Some (Inl rc)
           | Inr (v, ofs) \<Rightarrow>
               do { rest \<leftarrow> mpis n d ofs;
                    Some (case rest of Inl rc \<Rightarrow> Inl rc | Inr vs \<Rightarrow> Inr (v # vs)) }) }"

text \<open>
  The three curves of an ECDSA key: \<open>rest\<close> octets from the curve's OID to the end of the
  packet, \<open>bits\<close> in the length field of the point, \<open>n\<close> octets per coordinate.
\<close>

definition ecdsa_point ::
    "bytes \<Rightarrow> nat \<Rightarrow> onak_oid \<Rightarrow> nat \<Rightarrow> nat \<Rightarrow> nat \<Rightarrow> (onak_status + key_material) option" where
  "ecdsa_point d ofs oid rest bits n =
     (if length d - ofs \<noteq> rest then Some (Inl ONAK_E_INVALID_PKT)
      else do { b \<leftarrow> rd d ofs;
                let ofs = ofs + (unat b + 1);
                l0 \<leftarrow> rd d ofs; l1 \<leftarrow> rd d (ofs + 1);
                if unat l0 * 256 + unat l1 \<noteq> bits then Some (Inl ONAK_E_INVALID_PKT)
                else do { m \<leftarrow> rd d (ofs + 2);
                          if m \<noteq> 4 then Some (Inl ONAK_E_INVALID_PKT)
                          else do { x \<leftarrow> rds d (ofs + 3) n; y \<leftarrow> rds d (ofs + 3 + n) n;
                                    Some (Inr (ECC oid (be_nat x) (be_nat y))) } } })"

definition eddsa_key :: "bytes \<Rightarrow> nat \<Rightarrow> (onak_status + key_material) option" where
  "eddsa_key d ofs =
     (if length d - ofs \<noteq> 45 then Some (Inl ONAK_E_INVALID_PKT)
      else do { oid \<leftarrow> onak_parse_oid (drop ofs d) (length d - ofs);
                if oid = ONAK_OID_INVALID then Some (Inl ONAK_E_INVALID_PKT)
                else if oid = ONAK_OID_UNKNOWN then Some (Inl ONAK_E_UNSUPPORTED_FEATURE)
                else do { b \<leftarrow> rd d ofs;
                          let ofs = ofs + (unat b + 1);
                          if oid = ONAK_OID_ED25519 then
                            do { l0 \<leftarrow> rd d ofs; l1 \<leftarrow> rd d (ofs + 1);
                                 if unat l0 * 256 + unat l1 \<noteq> 263 then Some (Inl ONAK_E_INVALID_PKT)
                                 else do { m \<leftarrow> rd d (ofs + 2);
                                           if m \<noteq> 0x40 then Some (Inl ONAK_E_INVALID_PKT)
                                           else do { k \<leftarrow> rds d (ofs + 3) 32; Some (Inr (ED25519 k)) } } }
                          else Some (Inl ONAK_E_UNSUPPORTED_FEATURE) } })"

definition ecdsa_key :: "bytes \<Rightarrow> nat \<Rightarrow> (onak_status + key_material) option" where
  "ecdsa_key d ofs =
     do { oid \<leftarrow> onak_parse_oid (drop ofs d) (length d - ofs);
          if oid = ONAK_OID_INVALID then Some (Inl ONAK_E_INVALID_PKT)
          else if oid = ONAK_OID_UNKNOWN then Some (Inl ONAK_E_UNSUPPORTED_FEATURE)
          else if oid = ONAK_OID_NISTP256 then ecdsa_point d ofs oid 76 515 32
          else if oid = ONAK_OID_NISTP384 then ecdsa_point d ofs oid 105 771 48
          else if oid = ONAK_OID_NISTP521 then ecdsa_point d ofs oid 141 1059 66
          else Some (Inl ONAK_E_UNSUPPORTED_FEATURE) }"

text \<open>The result is the status, or the key's algorithm (\<open>type\<close>) and its material.\<close>

definition onak_parse_key_material :: "openpgp_packet \<Rightarrow> (onak_status + u8 \<times> key_material) option" where
  "onak_parse_key_material pk =
     (if plength pk < 51 then Some (Inl ONAK_E_INVALID_PKT)
      else do { v \<leftarrow> rd (data pk) 0;
                if v \<noteq> 4 \<and> v \<noteq> 5 then Some (Inl ONAK_E_UNSUPPORTED_FEATURE)
                else do { let ofs = (if v = 4 then 6 else 10);
                          algo \<leftarrow> rd (data pk) 5;
                          r \<leftarrow> (if algo = OPENPGP_PKALGO_ECDSA then ecdsa_key (data pk) ofs
                               else if algo = OPENPGP_PKALGO_EDDSA then eddsa_key (data pk) ofs
                               else if algo = OPENPGP_PKALGO_DSA then
                                 do { r \<leftarrow> mpis 4 (data pk) ofs;
                                      Some (case r of Inl rc \<Rightarrow> Inl rc
                                            | Inr vs \<Rightarrow> Inr (DSA (vs ! 0) (vs ! 1) (vs ! 2) (vs ! 3))) }
                               else if algo = OPENPGP_PKALGO_RSA \<or> algo = OPENPGP_PKALGO_RSA_ENC \<or>
                                       algo = OPENPGP_PKALGO_RSA_SIGN then
                                 do { sz \<leftarrow> mpi_octets (data pk) 6;
                                      r \<leftarrow> mpis 2 (data pk) ofs;
                                      Some (case r of Inl rc \<Rightarrow> Inl rc
                                            | Inr vs \<Rightarrow> Inr (RSA sz (vs ! 0) (vs ! 1))) }
                               else Some (Inl ONAK_E_UNSUPPORTED_FEATURE));
                          Some (case r of Inl rc \<Rightarrow> Inl rc | Inr m \<Rightarrow> Inr (algo, m)) } })"

section \<open>Verifying a signature\<close>

text \<open>
  The functions of the crypto library. The digest is the part of \<open>hash\<close> the hash type defines;
  \<open>rsa_verify\<close> stands for the family \<open>rsa_<hash>_verify_digest\<close>. \<open>ecc_point_set\<close> tells whether
  the coordinates are a point on the curve; if they are not, the point keeps the indeterminate
  value \<open>ecc_point_init\<close> left it with, and \<open>ecdsa_verify\<close> on it is undefined. The caller
  ignores what \<open>ecc_point_set\<close> returns.
\<close>

record crypto =
  ecc_point_set :: "onak_oid \<times> nat \<times> nat \<Rightarrow> bool"
  dsa_verify :: "nat \<times> nat \<times> nat \<Rightarrow> nat \<Rightarrow> bytes \<Rightarrow> nat \<times> nat \<Rightarrow> bool"
  ecdsa_verify :: "onak_oid \<times> nat \<times> nat \<Rightarrow> bytes \<Rightarrow> nat \<times> nat \<Rightarrow> bool"
  ed25519_verify :: "bytes \<Rightarrow> bytes \<Rightarrow> bytes \<Rightarrow> bool"
  rsa_verify :: "u8 \<Rightarrow> nat \<times> nat \<times> nat \<Rightarrow> bytes \<Rightarrow> nat \<Rightarrow> bool"
  have_crypto :: bool

definition digest_size :: "u8 \<Rightarrow> nat" where
  "digest_size hashtype =
     (if hashtype = OPENPGP_HASH_MD5 then 16
      else if hashtype = OPENPGP_HASH_SHA1X then 40
      else if hashtype = OPENPGP_HASH_SHA224 then 28
      else if hashtype = OPENPGP_HASH_SHA256 then 32
      else if hashtype = OPENPGP_HASH_SHA384 then 48
      else if hashtype = OPENPGP_HASH_SHA512 then 64
      else 20)"

text \<open>Where the signature values start, and the algorithm the signature states.\<close>

definition sig_material :: "bytes \<Rightarrow> (onak_status + nat \<times> u8) option" where
  "sig_material d =
     (if length d < 8 then Some (Inl ONAK_E_INVALID_PKT)
      else do { v \<leftarrow> rd d 0;
                if v = 3 then
                  do { b \<leftarrow> rd d 1;
                       if b \<noteq> 5 then Some (Inl ONAK_E_INVALID_PARAM)
                       else if length d < 19 then Some (Inl ONAK_E_INVALID_PKT)
                       else do { t \<leftarrow> rd d 15; Some (Inr (19, t)) } }
                else if v \<ge> 4 then
                  do { b4 \<leftarrow> rd d 4; b5 \<leftarrow> rd d 5;
                       let ofs = unat b4 * 256 + unat b5 + 6;
                       if length d < ofs + 2 then Some (Inl ONAK_E_INVALID_PKT)
                       else do { c0 \<leftarrow> rd d ofs; c1 \<leftarrow> rd d (ofs + 1);
                                 let ofs = ofs + (unat c0 * 256 + unat c1 + 2);
                                 if length d < ofs + 2 then Some (Inl ONAK_E_INVALID_PKT)
                                 else do { t \<leftarrow> rd d 2; Some (Inr (ofs + 2, t)) } } }
                else Some (Inl ONAK_E_UNSUPPORTED_FEATURE) })"

text \<open>The numbers the signature consists of; the sizes are checked for EdDSA only.\<close>

definition sig_values :: "bytes \<Rightarrow> nat \<Rightarrow> u8 \<Rightarrow> (onak_status + nat list) option" where
  "sig_values d ofs sigkeytype =
     (if sigkeytype = OPENPGP_PKALGO_ECDSA \<or> sigkeytype = OPENPGP_PKALGO_DSA then mpis 2 d ofs
      else if sigkeytype = OPENPGP_PKALGO_EDDSA then
        do { r \<leftarrow> mpis 2 d ofs;
             Some (case r of Inl rc \<Rightarrow> Inl rc
                   | Inr vs \<Rightarrow> if vs ! 0 \<ge> 2 ^ 256 \<or> vs ! 1 \<ge> 2 ^ 256
                              then Inl ONAK_E_INVALID_PARAM else Inr vs) }
      else if sigkeytype = OPENPGP_PKALGO_RSA \<or> sigkeytype = OPENPGP_PKALGO_RSA_SIGN then mpis 1 d ofs
      else Some (Inr []))"

text \<open>The switch over key type and hash type.\<close>

definition verify_switch :: "crypto \<Rightarrow> key_material \<Rightarrow> u8 \<Rightarrow> u8 \<Rightarrow> bytes \<Rightarrow> nat list \<Rightarrow> onak_status option" where
  "verify_switch C m keytype hashtype hash vs =
     (let digest = take (digest_size hashtype) hash;
          good = (if hashtype = OPENPGP_HASH_MD5 then ONAK_E_WEAK_SIGNATURE else ONAK_E_OK)
      in case m of
           DSA p q g y \<Rightarrow>
             if hashtype \<in> {OPENPGP_HASH_MD5, OPENPGP_HASH_RIPEMD160, OPENPGP_HASH_SHA1, OPENPGP_HASH_SHA1X,
                  OPENPGP_HASH_SHA224, OPENPGP_HASH_SHA256, OPENPGP_HASH_SHA384, OPENPGP_HASH_SHA512}
             then Some (if dsa_verify C (p, q, g) y digest (vs ! 0, vs ! 1) then good else ONAK_E_BAD_SIGNATURE)
             else Some ONAK_E_UNSUPPORTED_FEATURE
         | ECC oid x y \<Rightarrow>
             if hashtype \<in> {OPENPGP_HASH_SHA1, OPENPGP_HASH_SHA256, OPENPGP_HASH_SHA384, OPENPGP_HASH_SHA512}
             then if \<not> ecc_point_set C (oid, x, y) then None
                  else Some (if ecdsa_verify C (oid, x, y) digest (vs ! 0, vs ! 1) then good else ONAK_E_BAD_SIGNATURE)
             else Some ONAK_E_UNSUPPORTED_FEATURE
         | ED25519 k \<Rightarrow>
             if hashtype \<in> {OPENPGP_HASH_RIPEMD160, OPENPGP_HASH_SHA256, OPENPGP_HASH_SHA384, OPENPGP_HASH_SHA512}
             then Some (if ed25519_verify C k digest (be_bytes 32 (vs ! 0) @ be_bytes 32 (vs ! 1))
                        then good else ONAK_E_BAD_SIGNATURE)
             else Some ONAK_E_UNSUPPORTED_FEATURE
         | RSA sz n e \<Rightarrow>
             if keytype \<in> {OPENPGP_PKALGO_RSA, OPENPGP_PKALGO_RSA_SIGN} \<and>
                hashtype \<in> {OPENPGP_HASH_MD5, OPENPGP_HASH_RIPEMD160, OPENPGP_HASH_SHA1, OPENPGP_HASH_SHA224,
                  OPENPGP_HASH_SHA256, OPENPGP_HASH_SHA384, OPENPGP_HASH_SHA512}
             then Some (if rsa_verify C hashtype (sz, n, e) digest (vs ! 0) then good else ONAK_E_BAD_SIGNATURE)
             else Some ONAK_E_UNSUPPORTED_FEATURE)"

definition onak_check_hash_sig ::
    "crypto \<Rightarrow> openpgp_packet \<Rightarrow> openpgp_packet \<Rightarrow> bytes \<Rightarrow> u8 \<Rightarrow> onak_status option" where
  "onak_check_hash_sig C sigkey sig hash hashtype =
     do { k \<leftarrow> onak_parse_key_material sigkey;
          (case k of
             Inl rc \<Rightarrow> Some rc
           | Inr (keytype, m) \<Rightarrow>
               do { s \<leftarrow> sig_material (data sig);
                    (case s of
                       Inl rc \<Rightarrow> Some rc
                     | Inr (ofs, sigkeytype) \<Rightarrow>
                         if keytype \<noteq> sigkeytype then Some ONAK_E_INVALID_PARAM
                         else do { vs \<leftarrow> sig_values (data sig) ofs sigkeytype;
                                   (case vs of Inl rc \<Rightarrow> Some rc
                                    | Inr vs \<Rightarrow> verify_switch C m keytype hashtype hash vs) }) }) }"

section \<open>The hash of a signature\<close>

definition be16 :: "nat \<Rightarrow> bytes" where
  "be16 n = [word_of_nat (n div 2 ^ 8), word_of_nat n]"

definition be32 :: "nat \<Rightarrow> bytes" where
  "be32 n = [word_of_nat (n div 2 ^ 24), word_of_nat (n div 2 ^ 16), word_of_nat (n div 2 ^ 8), word_of_nat n]"

text \<open>The chunks for the signed packet, by the version of the signature.\<close>

definition packet_chunks :: "u8 \<Rightarrow> openpgp_packet option \<Rightarrow> bytes list" where
  "packet_chunks v packet =
     (case packet of
        None \<Rightarrow> []
      | Some p \<Rightarrow>
          (if tag p = OPENPGP_PACKET_PUBLICSUBKEY
           then [if v = 5 then [0x9A, 0, 0] @ be16 (plength p) else [0x99] @ be16 (plength p)]
           else if v \<ge> 4 \<and> (tag p = OPENPGP_PACKET_UID \<or> tag p = OPENPGP_PACKET_UAT)
           then [(if tag p = OPENPGP_PACKET_UID then 0xB4 else 0xD1) # be32 (plength p)]
           else []) @ [data p])"

text \<open>
  The check for a dummy X.509 signature in the version 4 branch: a status to return with, or
  \<open>None\<close> to go on.
\<close>

definition x509_check :: "openpgp_packet \<Rightarrow> onak_status option option" where
  "x509_check sig =
     do { b2 \<leftarrow> rd (data sig) 2;
          if b2 = 0 \<or> b2 = 100 then
            do { (res, parselen, keyid, _) \<leftarrow>
                   parse_subpackets (drop 4 (data sig)) (plength sig - 4) (Var (Some 0)) Null;
                 if res \<noteq> ONAK_E_OK then Some (Some res)
                 else do { len \<leftarrow> parselen;
                           if plength sig < 11 + len then Some (Some ONAK_E_INVALID_PKT)
                           else if keyid = Var (Some 0) then
                             do { dummy \<leftarrow> octets_are (data sig) (4 + len) [0, 0, 0, 0, 0, 1, 1];
                                  Some (if dummy then Some ONAK_E_UNSUPPORTED_FEATURE else None) }
                           else Some None } }
          else Some None }"

text \<open>
  The end of the version 4 and 5 branches: the hashed part of the signature, the trailer, and
  the offset of the two check octets (\<open>*sighash\<close>).
\<close>

definition sig_trailer :: "u8 \<Rightarrow> bytes \<Rightarrow> (onak_status + bytes list \<times> nat) option" where
  "sig_trailer v d =
     do { b4 \<leftarrow> rd d 4; b5 \<leftarrow> rd d 5;
          let siglen = unat b4 * 256 + unat b5 + 6;
          if siglen > length d then Some (Inl ONAK_E_INVALID_PKT)
          else do { c0 \<leftarrow> rd d siglen; c1 \<leftarrow> rd d (siglen + 1);
                    let unhashedlen = unat c0 * 256 + unat c1;
                    if unhashedlen + siglen + 4 > length d then Some (Inl ONAK_E_INVALID_PKT)
                    else Some (Inr ([take siglen d,
                                     [v, 0xFF] @ (if v = 5 then [0, 0, 0, 0] else []) @ be32 siglen],
                                    siglen + unhashedlen + 2)) } }"

text \<open>
  The result is the status, \<open>*hashtype\<close>, what is written to \<open>hash\<close>, and \<open>*sighash\<close> as an
  offset into the signature packet. \<open>packet\<close> is \<open>None\<close> for the null pointer that a signature
  on the key itself gets.
\<close>

definition calculate_packet_sighash ::
    "hash_funs \<Rightarrow> openpgp_publickey \<Rightarrow> openpgp_packet option \<Rightarrow> openpgp_packet \<Rightarrow>
     (onak_status \<times> u8 \<times> bytes option \<times> nat option) option" where
  "calculate_packet_sighash H key packet sig =
     (let pub = publickey key in
      if plength sig < 10 then Some (ONAK_E_INVALID_PKT, 0, None, None)
      else do { v \<leftarrow> rd (data sig) 0;
        if v = 2 \<or> v = 3 then
          if plength sig < 19 then Some (ONAK_E_INVALID_PKT, 0, None, None)
          else do { hashtype \<leftarrow> rd (data sig) 16;
                    s \<leftarrow> rds (data sig) 2 5;
                    let (res, hash) = onak_hash H hashtype
                          ([[0x99] @ be16 (plength pub), data pub] @ packet_chunks v packet @ [s]);
                    Some (res, hashtype, hash, Some 17) }
        else if v = 4 \<or> v = 5 then
          do { x509 \<leftarrow> (if v = 4 then x509_check sig else Some None);
               (case x509 of
                  Some res \<Rightarrow> Some (res, 0, None, None)
                | None \<Rightarrow>
                    do { hashtype \<leftarrow> rd (data sig) 3;
                         r \<leftarrow> sig_trailer v (data sig);
                         (case r of
                            Inl res \<Rightarrow> Some (res, hashtype, None, None)
                          | Inr (chunks, ofs) \<Rightarrow>
                              let (res, hash) = onak_hash H hashtype
                                    ([if v = 5 then [0x9A, 0, 0] @ be16 (plength pub)
                                      else [0x99] @ be16 (plength pub), data pub] @
                                     packet_chunks v packet @ chunks)
                              in Some (res, hashtype, hash, Some ofs)) }) }
        else Some (ONAK_E_UNSUPPORTED_FEATURE, 0, None, None) })"

section \<open>Memory safety\<close>

lemma mpi_octets_in: "ofs + 2 \<le> length d \<Longrightarrow>
    mpi_octets d ofs = Some ((unat (d ! ofs) * 256 + unat (d ! (ofs + 1)) + 7) div 8)"
  by (simp add: mpi_octets_def)

lemma mpi_to_mpz_safe: "\<exists>r. mpi_to_mpz d ofs = Some r"
  by (auto simp: mpi_to_mpz_def mpi_octets_in not_less rds_def)

lemma mpis_safe: "\<exists>r. mpis n d ofs = Some r \<and> (\<forall>vs. r = Inr vs \<longrightarrow> length vs = n)"
proof (induction n arbitrary: ofs)
  case (Suc n)
  obtain r where r: "mpi_to_mpz d ofs = Some r" using mpi_to_mpz_safe by blast
  show ?case
  proof (cases r)
    case (Inr x)
    obtain v ofs' where x: "x = (v, ofs')" by (cases x)
    from Suc [of ofs'] show ?thesis using r Inr x by (auto split: sum.split)
  qed (use r in simp)
qed simp

lemma find_oid_first:
  assumes "onak_parse_oid buf (length buf) = Some oid"
  shows "oid = ONAK_OID_NISTP256 \<Longrightarrow> unat (buf ! 0) = 8" "oid = ONAK_OID_NISTP384 \<Longrightarrow> unat (buf ! 0) = 5"
    "oid = ONAK_OID_NISTP521 \<Longrightarrow> unat (buf ! 0) = 5" "oid = ONAK_OID_ED25519 \<Longrightarrow> unat (buf ! 0) = 9"
proof -
  have entry: "unat (buf ! 0) = k"
    if "oid \<notin> {ONAK_OID_INVALID, ONAK_OID_UNKNOWN}" "\<forall>(xs, o') \<in> set oid_table. o' = oid \<longrightarrow> xs ! 0 = word_of_nat k \<and> xs \<noteq> []"
      "k < 256" for k
  proof -
    note known = that(1)
    obtain xs where xs: "(xs, oid) \<in> set oid_table" "take (length xs) buf = xs"
    proof (cases "find (\<lambda>(xs, oid). take (length xs) buf = xs) oid_table")
      case None
      then show ?thesis using assms known by (simp add: onak_parse_oid_eq split: if_splits)
    next
      case (Some e)
      obtain ys o' where e: "e = (ys, o')" by (cases e)
      have "o' = oid" using assms known Some e by (simp add: onak_parse_oid_eq split: if_splits)
      moreover have "e \<in> set oid_table" "take (length ys) buf = ys"
        using Some e by (auto simp: find_Some_iff in_set_conv_nth)
      ultimately show ?thesis using that e by blast
    qed
    then have "xs \<noteq> []" "xs ! 0 = word_of_nat k" using that(2) by auto
    then have "buf ! 0 = word_of_nat k" using xs(2) by (metis length_greater_0_conv nth_take)
    then show ?thesis using that(3) by simp
  qed
  show "oid = ONAK_OID_NISTP256 \<Longrightarrow> unat (buf ! 0) = 8" "oid = ONAK_OID_NISTP384 \<Longrightarrow> unat (buf ! 0) = 5"
    "oid = ONAK_OID_NISTP521 \<Longrightarrow> unat (buf ! 0) = 5" "oid = ONAK_OID_ED25519 \<Longrightarrow> unat (buf ! 0) = 9"
    by (rule entry; simp add: oid_table_def)+
qed

lemma onak_parse_oid_drop: "\<exists>oid. onak_parse_oid (drop ofs d) (length d - ofs) = Some oid"
  using onak_parse_oid_eq [of "drop ofs d"] by simp

lemma ecdsa_point_safe:
  assumes "ofs < length d" and "unat (d ! ofs) + 4 + 2 * n = rest"
  shows "\<exists>r. ecdsa_point d ofs oid rest bits n = Some r"
  using assms by (auto simp: ecdsa_point_def Let_def rd_def rds_def)

lemma ecdsa_key_safe: "ofs < length d \<Longrightarrow> \<exists>r. ecdsa_key d ofs = Some r"
proof -
  assume ofs: "ofs < length d"
  obtain oid where o: "onak_parse_oid (drop ofs d) (length d - ofs) = Some oid"
    using onak_parse_oid_drop by blast
  have "onak_parse_oid (drop ofs d) (length (drop ofs d)) = Some oid" using o by simp
  note first = find_oid_first [OF this]
  have nth: "drop ofs d ! 0 = d ! ofs" using ofs by simp
  have "oid = ONAK_OID_NISTP256 \<Longrightarrow> \<exists>r. ecdsa_point d ofs oid 76 515 32 = Some r"
    "oid = ONAK_OID_NISTP384 \<Longrightarrow> \<exists>r. ecdsa_point d ofs oid 105 771 48 = Some r"
    "oid = ONAK_OID_NISTP521 \<Longrightarrow> \<exists>r. ecdsa_point d ofs oid 141 1059 66 = Some r"
    using first(1-3) nth by (intro ecdsa_point_safe [OF ofs]; simp)+
  then show ?thesis using o by (simp add: ecdsa_key_def)
qed

lemma eddsa_key_safe: "\<exists>r. eddsa_key d ofs = Some r"
proof (cases "length d - ofs = 45")
  case True
  obtain oid where o: "onak_parse_oid (drop ofs d) (length d - ofs) = Some oid"
    using onak_parse_oid_drop by blast
  have "onak_parse_oid (drop ofs d) (length (drop ofs d)) = Some oid" using o by simp
  note first = find_oid_first(4) [OF this]
  have nth: "drop ofs d ! 0 = d ! ofs" using True by simp
  show ?thesis using o first True by (auto simp: eddsa_key_def nth Let_def rd_def rds_def)
qed (simp add: eddsa_key_def)

lemma onak_parse_key_material_safe: "\<exists>r. onak_parse_key_material pk = Some r"
proof (cases "plength pk < 51")
  case False
  then have len: "51 \<le> length (data pk)" by (simp add: plength_def)
  have v: "rd (data pk) 0 = Some (data pk ! 0)" "rd (data pk) 5 = Some (data pk ! 5)"
    by (intro rd_in; use len in linarith)+
  let ?ofs = "if data pk ! 0 = 4 then 6 else 10"
  have ofs: "?ofs < length (data pk)" using len by simp
  obtain r1 r2 where e: "ecdsa_key (data pk) ?ofs = Some r1" "eddsa_key (data pk) ?ofs = Some r2"
    using ecdsa_key_safe [of ?ofs "data pk"] eddsa_key_safe [of "data pk" ?ofs] ofs by blast
  obtain r3 r4 where m: "mpis 4 (data pk) ?ofs = Some r3" "mpis 2 (data pk) ?ofs = Some r4"
    using mpis_safe by metis
  have s: "mpi_octets (data pk) 6 = Some ((unat (data pk ! 6) * 256 + unat (data pk ! (6 + 1)) + 7) div 8)"
    using len by (intro mpi_octets_in) simp
  show ?thesis unfolding onak_parse_key_material_def v using False e m s by (auto simp: Let_def)
qed (simp add: onak_parse_key_material_def)

lemma sig_material_safe: "\<exists>r. sig_material d = Some r"
proof (cases "length d < 8")
  case False
  then have b: "rd d i = Some (d ! i)" if "i < 8" for i using that by (intro rd_in) linarith
  have b0: "rd d 0 = Some (d ! 0)" "rd d 1 = Some (d ! 1)" "rd d 2 = Some (d ! 2)" "rd d 4 = Some (d ! 4)" "rd d 5 = Some (d ! 5)"
    by (intro b; simp)+
  have c: "\<not> length d < 19 \<Longrightarrow> rd d 15 = Some (d ! 15)" by (intro rd_in) linarith
  show ?thesis unfolding sig_material_def b0 using False c by (auto simp: Let_def)
qed (simp add: sig_material_def)

lemma sig_values_safe: "\<exists>r. sig_values d ofs t = Some r"
  using mpis_safe [of 2 d ofs] mpis_safe [of 1 d ofs] by (auto simp: sig_values_def)

lemma verify_switch_defined:
  "(\<forall>oid x y. m = ECC oid x y \<longrightarrow> ecc_point_set C (oid, x, y)) \<Longrightarrow>
   \<exists>rc. verify_switch C m keytype hashtype hash vs = Some rc"
  by (cases m) (auto simp: verify_switch_def Let_def)

lemma verify_switch_undefined:
  "verify_switch C (ECC oid x y) keytype hashtype hash vs = None \<longleftrightarrow>
   \<not> ecc_point_set C (oid, x, y) \<and>
   hashtype \<in> {OPENPGP_HASH_SHA1, OPENPGP_HASH_SHA256, OPENPGP_HASH_SHA384, OPENPGP_HASH_SHA512}"
  by (simp add: verify_switch_def Let_def)

section \<open>Errors\<close>

text \<open>A parser that gives up reports an error: its status is never \<open>ONAK_E_OK\<close>.\<close>

definition rejects :: "(onak_status + 'a) option \<Rightarrow> bool" where
  "rejects r \<longleftrightarrow> r \<noteq> Some (Inl ONAK_E_OK)"

lemma rejects_Some [simp]: "rejects (Some (Inr x))" "rejects (Some (Inl rc)) \<longleftrightarrow> rc \<noteq> ONAK_E_OK"
  by (auto simp: rejects_def)

lemma rejects_bind: "(\<And>x. m = Some x \<Longrightarrow> rejects (f x)) \<Longrightarrow> rejects (m \<bind> f)"
  by (cases m) (auto simp: rejects_def)

lemma rejects_if: "rejects x \<Longrightarrow> rejects y \<Longrightarrow> rejects (if c then x else y)"
  by simp

lemma rejects_map:
  "rejects m \<Longrightarrow> rejects (m \<bind> (\<lambda>r. Some (case r of Inl rc \<Rightarrow> Inl rc | Inr v \<Rightarrow> Inr (g v))))"
  by (cases m) (auto simp: rejects_def split: sum.split)

lemmas rejects_intros = rejects_if rejects_map rejects_bind

lemma mpi_to_mpz_rejects: "rejects (mpi_to_mpz d ofs)"
  unfolding mpi_to_mpz_def by (intro rejects_intros) simp_all

lemma mpis_rejects: "rejects (mpis n d ofs)"
proof (induction n arbitrary: ofs)
  case (Suc n)
  show ?case
  proof (simp, rule rejects_bind)
    fix r assume r: "mpi_to_mpz d ofs = Some r"
    show "rejects (case r of Inl rc \<Rightarrow> Some (Inl rc) | Inr (v, ofs) \<Rightarrow> do {
        rest \<leftarrow> mpis n d ofs; Some (case rest of Inl rc \<Rightarrow> Inl rc | Inr vs \<Rightarrow> Inr (v # vs))})"
      using mpi_to_mpz_rejects [of d ofs] r Suc by (auto split: sum.split intro: rejects_map)
  qed
qed simp

lemma ecdsa_point_rejects: "rejects (ecdsa_point d ofs oid rest bits n)"
  unfolding ecdsa_point_def Let_def by (intro rejects_intros) simp_all

lemma ecdsa_key_rejects: "rejects (ecdsa_key d ofs)"
  unfolding ecdsa_key_def by (intro rejects_intros ecdsa_point_rejects) simp_all

lemma eddsa_key_rejects: "rejects (eddsa_key d ofs)"
  unfolding eddsa_key_def Let_def by (intro rejects_intros) simp_all

lemma onak_parse_key_material_rejects: "rejects (onak_parse_key_material pk)"
  unfolding onak_parse_key_material_def Let_def
  by (intro rejects_intros mpis_rejects ecdsa_key_rejects eddsa_key_rejects) simp_all

lemma sig_material_rejects: "rejects (sig_material d)"
  unfolding sig_material_def Let_def by (intro rejects_intros) simp_all

lemma sig_values_rejects: "rejects (sig_values d ofs t)"
  unfolding sig_values_def
proof (intro rejects_if mpis_rejects rejects_bind)
  fix r assume "mpis 2 d ofs = Some r"
  then show "rejects (Some (case r of Inl rc \<Rightarrow> Inl rc
      | Inr vs \<Rightarrow> if vs ! 0 \<ge> 2 ^ 256 \<or> vs ! 1 \<ge> 2 ^ 256 then Inl ONAK_E_INVALID_PARAM else Inr vs))"
    using mpis_rejects [of 2 d ofs] by (auto split: sum.split)
qed simp

lemma onak_check_hash_sig_cases:
  obtains (error) rc where "onak_check_hash_sig C sigkey sig hash hashtype = Some rc" "rc \<noteq> ONAK_E_OK"
      "\<And>keytype m ofs. onak_parse_key_material sigkey = Some (Inr (keytype, m)) \<Longrightarrow>
         sig_material (data sig) = Some (Inr (ofs, keytype)) \<Longrightarrow>
         \<exists>e. sig_values (data sig) ofs keytype = Some (Inl e)"
  | (verify) keytype m ofs vs where "onak_parse_key_material sigkey = Some (Inr (keytype, m))"
      "sig_material (data sig) = Some (Inr (ofs, keytype))"
      "sig_values (data sig) ofs keytype = Some (Inr vs)"
      "onak_check_hash_sig C sigkey sig hash hashtype = verify_switch C m keytype hashtype hash vs"
proof -
  obtain k s where k: "onak_parse_key_material sigkey = Some k" and s: "sig_material (data sig) = Some s"
    using onak_parse_key_material_safe sig_material_safe by metis
  note ne = onak_parse_key_material_rejects [of sigkey] sig_material_rejects [of "data sig"]
  show ?thesis
  proof (cases k)
    case (Inl rc)
    then show ?thesis using ne k error [of rc] by (simp add: rejects_def onak_check_hash_sig_def)
  next
    case ik: (Inr km)
    obtain keytype m where km: "km = (keytype, m)" by (cases km)
    show ?thesis
    proof (cases s)
      case (Inl rc)
      then show ?thesis using ne k s ik km error [of rc] by (simp add: rejects_def onak_check_hash_sig_def)
    next
      case (Inr os)
      obtain ofs t where os: "os = (ofs, t)" by (cases os)
      obtain v where v: "sig_values (data sig) ofs t = Some v" using sig_values_safe by blast
      show ?thesis
      proof (cases "keytype = t")
        case False
        then show ?thesis using k s ik km Inr os error by (auto simp: onak_check_hash_sig_def)
      next
        case True
        show ?thesis
        proof (cases v)
          case (Inl rc)
          then have "rc \<noteq> ONAK_E_OK" using v sig_values_rejects [of "data sig" ofs t] by (simp add: rejects_def)
          moreover have "onak_check_hash_sig C sigkey sig hash hashtype = Some rc"
            using k s ik km Inr os True v Inl by (simp add: onak_check_hash_sig_def)
          ultimately show ?thesis using k s ik km Inr os True v Inl by (intro error) auto
        next
          case iv: (Inr vs)
          then show ?thesis using k s ik km Inr os True v verify by (simp add: onak_check_hash_sig_def)
        qed
      qed
    qed
  qed
qed

section \<open>What a signature is computed over\<close>

text \<open>
  RFC 4880, section 5.2.4 (version 5 as in the draft of its successor): the octets that are
  hashed for a version 4 or 5 signature on \<open>key\<close> and, if present, \<open>packet\<close>; \<open>hashed\<close> is the
  signature packet up to the end of its hashed subpackets.
\<close>

definition signed_octets :: "u8 \<Rightarrow> openpgp_publickey \<Rightarrow> openpgp_packet option \<Rightarrow> bytes \<Rightarrow> bytes" where
  "signed_octets v key packet hashed =
     (let key_octets = (\<lambda>p. (if v = 5 then [0x9A, 0, 0] else [0x99]) @ be_bytes 2 (plength p) @ data p) in
      key_octets (publickey key) @
      (case packet of None \<Rightarrow> []
       | Some p \<Rightarrow> if tag p = OPENPGP_PACKET_PUBLICSUBKEY then key_octets p
                   else if tag p = OPENPGP_PACKET_UID then 0xB4 # be_bytes 4 (plength p) @ data p
                   else if tag p = OPENPGP_PACKET_UAT then 0xD1 # be_bytes 4 (plength p) @ data p
                   else data p) @
      hashed @ [v, 0xFF] @ (if v = 5 then [0, 0, 0, 0] else []) @ be_bytes 4 (length hashed))"

lemma be_bytes_2: "be_bytes 2 n = [word_of_nat (n div 256), word_of_nat n]"
  by (simp add: numeral_2_eq_2)

lemma be_bytes_4:
  "be_bytes 4 n = [word_of_nat (n div 16777216), word_of_nat (n div 65536), word_of_nat (n div 256), word_of_nat n]"
proof -
  have four: "4 = Suc (Suc (Suc (Suc 0)))" by simp
  have "n div 256 div 256 = n div 65536" "n div 65536 div 256 = n div 16777216"
    by (simp_all add: div_mult2_eq [symmetric])
  then show ?thesis unfolding four by simp
qed

lemma be16_be_bytes: "be16 n = be_bytes 2 n"
  unfolding be_bytes_2 by (simp add: be16_def)

lemma be32_be_bytes: "be32 n = be_bytes 4 n"
  unfolding be_bytes_4 by (simp add: be32_def)

lemma packet_chunks_octets:
  assumes "4 \<le> v"
  shows "concat (packet_chunks v packet) =
      (case packet of None \<Rightarrow> []
       | Some p \<Rightarrow> if tag p = OPENPGP_PACKET_PUBLICSUBKEY
                   then (if v = 5 then [0x9A, 0, 0] else [0x99]) @ be_bytes 2 (plength p) @ data p
                   else if tag p = OPENPGP_PACKET_UID then 0xB4 # be_bytes 4 (plength p) @ data p
                   else if tag p = OPENPGP_PACKET_UAT then 0xD1 # be_bytes 4 (plength p) @ data p
                   else data p)"
    and "length (packet_chunks v packet) \<le> 2"
  using assms
  by (auto simp: packet_chunks_def be16_be_bytes be32_be_bytes split: option.split)

lemma onak_hash_concat:
  "length chunks \<le> 8 \<Longrightarrow> t \<noteq> OPENPGP_HASH_SHA1X \<Longrightarrow> onak_hash H t chunks = onak_hash H t [concat chunks]"
  by (simp add: onak_hash_def)

text \<open>A version 4 or 5 signature packet: four octets, two areas with their lengths, the rest.\<close>

definition area :: "bytes \<Rightarrow> bytes" where
  "area xs = be_bytes 2 (length xs) @ xs"

lemma area_length:
  assumes "d = pre @ area xs @ suf" and "length xs < 2 ^ 16" and "length pre = n"
  shows "unat (d ! n) * 256 + unat (d ! (n + 1)) = length xs" and "n + 1 < length d"
proof -
  obtain x y where xy: "be_bytes 2 (length xs) = [x, y]" by (simp add: numeral_2_eq_2)
  have "be_nat [x, y] = length xs" using assms(2) by (simp add: xy [symmetric] be_nat_be_bytes)
  then show "unat (d ! n) * 256 + unat (d ! (n + 1)) = length xs"
    using assms(1,3) by (simp add: area_def xy be_nat_def nth_append)
  show "n + 1 < length d" using assms(1,3) by (simp add: area_def)
qed

lemma sig_trailer_areas:
  assumes "d = [v, t, a, h] @ area hashed @ area unhashed @ rest" and "2 \<le> length rest"
    and "length hashed < 2 ^ 16" and "length unhashed < 2 ^ 16"
  shows "sig_trailer v d = Some (Inr ([[v, t, a, h] @ area hashed,
    [v, 0xFF] @ (if v = 5 then [0, 0, 0, 0] else []) @ be32 (length hashed + 6)],
    length d - length rest))"
proof -
  let ?p = "[v, t, a, h] @ area hashed"
  have d1: "d = [v, t, a, h] @ area hashed @ (area unhashed @ rest)"
    and d2: "d = ?p @ area unhashed @ rest"
    using assms(1) by simp_all
  note l1 = area_length [OF d1 assms(3), of 4] and l2 = area_length [OF d2 assms(4), of "length hashed + 6"]
  have lp: "length ?p = length hashed + 6" by (simp add: area_def)
  have tk: "take (length hashed + 6) d = ?p" unfolding d2 lp [symmetric] by simp
  have len: "length d = length hashed + 6 + (length unhashed + 2) + length rest"
    unfolding d2 by (simp add: area_def)
  have r: "rd d 4 = Some (d ! 4)" "rd d 5 = Some (d ! 5)"
    "rd d (length hashed + 6) = Some (d ! (length hashed + 6))"
    "rd d (length hashed + 6 + 1) = Some (d ! (length hashed + 6 + 1))"
    using len by simp_all
  have s: "unat (d ! 4) * 256 + unat (d ! 5) = length hashed"
    "unat (d ! (length hashed + 6)) * 256 + unat (d ! (length hashed + 6 + 1)) = length unhashed"
    using l1 l2 lp by simp_all
  show ?thesis
    unfolding sig_trailer_def r Let_def bind.bind_lunit s tk using len assms(2) by simp
qed

lemma x509_check_safe:
  assumes "10 \<le> plength sig" shows "\<exists>r. x509_check sig = Some r"
proof -
  have l: "10 \<le> length (data sig)" using assms by (simp add: plength_def)
  have b: "rd (data sig) 2 = Some (data sig ! 2)" using l by simp
  have len: "plength sig - 4 \<le> length (drop 4 (data sig))" by (simp add: plength_def)
  obtain rc pl k c where p: "parse_subpackets (drop 4 (data sig)) (plength sig - 4) (Var (Some 0)) Null = Some (rc, pl, k, c)"
    and n: "rc = ONAK_E_OK \<Longrightarrow> \<exists>n. pl = Some n"
    using parse_subpackets_safe [OF len, of "Var (Some 0)" Null] by blast
  have o: "\<exists>r. octets_are (data sig) (4 + n) [0, 0, 0, 0, 0, 1, 1] = Some r" if "\<not> plength sig < 11 + n" for n
    using that octets_are_safe [of "4 + n" "[0, 0, 0, 0, 0, 1, 1]" "data sig"] by (simp add: plength_def)
  show ?thesis
  proof (cases "rc = ONAK_E_OK")
    case True
    then obtain n where "pl = Some n" using n by blast
    then show ?thesis using b p True o [of n] by (auto simp: x509_check_def simp del: octets_are.simps)
  qed (use b p in \<open>simp add: x509_check_def\<close>)
qed

lemma sig_trailer_None:
  assumes "10 \<le> length d"
  defines "siglen \<equiv> unat (d ! 4) * 256 + unat (d ! 5) + 6"
  shows "sig_trailer v d = None \<longleftrightarrow> siglen = length d \<or> siglen + 1 = length d"
proof -
  have r: "rd d 4 = Some (d ! 4)" "rd d 5 = Some (d ! 5)" using assms(1) by simp_all
  have "sig_trailer v d = None \<longleftrightarrow> siglen \<le> length d \<and> (rd d siglen = None \<or> rd d (siglen + 1) = None)"
    unfolding sig_trailer_def r bind.bind_lunit Let_def siglen_def [symmetric]
    by (auto split: Option.bind_splits simp: rd_eq_Some)
  then show ?thesis by auto
qed

lemma calculate_packet_sighash_None:
  assumes "10 \<le> plength sig" and "data sig ! 0 = 4 \<or> data sig ! 0 = 5"
    and "data sig ! 0 = 4 \<Longrightarrow> x509_check sig = Some None"
  shows "calculate_packet_sighash H key packet sig = None \<longleftrightarrow> sig_trailer (data sig ! 0) (data sig) = None"
proof -
  have l: "10 \<le> length (data sig)" using assms(1) by (simp add: plength_def)
  have r: "rd (data sig) 0 = Some (data sig ! 0)" "rd (data sig) 3 = Some (data sig ! 3)"
    using l by (intro rd_in; linarith)+
  show ?thesis
    unfolding calculate_packet_sighash_def r bind.bind_lunit Let_def
    using assms r by (cases "sig_trailer (data sig ! 0) (data sig)") (auto split: sum.split prod.split)
qed

text \<open>The chunks that are hashed for a version 4 or 5 signature.\<close>

definition signed_chunks :: "u8 \<Rightarrow> openpgp_publickey \<Rightarrow> openpgp_packet option \<Rightarrow> bytes \<Rightarrow> bytes list" where
  "signed_chunks v key packet hashed =
     [if v = 5 then [0x9A, 0, 0] @ be16 (plength (publickey key)) else [0x99] @ be16 (plength (publickey key)), data (publickey key)] @
     packet_chunks v packet @ [hashed, [v, 0xFF] @ (if v = 5 then [0, 0, 0, 0] else []) @ be32 (length hashed)]"

lemma signed_chunks_octets:
  assumes "4 \<le> v"
  shows "concat (signed_chunks v key packet hashed) = signed_octets v key packet hashed"
    and "length (signed_chunks v key packet hashed) \<le> 8"
  using packet_chunks_octets [OF assms, of packet]
  by (simp_all add: signed_chunks_def signed_octets_def Let_def be16_be_bytes be32_be_bytes)

lemma calculate_packet_sighash_chunks:
  assumes "data sig = [v, t, a, h] @ area hashed @ area unhashed @ rest" and "v = 4 \<or> v = 5"
    and "length hashed < 2 ^ 16" and "length unhashed < 2 ^ 16" and "2 \<le> length rest"
    and "v = 4 \<longrightarrow> a \<noteq> 0 \<and> a \<noteq> 100"
  shows "calculate_packet_sighash H key packet sig =
    (let (res, hash) = onak_hash H h (signed_chunks v key packet ([v, t, a, h] @ area hashed))
     in Some (res, h, hash, Some (plength sig - length rest)))"
    and "drop (plength sig - length rest) (data sig) = rest"
proof -
  let ?d = "data sig" and ?hashed = "[v, t, a, h] @ area hashed"
  have len: "10 \<le> plength sig" using assms(1,5) by (simp add: plength_def area_def)
  have r: "rd ?d 0 = Some v" "rd ?d 2 = Some a" "rd ?d 3 = Some h" using assms(1) by simp_all
  note tr = sig_trailer_areas [OF assms(1,5,3,4)]
  have x: "(if v = 4 then x509_check sig else Some None) = Some None"
    using assms(6) r by (simp add: x509_check_def)
  have six: "length ?hashed = length hashed + 6" by (simp add: area_def)
  show "calculate_packet_sighash H key packet sig =
    (let (res, hash) = onak_hash H h (signed_chunks v key packet ?hashed) in Some (res, h, hash, Some (plength sig - length rest)))"
    unfolding calculate_packet_sighash_def Let_def r bind.bind_lunit x signed_chunks_def six
    using assms(2) len tr by (auto simp: plength_def)
  have "?d = (?hashed @ area unhashed) @ rest" using assms(1) by simp
  then show "drop (plength sig - length rest) ?d = rest"
    by (metis append_eq_conv_conj length_append diff_add_inverse2 plength_def)
qed

section \<open>Properties\<close>

text \<open>What has to hold for a signature to be good.\<close>

definition verified :: "crypto \<Rightarrow> key_material \<Rightarrow> u8 \<Rightarrow> bytes \<Rightarrow> nat list \<Rightarrow> bool" where
  "verified C m hashtype digest vs =
     (case m of
        DSA p q g y \<Rightarrow> dsa_verify C (p, q, g) y digest (vs ! 0, vs ! 1)
      | ECC oid x y \<Rightarrow> ecc_point_set C (oid, x, y) \<and> ecdsa_verify C (oid, x, y) digest (vs ! 0, vs ! 1)
      | ED25519 k \<Rightarrow> ed25519_verify C k digest (be_bytes 32 (vs ! 0) @ be_bytes 32 (vs ! 1))
      | RSA sz n e \<Rightarrow> rsa_verify C hashtype (sz, n, e) digest (vs ! 0))"

text \<open>
  C13. Soundness of signature checking. \<open>onak_check_hash_sig\<close> answers \<open>ONAK_E_OK\<close> only if the
  key and the signature were parsed completely, both are of the same algorithm, and the
  library's verification function for that algorithm accepted the digest of the length the
  hash type has; never for an MD5 digest.
\<close>

theorem onak_check_hash_sig_sound:
  assumes "onak_check_hash_sig C sigkey sig hash hashtype = Some ONAK_E_OK"
  shows "\<exists>keytype m ofs vs. onak_parse_key_material sigkey = Some (Inr (keytype, m)) \<and>
    sig_material (data sig) = Some (Inr (ofs, keytype)) \<and>
    sig_values (data sig) ofs keytype = Some (Inr vs) \<and>
    hashtype \<noteq> OPENPGP_HASH_MD5 \<and> verified C m hashtype (take (digest_size hashtype) hash) vs"
proof (cases rule: onak_check_hash_sig_cases [where C = C and sigkey = sigkey and sig = sig
      and hash = hash and hashtype = hashtype])
  case (error rc)
  then show ?thesis using assms by simp
next
  case (verify keytype m ofs vs)
  then have "verify_switch C m keytype hashtype hash vs = Some ONAK_E_OK" using assms by simp
  then have "hashtype \<noteq> OPENPGP_HASH_MD5 \<and> verified C m hashtype (take (digest_size hashtype) hash) vs"
    by (auto simp: verify_switch_def verified_def Let_def split: key_material.splits if_splits)
  then show ?thesis using verify by blast
qed

definition sample_key_packet :: openpgp_packet where
  "sample_key_packet = \<lparr>tag = 6, newformat = False,
     data = [4, 0, 0, 0, 1, 22] @ [9, 0x2B, 0x06, 0x01, 0x04, 0x01, 0xDA, 0x47, 0x0F, 0x01, 1, 7, 0x40] @
            replicate 32 0xEE\<rparr>"

definition sample_sig_packet :: openpgp_packet where
  "sample_sig_packet = \<lparr>tag = 2, newformat = False,
     data = [4, 0x13, 22, 8, 0, 0, 0, 0, 0xAB, 0xCD, 0, 2, 3, 0, 3, 5]\<rparr>"

text \<open>A library that accepts exactly one signature by the sample key.\<close>

definition sample_crypto :: crypto where
  "sample_crypto = \<lparr>ecc_point_set = \<lambda>_. False, dsa_verify = \<lambda>_ _ _ _. False, ecdsa_verify = \<lambda>_ _ _. False,
     ed25519_verify = \<lambda>k digest s. k = replicate 32 0xEE \<and> digest = replicate 32 7 \<and>
       s = be_bytes 32 3 @ be_bytes 32 5,
     rsa_verify = \<lambda>_ _ _ _. False, have_crypto = True\<rparr>"

lemma sample_key_material: "onak_parse_key_material sample_key_packet = Some (Inr (22, ED25519 (replicate 32 0xEE)))"
  by (simp add: onak_parse_key_material_def sample_key_packet_def plength_def Let_def eddsa_key_def
      onak_parse_oid_def oid_table_def rds_def)

lemma sample_sig_values: "sig_values (data sample_sig_packet) 10 22 = Some (Inr [3, 5])"
proof -
  have "mpi_to_mpz (data sample_sig_packet) 10 = Some (Inr (3, 13))"
    "mpi_to_mpz (data sample_sig_packet) 13 = Some (Inr (5, 16))"
    by (simp_all add: mpi_to_mpz_def mpi_octets_def sample_sig_packet_def rds_def be_nat_def)
  then have "mpis (Suc (Suc 0)) (data sample_sig_packet) 10 = Some (Inr [3, 5])" by simp
  then show ?thesis by (simp add: sig_values_def numeral_2_eq_2 [symmetric])
qed

lemma sample_sig_material: "sig_material (data sample_sig_packet) = Some (Inr (10, 22))"
  by (simp add: sample_sig_packet_def sig_material_def Let_def)

lemma sample_sig_accepted:
  "onak_check_hash_sig sample_crypto sample_key_packet sample_sig_packet (replicate 64 7) 8 = Some ONAK_E_OK"
  by (simp add: onak_check_hash_sig_def sample_key_material sample_sig_material sample_sig_values Let_def
      verify_switch_def sample_crypto_def digest_size_def)

theorem onak_check_hash_sig_sound_witness:
  "\<exists>keytype m ofs vs. onak_parse_key_material sample_key_packet = Some (Inr (keytype, m)) \<and>
    sig_material (data sample_sig_packet) = Some (Inr (ofs, keytype)) \<and>
    sig_values (data sample_sig_packet) ofs keytype = Some (Inr vs) \<and>
    (8 :: u8) \<noteq> OPENPGP_HASH_MD5 \<and> verified sample_crypto m 8 (take (digest_size 8) (replicate 64 7)) vs"
  by (rule onak_check_hash_sig_sound [OF sample_sig_accepted])

text \<open>
  Memory safety of signature checking. For every two packets, whatever octets they hold,
  \<open>onak_check_hash_sig\<close> reads only inside them and returns, with one exception: a syntactically
  valid ECDSA key whose coordinates are not a point of the curve, together with a signature of
  the same algorithm and a supported hash, makes it verify with an uninitialised point, since
  the result of \<open>ecc_point_set\<close> is ignored.
\<close>

theorem onak_check_hash_sig_undefined_iff:
  "onak_check_hash_sig C sigkey sig hash hashtype = None \<longleftrightarrow>
   (\<exists>keytype oid x y ofs vs. onak_parse_key_material sigkey = Some (Inr (keytype, ECC oid x y)) \<and>
      \<not> ecc_point_set C (oid, x, y) \<and>
      sig_material (data sig) = Some (Inr (ofs, keytype)) \<and>
      sig_values (data sig) ofs keytype = Some (Inr vs) \<and>
      hashtype \<in> {OPENPGP_HASH_SHA1, OPENPGP_HASH_SHA256, OPENPGP_HASH_SHA384, OPENPGP_HASH_SHA512})"
    (is "?l \<longleftrightarrow> ?r")
proof (cases rule: onak_check_hash_sig_cases [where C = C and sigkey = sigkey and sig = sig
      and hash = hash and hashtype = hashtype])
  case (error rc)
  have "\<not> ?r" using error(3) by (metis Inl_Inr_False option.inject)
  then show ?thesis using error(1) by simp
next
  case (verify keytype m ofs vs)
  show ?thesis
  proof (cases m)
    case (ECC oid x y)
    then show ?thesis using verify by (simp add: verify_switch_undefined)
  qed (use verify verify_switch_defined [of m C keytype hashtype hash vs] in auto)
qed


definition sample_signed_key :: openpgp_publickey where
  "sample_signed_key = \<lparr>publickey = sample_key_packet, revoked = False, sigs = [], uids = [], subkeys = []\<rparr>"


text \<open>
  A SHA1X signature may leave the user id out. For a version 4 signature with hash algorithm 4 on a key whose packet has an odd length,
  a user id of a single octet is a chunk of its own at an odd offset, and \<open>sha1x_update\<close> drops it: the hash, and so the
  signature, is the same for every user id of one octet.
\<close>

theorem sha1x_user_id_not_hashed:
  assumes "data sig = [4, t, a, 4] @ area hashed @ area unhashed @ rest"
    and "length hashed < 2 ^ 16" and "length unhashed < 2 ^ 16" and "2 \<le> length rest" and "a \<noteq> 0" and "a \<noteq> 100"
    and "odd (plength (publickey key))"
  shows "calculate_packet_sighash H key (Some \<lparr>tag = OPENPGP_PACKET_UID, newformat = nf, data = [x]\<rparr>) sig =
    calculate_packet_sighash H key (Some \<lparr>tag = OPENPGP_PACKET_UID, newformat = nf, data = [y]\<rparr>) sig"
proof -
  let ?uid = "\<lambda>x. Some \<lparr>tag = OPENPGP_PACKET_UID, newformat = nf, data = [x]\<rparr>" and ?hashed = "[4, t, a, 4] @ area hashed"
  let ?pre = "[[0x99] @ be16 (plength (publickey key)), data (publickey key), 0xB4 # be32 1]"
    and ?post = "[?hashed, [4, 0xFF] @ be32 (length ?hashed)]"
  have "packet_chunks 4 (?uid z) = [0xB4 # be32 1, [z]]" for z by (simp add: packet_chunks_def plength_def)
  then have c: "signed_chunks 4 key (?uid z) ?hashed = ?pre @ [[z]] @ ?post" for z
    unfolding signed_chunks_def by simp
  have "odd (length (concat ?pre))" using assms(7) by (simp add: be16_def be32_def plength_def)
  then have hash: "onak_hash H 4 (?pre @ [[x]] @ ?post) = onak_hash H 4 (?pre @ [[y]] @ ?post)"
    using sha1x_odd_octet [of ?pre "sha1 H" x ?post y] by (simp add: onak_hash_def)
  have "calculate_packet_sighash H key (?uid z) sig =
      (let (res, hash) = onak_hash H 4 (signed_chunks 4 key (?uid z) ?hashed) in Some (res, 4, hash, Some (plength sig - length rest)))" for z
    by (rule calculate_packet_sighash_chunks(1) [OF assms(1) _ assms(2-4)]) (use assms(5,6) in simp_all)
  note eq = this [unfolded c]
  show ?thesis unfolding eq hash ..
qed

theorem sha1x_user_id_not_hashed_witness:
  "calculate_packet_sighash sample_hashes (sample_signed_key\<lparr>publickey := \<lparr>tag = 6, newformat = False, data = [4, 0, 0, 0, 1, 17, 0]\<rparr>\<rparr>)
      (Some \<lparr>tag = 13, newformat = False, data = [65]\<rparr>) \<lparr>tag = 2, newformat = False, data = [4, 0x13, 17, 4] @ area [] @ area [] @ [1, 2]\<rparr> =
   calculate_packet_sighash sample_hashes (sample_signed_key\<lparr>publickey := \<lparr>tag = 6, newformat = False, data = [4, 0, 0, 0, 1, 17, 0]\<rparr>\<rparr>)
      (Some \<lparr>tag = 13, newformat = False, data = [66]\<rparr>) \<lparr>tag = 2, newformat = False, data = [4, 0x13, 17, 4] @ area [] @ area [] @ [1, 2]\<rparr>"
  by (rule sha1x_user_id_not_hashed [where hashed = "[]" and unhashed = "[]" and rest = "[1, 2]" and t = "0x13" and a = 17])
    (simp_all add: plength_def)

text \<open>
  The one unsafe read of \<open>calculate_packet_sighash\<close>: on a version 4 or 5 signature of at
  least 10 octets it is undefined exactly when the hashed area ends at the end of the packet
  or one octet before it (and a version 4 signature is not turned away by the X.509 check). The
  length of the unhashed area is read before it is checked to be there.
\<close>

theorem calculate_packet_sighash_undefined_iff:
  assumes "10 \<le> plength sig" and "data sig ! 0 = 4 \<or> data sig ! 0 = 5"
    and "data sig ! 0 = 4 \<longrightarrow> x509_check sig = Some None"
  shows "calculate_packet_sighash H key packet sig = None \<longleftrightarrow>
    unat (data sig ! 4) * 256 + unat (data sig ! 5) + 6 \<in> {plength sig - 1, plength sig}"
proof -
  have "10 \<le> length (data sig)" using assms(1) by (simp add: plength_def)
  from sig_trailer_None [OF this, of "data sig ! 0"] show ?thesis
    using assms calculate_packet_sighash_None [of sig H key packet] by (auto simp: plength_def)
qed

theorem calculate_packet_sighash_undefined_iff_witness:
  "calculate_packet_sighash sample_hashes sample_signed_key None
     \<lparr>tag = 2, newformat = False, data = [4, 0x13, 1, 8, 0, 4, 3, 0x65, 0, 0]\<rparr> = None"
  using calculate_packet_sighash_undefined_iff
    [of "\<lparr>tag = 2, newformat = False, data = [4, 0x13, 1, 8, 0, 4, 3, 0x65, 0, 0]\<rparr>" sample_hashes sample_signed_key None]
  by (simp add: plength_def x509_check_def)

end
