(* ===== verification/Clean_Key.thy ===== *)
theory Clean_Key
  imports Merge Sig_Check
begin

text \<open>
  Cleaning submitted keys (\<open>cleankey.c\<close>): merging duplicate user ids and subkeys, dropping
  oversized packets, the caps on user ids, user attributes and signatures, and the removal of
  signatures whose hash or verification fails.

  The key database is a parameter, the two functions of \<open>struct onak_dbctx\<close> that are called;
  so is the configuration. The counters are natural numbers: none exceeds the number of
  packets of the keys. The functions change lists through pointers to their links; a node
  that is unlinked and freed is one that is missing from the resulting list. The cached tail
  pointers, which some of these functions leave pointing to a freed node, are not part of the
  model, and nothing in this file uses them after such a removal.
\<close>

section \<open>Duplicate user ids and subkeys\<close>

text \<open>
  The inner loop: merge the signatures of every later copy of the packet into \<open>cur\<close> and
  unlink the copy. \<open>log\<close> is what the log message reads.
\<close>

function merge_dups ::
    "(openpgp_packet \<Rightarrow> unit option) \<Rightarrow> openpgp_signedpacket \<Rightarrow> openpgp_signedpacket list \<Rightarrow> nat \<Rightarrow>
     (openpgp_signedpacket \<times> openpgp_signedpacket list \<times> nat) option" where
  "merge_dups log cur rest merged =
     (case find_signed_packet rest (sp_packet cur) of
        None \<Rightarrow> Some (cur, rest, merged)
      | Some i \<Rightarrow>
          do { _ \<leftarrow> log (sp_packet cur);
               (cur', _) \<leftarrow> merge_packet_sigs cur (rest ! i);
               merge_dups log cur' (take i rest @ drop (Suc i) rest) (merged + 1) })"
  by pat_completeness auto
termination
  by (relation "measure (\<lambda>(log, cur, rest, n). length rest)") (auto dest!: find_signed_packet_find(2))

declare merge_dups.simps [simp del]

lemma merge_dups_length: "merge_dups log cur rest n = Some (cur', rest', n') \<Longrightarrow> length rest' \<le> length rest"
proof (induction log cur rest n rule: merge_dups.induct)
  case (1 log cur rest n)
  show ?case
  proof (cases "find_signed_packet rest (sp_packet cur)")
    case None
    then show ?thesis using "1.prems" by (simp add: merge_dups.simps)
  next
    case (Some i)
    obtain u m where u: "log (sp_packet cur) = Some u" and m: "merge_packet_sigs cur (rest ! i) = Some m"
      using "1.prems" Some by (subst (asm) merge_dups.simps) (auto split: Option.bind_splits)
    obtain c d where cd: "m = (c, d)" by (cases m)
    have "merge_dups log c (take i rest @ drop (Suc i) rest) (n + 1) = Some (cur', rest', n')"
      using "1.prems" Some u m cd by (subst (asm) merge_dups.simps) simp
    from "1.IH" [OF Some u m cd [symmetric] this] show ?thesis by simp
  qed
qed

function dedup_list ::
    "(openpgp_packet \<Rightarrow> unit option) \<Rightarrow> openpgp_signedpacket list \<Rightarrow> nat \<Rightarrow>
     (openpgp_signedpacket list \<times> nat) option" where
  "dedup_list log [] merged = Some ([], merged)"
| "dedup_list log (cur # rest) merged =
     (case merge_dups log cur rest merged of
        None \<Rightarrow> None
      | Some (cur, rest, merged) \<Rightarrow>
          do { (l, merged) \<leftarrow> dedup_list log rest merged; Some (cur # l, merged) })"
  by pat_completeness auto
termination
  by (relation "measure (\<lambda>(log, l, n). length l)") (auto dest!: merge_dups_length)

definition dedupuids :: "openpgp_publickey \<Rightarrow> (openpgp_publickey \<times> nat) option" where
  "dedupuids key =
     do { (l, merged) \<leftarrow> dedup_list (\<lambda>_. Some ()) (uids key) 0; Some (key\<lparr>uids := l\<rparr>, merged) }"

text \<open>The log message of \<open>dedupsubkeys\<close> prints the id of the subkey.\<close>

definition log_packetid :: "hash_funs \<Rightarrow> openpgp_packet \<Rightarrow> unit option" where
  "log_packetid H p = do { (_, keyid) \<leftarrow> get_packetid H p; _ \<leftarrow> keyid; Some () }"

definition dedupsubkeys :: "hash_funs \<Rightarrow> openpgp_publickey \<Rightarrow> (openpgp_publickey \<times> nat) option" where
  "dedupsubkeys H key =
     do { (l, merged) \<leftarrow> dedup_list (log_packetid H) (subkeys key) 0; Some (key\<lparr>subkeys := l\<rparr>, merged) }"

section \<open>Signatures that do not verify\<close>

record onak_dbctx =
  fetch_key :: "openpgp_fingerprint \<Rightarrow> nat"
  fetch_key_id :: "u64 \<Rightarrow> openpgp_publickey list"

text \<open>The loop over the keys a signature may be made with.\<close>

fun signed_by_other :: "crypto \<Rightarrow> openpgp_publickey list \<Rightarrow> openpgp_packet \<Rightarrow> bytes \<Rightarrow> u8 \<Rightarrow> bool option" where
  "signed_by_other C [] sig hash hashtype = Some False"
| "signed_by_other C (curkey # sigkeys) sig hash hashtype =
     do { ret \<leftarrow> onak_check_hash_sig C (publickey curkey) sig hash hashtype;
          if ret = ONAK_E_OK then Some True else signed_by_other C sigkeys sig hash hashtype }"

text \<open>The first part of the loop body: is the signature removed for its hash alone?\<close>

definition hash_mismatch :: "bytes \<Rightarrow> bytes \<Rightarrow> nat \<Rightarrow> bool option" where
  "hash_mismatch hash d ofs =
     do { h0 \<leftarrow> rd hash 0; s0 \<leftarrow> rd d ofs;
          if h0 \<noteq> s0 then Some True
          else do { h1 \<leftarrow> rd hash 1; s1 \<leftarrow> rd d (ofs + 1); Some (h1 \<noteq> s1) } }"

definition remove_by_hash ::
    "u64 option \<Rightarrow> bool \<Rightarrow> openpgp_packet \<Rightarrow> onak_status \<Rightarrow> bytes option \<Rightarrow> nat option \<Rightarrow> bool option" where
  "remove_by_hash keyid fullverify sig ret hash sighash =
     (if ret = ONAK_E_UNSUPPORTED_FEATURE then do { _ \<leftarrow> keyid; Some fullverify }
      else if ret \<noteq> ONAK_E_OK then Some True
      else if \<not> fullverify then do { h \<leftarrow> hash; ofs \<leftarrow> sighash; hash_mismatch h (data sig) ofs }
      else Some False)"

text \<open>
  The body of the loop of \<open>clean_sighashes\<close>. The result is \<open>remove\<close>, \<open>*selfsig\<close>, \<open>*othersig\<close> and
  \<open>sigid\<close>, which keeps its value where \<open>sig_info\<close> does not write it. A caller that passes a
  null pointer for a flag ignores it.
\<close>

definition clean_sig ::
    "hash_funs \<Rightarrow> crypto \<Rightarrow> onak_dbctx \<Rightarrow> openpgp_publickey \<Rightarrow> u64 option \<Rightarrow> openpgp_packet option \<Rightarrow> bool \<Rightarrow>
     openpgp_packet \<Rightarrow> bool \<times> bool \<times> u64 out \<Rightarrow> (bool \<times> bool \<times> bool \<times> u64 out) option" where
  "clean_sig H C dbctx key keyid sigdata fullverify sig st =
     (case st of (selfsig, othersig, sigid) \<Rightarrow>
      do { (ret, hashtype, hash, sighash) \<leftarrow> calculate_packet_sighash H key sigdata sig;
           remove \<leftarrow> remove_by_hash keyid fullverify sig ret hash sighash;
           if have_crypto C \<and> fullverify \<and> \<not> remove then
             do { (_, sigid, _) \<leftarrow> sig_info sig sigid Null;
                  sid \<leftarrow> out_val sigid; kid \<leftarrow> keyid; h \<leftarrow> hash;
                  self \<leftarrow> (if sid = kid then
                             map_option (\<lambda>ret. ret = ONAK_E_OK)
                               (onak_check_hash_sig C (publickey key) sig h hashtype)
                           else Some False);
                  other \<leftarrow> signed_by_other C (if self then [] else fetch_key_id dbctx sid) sig h hashtype;
                  Some (\<not> self \<and> \<not> other, selfsig \<or> self, othersig \<or> other, sigid) }
           else Some (remove, selfsig, othersig, sigid) })"

fun clean_sig_loop ::
    "(openpgp_packet \<Rightarrow> bool \<times> bool \<times> u64 out \<Rightarrow> (bool \<times> bool \<times> bool \<times> u64 out) option) \<Rightarrow>
     openpgp_packet list \<Rightarrow> bool \<times> bool \<times> u64 out \<Rightarrow> nat \<Rightarrow> (openpgp_packet list \<times> nat \<times> bool \<times> bool) option" where
  "clean_sig_loop step [] st removed = Some ([], removed, fst st, fst (snd st))"
| "clean_sig_loop step (sig # l) st removed =
     do { (remove, st) \<leftarrow> step sig st;
          if remove then clean_sig_loop step l st (removed + 1)
          else do { (l, r) \<leftarrow> clean_sig_loop step l st removed; Some (sig # l, r) } }"

definition clean_sighashes ::
    "hash_funs \<Rightarrow> crypto \<Rightarrow> onak_dbctx \<Rightarrow> openpgp_publickey \<Rightarrow> openpgp_packet option \<Rightarrow> openpgp_packet list \<Rightarrow>
     bool \<Rightarrow> bool \<Rightarrow> (openpgp_packet list \<times> nat \<times> bool \<times> bool) option" where
  "clean_sighashes H C dbctx key sigdata l fullverify othersig =
     do { (_, keyid) \<leftarrow> get_keyid H key;
          clean_sig_loop (clean_sig H C dbctx key keyid sigdata fullverify) l (False, othersig, Var None) 0 }"

text \<open>The first loop of \<open>clean_list_sighashes\<close>.\<close>

fun clean_list_loop ::
    "(openpgp_packet \<Rightarrow> openpgp_packet list \<Rightarrow> bool \<Rightarrow> (openpgp_packet list \<times> nat \<times> bool \<times> bool) option) \<Rightarrow>
     bool \<Rightarrow> openpgp_signedpacket list \<Rightarrow> bool \<Rightarrow> nat \<Rightarrow> (openpgp_signedpacket list \<times> nat \<times> bool) option" where
  "clean_list_loop clean fullverify [] othersig removed = Some ([], removed, othersig)"
| "clean_list_loop clean fullverify (sp # l) othersig removed =
     do { (s, n, selfsig, othersig) \<leftarrow> clean (sp_packet sp) (sp_sigs sp) othersig;
          if fullverify \<and> \<not> selfsig then clean_list_loop clean fullverify l othersig (removed + n)
          else do { (l, r) \<leftarrow> clean_list_loop clean fullverify l othersig (removed + n);
                    Some (sp\<lparr>sp_sigs := s\<rparr> # l, r) } }"

definition clean_list_sighashes ::
    "hash_funs \<Rightarrow> crypto \<Rightarrow> onak_dbctx \<Rightarrow> openpgp_publickey \<Rightarrow> openpgp_signedpacket list \<Rightarrow> bool \<Rightarrow> bool \<Rightarrow>
     (openpgp_signedpacket list \<times> nat) option" where
  "clean_list_sighashes H C dbctx key siglist fullverify needother =
     do { (l, removed, othersig) \<leftarrow>
            clean_list_loop (\<lambda>p s. clean_sighashes H C dbctx key (Some p) s fullverify) fullverify siglist False 0;
          Some (if needother \<and> fullverify \<and> \<not> othersig then [] else l, removed) }"

definition clean_key_signatures ::
    "hash_funs \<Rightarrow> crypto \<Rightarrow> onak_dbctx \<Rightarrow> openpgp_publickey \<Rightarrow> bool \<Rightarrow> bool \<Rightarrow>
     (openpgp_publickey \<times> nat) option" where
  "clean_key_signatures H C dbctx key fullverify needother =
     do { (s, n1, _) \<leftarrow> clean_sighashes H C dbctx key None (sigs key) fullverify False;
          let key = key\<lparr>sigs := s\<rparr>;
          (u, n2) \<leftarrow> clean_list_sighashes H C dbctx key (uids key) fullverify needother;
          let key = key\<lparr>uids := u\<rparr>;
          (k, n3) \<leftarrow> clean_list_sighashes H C dbctx key (subkeys key) fullverify False;
          Some (key\<lparr>subkeys := k\<rparr>, n1 + n2 + n3) }"

section \<open>Caps\<close>

abbreviation (input) UAT_LIMIT :: nat where "UAT_LIMIT \<equiv> 0xFFFF"
abbreviation (input) UID_LIMIT :: nat where "UID_LIMIT \<equiv> 1024"
abbreviation (input) PACKET_LIMIT :: nat where "PACKET_LIMIT \<equiv> 8383"
abbreviation (input) MAX_UIDS_PER_KEY :: nat where "MAX_UIDS_PER_KEY \<equiv> 32"
abbreviation (input) MAX_UATS_PER_KEY :: nat where "MAX_UATS_PER_KEY \<equiv> 4"
abbreviation (input) OPENPGP_SIGSUB_PRIMARYUID :: u8 where "OPENPGP_SIGSUB_PRIMARYUID \<equiv> 25"

text \<open>
  The header of a subpacket in the hashed area: its length and the offset after the length
  octets, or \<open>Inl\<close> where the loop breaks. The subtraction is the one of \<open>size_t\<close>.
\<close>

definition primary_length :: "bytes \<Rightarrow> nat \<Rightarrow> nat \<Rightarrow> (unit + nat \<times> nat) option" where
  "primary_length d sub_len offset =
     do { b0 \<leftarrow> rd d offset;
          r \<leftarrow> (if b0 > 191 \<and> b0 < 255 then
                 do { b1 \<leftarrow> rd d (offset + 1);
                      Some (Inr ((unat b0 - 192) * 256 + unat b1 + 192, offset + 2)) }
               else if b0 = 255 then
                 if offset + 1 + 4 > sub_len then Some (Inl ())
                 else do { bs \<leftarrow> rds d (offset + 1) 4; Some (Inr (be_nat bs, offset + 5)) }
               else Some (Inr (unat b0, offset + 1)));
          Some (case r of
                  Inl u \<Rightarrow> Inl u
                | Inr (packet_len, offset) \<Rightarrow>
                    if packet_len = 0 \<or> packet_len > (sub_len + 2 ^ 64 - offset) mod 2 ^ 64
                    then Inl () else Inr (packet_len, offset)) }"

lemma primary_length_progress:
  "primary_length d sub_len offset = Some (Inr (packet_len, offset')) \<Longrightarrow> offset < offset'"
  by (auto simp: primary_length_def split: Option.bind_splits if_splits sum.splits)

function primary_loop :: "bytes \<Rightarrow> nat \<Rightarrow> nat \<Rightarrow> bool option" where
  "primary_loop d sub_len offset =
     (if offset + 2 < sub_len then
        (case primary_length d sub_len offset of
           None \<Rightarrow> None
         | Some (Inl _) \<Rightarrow> Some False
         | Some (Inr (packet_len, offset)) \<Rightarrow>
             do { t \<leftarrow> rd d offset;
                  hit \<leftarrow> (if t AND 0x7F = OPENPGP_SIGSUB_PRIMARYUID \<and> packet_len \<ge> 2
                         then map_option (\<lambda>v. v \<noteq> 0) (rd d (offset + 1)) else Some False);
                  if hit then Some True else primary_loop d sub_len (offset + packet_len) })
      else Some False)"
  by pat_completeness auto
termination
  by (relation "measure (\<lambda>(d, sub_len, offset). sub_len - offset)") (auto dest!: primary_length_progress)

declare primary_loop.simps [simp del]

text \<open>The body of the loop over the signatures; \<open>continue\<close> and \<open>break\<close> are \<open>Some False\<close>.\<close>

definition sig_is_primary :: "openpgp_packet \<Rightarrow> bool option" where
  "sig_is_primary p =
     (if plength p < 6 then Some False
      else do { v \<leftarrow> rd (data p) 0;
                if v \<noteq> 4 \<and> v \<noteq> 5 then Some False
                else do { t \<leftarrow> rd (data p) 1;
                          if t < 0x10 \<or> t > 0x13 then Some False
                          else do { let d = drop 4 (data p); let data_len = plength p - 4;
                                    a \<leftarrow> rd d 0; b \<leftarrow> rd d 1;
                                    let sub_len = unat a * 256 + unat b + 2;
                                    if sub_len > data_len then Some False else primary_loop d sub_len 2 } } })"

fun sigs_primary :: "openpgp_packet list \<Rightarrow> bool option" where
  "sigs_primary [] = Some False"
| "sigs_primary (p # l) = do { r \<leftarrow> sig_is_primary p; if r then Some True else sigs_primary l }"

definition signedpacket_is_primary :: "openpgp_signedpacket \<Rightarrow> bool option" where
  "signedpacket_is_primary spl = sigs_primary (sp_sigs spl)"

text \<open>The prefix is \<open>"UID:urn:"\<close>.\<close>

definition urn_prefix :: bytes where
  "urn_prefix = [85, 73, 68, 58, 117, 114, 110, 58]"

definition signedpacket_is_urn_anchor :: "openpgp_signedpacket \<Rightarrow> bool" where
  "signedpacket_is_urn_anchor spl =
     (if tag (sp_packet spl) \<noteq> OPENPGP_PACKET_UID \<or> plength (sp_packet spl) < length urn_prefix then False
      else memcmp (length urn_prefix) (data (sp_packet spl)) urn_prefix = 0)"

text \<open>Pass 1: the numbers of active and of revoked packets with the tag.\<close>

fun count_packets :: "nat \<Rightarrow> openpgp_signedpacket list \<Rightarrow> (nat \<times> nat) option" where
  "count_packets t [] = Some (0, 0)"
| "count_packets t (sp # l) =
     do { (active, revoked) \<leftarrow> count_packets t l;
          if tag (sp_packet sp) = t then
            do { r \<leftarrow> signedpacket_is_revoked sp;
                 Some (if r then (active, revoked + 1) else (active + 1, revoked)) }
          else Some (active, revoked) }"

text \<open>
  Pass 2. The arguments after the tag are \<open>drop_active\<close>, \<open>drop_revoked\<close>, \<open>primary_kept\<close> and
  \<open>anchor_kept\<close>; the results are the list and \<open>dropped\<close>.
\<close>

fun cap_loop ::
    "nat \<Rightarrow> nat \<Rightarrow> nat \<Rightarrow> bool \<Rightarrow> bool \<Rightarrow> openpgp_signedpacket list \<Rightarrow> nat \<Rightarrow>
     (openpgp_signedpacket list \<times> nat) option" where
  "cap_loop t da dr primary_kept anchor_kept [] dropped = Some ([], dropped)"
| "cap_loop t da dr primary_kept anchor_kept (sp # l) dropped =
     (if da = 0 \<and> dr = 0 then Some (sp # l, dropped)
      else if tag (sp_packet sp) \<noteq> t then
        do { (l, n) \<leftarrow> cap_loop t da dr primary_kept anchor_kept l dropped; Some (sp # l, n) }
      else do {
        is_rev \<leftarrow> signedpacket_is_revoked sp;
        if is_rev then
          if dr = 0 then
            do { (l, n) \<leftarrow> cap_loop t da dr primary_kept anchor_kept l dropped; Some (sp # l, n) }
          else cap_loop t da (dr - 1) primary_kept anchor_kept l (dropped + 1)
        else if da = 0 then
          do { (l, n) \<leftarrow> cap_loop t da dr primary_kept anchor_kept l dropped; Some (sp # l, n) }
        else do {
          primary \<leftarrow> (if primary_kept then Some False else signedpacket_is_primary sp);
          if primary then
            do { (l, n) \<leftarrow> cap_loop t da dr True anchor_kept l dropped; Some (sp # l, n) }
          else if \<not> anchor_kept \<and> signedpacket_is_urn_anchor sp then
            do { (l, n) \<leftarrow> cap_loop t da dr primary_kept True l dropped; Some (sp # l, n) }
          else cap_loop t (da - 1) dr primary_kept anchor_kept l (dropped + 1) } })"

definition cap_packet_type ::
    "openpgp_publickey \<Rightarrow> nat \<Rightarrow> nat \<Rightarrow> nat \<Rightarrow> (openpgp_publickey \<times> nat) option" where
  "cap_packet_type key t max_active max_revoked =
     do { (active, revoked) \<leftarrow> count_packets t (uids key);
          let drop_active = (if active > max_active then active - max_active else 0);
          let drop_revoked = (if revoked > max_revoked then revoked - max_revoked else 0);
          if drop_active = 0 \<and> drop_revoked = 0 then Some (key, 0)
          else do { (l, dropped) \<leftarrow> cap_loop t drop_active drop_revoked False False (uids key) 0;
                    Some (key\<lparr>uids := l\<rparr>, dropped) } }"

definition cap_uids_per_key :: "openpgp_publickey \<Rightarrow> (openpgp_publickey \<times> nat) option" where
  "cap_uids_per_key key = cap_packet_type key OPENPGP_PACKET_UID MAX_UIDS_PER_KEY MAX_UIDS_PER_KEY"

definition cap_uats_per_key :: "openpgp_publickey \<Rightarrow> (openpgp_publickey \<times> nat) option" where
  "cap_uats_per_key key = cap_packet_type key OPENPGP_PACKET_UAT MAX_UATS_PER_KEY MAX_UATS_PER_KEY"

definition packet_too_large :: "openpgp_packet \<Rightarrow> bool" where
  "packet_too_large p =
     (if tag p = OPENPGP_PACKET_UID then plength p > UID_LIMIT
      else if tag p = OPENPGP_PACKET_UAT then plength p > UAT_LIMIT
      else plength p > PACKET_LIMIT)"

fun drop_large :: "openpgp_signedpacket list \<Rightarrow> nat \<Rightarrow> openpgp_signedpacket list \<times> nat" where
  "drop_large [] dropped = ([], dropped)"
| "drop_large (sp # l) dropped =
     (if packet_too_large (sp_packet sp) then drop_large l (dropped + 1)
      else let (l, n) = drop_large l dropped in (sp # l, n))"

definition clean_large_packets :: "openpgp_publickey \<Rightarrow> openpgp_publickey \<times> nat" where
  "clean_large_packets key = (let (l, dropped) = drop_large (uids key) 0 in (key\<lparr>uids := l\<rparr>, dropped))"

fun cap_sigs :: "nat \<Rightarrow> nat \<Rightarrow> openpgp_signedpacket list \<Rightarrow> nat \<Rightarrow> openpgp_signedpacket list \<times> nat" where
  "cap_sigs t mx [] dropped = ([], dropped)"
| "cap_sigs t mx (sp # l) dropped =
     (if tag (sp_packet sp) \<noteq> t then let (l, n) = cap_sigs t mx l dropped in (sp # l, n)
      else let (l, n) = cap_sigs t mx l (dropped + length (drop mx (sp_sigs sp)))
           in (sp\<lparr>sp_sigs := take mx (sp_sigs sp)\<rparr> # l, n))"

definition cap_sigs_per_packet :: "openpgp_publickey \<Rightarrow> nat \<Rightarrow> nat \<Rightarrow> openpgp_publickey \<times> nat" where
  "cap_sigs_per_packet key t mx =
     (if mx = 0 then (key, 0)
      else let (l, dropped) = cap_sigs t mx (uids key) 0 in (key\<lparr>uids := l\<rparr>, dropped))"

section \<open>cleankeys\<close>

abbreviation (input) ONAK_CLEAN_CHECK_SIGHASH :: u64 where "ONAK_CLEAN_CHECK_SIGHASH \<equiv> 1"
abbreviation (input) ONAK_CLEAN_LARGE_PACKETS :: u64 where "ONAK_CLEAN_LARGE_PACKETS \<equiv> 2"
abbreviation (input) ONAK_CLEAN_VERIFY_SIGNATURES :: u64 where "ONAK_CLEAN_VERIFY_SIGNATURES \<equiv> 16"
abbreviation (input) ONAK_CLEAN_NEED_OTHER_SIG :: u64 where "ONAK_CLEAN_NEED_OTHER_SIG \<equiv> 32"
abbreviation (input) ONAK_CLEAN_CAP_UIDS :: u64 where "ONAK_CLEAN_CAP_UIDS \<equiv> 64"
abbreviation (input) ONAK_CLEAN_CAP_UATS :: u64 where "ONAK_CLEAN_CAP_UATS \<equiv> 128"

text \<open>What the function uses of the configuration.\<close>

record onak_config =
  max_sigs_per_uid :: int
  max_sigs_per_uat :: int

fun dedupe_all :: "openpgp_signedpacket list \<Rightarrow> (openpgp_signedpacket list \<times> nat) option" where
  "dedupe_all [] = Some ([], 0)"
| "dedupe_all (sp # l) =
     do { (s, n) \<leftarrow> dedupe_sigs (sp_sigs sp); (l, m) \<leftarrow> dedupe_all l;
          Some (sp\<lparr>sp_sigs := s\<rparr> # l, n + m) }"

definition dedupe_key :: "openpgp_publickey \<Rightarrow> (openpgp_publickey \<times> nat) option" where
  "dedupe_key key =
     do { (s, n1) \<leftarrow> dedupe_sigs (sigs key);
          (u, n2) \<leftarrow> dedupe_all (uids key);
          (k, n3) \<leftarrow> dedupe_all (subkeys key);
          Some (key\<lparr>sigs := s, uids := u, subkeys := k\<rparr>, n1 + n2 + n3) }"

text \<open>
  The loop body between the version check and the removal, in four parts; the numbers are what
  is added to \<open>count\<close>.
\<close>

definition clean_lists ::
    "hash_funs \<Rightarrow> u64 \<Rightarrow> openpgp_publickey \<Rightarrow> (openpgp_publickey \<times> nat) option" where
  "clean_lists H policies key =
     do { let (key, n1) = (if policies AND ONAK_CLEAN_LARGE_PACKETS \<noteq> 0 then clean_large_packets key else (key, 0));
          (key, n2) \<leftarrow> dedupuids key;
          (key, n3) \<leftarrow> dedupsubkeys H key;
          (key, n4) \<leftarrow> (if policies AND ONAK_CLEAN_CAP_UIDS \<noteq> 0 then cap_uids_per_key key else Some (key, 0));
          (key, n5) \<leftarrow> (if policies AND ONAK_CLEAN_CAP_UATS \<noteq> 0 then cap_uats_per_key key else Some (key, 0));
          Some (key, n1 + n2 + n3 + n4 + n5) }"

definition cap_all_sigs :: "onak_config \<Rightarrow> openpgp_publickey \<Rightarrow> openpgp_publickey \<times> nat" where
  "cap_all_sigs config key =
     (let (key, n1) = (if max_sigs_per_uid config > 0
            then cap_sigs_per_packet key OPENPGP_PACKET_UID (nat (max_sigs_per_uid config)) else (key, 0));
          (key, n2) = (if max_sigs_per_uat config > 0
            then cap_sigs_per_packet key OPENPGP_PACKET_UAT (nat (max_sigs_per_uat config)) else (key, 0))
      in (key, n1 + n2))"

definition check_signatures ::
    "hash_funs \<Rightarrow> crypto \<Rightarrow> onak_dbctx \<Rightarrow> u64 \<Rightarrow> openpgp_publickey \<Rightarrow> (openpgp_publickey \<times> nat) option" where
  "check_signatures H C dbctx policies key =
     (if policies AND (ONAK_CLEAN_CHECK_SIGHASH OR ONAK_CLEAN_VERIFY_SIGNATURES) \<noteq> 0 then
        do { needother \<leftarrow>
               (if policies AND ONAK_CLEAN_NEED_OTHER_SIG \<noteq> 0 then
                  do { (_, f) \<leftarrow> get_fingerprint H (publickey key); Some (fetch_key dbctx f = 0) }
                else Some False);
             clean_key_signatures H C dbctx key (policies AND ONAK_CLEAN_VERIFY_SIGNATURES \<noteq> 0) needother }
      else Some (key, 0))"

definition clean_key ::
    "hash_funs \<Rightarrow> crypto \<Rightarrow> onak_dbctx \<Rightarrow> onak_config \<Rightarrow> u64 \<Rightarrow> openpgp_publickey \<Rightarrow>
     (openpgp_publickey \<times> nat) option" where
  "clean_key H C dbctx config policies key =
     do { (key, n1) \<leftarrow> clean_lists H policies key;
          (key, n2) \<leftarrow> dedupe_key key;
          let (key, n3) = cap_all_sigs config key;
          (key, n4) \<leftarrow> check_signatures H C dbctx policies key;
          Some (key, n1 + n2 + n3 + n4) }"

text \<open>The loop; \<open>count\<close> is carried from key to key.\<close>

fun cleankeys_loop ::
    "(openpgp_publickey \<Rightarrow> (openpgp_publickey \<times> nat) option) \<Rightarrow> openpgp_publickey list \<Rightarrow> nat \<Rightarrow> nat \<Rightarrow>
     (openpgp_publickey list \<times> nat) option" where
  "cleankeys_loop clean [] cnt changed = Some ([], changed)"
| "cleankeys_loop clean (key # keys) cnt changed =
     do { v \<leftarrow> rd (data (publickey key)) 0;
          if v < 4 then cleankeys_loop clean keys cnt (changed + 1)
          else do { (key, n) \<leftarrow> clean key;
                    let cnt = cnt + n;
                    let changed = (if cnt > 0 then changed + 1 else changed);
                    if uids key = [] then cleankeys_loop clean keys cnt changed
                    else do { (keys, changed) \<leftarrow> cleankeys_loop clean keys cnt changed;
                              Some (key # keys, changed) } } }"

definition cleankeys ::
    "hash_funs \<Rightarrow> crypto \<Rightarrow> onak_dbctx \<Rightarrow> onak_config \<Rightarrow> openpgp_publickey list option \<Rightarrow> u64 \<Rightarrow>
     (openpgp_publickey list option \<times> nat) option" where
  "cleankeys H C dbctx config keys policies =
     (case keys of
        None \<Rightarrow> Some (None, 0)
      | Some keys \<Rightarrow> do { (keys, changed) \<leftarrow> cleankeys_loop (clean_key H C dbctx config policies) keys 0 0;
                          Some (Some keys, changed) })"

section \<open>What deduplication leaves\<close>

text \<open>The abstract operation: every packet takes over the signatures of its later copies.\<close>

definition absorb :: "openpgp_signedpacket \<Rightarrow> openpgp_signedpacket \<Rightarrow> openpgp_signedpacket" where
  "absorb c d = c\<lparr>sp_sigs := deduped (sp_sigs c @ fresh (sp_sigs c) (sp_sigs d))\<rparr>"

function absorb_dups :: "openpgp_signedpacket list \<Rightarrow> openpgp_signedpacket list" where
  "absorb_dups [] = []"
| "absorb_dups (c # l) =
     foldl absorb c (filter (\<lambda>s. pkey s = pkey c) l) # absorb_dups (filter (\<lambda>s. pkey s \<noteq> pkey c) l)"
  by pat_completeness auto
termination
  by (relation "measure length") (auto simp: le_imp_less_Suc)

definition sigs_regular :: "openpgp_signedpacket \<Rightarrow> bool" where
  "sigs_regular sp \<longleftrightarrow> (\<forall>p \<in> set (sp_sigs sp). regular p)"

lemma pkey_absorb [simp]: "pkey (absorb c d) = pkey c"
  by (simp add: absorb_def)

lemma pkey_foldl_absorb [simp]: "pkey (foldl absorb c l) = pkey c"
  by (induction l arbitrary: c) simp_all

lemma deduped_subset: "\<forall>p \<in> set l. regular p \<Longrightarrow> set (deduped l) \<subseteq> set l"
  using deduped_spec [of l] by (auto simp: dedupe_spec_def dest: list_emb_set)

lemma absorb_sigs:
  assumes "sigs_regular c" and "sigs_regular d"
  shows "set (sp_sigs (absorb c d)) \<subseteq> set (sp_sigs c) \<union> set (sp_sigs d)" and "sigs_regular (absorb c d)"
proof -
  have r: "\<forall>p \<in> set (sp_sigs c @ fresh (sp_sigs c) (sp_sigs d)). regular p"
    using assms by (auto simp: fresh_def sigs_regular_def)
  show "set (sp_sigs (absorb c d)) \<subseteq> set (sp_sigs c) \<union> set (sp_sigs d)"
    using deduped_subset [OF r] by (auto simp: absorb_def fresh_def)
  then show "sigs_regular (absorb c d)" using assms unfolding sigs_regular_def by blast
qed

lemma foldl_absorb_regular: "sigs_regular c \<Longrightarrow> \<forall>d \<in> set l. sigs_regular d \<Longrightarrow> sigs_regular (foldl absorb c l)"
  by (induction l arbitrary: c) (simp_all add: absorb_sigs(2))

lemma find_signed_packet_first:
  "find_signed_packet rest (sp_packet c) = Some i \<Longrightarrow>
   filter (\<lambda>s. pkey s = pkey c) rest = rest ! i # filter (\<lambda>s. pkey s = pkey c) (take i rest @ drop (Suc i) rest) \<and>
   filter (\<lambda>s. pkey s \<noteq> pkey c) (take i rest @ drop (Suc i) rest) = filter (\<lambda>s. pkey s \<noteq> pkey c) rest"
proof (induction rest arbitrary: i)
  case (Cons sp rest)
  then show ?case by (cases i) (auto simp: compare_packets_eq pkey_def split: if_splits)
qed simp

lemma merge_dups_eq:
  "sigs_regular cur \<Longrightarrow> \<forall>d \<in> set rest. sigs_regular d \<Longrightarrow> log (sp_packet cur) = Some () \<Longrightarrow>
   merge_dups log cur rest n = Some (foldl absorb cur (filter (\<lambda>s. pkey s = pkey cur) rest),
     filter (\<lambda>s. pkey s \<noteq> pkey cur) rest, n + length (filter (\<lambda>s. pkey s = pkey cur) rest))"
proof (induction "length rest" arbitrary: cur rest n rule: less_induct)
  case less
  note reg = less.prems(1,2) and log = less.prems(3)
  show ?case
  proof (cases "find_signed_packet rest (sp_packet cur)")
    case None
    then have "pkey cur \<notin> pkey ` set rest" by (simp add: find_signed_packet_None)
    then have "filter (\<lambda>s. pkey s = pkey cur) rest = []" "filter (\<lambda>s. pkey s \<noteq> pkey cur) rest = rest"
      by (auto simp: filter_empty_conv filter_id_conv dest: image_neq)
    then show ?thesis using None by (subst merge_dups.simps) simp
  next
    case (Some i)
    note i = find_signed_packet_find(2) [OF Some] and f = find_signed_packet_first [OF Some]
    let ?rest = "take i rest @ drop (Suc i) rest"
    have sub: "set ?rest \<subseteq> set rest" by (auto dest: in_set_takeD in_set_dropD)
    have d: "sigs_regular (rest ! i)" using reg(2) i by simp
    have m: "merge_packet_sigs cur (rest ! i) =
        Some (absorb cur (rest ! i), (rest ! i)\<lparr>sp_sigs := fresh (sp_sigs cur) (sp_sigs (rest ! i))\<rparr>)"
      using merge_packet_sigs_regular [of cur "rest ! i"] i reg(1) d by (simp add: absorb_def sigs_regular_def)
    have a: "sigs_regular (absorb cur (rest ! i))" using absorb_sigs(2) [OF reg(1) d] .
    have len: "length ?rest < length rest" using i by auto
    have rr: "\<forall>d \<in> set ?rest. sigs_regular d" using reg(2) sub by blast
    have al: "log (sp_packet (absorb cur (rest ! i))) = Some ()" using log by (simp add: absorb_def)
    note ih = less.hyps [OF len a rr al, of "n + 1", unfolded pkey_absorb]
    show ?thesis using Some log m ih f by (subst merge_dups.simps) simp
  qed
qed

lemma dedup_list_eq:
  "\<forall>d \<in> set l. sigs_regular d \<and> log (sp_packet d) = Some () \<Longrightarrow>
   dedup_list log l n = Some (absorb_dups l, n + length l - length (absorb_dups l))
   \<and> length (absorb_dups l) \<le> length l"
proof (induction l arbitrary: n rule: absorb_dups.induct)
  case (2 c l)
  let ?same = "filter (\<lambda>s. pkey s = pkey c) l" and ?rest = "filter (\<lambda>s. pkey s \<noteq> pkey c) l"
  have m: "merge_dups log c l n = Some (foldl absorb c ?same, ?rest, n + length ?same)"
    using "2.prems" by (intro merge_dups_eq) auto
  have len: "length ?same + length ?rest = length l" by (rule sum_length_filter_compl)
  from "2.IH" [of "n + length ?same"] "2.prems"
  have "dedup_list log ?rest (n + length ?same) =
      Some (absorb_dups ?rest, n + length ?same + length ?rest - length (absorb_dups ?rest))"
    and le: "length (absorb_dups ?rest) \<le> length ?rest" by auto
  then show ?case using m len by simp
qed simp

lemma absorb_dups_pkeys: "pkey ` set (absorb_dups l) = pkey ` set l"
  by (induction l rule: absorb_dups.induct) auto

lemma absorb_dups_distinct: "distinct (map pkey (absorb_dups l))"
proof (induction l rule: absorb_dups.induct)
  case (2 c l)
  then show ?case using absorb_dups_pkeys [of "filter (\<lambda>s. pkey s \<noteq> pkey c) l"] by auto
qed simp

lemma absorb_dups_regular:
  "\<forall>d \<in> set l. sigs_regular d \<Longrightarrow> c \<in> set (absorb_dups l) \<Longrightarrow> sigs_regular c"
proof (induction l rule: absorb_dups.induct)
  case (2 a l)
  show ?case
  proof (cases "c \<in> set (absorb_dups (filter (\<lambda>s. pkey s \<noteq> pkey a) l))")
    case True
    then show ?thesis using "2.IH" "2.prems"(1) by simp
  next
    case False
    then have "c = foldl absorb a (filter (\<lambda>s. pkey s = pkey a) l)" using "2.prems"(2) by simp
    then show ?thesis using foldl_absorb_regular "2.prems"(1) by simp
  qed
qed simp

lemma absorb_dups_mergeable: "\<forall>d \<in> set l. sigs_regular d \<Longrightarrow> mergeable (absorb_dups l)"
  using absorb_dups_distinct absorb_dups_regular [of l] by (auto simp: mergeable_def sigs_regular_def)

section \<open>Primary user ids\<close>

lemma primary_length_safe:
  assumes "offset + 2 < sub_len" and "sub_len \<le> length d" and "sub_len < 2 ^ 64"
  shows "\<exists>r. primary_length d sub_len offset = Some r \<and>
    (\<forall>pl off. r = Inr (pl, off) \<longrightarrow> 0 < pl \<and> off + pl \<le> sub_len)"
proof -
  have b: "rd d offset = Some (d ! offset)" "rd d (offset + 1) = Some (d ! (offset + 1))"
    using assms by simp_all
  have diff: "(sub_len + 2 ^ 64 - off) mod 2 ^ 64 = sub_len - off" if "off \<le> sub_len" for off
    using that assms(3) by (rule unsigned_diff)
  define chk :: "nat \<Rightarrow> nat \<Rightarrow> unit + nat \<times> nat" where
    "chk k off = (if k = 0 \<or> k > (sub_len + 2 ^ 64 - off) mod 2 ^ 64 then Inl () else Inr (k, off))" for k off
  have fin: "chk k off = Inr (pl, off') \<Longrightarrow> 0 < pl \<and> off' + pl \<le> sub_len" if "off \<le> sub_len" for k off pl off'
    using that unfolding chk_def diff [OF that] by (auto split: if_splits)
  note unf = primary_length_def b bind.bind_lunit chk_def [symmetric]
  consider (two) "191 < d ! offset \<and> d ! offset < 255" | (five) "d ! offset = 255"
    | (one) "\<not> (191 < d ! offset \<and> d ! offset < 255)" "d ! offset \<noteq> 255"
    by blast
  then show ?thesis
  proof cases
    case two
    then show ?thesis unfolding unf using fin [of "offset + 2"] assms(1) by simp
  next
    case five
    show ?thesis
    proof (cases "offset + 1 + 4 > sub_len")
      case True
      then show ?thesis unfolding unf using five by simp
    next
      case False
      then have "rds d (offset + 1) 4 = Some (take 4 (drop (offset + 1) d))" using assms(2) by (intro rds_in) simp
      then show ?thesis unfolding unf using five False fin [of "offset + 5"] by simp
    qed
  next
    case one
    then show ?thesis unfolding unf using fin [of "offset + 1"] assms(1) by auto
  qed
qed

lemma primary_loop_safe:
  "sub_len \<le> length d \<Longrightarrow> sub_len < 2 ^ 64 \<Longrightarrow> \<exists>b. primary_loop d sub_len offset = Some b"
proof (induction d sub_len offset rule: primary_loop.induct)
  case (1 d sub_len offset)
  show ?case
  proof (cases "offset + 2 < sub_len")
    case True
    obtain r where r: "primary_length d sub_len offset = Some r"
      and ok: "\<And>pl off. r = Inr (pl, off) \<Longrightarrow> 0 < pl \<and> off + pl \<le> sub_len"
      using primary_length_safe [OF True "1.prems"] by blast
    show ?thesis
    proof (cases r)
      case (Inl u)
      then show ?thesis using True r primary_loop.simps [of d sub_len offset] by auto
    next
      case (Inr po)
      obtain pl off where po: "po = (pl, off)" by (cases po)
      have ok: "0 < pl" "off + pl \<le> length d" using ok [of pl off] Inr po "1.prems"(1) by auto
      then have t: "rd d off = Some (d ! off)" by simp
      obtain hit where h: "(if d ! off AND 0x7F = OPENPGP_SIGSUB_PRIMARYUID \<and> pl \<ge> 2
          then map_option (\<lambda>v. v \<noteq> 0) (rd d (off + 1)) else Some False) = Some hit"
        by (cases "d ! off AND 0x7F = OPENPGP_SIGSUB_PRIMARYUID \<and> pl \<ge> 2") (use ok in auto)
      show ?thesis
      proof (cases hit)
        case True
        then show ?thesis using \<open>offset + 2 < sub_len\<close> r Inr po t h by (subst primary_loop.simps) auto
      next
        case False
        have "\<exists>b. primary_loop d sub_len (off + pl) = Some b"
          by (rule "1.IH" [OF \<open>offset + 2 < sub_len\<close> r Inr po [symmetric] t h]) (use False "1.prems" in simp_all)
        then show ?thesis using \<open>offset + 2 < sub_len\<close> r Inr po t h False by (subst primary_loop.simps) simp
      qed
    qed
  qed (use primary_loop.simps [of d sub_len offset] in auto)
qed

lemma unat_octet: "unat (b :: u8) < 256"
  using unsigned_less [of b] by simp

lemma sig_is_primary_safe: "\<exists>b. sig_is_primary p = Some b"
proof (cases "plength p < 6")
  case False
  then have len: "6 \<le> length (data p)" by (simp add: plength_def)
  have r: "rd (data p) 0 = Some (data p ! 0)" "rd (data p) 1 = Some (data p ! 1)"
    "rd (drop 4 (data p)) 0 = Some (drop 4 (data p) ! 0)" "rd (drop 4 (data p)) 1 = Some (drop 4 (data p) ! 1)"
    using len by (auto intro!: rd_in)
  let ?n = "unat (drop 4 (data p) ! 0) * 256 + unat (drop 4 (data p) ! 1) + 2"
  have "?n < 2 ^ 64"
    using unat_octet [of "drop 4 (data p) ! 0"] unat_octet [of "drop 4 (data p) ! 1"] by simp
  then have "\<not> ?n > plength p - 4 \<Longrightarrow> \<exists>b. primary_loop (drop 4 (data p)) ?n 2 = Some b"
    by (intro primary_loop_safe) (simp_all only: plength_def length_drop not_less)
  then show ?thesis unfolding sig_is_primary_def r bind.bind_lunit Let_def using False by auto
qed (auto simp: sig_is_primary_def)

lemma signedpacket_is_primary_safe: "\<exists>b. signedpacket_is_primary sp = Some b"
proof -
  have "\<exists>b. sigs_primary l = Some b" for l
  proof (induction l)
    case (Cons p l)
    then show ?case using sig_is_primary_safe [of p] by (metis bind.bind_lunit sigs_primary.simps(2))
  qed auto
  then show ?thesis by (simp add: signedpacket_is_primary_def)
qed

section \<open>What the caps leave\<close>

lemma signedpacket_is_revoked_safe: "\<exists>b. signedpacket_is_revoked sp = Some b"
proof -
  have "\<exists>b. sigs_revoke l = Some b" for l
  proof (induction l)
    case (Cons p l)
    then show ?case by (cases "plength p < 2") (auto simp: plength_def rd_def)
  qed auto
  then show ?thesis by (simp add: signedpacket_is_revoked_def)
qed

definition is_rev :: "openpgp_signedpacket \<Rightarrow> bool" where
  "is_rev sp \<longleftrightarrow> signedpacket_is_revoked sp = Some True"

definition is_primary :: "openpgp_signedpacket \<Rightarrow> bool" where
  "is_primary sp \<longleftrightarrow> signedpacket_is_primary sp = Some True"

lemma is_rev_eq [simp]: "signedpacket_is_revoked sp = Some (is_rev sp)"
  using signedpacket_is_revoked_safe [of sp] by (auto simp: is_rev_def)

lemma is_primary_eq [simp]: "signedpacket_is_primary sp = Some (is_primary sp)"
  using signedpacket_is_primary_safe [of sp] by (auto simp: is_primary_def)

text \<open>The two classes of packets with a tag.\<close>

definition act :: "nat \<Rightarrow> openpgp_signedpacket \<Rightarrow> bool" where
  "act t sp \<longleftrightarrow> tag (sp_packet sp) = t \<and> \<not> is_rev sp"

definition rvk :: "nat \<Rightarrow> openpgp_signedpacket \<Rightarrow> bool" where
  "rvk t sp \<longleftrightarrow> tag (sp_packet sp) = t \<and> is_rev sp"

lemma count_packets_eq: "count_packets t l = Some (length (filter (act t) l), length (filter (rvk t) l))"
  by (induction l) (auto simp: act_def rvk_def)

text \<open>Dropping the oldest \<open>n\<close> active packets, with the two exceptions.\<close>

fun keep_active :: "nat \<Rightarrow> bool \<Rightarrow> bool \<Rightarrow> openpgp_signedpacket list \<Rightarrow> openpgp_signedpacket list" where
  "keep_active 0 pk ak A = A"
| "keep_active (Suc n) pk ak [] = []"
| "keep_active (Suc n) pk ak (a # A) =
     (if \<not> pk \<and> is_primary a then a # keep_active (Suc n) True ak A
      else if \<not> ak \<and> signedpacket_is_urn_anchor a then a # keep_active (Suc n) pk True A
      else keep_active n pk ak A)"

lemma cap_loop_eq:
  "\<exists>r. cap_loop t da dr pk ak l n = Some (r, n + (length l - length r)) \<and> subseq r l \<and>
     filter (\<lambda>sp. tag (sp_packet sp) \<noteq> t) r = filter (\<lambda>sp. tag (sp_packet sp) \<noteq> t) l \<and>
     filter (rvk t) r = drop dr (filter (rvk t) l) \<and>
     filter (act t) r = keep_active da pk ak (filter (act t) l)"
proof (induction l arbitrary: da dr pk ak n)
  case Nil
  then show ?case by (cases da) auto
next
  case (Cons sp l)
  have keep: "subseq (sp # r) (sp # l) \<and> length (sp # l) - length (sp # r) = length l - length r" if "subseq r l" for r
    using that by simp
  have skip: "subseq r (sp # l) \<and> length (sp # l) - length r = Suc (length l - length r)" if "subseq r l" for r
    using that list_emb_length [OF that] by (auto simp: Suc_diff_le)
  show ?case
  proof (cases "da = 0 \<and> dr = 0")
    case True
    then show ?thesis by simp
  next
    case False
    consider (other) "tag (sp_packet sp) \<noteq> t" | (rev0) "rvk t sp" "dr = 0" | (rev) d where "rvk t sp" "dr = Suc d"
      | (act0) "act t sp" "da = 0" | (act) d where "act t sp" "da = Suc d"
      by (cases da; cases dr) (auto simp: act_def rvk_def)
    then show ?thesis
    proof cases
      case other
      then show ?thesis using False Cons [of da dr pk ak n] keep by (auto simp: act_def rvk_def)
    next
      case rev0
      then show ?thesis using False Cons [of da dr pk ak n] keep by (auto simp: act_def rvk_def)
    next
      case rev
      then show ?thesis using Cons [of da d pk ak "n + 1"] skip by (auto simp: act_def rvk_def)
    next
      case act0
      then show ?thesis using False Cons [of da dr pk ak n] keep by (auto simp: act_def rvk_def)
    next
      case act
      consider "\<not> pk" "is_primary sp" | "pk \<or> \<not> is_primary sp" "\<not> ak" "signedpacket_is_urn_anchor sp"
        | "pk \<or> \<not> is_primary sp" "ak \<or> \<not> signedpacket_is_urn_anchor sp" by blast
      then show ?thesis
      proof cases
        case 1
        then show ?thesis using act Cons [of da dr True ak n] keep by (auto simp: act_def rvk_def)
      next
        case 2
        then show ?thesis using act Cons [of da dr pk True n] keep by (auto simp: act_def rvk_def)
      next
        case 3
        then show ?thesis using act Cons [of d dr pk ak "n + 1"] skip by (auto simp: act_def rvk_def)
      qed
    qed
  qed
qed

lemma keep_active_length:
  "n + (if pk then 0 else 1) + (if ak then 0 else 1) \<le> length A \<Longrightarrow>
   length (keep_active n pk ak A) = length A - n"
  by (induction n pk ak A rule: keep_active.induct) (auto split: if_splits)

lemma keep_active_newest:
  "\<exists>k pr. keep_active n pk ak A = pr @ drop k A \<and> subseq pr (take k A) \<and>
     length pr \<le> (if pk then 0 else 1) + (if ak then 0 else 1)"
proof (induction n pk ak A rule: keep_active.induct)
  case (1 pk ak A)
  show ?case by (rule exI [of _ 0]) simp
next
  case (2 n pk ak)
  show ?case by simp
next
  case (3 n pk ak a A)
  have keep: "\<exists>k pr. a # r = pr @ drop k (a # A) \<and> subseq pr (take k (a # A)) \<and> length pr \<le> Suc m"
    if "\<exists>k pr. r = pr @ drop k A \<and> subseq pr (take k A) \<and> length pr \<le> m" for r m
    using that by (metis append_Cons drop_Suc_Cons length_Cons not_less_eq_eq subseq_Cons2 take_Suc_Cons)
  have skip: "\<exists>k pr. r = pr @ drop k (a # A) \<and> subseq pr (take k (a # A)) \<and> length pr \<le> m"
    if "\<exists>k pr. r = pr @ drop k A \<and> subseq pr (take k A) \<and> length pr \<le> m" for r m
    using that by (metis drop_Suc_Cons list_emb_Cons take_Suc_Cons)
  consider "\<not> pk \<and> is_primary a" | "\<not> (\<not> pk \<and> is_primary a)" "\<not> ak \<and> signedpacket_is_urn_anchor a"
    | "\<not> (\<not> pk \<and> is_primary a)" "\<not> (\<not> ak \<and> signedpacket_is_urn_anchor a)" by blast
  then show ?case
  proof cases
    case 1
    then show ?thesis using "3.IH"(1) keep [of "keep_active (Suc n) True ak A" "if ak then 0 else 1"]
      by (cases ak) simp_all
  next
    case 2
    then show ?thesis using "3.IH"(2) keep [of "keep_active (Suc n) pk True A" "if pk then 0 else 1"]
      by (cases pk) simp_all
  next
    case 3
    then have "keep_active (Suc n) pk ak (a # A) = keep_active n pk ak A" by auto
    moreover have "\<not> pk \<and> is_primary a \<Longrightarrow> False" "\<not> ak \<and> signedpacket_is_urn_anchor a \<Longrightarrow> False" using 3 by blast+
    ultimately show ?thesis using skip [OF "3.IH"(3)] by metis
  qed
qed

lemma find_in_set: "find P A = Some a \<Longrightarrow> a \<in> set A"
  by (auto simp: find_Some_iff)

lemma keep_active_primary:
  "\<not> pk \<Longrightarrow> find is_primary A = Some a \<Longrightarrow> a \<in> set (keep_active n pk ak A)"
  by (induction n pk ak A rule: keep_active.induct) (auto dest: find_in_set split: if_splits)

lemma keep_active_anchor:
  "\<not> ak \<Longrightarrow> find signedpacket_is_urn_anchor A = Some a \<Longrightarrow> a \<in> set (keep_active n pk ak A)"
  by (induction n pk ak A rule: keep_active.induct) (auto dest: find_in_set split: if_splits)

section \<open>Steps that only remove\<close>

text \<open>
  \<open>reduced l' l\<close>: \<open>l'\<close> comes from \<open>l\<close> by removing packets, and signatures from the packets
  that stay. Every step of the cleaning other than the merging of duplicates is of this kind.
\<close>

definition reduced_to :: "openpgp_signedpacket \<Rightarrow> openpgp_signedpacket \<Rightarrow> bool" where
  "reduced_to a b \<longleftrightarrow> sp_packet a = sp_packet b \<and> subseq (sp_sigs a) (sp_sigs b)"

abbreviation (input) reduced :: "openpgp_signedpacket list \<Rightarrow> openpgp_signedpacket list \<Rightarrow> bool" where
  "reduced \<equiv> list_emb reduced_to"

lemma reduced_to_refl [simp]: "reduced_to a a"
  by (simp add: reduced_to_def)

lemma reduced_to_pkey: "reduced_to a b \<Longrightarrow> pkey a = pkey b"
  by (simp add: reduced_to_def pkey_def)

lemma reduced_trans: "reduced l1 l2 \<Longrightarrow> reduced l2 l3 \<Longrightarrow> reduced l1 l3"
  by (rule list_emb_trans) (auto simp: reduced_to_def elim: subseq_order.trans)

lemma subseq_reduced: "subseq l' l \<Longrightarrow> reduced l' l"
  using list_emb_mono [of "(=)" reduced_to] by auto

lemma reduced_map: "(\<And>a. reduced_to (f a) a) \<Longrightarrow> reduced (map f l) l"
  by (induction l) auto

lemma reduced_pkeys: "reduced l' l \<Longrightarrow> subseq (map pkey l') (map pkey l)"
  by (induction rule: list_emb.induct) (auto dest: reduced_to_pkey)

lemma reduced_filter_tag:
  "reduced l' l \<Longrightarrow>
   length (filter (\<lambda>sp. tag (sp_packet sp) = t) l') \<le> length (filter (\<lambda>sp. tag (sp_packet sp) = t) l)"
  by (induction rule: list_emb.induct) (auto simp: reduced_to_def)

lemma reduced_elem: "reduced l' l \<Longrightarrow> a \<in> set l' \<Longrightarrow> \<exists>b \<in> set l. reduced_to a b"
  by (meson list_emb_set)

lemma sorted_wrt_subseq: "subseq xs ys \<Longrightarrow> sorted_wrt P ys \<Longrightarrow> sorted_wrt P xs"
proof (induction rule: list_emb.induct)
  case (list_emb_Cons2 x y xs ys)
  then show ?case using list_emb_set [OF list_emb_Cons2.hyps(2)] by fastforce
qed auto

lemma distinct_subseq: "subseq xs ys \<Longrightarrow> distinct ys \<Longrightarrow> distinct xs"
proof -
  have "distinct zs \<longleftrightarrow> sorted_wrt (\<noteq>) zs" for zs :: "'a list" by (induction zs) auto
  then show "subseq xs ys \<Longrightarrow> distinct ys \<Longrightarrow> distinct xs" using sorted_wrt_subseq [of xs ys "(\<noteq>)"] by simp
qed

lemma mergeable_reduced:
  assumes "reduced l' l" and "mergeable l" shows "mergeable l'"
proof -
  have "distinct (map pkey l')"
    using distinct_subseq [OF reduced_pkeys [OF assms(1)]] assms(2) by (simp add: mergeable_def)
  moreover have "regular p" if a: "a \<in> set l'" and p: "p \<in> set (sp_sigs a)" for a p
  proof -
    obtain b where b: "b \<in> set l" "subseq (sp_sigs a) (sp_sigs b)"
      using reduced_elem [OF assms(1) a] by (auto simp: reduced_to_def)
    then have "p \<in> set (sp_sigs b)" using p by (auto dest: list_emb_set)
    then show ?thesis using b assms(2) by (auto simp: mergeable_def)
  qed
  ultimately show ?thesis by (auto simp: mergeable_def)
qed

lemma tidy_reduced: "reduced l' l \<Longrightarrow> tidy l \<Longrightarrow> tidy l'"
  unfolding tidy_def one_per_signer_def
  using mergeable_reduced [of l' l] reduced_elem [of l' l]
  by (auto simp: reduced_to_def dest: sorted_wrt_subseq)

lemma drop_large_eq:
  "drop_large l n = (filter (\<lambda>sp. \<not> packet_too_large (sp_packet sp)) l,
     n + length (filter (\<lambda>sp. packet_too_large (sp_packet sp)) l))"
  by (induction l arbitrary: n) auto

lemma cap_sigs_eq:
  "cap_sigs t mx l n =
     (map (\<lambda>sp. if tag (sp_packet sp) = t then sp\<lparr>sp_sigs := take mx (sp_sigs sp)\<rparr> else sp) l,
      n + (\<Sum>sp \<leftarrow> l. if tag (sp_packet sp) = t then length (sp_sigs sp) - mx else 0))"
  by (induction l arbitrary: n) auto

lemma take_reduced: "reduced_to (if tag (sp_packet sp) = t then sp\<lparr>sp_sigs := take mx (sp_sigs sp)\<rparr> else sp) sp"
  by (simp add: reduced_to_def prefix_imp_subseq take_is_prefix)

lemma cap_packet_type_eq:
  "\<exists>l. cap_packet_type key t ma mr = Some (key\<lparr>uids := l\<rparr>, length (uids key) - length l) \<and>
     subseq l (uids key) \<and>
     filter (\<lambda>sp. tag (sp_packet sp) \<noteq> t) l = filter (\<lambda>sp. tag (sp_packet sp) \<noteq> t) (uids key) \<and>
     filter (rvk t) l = drop (length (filter (rvk t) (uids key)) - mr) (filter (rvk t) (uids key)) \<and>
     filter (act t) l = keep_active (length (filter (act t) (uids key)) - ma) False False (filter (act t) (uids key))"
proof -
  let ?da = "length (filter (act t) (uids key)) - ma" and ?dr = "length (filter (rvk t) (uids key)) - mr"
  have d: "(if a > m then a - m else 0) = a - m" for a m :: nat by simp
  show ?thesis
  proof (cases "?da = 0 \<and> ?dr = 0")
    case True
    then have "cap_packet_type key t ma mr = Some (key\<lparr>uids := uids key\<rparr>, 0)"
      unfolding cap_packet_type_def count_packets_eq Let_def d by simp
    then show ?thesis using True by (intro exI [of _ "uids key"]) simp
  next
    case False
    obtain r where "cap_loop t ?da ?dr False False (uids key) 0 = Some (r, 0 + (length (uids key) - length r))"
      and r: "subseq r (uids key)"
        "filter (\<lambda>sp. tag (sp_packet sp) \<noteq> t) r = filter (\<lambda>sp. tag (sp_packet sp) \<noteq> t) (uids key)"
        "filter (rvk t) r = drop ?dr (filter (rvk t) (uids key))"
        "filter (act t) r = keep_active ?da False False (filter (act t) (uids key))"
      using cap_loop_eq [of t ?da ?dr False False "uids key" 0] by blast
    then have "cap_packet_type key t ma mr = Some (key\<lparr>uids := r\<rparr>, length (uids key) - length r)"
      unfolding cap_packet_type_def count_packets_eq Let_def d using False by auto
    then show ?thesis using r by blast
  qed
qed

text \<open>Deduplicated signature lists.\<close>

lemma deduped_reduced:
  assumes "sigs_regular sp" shows "reduced_to (sp\<lparr>sp_sigs := deduped (sp_sigs sp)\<rparr>) sp"
  using deduped_spec [of "sp_sigs sp"] assms by (simp add: reduced_to_def sigs_regular_def dedupe_spec_def)

lemma dedupe_all_eq:
  "\<forall>sp \<in> set l. sigs_regular sp \<Longrightarrow>
   \<exists>n. dedupe_all l = Some (map (\<lambda>sp. sp\<lparr>sp_sigs := deduped (sp_sigs sp)\<rparr>) l, n)"
proof (induction l)
  case (Cons sp l)
  then obtain n m where "dedupe_sigs (sp_sigs sp) = Some (deduped (sp_sigs sp), n)"
      "dedupe_all l = Some (map (\<lambda>sp. sp\<lparr>sp_sigs := deduped (sp_sigs sp)\<rparr>) l, m)"
    using deduped_eq [of "sp_sigs sp"] by (auto simp: sigs_regular_def)
  then show ?case by simp
qed simp

lemma reduced_deduped:
  "\<forall>sp \<in> set l. sigs_regular sp \<Longrightarrow> reduced (map (\<lambda>sp. sp\<lparr>sp_sigs := deduped (sp_sigs sp)\<rparr>) l) l"
  by (induction l) (auto intro: deduped_reduced)

lemma tidy_deduped: "mergeable l \<Longrightarrow> tidy (map (\<lambda>sp. sp\<lparr>sp_sigs := deduped (sp_sigs sp)\<rparr>) l)"
proof -
  assume l: "mergeable l"
  then have r: "\<forall>sp \<in> set l. sigs_regular sp" by (auto simp: mergeable_def sigs_regular_def)
  have "one_per_signer (deduped (sp_sigs sp))" if "sp \<in> set l" for sp
    using deduped_spec [of "sp_sigs sp"] r that by (simp add: dedupe_spec_def one_per_signer_def sigs_regular_def)
  then show ?thesis using mergeable_reduced [OF reduced_deduped [OF r] l] by (auto simp: tidy_def)
qed

section \<open>Signature checks only remove\<close>

definition steps_ok ::
    "(openpgp_packet \<Rightarrow> bool \<times> bool \<times> u64 out \<Rightarrow> (bool \<times> bool \<times> bool \<times> u64 out) option) \<Rightarrow> openpgp_packet list \<Rightarrow> bool" where
  "steps_ok step l \<longleftrightarrow> (\<forall>sig \<in> set l. \<forall>a b sid. sid \<noteq> Null \<longrightarrow>
     (\<exists>rm a' b' sid'. step sig (a, b, sid) = Some (rm, a', b', sid') \<and> sid' \<noteq> Null))"

lemma clean_sig_loop_total:
  "steps_ok step l \<Longrightarrow> sid \<noteq> Null \<Longrightarrow>
   \<exists>l' n a' b'. clean_sig_loop step l (a, b, sid) n0 = Some (l', n, a', b') \<and> subseq l' l"
proof (induction l arbitrary: a b sid n0)
  case (Cons sig l)
  have l: "steps_ok step l" using Cons.prems(1) by (simp add: steps_ok_def)
  obtain rm a' b' sid' where st: "step sig (a, b, sid) = Some (rm, a', b', sid')" "sid' \<noteq> Null"
    using Cons.prems unfolding steps_ok_def by (metis list.set_intros(1))
  show ?case using Cons.IH [OF l st(2), of a' b' n0] Cons.IH [OF l st(2), of a' b' "n0 + 1"] st(1)
    by (cases rm) auto
qed simp

lemma clean_list_loop_total:
  "(\<And>sp b. sp \<in> set l \<Longrightarrow> \<exists>s n a b'. clean (sp_packet sp) (sp_sigs sp) b = Some (s, n, a, b') \<and> subseq s (sp_sigs sp)) \<Longrightarrow>
   \<exists>l' n b'. clean_list_loop clean fullverify l b n0 = Some (l', n, b') \<and> reduced l' l"
proof (induction l arbitrary: b n0)
  case (Cons sp l)
  obtain s n a b' where s: "clean (sp_packet sp) (sp_sigs sp) b = Some (s, n, a, b')" "subseq s (sp_sigs sp)"
    using Cons.prems [of sp b] by auto
  obtain l' m b'' where "clean_list_loop clean fullverify l b' (n0 + n) = Some (l', m, b'')" and "reduced l' l"
    using Cons.IH [of b' "n0 + n"] Cons.prems by auto
  moreover have "reduced_to (sp\<lparr>sp_sigs := s\<rparr>) sp" using s(2) by (simp add: reduced_to_def)
  ultimately show ?case using s(1) by (cases "fullverify \<and> \<not> a") auto
qed simp

section \<open>When the signature checks are defined\<close>

text \<open>
  A signature that the checks can read: it states its fields, and in version 4 and 5 the length
  of the unhashed area lies inside the packet.
\<close>

definition sig_readable :: "openpgp_packet \<Rightarrow> bool" where
  "sig_readable p \<longleftrightarrow> regular p \<and>
     (data p ! 0 \<in> {4, 5} \<and> 10 \<le> plength p \<longrightarrow> unat (data p ! 4) * 256 + unat (data p ! 5) + 8 \<le> plength p)"

text \<open>The point of an ECDSA key lies on its curve.\<close>

definition on_curve :: "crypto \<Rightarrow> openpgp_packet \<Rightarrow> bool" where
  "on_curve C pk \<longleftrightarrow> (\<forall>keytype oid x y. onak_parse_key_material pk = Some (Inr (keytype, ECC oid x y)) \<longrightarrow>
     ecc_point_set C (oid, x, y))"

lemma onak_check_hash_sig_on_curve: "on_curve C pk \<Longrightarrow> \<exists>rc. onak_check_hash_sig C pk sig hash t = Some rc"
proof (cases rule: onak_check_hash_sig_cases [where C = C and sigkey = pk and sig = sig
      and hash = hash and hashtype = t])
  case (verify keytype m ofs vs)
  assume "on_curve C pk"
  then have "\<forall>oid x y. m = ECC oid x y \<longrightarrow> ecc_point_set C (oid, x, y)"
    using verify(1) by (auto simp: on_curve_def)
  from verify_switch_defined [OF this, of keytype t hash vs] show ?thesis using verify(4) by simp
qed simp

lemma signed_by_other_defined:
  "\<forall>k \<in> set ks. on_curve C (publickey k) \<Longrightarrow> \<exists>b. signed_by_other C ks sig hash t = Some b"
proof (induction ks)
  case (Cons k ks)
  then show ?case using onak_check_hash_sig_on_curve [of C "publickey k" sig hash t] by auto
qed auto

lemma onak_hash_OK:
  "hash_funs_ok H \<Longrightarrow> onak_hash H t chunks = (ONAK_E_OK, hash) \<Longrightarrow> \<exists>h. hash = Some h \<and> 16 \<le> length h"
  by (auto simp: onak_hash_def hash_funs_ok_def sha1x_hash_length split: if_splits)

lemma x509_check_rejects: "x509_check sig \<noteq> Some (Some ONAK_E_OK)"
  by (auto simp: x509_check_def simp del: octets_are.simps split: Option.bind_splits if_splits)

lemma calculate_packet_sighash_defined:
  assumes "sig_readable sig" and "hash_funs_ok H"
  shows "\<exists>ret t hash ofs. calculate_packet_sighash H key packet sig = Some (ret, t, hash, ofs) \<and>
    (ret = ONAK_E_OK \<longrightarrow> (\<exists>h i. hash = Some h \<and> 16 \<le> length h \<and> ofs = Some i \<and> i + 2 \<le> plength sig))"
proof (cases "plength sig < 10")
  case True
  then show ?thesis by (auto simp: calculate_packet_sighash_def Let_def)
next
  case False
  let ?d = "data sig" and ?v = "data sig ! 0"
  have len: "10 \<le> length ?d" using False by (simp add: plength_def)
  have r: "rd ?d 0 = Some ?v" "rd ?d 3 = Some (?d ! 3)" by (rule rd_in; use len in linarith)+
  note unf = calculate_packet_sighash_def Let_def r bind.bind_lunit
  consider (old) "?v = 2 \<or> ?v = 3" | (new) "?v = 4 \<or> ?v = 5" | (other) "?v \<notin> {2, 3, 4, 5}" by auto
  then show ?thesis
  proof cases
    case old
    show ?thesis
    proof (cases "plength sig < 19")
      case True
      then show ?thesis unfolding unf using old False by auto
    next
      case f: False
      then have s: "rd ?d 16 = Some (?d ! 16)" "rds ?d 2 5 = Some (take 5 (drop 2 ?d))"
        by (simp_all add: plength_def)
      show ?thesis unfolding unf s using old False f onak_hash_OK [OF assms(2)]
        by (auto simp: plength_def split: prod.split)
    qed
  next
    case new
    obtain x where x: "x509_check sig = Some x" using x509_check_safe [of sig] False by auto
    have siglen: "unat (?d ! 4) * 256 + unat (?d ! 5) + 8 \<le> length ?d"
      using assms(1) new False by (auto simp: sig_readable_def plength_def)
    then obtain tr where tr: "sig_trailer ?v ?d = Some tr"
      using sig_trailer_None [OF len, of ?v] by (cases "sig_trailer ?v ?d") auto
    have ofs: "i + 2 \<le> length ?d" if "tr = Inr (c, i)" for c i
      using tr that by (auto simp: sig_trailer_def Let_def split: Option.bind_splits if_splits)
    have err: "tr \<noteq> Inl ONAK_E_OK"
      using tr by (auto simp: sig_trailer_def Let_def split: Option.bind_splits if_splits)
    show ?thesis
    proof (cases "(if ?v = 4 then x509_check sig else Some None) = Some None")
      case True
      then show ?thesis unfolding unf True tr using new False ofs err onak_hash_OK [OF assms(2)]
        by (auto simp: plength_def split: sum.split prod.split)
    next
      case f: False
      then obtain res where res: "x509_check sig = Some (Some res)" "?v = 4" using x by (auto split: if_splits)
      then have "res \<noteq> ONAK_E_OK" using x509_check_rejects by metis
      then show ?thesis unfolding unf using res False by simp
    qed
  next
    case other
    then show ?thesis unfolding unf using False by auto
  qed
qed

lemma get_packetid_defined:
  assumes "hash_funs_ok H" and "data p \<noteq> []" and "data p ! 0 = 4 \<or> data p ! 0 = 5"
  shows "\<exists>k. get_packetid H p = Some (ONAK_E_OK, Some k)"
  using assms
  by (auto simp: get_packetid_def get_fingerprint_def fingerprint2keyid_def hash_funs_ok_def)

text \<open>What the checks of one key rely on: no point outside its curve takes part.\<close>

definition db_on_curve :: "crypto \<Rightarrow> onak_dbctx \<Rightarrow> bool" where
  "db_on_curve C dbctx \<longleftrightarrow> (\<forall>i. \<forall>k \<in> set (fetch_key_id dbctx i). on_curve C (publickey k))"

lemma clean_sig_steps_ok:
  assumes "hash_funs_ok H" and "on_curve C (publickey key)" and "db_on_curve C dbctx"
    and "\<forall>p \<in> set l. sig_readable p"
  shows "steps_ok (clean_sig H C dbctx key (Some kid) sigdata fullverify) l"
  unfolding steps_ok_def
proof (intro ballI allI impI)
  fix sig a b sid assume sig: "sig \<in> set l" and sid: "sid \<noteq> (Null :: u64 out)"
  have rd: "sig_readable sig" using assms(4) sig by blast
  obtain ret t hash ofs where c: "calculate_packet_sighash H key sigdata sig = Some (ret, t, hash, ofs)"
    and ok: "ret = ONAK_E_OK \<Longrightarrow> \<exists>h i. hash = Some h \<and> 16 \<le> length h \<and> ofs = Some i \<and> i + 2 \<le> plength sig"
    using calculate_packet_sighash_defined [OF rd assms(1), of key sigdata] by blast
  have rm: "\<exists>rm. remove_by_hash (Some kid) fullverify sig ret hash ofs = Some rm \<and> (fullverify \<and> \<not> rm \<longrightarrow> ret = ONAK_E_OK)"
  proof (cases "ret = ONAK_E_OK")
    case True
    then obtain h i where "hash = Some h" "16 \<le> length h" "ofs = Some i" "i + 2 \<le> plength sig" using ok by blast
    then show ?thesis using True by (auto simp: remove_by_hash_def hash_mismatch_def plength_def rd_def)
  qed (auto simp: remove_by_hash_def)
  obtain rm where rm: "remove_by_hash (Some kid) fullverify sig ret hash ofs = Some rm"
    and full: "fullverify \<and> \<not> rm \<Longrightarrow> ret = ONAK_E_OK" using rm by blast
  show "\<exists>rm a' b' sid'. clean_sig H C dbctx key (Some kid) sigdata fullverify sig (a, b, sid) =
      Some (rm, a', b', sid') \<and> sid' \<noteq> Null"
  proof (cases "have_crypto C \<and> fullverify \<and> \<not> rm")
    case False
    then show ?thesis using c rm sid by (auto simp: clean_sig_def)
  next
    case True
    then obtain h where h: "hash = Some h" using full ok by blast
    have reg: "regular sig" using rd by (simp add: sig_readable_def)
    obtain rc where i: "sig_info sig sid Null = Some (rc, over sid (Var (Some (issuer sig))), over Null (Var (Some (created sig))))"
      using regular_sig_info [OF reg, of sid Null] by blast
    have v: "over sid (Var (Some (issuer sig))) = Var (Some (issuer sig))" using sid by (cases sid) simp_all
    obtain rc' where self: "onak_check_hash_sig C (publickey key) sig h t = Some rc'"
      using onak_check_hash_sig_on_curve [OF assms(2)] by blast
    have other: "\<exists>r. signed_by_other C (if self then [] else fetch_key_id dbctx (issuer sig)) sig h t = Some r" for self
      using assms(3) by (intro signed_by_other_defined) (auto simp: db_on_curve_def)
    show ?thesis
      using True c rm h i v self other [of "issuer sig = kid \<and> rc' = ONAK_E_OK"]
      by (cases "issuer sig = kid") (auto simp: clean_sig_def)
  qed
qed

lemma clean_sighashes_total:
  assumes "hash_funs_ok H" and "on_curve C (publickey key)" and "db_on_curve C dbctx"
    and "\<forall>p \<in> set l. sig_readable p" and "get_keyid H key = Some (rc, Some kid)"
  shows "\<exists>l' n a' b'. clean_sighashes H C dbctx key sigdata l fullverify b = Some (l', n, a', b') \<and> subseq l' l"
  unfolding clean_sighashes_def
  using clean_sig_loop_total [OF clean_sig_steps_ok [OF assms(1-4)]] assms(5) by simp

lemma clean_list_sighashes_total:
  assumes "hash_funs_ok H" and "on_curve C (publickey key)" and "db_on_curve C dbctx"
    and "\<forall>sp \<in> set l. \<forall>p \<in> set (sp_sigs sp). sig_readable p" and "get_keyid H key = Some (rc, Some kid)"
  shows "\<exists>l' n. clean_list_sighashes H C dbctx key l fullverify needother = Some (l', n) \<and> reduced l' l"
proof -
  obtain l' n b' where c: "clean_list_loop (\<lambda>p s. clean_sighashes H C dbctx key (Some p) s fullverify) fullverify l False 0 =
      Some (l', n, b')" and r: "reduced l' l"
    using clean_list_loop_total [of l "\<lambda>p s. clean_sighashes H C dbctx key (Some p) s fullverify" fullverify False 0]
      clean_sighashes_total [OF assms(1-3) _ assms(5)] assms(4) by blast
  then show ?thesis by (auto simp: clean_list_sighashes_def)
qed

lemma clean_key_signatures_total:
  assumes "hash_funs_ok H" and "on_curve C (publickey key)" and "db_on_curve C dbctx"
    and "\<forall>p \<in> set (sigs key). sig_readable p"
    and "\<forall>sp \<in> set (uids key @ subkeys key). \<forall>p \<in> set (sp_sigs sp). sig_readable p"
    and "get_keyid H key = Some (rc, Some kid)"
  shows "\<exists>s u k n. clean_key_signatures H C dbctx key fullverify needother =
      Some (key\<lparr>sigs := s, uids := u, subkeys := k\<rparr>, n) \<and>
    subseq s (sigs key) \<and> reduced u (uids key) \<and> reduced k (subkeys key)"
proof -
  obtain s n1 a b where s: "clean_sighashes H C dbctx key None (sigs key) fullverify False = Some (s, n1, a, b)" "subseq s (sigs key)"
    using clean_sighashes_total [OF assms(1-4,6)] by blast
  let ?key1 = "key\<lparr>sigs := s\<rparr>"
  have id: "get_keyid H (key\<lparr>sigs := s\<rparr>) = Some (rc, Some kid)"
    "get_keyid H (key\<lparr>sigs := s, uids := u\<rparr>) = Some (rc, Some kid)" for u
    using assms(6) by (simp_all add: get_keyid_def)
  have pk: "on_curve C (publickey ?key1)" "on_curve C (publickey (?key1\<lparr>uids := u\<rparr>))" for u
    using assms(2) by simp_all
  have rd: "\<forall>sp \<in> set (uids key). \<forall>p \<in> set (sp_sigs sp). sig_readable p"
    "\<forall>sp \<in> set (subkeys key). \<forall>p \<in> set (sp_sigs sp). sig_readable p" using assms(5) by auto
  obtain u n2 where u: "clean_list_sighashes H C dbctx ?key1 (uids key) fullverify needother = Some (u, n2)" "reduced u (uids key)"
    using clean_list_sighashes_total [OF assms(1) pk(1) assms(3) rd(1) id(1)] by blast
  obtain k n3 where k: "clean_list_sighashes H C dbctx (?key1\<lparr>uids := u\<rparr>) (subkeys key) fullverify False = Some (k, n3)" "reduced k (subkeys key)"
    using clean_list_sighashes_total [OF assms(1) pk(2) assms(3) rd(2) id(2)] by blast
  show ?thesis using s u k by (auto simp: clean_key_signatures_def)
qed

section \<open>The steps of one key\<close>

definition all_sigs :: "openpgp_signedpacket list \<Rightarrow> openpgp_packet set" where
  "all_sigs l = (\<Union>sp \<in> set l. set (sp_sigs sp))"

definition tag_count :: "nat \<Rightarrow> openpgp_signedpacket list \<Rightarrow> nat" where
  "tag_count t l = length (filter (\<lambda>sp. tag (sp_packet sp) = t) l)"

definition sig_bound :: "nat \<Rightarrow> nat \<Rightarrow> openpgp_signedpacket list \<Rightarrow> bool" where
  "sig_bound t m l \<longleftrightarrow> (\<forall>sp \<in> set l. tag (sp_packet sp) = t \<longrightarrow> length (sp_sigs sp) \<le> m)"

lemma reduced_all_sigs: "reduced l' l \<Longrightarrow> all_sigs l' \<subseteq> all_sigs l"
proof
  fix p assume r: "reduced l' l" and "p \<in> all_sigs l'"
  then obtain a where a: "a \<in> set l'" "p \<in> set (sp_sigs a)" by (auto simp: all_sigs_def)
  then obtain b where b: "b \<in> set l" "subseq (sp_sigs a) (sp_sigs b)"
    using reduced_elem [OF r a(1)] by (auto simp: reduced_to_def)
  then have "p \<in> set (sp_sigs b)" using a(2) by (auto dest: list_emb_set)
  then show "p \<in> all_sigs l" using b(1) by (auto simp: all_sigs_def)
qed

lemma reduced_tag_count: "reduced l' l \<Longrightarrow> tag_count t l' \<le> tag_count t l"
  unfolding tag_count_def by (rule reduced_filter_tag)

lemma reduced_sig_bound: "reduced l' l \<Longrightarrow> sig_bound t m l \<Longrightarrow> sig_bound t m l'"
  using reduced_elem [of l' l] unfolding sig_bound_def reduced_to_def
  by (metis (no_types, lifting) list_emb_length le_trans)

lemma reduced_packets: "reduced l' l \<Longrightarrow> sp \<in> set l' \<Longrightarrow> sp_packet sp \<in> sp_packet ` set l"
  using reduced_elem [of l' l sp] by (auto simp: reduced_to_def)

lemma foldl_absorb_sigs:
  "sigs_regular c \<Longrightarrow> \<forall>d \<in> set l. sigs_regular d \<Longrightarrow> set (sp_sigs (foldl absorb c l)) \<subseteq> set (sp_sigs c) \<union> all_sigs l"
proof (induction l arbitrary: c)
  case (Cons d l)
  then show ?case using absorb_sigs [of c d] Cons.IH [of "absorb c d"] by (auto simp: all_sigs_def)
qed (simp add: all_sigs_def)

lemma absorb_dups_all_sigs: "\<forall>d \<in> set l. sigs_regular d \<Longrightarrow> all_sigs (absorb_dups l) \<subseteq> all_sigs l"
proof (induction l rule: absorb_dups.induct)
  case (2 c l)
  have "set (sp_sigs (foldl absorb c (filter (\<lambda>s. pkey s = pkey c) l))) \<subseteq> set (sp_sigs c) \<union> all_sigs l"
    using foldl_absorb_sigs [of c "filter (\<lambda>s. pkey s = pkey c) l"] "2.prems" by (auto simp: all_sigs_def)
  then show ?case using "2.IH" "2.prems" by (fastforce simp: all_sigs_def)
qed simp

lemma sp_packet_foldl_absorb [simp]: "sp_packet (foldl absorb c l) = sp_packet c"
  by (induction l arbitrary: c) (simp_all add: absorb_def)

lemma absorb_dups_packets: "sp \<in> set (absorb_dups l) \<Longrightarrow> sp_packet sp \<in> sp_packet ` set l"
  by (induction l rule: absorb_dups.induct) auto

lemma tag_count_classes: "tag_count t l = length (filter (act t) l) + length (filter (rvk t) l)"
  by (induction l) (auto simp: tag_count_def act_def rvk_def)

lemma capped_step:
  assumes "2 \<le> m"
  shows "\<exists>l n. (if c then cap_packet_type key t m m else Some (key, 0)) = Some (key\<lparr>uids := l\<rparr>, n) \<and>
    subseq l (uids key) \<and> (c \<longrightarrow> tag_count t l \<le> 2 * m)"
proof (cases c)
  case True
  let ?A = "filter (act t) (uids key)" and ?R = "filter (rvk t) (uids key)"
  obtain l where l: "cap_packet_type key t m m = Some (key\<lparr>uids := l\<rparr>, length (uids key) - length l)" "subseq l (uids key)"
      "filter (rvk t) l = drop (length ?R - m) ?R" "filter (act t) l = keep_active (length ?A - m) False False ?A"
    using cap_packet_type_eq [of key t m m] by blast
  have "length (keep_active (length ?A - m) False False ?A) \<le> m"
    using keep_active_length [of "length ?A - m" False False ?A] assms by (cases "m \<le> length ?A") auto
  then have "tag_count t l \<le> 2 * m" using l(3,4) by (simp add: tag_count_classes)
  then show ?thesis using l True by auto
next
  case False
  show ?thesis by (rule exI [of _ "uids key"]) (simp add: False)
qed

lemma cap_sigs_step:
  assumes "c \<Longrightarrow> 0 < m"
  shows "\<exists>l n. (if c then cap_sigs_per_packet key t m else (key, 0)) = (key\<lparr>uids := l\<rparr>, n) \<and>
    reduced l (uids key) \<and> (c \<longrightarrow> sig_bound t m l)"
proof (cases c)
  case True
  let ?f = "\<lambda>sp. if tag (sp_packet sp) = t then sp\<lparr>sp_sigs := take m (sp_sigs sp)\<rparr> else sp"
  have "reduced (map ?f (uids key)) (uids key)" by (rule reduced_map) (rule take_reduced)
  moreover have "sig_bound t m (map ?f (uids key))" unfolding sig_bound_def set_map by (intro ballI) (elim imageE, simp)
  moreover have "\<exists>n. cap_sigs_per_packet key t m = (key\<lparr>uids := map ?f (uids key)\<rparr>, n)"
    using assms True by (simp add: cap_sigs_per_packet_def cap_sigs_eq)
  ultimately show ?thesis using True by auto
next
  case False
  show ?thesis by (rule exI [of _ "uids key"]) (simp add: False list_emb_refl)
qed

text \<open>A key the cleaning can work on: version 4 or 5 throughout, readable signatures.\<close>

definition version_4_or_5 :: "openpgp_packet \<Rightarrow> bool" where
  "version_4_or_5 p \<longleftrightarrow> data p \<noteq> [] \<and> (data p ! 0 = 4 \<or> data p ! 0 = 5)"

definition key_cleanable :: "crypto \<Rightarrow> openpgp_publickey \<Rightarrow> bool" where
  "key_cleanable C key \<longleftrightarrow> version_4_or_5 (publickey key) \<and> on_curve C (publickey key) \<and>
     (\<forall>sp \<in> set (subkeys key). version_4_or_5 (sp_packet sp)) \<and>
     (\<forall>p \<in> set (sigs key) \<union> all_sigs (uids key) \<union> all_sigs (subkeys key). sig_readable p)"

lemma readable_regular: "\<forall>p \<in> all_sigs l. sig_readable p \<Longrightarrow> \<forall>sp \<in> set l. sigs_regular sp"
  by (auto simp: all_sigs_def sigs_regular_def sig_readable_def)

lemma cleanable_regular:
  assumes "key_cleanable C key"
  shows "\<forall>p \<in> set (sigs key). regular p" and "\<forall>sp \<in> set (uids key). sigs_regular sp"
    and "\<forall>sp \<in> set (subkeys key). sigs_regular sp"
proof -
  have r: "\<forall>p \<in> set (sigs key). sig_readable p" "\<forall>p \<in> all_sigs (uids key). sig_readable p"
    "\<forall>p \<in> all_sigs (subkeys key). sig_readable p" using assms unfolding key_cleanable_def by blast+
  then show "\<forall>p \<in> set (sigs key). regular p" by (simp add: sig_readable_def)
  show "\<forall>sp \<in> set (uids key). sigs_regular sp" "\<forall>sp \<in> set (subkeys key). sigs_regular sp"
    using r by (rule_tac [!] readable_regular)
qed

lemma dedup_steps:
  assumes "hash_funs_ok H" and "key_cleanable C key"
  shows "\<exists>n. dedupuids key = Some (key\<lparr>uids := absorb_dups (uids key)\<rparr>, n)"
    and "\<exists>n. dedupsubkeys H key = Some (key\<lparr>subkeys := absorb_dups (subkeys key)\<rparr>, n)"
proof -
  note u = cleanable_regular(2) [OF assms(2)] and k = cleanable_regular(3) [OF assms(2)]
  show "\<exists>n. dedupuids key = Some (key\<lparr>uids := absorb_dups (uids key)\<rparr>, n)"
    using dedup_list_eq [of "uids key" "\<lambda>_. Some ()" 0] u by (simp add: dedupuids_def)
  have "log_packetid H (sp_packet sp) = Some ()" if "sp \<in> set (subkeys key)" for sp
    using get_packetid_defined [OF assms(1), of "sp_packet sp"] assms(2) that
    by (auto simp: log_packetid_def key_cleanable_def version_4_or_5_def)
  then show "\<exists>n. dedupsubkeys H key = Some (key\<lparr>subkeys := absorb_dups (subkeys key)\<rparr>, n)"
    using dedup_list_eq [of "subkeys key" "log_packetid H" 0] k by (simp add: dedupsubkeys_def)
qed

lemma dedupe_key_step:
  assumes "key_cleanable C key"
  shows "\<exists>n. dedupe_key key = Some (key\<lparr>sigs := deduped (sigs key),
      uids := map (\<lambda>sp. sp\<lparr>sp_sigs := deduped (sp_sigs sp)\<rparr>) (uids key),
      subkeys := map (\<lambda>sp. sp\<lparr>sp_sigs := deduped (sp_sigs sp)\<rparr>) (subkeys key)\<rparr>, n)"
proof -
  note r = cleanable_regular [OF assms]
  show ?thesis using deduped_eq [OF r(1)] dedupe_all_eq [OF r(2)] dedupe_all_eq [OF r(3)]
    by (auto simp: dedupe_key_def)
qed

lemma key_cleanable_mono:
  assumes "key_cleanable C key" and "publickey key' = publickey key" and "set (sigs key') \<subseteq> set (sigs key)"
    and "all_sigs (uids key') \<subseteq> all_sigs (uids key)" and "all_sigs (subkeys key') \<subseteq> all_sigs (subkeys key)"
    and "sp_packet ` set (subkeys key') \<subseteq> sp_packet ` set (subkeys key)"
  shows "key_cleanable C key'"
proof -
  have "version_4_or_5 (sp_packet sp)" if "sp \<in> set (subkeys key')" for sp
  proof -
    have "sp_packet sp \<in> sp_packet ` set (subkeys key)" using assms(6) that by blast
    then obtain b where "b \<in> set (subkeys key)" "sp_packet sp = sp_packet b" by blast
    then show ?thesis using assms(1) by (simp add: key_cleanable_def)
  qed
  moreover have "\<forall>p \<in> set (sigs key') \<union> all_sigs (uids key') \<union> all_sigs (subkeys key'). sig_readable p"
    using assms(1,3-5) unfolding key_cleanable_def by blast
  ultimately show ?thesis using assms(1,2) by (simp add: key_cleanable_def)
qed

text \<open>What the cleaning of one key establishes.\<close>

definition key_clean :: "onak_config \<Rightarrow> u64 \<Rightarrow> openpgp_publickey \<Rightarrow> bool" where
  "key_clean config policies k \<longleftrightarrow> key_tidy k \<and>
     (policies AND ONAK_CLEAN_CAP_UIDS \<noteq> 0 \<longrightarrow> tag_count OPENPGP_PACKET_UID (uids k) \<le> 2 * MAX_UIDS_PER_KEY) \<and>
     (policies AND ONAK_CLEAN_CAP_UATS \<noteq> 0 \<longrightarrow> tag_count OPENPGP_PACKET_UAT (uids k) \<le> 2 * MAX_UATS_PER_KEY) \<and>
     (0 < max_sigs_per_uid config \<longrightarrow> sig_bound OPENPGP_PACKET_UID (nat (max_sigs_per_uid config)) (uids k)) \<and>
     (0 < max_sigs_per_uat config \<longrightarrow> sig_bound OPENPGP_PACKET_UAT (nat (max_sigs_per_uat config)) (uids k)) \<and>
     (policies AND ONAK_CLEAN_LARGE_PACKETS \<noteq> 0 \<longrightarrow> (\<forall>sp \<in> set (uids k). \<not> packet_too_large (sp_packet sp)))"

text \<open>The steps up to the caps.\<close>

lemma clean_lists_total:
  assumes "hash_funs_ok H" and "key_cleanable C key"
  shows "\<exists>k n. clean_lists H policies key = Some (k, n) \<and> publickey k = publickey key \<and> key_cleanable C k \<and>
    key_mergeable k \<and>
    (policies AND ONAK_CLEAN_LARGE_PACKETS \<noteq> 0 \<longrightarrow> (\<forall>sp \<in> set (uids k). \<not> packet_too_large (sp_packet sp))) \<and>
    (policies AND ONAK_CLEAN_CAP_UIDS \<noteq> 0 \<longrightarrow> tag_count OPENPGP_PACKET_UID (uids k) \<le> 2 * MAX_UIDS_PER_KEY) \<and>
    (policies AND ONAK_CLEAN_CAP_UATS \<noteq> 0 \<longrightarrow> tag_count OPENPGP_PACKET_UAT (uids k) \<le> 2 * MAX_UATS_PER_KEY)"
proof -
  let ?large = "policies AND ONAK_CLEAN_LARGE_PACKETS \<noteq> 0"
  define u0 where "u0 = (if ?large then filter (\<lambda>sp. \<not> packet_too_large (sp_packet sp)) (uids key) else uids key)"
  have large: "\<exists>n. (if ?large then clean_large_packets key else (key, 0)) = (key\<lparr>uids := u0\<rparr>, n)"
    by (simp add: clean_large_packets_def drop_large_eq u0_def)
  have "subseq u0 (uids key)" by (simp add: u0_def)
  then have c0: "key_cleanable C (key\<lparr>uids := u0\<rparr>)"
    using reduced_all_sigs [OF subseq_reduced] by (intro key_cleanable_mono [OF assms(2)]) simp_all
  let ?k1 = "key\<lparr>uids := absorb_dups u0\<rparr>"
  have reg: "\<forall>sp \<in> set u0. sigs_regular sp" "\<forall>sp \<in> set (subkeys key). sigs_regular sp"
    using cleanable_regular [OF c0] by simp_all
  have c1: "key_cleanable C ?k1"
    using absorb_dups_all_sigs [OF reg(1)] by (intro key_cleanable_mono [OF c0]) simp_all
  let ?k2 = "?k1\<lparr>subkeys := absorb_dups (subkeys key)\<rparr>"
  have "sp_packet ` set (absorb_dups (subkeys key)) \<subseteq> sp_packet ` set (subkeys key)" using absorb_dups_packets by blast
  then have c2: "key_cleanable C ?k2"
    using absorb_dups_all_sigs [OF reg(2)] by (intro key_cleanable_mono [OF c1]) simp_all
  obtain n1 n2 n3 where n: "(if ?large then clean_large_packets key else (key, 0)) = (key\<lparr>uids := u0\<rparr>, n1)"
      "dedupuids (key\<lparr>uids := u0\<rparr>) = Some (?k1, n2)" "dedupsubkeys H ?k1 = Some (?k2, n3)"
    using large dedup_steps(1) [OF assms(1) c0] dedup_steps(2) [OF assms(1) c1] by auto
  obtain u4 n4 where u4: "(if policies AND ONAK_CLEAN_CAP_UIDS \<noteq> 0 then cap_uids_per_key ?k2 else Some (?k2, 0)) =
      Some (?k2\<lparr>uids := u4\<rparr>, n4)" "subseq u4 (absorb_dups u0)"
      "policies AND ONAK_CLEAN_CAP_UIDS \<noteq> 0 \<longrightarrow> tag_count OPENPGP_PACKET_UID u4 \<le> 2 * MAX_UIDS_PER_KEY"
    using capped_step [of 32 "policies AND ONAK_CLEAN_CAP_UIDS \<noteq> 0" ?k2 13] unfolding cap_uids_per_key_def by auto
  let ?k4 = "?k2\<lparr>uids := u4\<rparr>"
  obtain u5 n5 where u5: "(if policies AND ONAK_CLEAN_CAP_UATS \<noteq> 0 then cap_uats_per_key ?k4 else Some (?k4, 0)) =
      Some (?k4\<lparr>uids := u5\<rparr>, n5)" "subseq u5 u4"
      "policies AND ONAK_CLEAN_CAP_UATS \<noteq> 0 \<longrightarrow> tag_count OPENPGP_PACKET_UAT u5 \<le> 2 * MAX_UATS_PER_KEY"
    using capped_step [of 4 "policies AND ONAK_CLEAN_CAP_UATS \<noteq> 0" ?k4 17] unfolding cap_uats_per_key_def by auto
  let ?k5 = "?k4\<lparr>uids := u5\<rparr>"
  have r5: "reduced u5 (absorb_dups u0)" using subseq_reduced u4(2) u5(2) subseq_order.trans by blast
  have c5: "key_cleanable C ?k5"
    using reduced_all_sigs [OF r5] by (intro key_cleanable_mono [OF c2]) simp_all
  have small: "?large \<longrightarrow> (\<forall>sp \<in> set (uids ?k5). \<not> packet_too_large (sp_packet sp))"
    using reduced_packets [OF r5] absorb_dups_packets [of _ u0] by (fastforce simp: u0_def)
  have "tag_count OPENPGP_PACKET_UID u5 \<le> tag_count OPENPGP_PACKET_UID u4"
    using reduced_tag_count [OF subseq_reduced [OF u5(2)]] .
  then have uid: "policies AND ONAK_CLEAN_CAP_UIDS \<noteq> 0 \<longrightarrow> tag_count OPENPGP_PACKET_UID (uids ?k5) \<le> 2 * MAX_UIDS_PER_KEY"
    using u4(3) by auto
  have "mergeable u5" using mergeable_reduced [OF r5 absorb_dups_mergeable [OF reg(1)]] .
  then have m: "key_mergeable ?k5" using absorb_dups_mergeable [OF reg(2)] by (simp add: key_mergeable_def)
  have "clean_lists H policies key = Some (?k5, n1 + n2 + n3 + n4 + n5)"
    unfolding clean_lists_def n Let_def prod.case bind.bind_lunit u4(1) u5(1) ..
  then show ?thesis using c5 m small uid u5(3) by (intro exI [of _ ?k5]) simp
qed

text \<open>The steps after the caps.\<close>

lemma check_signatures_total:
  assumes "hash_funs_ok H" and "key_cleanable C key" and "db_on_curve C dbctx"
  shows "\<exists>k n. check_signatures H C dbctx policies key = Some (k, n) \<and> publickey k = publickey key \<and>
    reduced (uids k) (uids key) \<and> reduced (subkeys k) (subkeys key)"
proof (cases "policies AND (ONAK_CLEAN_CHECK_SIGHASH OR ONAK_CLEAN_VERIFY_SIGNATURES) \<noteq> 0")
  case False
  then show ?thesis by (simp add: check_signatures_def list_emb_refl)
next
  case True
  have v: "version_4_or_5 (publickey key)" and c: "on_curve C (publickey key)"
    using assms(2) by (simp_all add: key_cleanable_def)
  obtain kid where kid: "get_keyid H key = Some (ONAK_E_OK, Some kid)"
    using get_packetid_defined [OF assms(1)] v by (auto simp: get_keyid_def version_4_or_5_def)
  have "\<exists>rc f. get_fingerprint H (publickey key) = Some (rc, f)"
    using v by (auto simp: version_4_or_5_def get_fingerprint_def)
  then obtain needother where need: "(if policies AND ONAK_CLEAN_NEED_OTHER_SIG \<noteq> 0 then
      do { (_, f) \<leftarrow> get_fingerprint H (publickey key); Some (fetch_key dbctx f = 0) } else Some False) = Some needother"
    by (cases "policies AND ONAK_CLEAN_NEED_OTHER_SIG \<noteq> 0") auto
  have rd: "\<forall>p \<in> set (sigs key). sig_readable p"
    "\<forall>sp \<in> set (uids key @ subkeys key). \<forall>p \<in> set (sp_sigs sp). sig_readable p"
    using assms(2) by (auto simp: key_cleanable_def all_sigs_def)
  from clean_key_signatures_total [OF assms(1) c assms(3) rd kid,
      of "policies AND ONAK_CLEAN_VERIFY_SIGNATURES \<noteq> 0" needother]
  show ?thesis using True need by (auto simp: check_signatures_def)
qed

lemma cap_all_sigs_total:
  "\<exists>l n. cap_all_sigs config key = (key\<lparr>uids := l\<rparr>, n) \<and> reduced l (uids key) \<and>
     (0 < max_sigs_per_uid config \<longrightarrow> sig_bound OPENPGP_PACKET_UID (nat (max_sigs_per_uid config)) l) \<and>
     (0 < max_sigs_per_uat config \<longrightarrow> sig_bound OPENPGP_PACKET_UAT (nat (max_sigs_per_uat config)) l)"
proof -
  obtain l1 n1 where 1: "(if 0 < max_sigs_per_uid config then cap_sigs_per_packet key 13 (nat (max_sigs_per_uid config)) else (key, 0)) =
      (key\<lparr>uids := l1\<rparr>, n1)" "reduced l1 (uids key)"
      "0 < max_sigs_per_uid config \<longrightarrow> sig_bound 13 (nat (max_sigs_per_uid config)) l1"
    using cap_sigs_step [of "0 < max_sigs_per_uid config" "nat (max_sigs_per_uid config)" key 13] by auto
  let ?key = "key\<lparr>uids := l1\<rparr>"
  obtain l2 n2 where 2: "(if 0 < max_sigs_per_uat config then cap_sigs_per_packet ?key 17 (nat (max_sigs_per_uat config)) else (?key, 0)) =
      (?key\<lparr>uids := l2\<rparr>, n2)" "reduced l2 l1"
      "0 < max_sigs_per_uat config \<longrightarrow> sig_bound 17 (nat (max_sigs_per_uat config)) l2"
    using cap_sigs_step [of "0 < max_sigs_per_uat config" "nat (max_sigs_per_uat config)" ?key 17] by auto
  have "cap_all_sigs config key = (?key\<lparr>uids := l2\<rparr>, n1 + n2)"
    unfolding cap_all_sigs_def 1(1) Let_def prod.case 2(1) ..
  then show ?thesis using reduced_trans [OF 2(2) 1(2)] 1(3) 2(3) reduced_sig_bound [OF 2(2)] by auto
qed

lemma clean_key_total:
  assumes "hash_funs_ok H" and "key_cleanable C key" and "db_on_curve C dbctx"
  shows "\<exists>k n. clean_key H C dbctx config policies key = Some (k, n) \<and> publickey k = publickey key \<and>
    key_clean config policies k"
proof -
  let ?ded = "map (\<lambda>sp. sp\<lparr>sp_sigs := deduped (sp_sigs sp)\<rparr>)"
  obtain k1 n1 where k1: "clean_lists H policies key = Some (k1, n1)" "publickey k1 = publickey key"
      and c1: "key_cleanable C k1" and m1: "key_mergeable k1"
      and caps: "policies AND ONAK_CLEAN_LARGE_PACKETS \<noteq> 0 \<longrightarrow> (\<forall>sp \<in> set (uids k1). \<not> packet_too_large (sp_packet sp))"
        "policies AND ONAK_CLEAN_CAP_UIDS \<noteq> 0 \<longrightarrow> tag_count OPENPGP_PACKET_UID (uids k1) \<le> 2 * MAX_UIDS_PER_KEY"
        "policies AND ONAK_CLEAN_CAP_UATS \<noteq> 0 \<longrightarrow> tag_count OPENPGP_PACKET_UAT (uids k1) \<le> 2 * MAX_UATS_PER_KEY"
    using clean_lists_total [OF assms(1,2), of policies] by blast
  note reg = cleanable_regular [OF c1]
  let ?k2 = "k1\<lparr>sigs := deduped (sigs k1), uids := ?ded (uids k1), subkeys := ?ded (subkeys k1)\<rparr>"
  obtain n2 where k2: "dedupe_key k1 = Some (?k2, n2)" using dedupe_key_step [OF c1] by blast
  have r2: "reduced (uids ?k2) (uids k1)" "reduced (subkeys ?k2) (subkeys k1)"
    using reduced_deduped [OF reg(2)] reduced_deduped [OF reg(3)] by simp_all
  have tidy2: "tidy (uids ?k2)" "tidy (subkeys ?k2)"
    using tidy_deduped m1 by (simp_all add: key_mergeable_def)
  obtain u3 n3 where k3: "cap_all_sigs config ?k2 = (?k2\<lparr>uids := u3\<rparr>, n3)" "reduced u3 (uids ?k2)"
      and b3: "0 < max_sigs_per_uid config \<longrightarrow> sig_bound OPENPGP_PACKET_UID (nat (max_sigs_per_uid config)) u3"
        "0 < max_sigs_per_uat config \<longrightarrow> sig_bound OPENPGP_PACKET_UAT (nat (max_sigs_per_uat config)) u3"
    using cap_all_sigs_total [of config ?k2] by blast
  let ?k3 = "?k2\<lparr>uids := u3\<rparr>"
  have r3: "reduced u3 (uids k1)" using reduced_trans [OF k3(2) r2(1)] .
  have sub: "sp_packet ` set (subkeys ?k3) \<subseteq> sp_packet ` set (subkeys k1)" using reduced_packets [OF r2(2)] by auto
  have "set (deduped (sigs k1)) \<subseteq> set (sigs k1)" using deduped_subset [OF reg(1)] .
  then have c3: "key_cleanable C ?k3"
    using reduced_all_sigs [OF r3] reduced_all_sigs [OF r2(2)] sub by (intro key_cleanable_mono [OF c1]) simp_all
  obtain k4 n4 where k4: "check_signatures H C dbctx policies ?k3 = Some (k4, n4)" "publickey k4 = publickey ?k3"
      and r4: "reduced (uids k4) u3" "reduced (subkeys k4) (subkeys ?k2)"
    using check_signatures_total [OF assms(1) c3 assms(3), of policies] by auto
  have r: "reduced (uids k4) (uids k1)" using reduced_trans [OF r4(1) r3] .
  have "tidy (uids k4)" using tidy_reduced [OF reduced_trans [OF r4(1) k3(2)] tidy2(1)] .
  moreover have "tidy (subkeys k4)" using tidy_reduced [OF r4(2) tidy2(2)] .
  moreover have "\<forall>sp \<in> set (uids k4). \<not> packet_too_large (sp_packet sp)" if "policies AND ONAK_CLEAN_LARGE_PACKETS \<noteq> 0"
    using reduced_packets [OF r] caps(1) that by fastforce
  ultimately have "key_clean config policies k4"
    using caps(2,3) reduced_tag_count [OF r, of 13] reduced_tag_count [OF r, of 17]
      b3 reduced_sig_bound [OF r4(1)]
    by (auto simp: key_clean_def key_tidy_def)
  moreover have "clean_key H C dbctx config policies key = Some (k4, n1 + n2 + n3 + n4)"
    unfolding clean_key_def k1(1) bind.bind_lunit prod.case k2 k3(1) Let_def k4(1) ..
  ultimately show ?thesis using k4(2) k1(2) by simp
qed

text \<open>A key of the list: one that is cleaned, or one of an old version that is dropped.\<close>

definition key_acceptable :: "crypto \<Rightarrow> openpgp_publickey \<Rightarrow> bool" where
  "key_acceptable C key \<longleftrightarrow> data (publickey key) \<noteq> [] \<and> (data (publickey key) ! 0 < 4 \<or> key_cleanable C key)"

lemma cleankeys_loop_total:
  assumes "\<And>key. key_cleanable C key \<Longrightarrow> \<exists>k n. clean key = Some (k, n) \<and> publickey k = publickey key \<and> P k"
  shows "\<forall>key \<in> set keys. key_acceptable C key \<Longrightarrow>
    \<exists>keys' n. cleankeys_loop clean keys cnt changed = Some (keys', n) \<and> length keys' \<le> length keys \<and>
      (\<forall>k \<in> set keys'. P k \<and> uids k \<noteq> [] \<and> 4 \<le> data (publickey k) ! 0 \<and>
         (\<exists>key \<in> set keys. publickey k = publickey key))"
proof (induction keys arbitrary: cnt changed)
  case (Cons key keys)
  have acc: "key_acceptable C key" and v: "rd (data (publickey key)) 0 = Some (data (publickey key) ! 0)"
    using Cons.prems by (auto simp: key_acceptable_def)
  show ?case
  proof (cases "data (publickey key) ! 0 < 4")
    case True
    then show ?thesis using Cons.IH [of cnt "changed + 1"] Cons.prems v by fastforce
  next
    case False
    then have "key_cleanable C key" using acc by (simp add: key_acceptable_def)
    then obtain k n where k: "clean key = Some (k, n)" "publickey k = publickey key" "P k" using assms by blast
    let ?changed = "if cnt + n > 0 then changed + 1 else changed"
    obtain keys' m where "cleankeys_loop clean keys (cnt + n) ?changed = Some (keys', m)" "length keys' \<le> length keys"
        "\<forall>k \<in> set keys'. P k \<and> uids k \<noteq> [] \<and> 4 \<le> data (publickey k) ! 0 \<and> (\<exists>key \<in> set keys. publickey k = publickey key)"
      using Cons.IH [of "cnt + n" ?changed] Cons.prems by auto
    then show ?thesis using k v False by (cases "uids k = []") (auto simp: Let_def)
  qed
qed simp

section \<open>What a full verification keeps\<close>

text \<open>The signature on \<open>packet\<close> (or on the key itself) verifies with the key packet \<open>pk\<close>.\<close>

definition signed_by ::
    "hash_funs \<Rightarrow> crypto \<Rightarrow> openpgp_publickey \<Rightarrow> openpgp_packet option \<Rightarrow> openpgp_packet \<Rightarrow> openpgp_packet \<Rightarrow> bool" where
  "signed_by H C key packet sig pk \<longleftrightarrow>
     (\<exists>t h ofs. calculate_packet_sighash H key packet sig = Some (ONAK_E_OK, t, h, ofs) \<and>
        h \<noteq> None \<and> onak_check_hash_sig C pk sig (the h) t = Some ONAK_E_OK)"

definition genuine ::
    "hash_funs \<Rightarrow> crypto \<Rightarrow> onak_dbctx \<Rightarrow> openpgp_publickey \<Rightarrow> openpgp_packet option \<Rightarrow> openpgp_packet \<Rightarrow> bool" where
  "genuine H C dbctx key packet sig \<longleftrightarrow> signed_by H C key packet sig (publickey key) \<or>
     (\<exists>i. \<exists>k \<in> set (fetch_key_id dbctx i). signed_by H C key packet sig (publickey k))"

lemma signed_by_other_True:
  "signed_by_other C ks sig h t = Some True \<Longrightarrow> \<exists>k \<in> set ks. onak_check_hash_sig C (publickey k) sig h t = Some ONAK_E_OK"
  by (induction ks) (auto split: Option.bind_splits if_splits)

lemma clean_sig_verified:
  assumes "have_crypto C" and "clean_sig H C dbctx key keyid packet True sig (a, b, sid) = Some (rm, a', b', sid')"
  shows "\<not> rm \<Longrightarrow> genuine H C dbctx key packet sig"
    and "a' \<Longrightarrow> a \<or> (\<not> rm \<and> signed_by H C key packet sig (publickey key))"
proof -
  obtain ret t hash ofs where c: "calculate_packet_sighash H key packet sig = Some (ret, t, hash, ofs)"
    using assms(2) by (auto simp: clean_sig_def split: Option.bind_splits)
  obtain rm0 where r: "remove_by_hash keyid True sig ret hash ofs = Some rm0"
    using assms(2) c by (auto simp: clean_sig_def split: Option.bind_splits)
  have goal: "(\<not> rm \<longrightarrow> genuine H C dbctx key packet sig) \<and>
      (a' \<longrightarrow> a \<or> (\<not> rm \<and> signed_by H C key packet sig (publickey key)))"
  proof (cases rm0)
    case True
    then show ?thesis using assms c r by (simp add: clean_sig_def)
  next
    case False
    have ok: "ret = ONAK_E_OK" using r False by (auto simp: remove_by_hash_def split: Option.bind_splits if_splits)
    obtain sid0 kid h self other where self:
        "(if sid0 = kid then map_option (\<lambda>ret. ret = ONAK_E_OK) (onak_check_hash_sig C (publickey key) sig h t)
          else Some False) = Some self"
      and st: "signed_by_other C (if self then [] else fetch_key_id dbctx sid0) sig h t = Some other"
        "hash = Some h" "rm = (\<not> self \<and> \<not> other)" "a' = (a \<or> self)"
      using assms c r False by (simp add: clean_sig_def bind_eq_Some_conv) blast
    have chk: "self \<Longrightarrow> onak_check_hash_sig C (publickey key) sig h t = Some ONAK_E_OK"
      using self by (auto split: if_splits)
    have "signed_by H C key packet sig (publickey key)" if self
      using that st c ok chk by (auto simp: signed_by_def)
    moreover have "genuine H C dbctx key packet sig" if "\<not> self" other
      using that st c ok signed_by_other_True [of C "fetch_key_id dbctx sid0" sig h t]
      by (auto simp: genuine_def signed_by_def)
    ultimately show ?thesis using st(3,4) by (auto simp: genuine_def)
  qed
  then show "\<not> rm \<Longrightarrow> genuine H C dbctx key packet sig"
    "a' \<Longrightarrow> a \<or> (\<not> rm \<and> signed_by H C key packet sig (publickey key))" by blast+
qed

lemma clean_sig_loop_verified:
  assumes "have_crypto C"
  shows "clean_sig_loop (clean_sig H C dbctx key keyid packet True) l st n0 = Some (l', n, a', b') \<Longrightarrow>
    (\<forall>s \<in> set l'. genuine H C dbctx key packet s) \<and>
    (a' \<longrightarrow> fst st \<or> (\<exists>s \<in> set l'. signed_by H C key packet s (publickey key)))"
proof (induction l arbitrary: st n0 l')
  case (Cons sig l)
  obtain a b sid where st: "st = (a, b, sid)" by (cases st)
  obtain rm a1 b1 sid1 where c: "clean_sig H C dbctx key keyid packet True sig (a, b, sid) = Some (rm, a1, b1, sid1)"
    using Cons.prems st by (auto split: Option.bind_splits)
  note v = clean_sig_verified [OF assms c]
  show ?case
  proof (cases rm)
    case True
    then show ?thesis using Cons.IH [of "(a1, b1, sid1)" "n0 + 1" l'] Cons.prems st c v(2) by auto
  next
    case False
    then obtain l'' where "l' = sig # l''"
        "clean_sig_loop (clean_sig H C dbctx key keyid packet True) l (a1, b1, sid1) n0 = Some (l'', n, a', b')"
      using Cons.prems st c by (auto split: Option.bind_splits)
    then show ?thesis using Cons.IH [of "(a1, b1, sid1)" n0 l''] v False st by auto
  qed
qed auto

definition verified_packet ::
    "hash_funs \<Rightarrow> crypto \<Rightarrow> onak_dbctx \<Rightarrow> openpgp_publickey \<Rightarrow> openpgp_signedpacket \<Rightarrow> bool" where
  "verified_packet H C dbctx key sp \<longleftrightarrow>
     (\<forall>s \<in> set (sp_sigs sp). genuine H C dbctx key (Some (sp_packet sp)) s) \<and>
     (\<exists>s \<in> set (sp_sigs sp). signed_by H C key (Some (sp_packet sp)) s (publickey key))"

lemma clean_list_loop_verified:
  assumes "have_crypto C"
  shows "clean_list_loop (\<lambda>p s. clean_sighashes H C dbctx key (Some p) s True) True l b n0 = Some (l', n, b') \<Longrightarrow>
    \<forall>sp \<in> set l'. verified_packet H C dbctx key sp"
proof (induction l arbitrary: b n0 l')
  case (Cons sp l)
  obtain s m a b1 where c: "clean_sighashes H C dbctx key (Some (sp_packet sp)) (sp_sigs sp) True b = Some (s, m, a, b1)"
    using Cons.prems by (auto split: Option.bind_splits)
  then have "(\<forall>p \<in> set s. genuine H C dbctx key (Some (sp_packet sp)) p) \<and>
      (a \<longrightarrow> (\<exists>p \<in> set s. signed_by H C key (Some (sp_packet sp)) p (publickey key)))"
    using clean_sig_loop_verified [OF assms] by (fastforce simp: clean_sighashes_def split: Option.bind_splits)
  then have v: "a \<Longrightarrow> verified_packet H C dbctx key (sp\<lparr>sp_sigs := s\<rparr>)" by (simp add: verified_packet_def)
  show ?case
  proof (cases a)
    case False
    then show ?thesis using Cons.IH [of b1 "n0 + m" l'] Cons.prems c by simp
  next
    case True
    then obtain l'' where "l' = sp\<lparr>sp_sigs := s\<rparr> # l''"
        "clean_list_loop (\<lambda>p s. clean_sighashes H C dbctx key (Some p) s True) True l b1 (n0 + m) = Some (l'', n, b')"
      using Cons.prems c by (auto split: Option.bind_splits)
    then show ?thesis using Cons.IH [of b1 "n0 + m" l''] v True by simp
  qed
qed simp

lemma clean_list_sighashes_verified:
  assumes "have_crypto C" and "clean_list_sighashes H C dbctx key l True needother = Some (l', n)"
  shows "\<forall>sp \<in> set l'. verified_packet H C dbctx key sp"
  using assms(2) clean_list_loop_verified [OF assms(1)]
  by (auto simp: clean_list_sighashes_def split: Option.bind_splits if_splits)

text \<open>The hash of a signature depends on the key packet only.\<close>

lemma signed_by_cong: "publickey key = publickey key' \<Longrightarrow> signed_by H C key = signed_by H C key'"
  by (simp add: fun_eq_iff signed_by_def calculate_packet_sighash_def)

lemma verified_packet_cong:
  "publickey key = publickey key' \<Longrightarrow> verified_packet H C dbctx key sp = verified_packet H C dbctx key' sp"
  using signed_by_cong [of key key' H C] by (simp add: verified_packet_def genuine_def)

lemma clean_key_signatures_sound:
  assumes "have_crypto C" and "clean_key_signatures H C dbctx key True needother = Some (k, n)"
  shows "publickey k = publickey key \<and> (\<forall>s \<in> set (sigs k). genuine H C dbctx k None s) \<and>
    (\<forall>sp \<in> set (uids k). verified_packet H C dbctx k sp) \<and> (\<forall>sp \<in> set (subkeys k). verified_packet H C dbctx k sp)"
proof -
  obtain s n1 a b u n2 l n3 where
      s: "clean_sighashes H C dbctx key None (sigs key) True False = Some (s, n1, a, b)" and
      u: "clean_list_sighashes H C dbctx (key\<lparr>sigs := s\<rparr>) (uids key) True needother = Some (u, n2)" and
      l: "clean_list_sighashes H C dbctx (key\<lparr>sigs := s, uids := u\<rparr>) (subkeys key) True False = Some (l, n3)" and
      k: "k = key\<lparr>sigs := s, uids := u, subkeys := l\<rparr>"
    using assms(2) by (auto simp: clean_key_signatures_def Let_def split: Option.bind_splits)
  have "\<forall>p \<in> set s. genuine H C dbctx key None p"
    using s clean_sig_loop_verified [OF assms(1)] by (fastforce simp: clean_sighashes_def split: Option.bind_splits)
  moreover have "genuine H C dbctx k = genuine H C dbctx key"
    using signed_by_cong [of k key H C] k by (simp add: fun_eq_iff genuine_def)
  moreover have "\<forall>sp \<in> set u. verified_packet H C dbctx k sp" "\<forall>sp \<in> set l. verified_packet H C dbctx k sp"
    using clean_list_sighashes_verified [OF assms(1) u] clean_list_sighashes_verified [OF assms(1) l]
      verified_packet_cong [of k "key\<lparr>sigs := s\<rparr>" H C dbctx] verified_packet_cong [of k "key\<lparr>sigs := s, uids := u\<rparr>" H C dbctx] k
    by simp_all
  ultimately show ?thesis using k by simp
qed

lemma foldl_absorb_represents:
  "sigs_regular c \<Longrightarrow> \<forall>d \<in> set l. sigs_regular d \<Longrightarrow> p \<in> set (sp_sigs c) \<Longrightarrow>
   \<exists>q \<in> set (sp_sigs (foldl absorb c l)). q = p \<or> outranks q p"
proof (induction l arbitrary: c p)
  case (Cons d l)
  have "\<forall>p \<in> set (sp_sigs c @ fresh (sp_sigs c) (sp_sigs d)). regular p"
    using Cons.prems(1,2) by (auto simp: fresh_def sigs_regular_def)
  from deduped_spec [OF this] Cons.prems(3) obtain q where q: "q \<in> set (sp_sigs (absorb c d))" "q = p \<or> outranks q p"
    by (auto simp: dedupe_spec_def absorb_def)
  have "sigs_regular (absorb c d)" using absorb_sigs(2) Cons.prems by simp
  from Cons.IH [OF this _ q(1)] Cons.prems(2) obtain r where
    "r \<in> set (sp_sigs (foldl absorb (absorb c d) l))" "r = q \<or> outranks r q" by auto
  then show ?case using q(2) outranks_trans by auto
qed auto

section \<open>Properties\<close>


definition dup_key :: openpgp_publickey where
  "dup_key = \<lparr>publickey = \<lparr>tag = 6, newformat = False, data = [4, 1]\<rparr>, revoked = False, sigs = [],
     uids = [sample_uid 65 [sample_sig], sample_uid 65 []], subkeys = []\<rparr>"

definition empty_db :: onak_dbctx where
  "empty_db = \<lparr>fetch_key = \<lambda>_. 0, fetch_key_id = \<lambda>_. []\<rparr>"

lemma sample_sig_readable: "sig_readable sample_sig"
  by (simp add: sig_readable_def)
     (simp add: sample_sig_def sig_octets_def subpacket_area_def encode_subpacket_def Let_def plength_def be_bytes_2)

lemma dup_key_cleanable: "key_cleanable C dup_key"
  by (simp add: key_cleanable_def dup_key_def version_4_or_5_def on_curve_def onak_parse_key_material_def
      plength_def all_sigs_def sample_uid_def sample_sig_readable)


text \<open>
  C16. Full verification keeps only genuine signatures. After \<open>clean_key_signatures\<close> with
  \<open>fullverify\<close>, every signature left on the key, its user ids and its subkeys verifies, over the
  hash of what it signs, with the key itself or with a key of the database; and every user id
  and every subkey that is left carries such a signature made by the key itself.
\<close>

theorem clean_key_signatures_verified:
  assumes "have_crypto C" and "clean_key_signatures H C dbctx key True needother = Some (k, n)"
  shows "publickey k = publickey key \<and> (\<forall>s \<in> set (sigs k). genuine H C dbctx k None s) \<and>
    (\<forall>sp \<in> set (uids k @ subkeys k).
       (\<forall>s \<in> set (sp_sigs sp). genuine H C dbctx k (Some (sp_packet sp)) s) \<and>
       (\<exists>s \<in> set (sp_sigs sp). signed_by H C k (Some (sp_packet sp)) s (publickey k)))"
  using clean_key_signatures_sound [OF assms] by (auto simp: verified_packet_def)

theorem clean_key_signatures_verified_witness:
  "\<exists>k n. clean_key_signatures sample_hashes sample_crypto empty_db dup_key True False = Some (k, n) \<and>
    publickey k = publickey dup_key \<and> list_all (verified_packet sample_hashes sample_crypto empty_db k) (uids k)"
proof -
  have c: "on_curve sample_crypto (publickey dup_key)" "db_on_curve sample_crypto empty_db"
    using dup_key_cleanable by (simp_all add: key_cleanable_def db_on_curve_def empty_db_def)
  have s: "\<forall>p \<in> set (sigs dup_key). sig_readable p"
    "\<forall>sp \<in> set (uids dup_key @ subkeys dup_key). \<forall>p \<in> set (sp_sigs sp). sig_readable p"
    by (simp_all add: dup_key_def sample_uid_def sample_sig_readable)
  obtain kid where "get_keyid sample_hashes dup_key = Some (ONAK_E_OK, Some kid)"
    using get_packetid_defined [OF sample_hashes_ok, of "publickey dup_key"] by (auto simp: get_keyid_def dup_key_def)
  from clean_key_signatures_total [OF sample_hashes_ok c s this, of True False]
  obtain k n where k: "clean_key_signatures sample_hashes sample_crypto empty_db dup_key True False = Some (k, n)" by blast
  have "have_crypto sample_crypto" by (simp add: sample_crypto_def)
  from clean_key_signatures_verified [OF this k] k show ?thesis by (auto simp: list_all_iff verified_packet_def)
qed

definition actives :: "nat \<Rightarrow> openpgp_publickey \<Rightarrow> openpgp_signedpacket list" where
  "actives t key = filter (act t) (uids key)"

definition revokeds :: "nat \<Rightarrow> openpgp_publickey \<Rightarrow> openpgp_signedpacket list" where
  "revokeds t key = filter (rvk t) (uids key)"

text \<open>
  C17. The cap is two separate queues. For every key, \<open>cap_packet_type\<close> reads only inside the
  packets; it keeps the order and all packets with another tag, exactly the newest
  \<open>max_revoked\<close> revoked packets, and \<open>max_active\<close> active ones (if there are so many): the newest,
  except that the first primary user id and the first \<open>UID:urn:\<close> anchor are never dropped.
  The result counts the dropped packets.
\<close>

theorem cap_packet_type_keeps_newest:
  assumes "2 \<le> max_active"
  shows "\<exists>key'. cap_packet_type key t max_active max_revoked = Some (key', length (uids key) - length (uids key')) \<and>
    key' = key\<lparr>uids := uids key'\<rparr> \<and> subseq (uids key') (uids key) \<and>
    filter (\<lambda>sp. tag (sp_packet sp) \<noteq> t) (uids key') = filter (\<lambda>sp. tag (sp_packet sp) \<noteq> t) (uids key) \<and>
    revokeds t key' = drop (length (revokeds t key) - max_revoked) (revokeds t key) \<and>
    length (actives t key') = min (length (actives t key)) max_active \<and>
    (\<exists>k kept. actives t key' = kept @ drop k (actives t key) \<and> subseq kept (take k (actives t key)) \<and> length kept \<le> 2) \<and>
    set_option (find is_primary (actives t key)) \<subseteq> set (actives t key') \<and>
    set_option (find signedpacket_is_urn_anchor (actives t key)) \<subseteq> set (actives t key')"
proof -
  let ?n = "length (actives t key) - max_active"
  obtain l where l: "cap_packet_type key t max_active max_revoked = Some (key\<lparr>uids := l\<rparr>, length (uids key) - length l)"
      "subseq l (uids key)" "filter (\<lambda>sp. tag (sp_packet sp) \<noteq> t) l = filter (\<lambda>sp. tag (sp_packet sp) \<noteq> t) (uids key)"
      "filter (rvk t) l = drop (length (revokeds t key) - max_revoked) (revokeds t key)"
      "filter (act t) l = keep_active ?n False False (actives t key)"
    using cap_packet_type_eq [of key t max_active max_revoked] unfolding actives_def revokeds_def by blast
  have "length (keep_active ?n False False (actives t key)) = min (length (actives t key)) max_active"
    using keep_active_length [of ?n False False "actives t key"] assms(1) by (cases "max_active \<le> length (actives t key)") auto
  moreover have "\<exists>k kept. keep_active ?n False False (actives t key) = kept @ drop k (actives t key) \<and>
      subseq kept (take k (actives t key)) \<and> length kept \<le> 2"
    using keep_active_newest [of ?n False False "actives t key"] by (simp add: numeral_2_eq_2)
  moreover have "set_option (find is_primary (actives t key)) \<subseteq> set (keep_active ?n False False (actives t key))"
    "set_option (find signedpacket_is_urn_anchor (actives t key)) \<subseteq> set (keep_active ?n False False (actives t key))"
    using keep_active_primary [of False "actives t key"] keep_active_anchor [of False "actives t key"] by auto
  ultimately show ?thesis
    using l unfolding actives_def revokeds_def by (intro exI [of _ "key\<lparr>uids := l\<rparr>"]) simp
qed

definition many_uids :: openpgp_publickey where
  "many_uids = dup_key\<lparr>uids := replicate 40 (sample_uid 65 [])\<rparr>"

lemma many_uids_active: "length (filter (act 13) (uids many_uids)) = 40"
proof -
  have "\<not> is_rev (sample_uid 65 [])"
    by (simp add: is_rev_def signedpacket_is_revoked_def sample_uid_def del: is_rev_eq)
  then have "act 13 (sample_uid 65 [])" by (simp add: act_def) (simp add: sample_uid_def)
  then show ?thesis by (simp add: many_uids_def filter_replicate)
qed

theorem cap_packet_type_keeps_newest_witness:
  "\<exists>key'. cap_packet_type many_uids 13 32 32 = Some (key', 40 - length (uids key')) \<and>
     length (filter (act 13) (uids key')) = 32"
proof -
  have "length (uids many_uids) = 40" by (simp add: many_uids_def)
  then show ?thesis
    using cap_packet_type_keeps_newest [of 32 many_uids 13 32] by (auto simp: many_uids_active actives_def)
qed

text \<open>
  C18. Duplicate user ids are merged. On a key whose user ids carry readable signatures,
  \<open>dedupuids\<close> computes \<open>absorb_dups\<close>: every packet is left once, at its first position and in
  the old order, with the deduplicated signatures of all its copies, so that every signature
  of the first copy is there or outranked by one that is; the result is the number of copies
  removed.
\<close>

theorem dedupuids_merges:
  assumes "\<forall>sp \<in> set (uids key). sigs_regular sp"
  shows "dedupuids key = Some (key\<lparr>uids := absorb_dups (uids key)\<rparr>, length (uids key) - length (absorb_dups (uids key))) \<and>
    map pkey (absorb_dups (uids key)) = rev (remdups (rev (map pkey (uids key)))) \<and>
    (\<forall>sp \<in> set (absorb_dups (uids key)). \<exists>c \<in> set (uids key). sp_packet sp = sp_packet c \<and>
       (\<forall>p \<in> set (sp_sigs c). \<exists>q \<in> set (sp_sigs sp). q = p \<or> outranks q p))"
proof -
  have order: "map pkey (absorb_dups l) = rev (remdups (rev (map pkey l)))" for l
  proof (induction l rule: absorb_dups.induct)
    case (2 c l)
    have "rev (remdups (xs @ [x])) = x # rev (remdups (filter (\<lambda>y. y \<noteq> x) xs))" for x :: "nat \<times> bytes" and xs
      by (induction xs) auto
    from this [of "rev (map pkey l)" "pkey c"] 2 show ?case by (simp add: rev_map rev_filter filter_map comp_def)
  qed simp
  have rep: "\<exists>c \<in> set l. sp_packet sp = sp_packet c \<and> (\<forall>p \<in> set (sp_sigs c). \<exists>q \<in> set (sp_sigs sp). q = p \<or> outranks q p)"
    if "\<forall>sp \<in> set l. sigs_regular sp" "sp \<in> set (absorb_dups l)" for l sp
    using that
  proof (induction l rule: absorb_dups.induct)
    case (2 c l)
    show ?case
    proof (cases "sp \<in> set (absorb_dups (filter (\<lambda>s. pkey s \<noteq> pkey c) l))")
      case True
      then show ?thesis using "2.IH" "2.prems"(1) by fastforce
    next
      case False
      then have "sp = foldl absorb c (filter (\<lambda>s. pkey s = pkey c) l)" using "2.prems"(2) by simp
      then show ?thesis using foldl_absorb_represents [of c "filter (\<lambda>s. pkey s = pkey c) l"] "2.prems"(1) by simp
    qed
  qed simp
  have "dedupuids key = Some (key\<lparr>uids := absorb_dups (uids key)\<rparr>, length (uids key) - length (absorb_dups (uids key)))"
    using dedup_list_eq [of "uids key" "\<lambda>_. Some ()" 0] assms by (simp add: dedupuids_def)
  then show ?thesis using order rep [OF assms] by blast
qed

theorem dedupuids_merges_witness:
  "dedupuids dup_key = Some (dup_key\<lparr>uids := absorb_dups (uids dup_key)\<rparr>, 1) \<and> length (absorb_dups (uids dup_key)) = 1"
proof -
  have r: "\<forall>sp \<in> set (uids dup_key). sigs_regular sp"
    by (simp add: dup_key_def sigs_regular_def sample_uid_def)
  have "length (absorb_dups (uids dup_key)) = 1" by (simp add: dup_key_def sample_uid_def pkey_def)
  then show ?thesis using dedupuids_merges [OF r] by (simp add: dup_key_def)
qed

text \<open>
  The result of \<open>cleankeys\<close> is not the number of keys cleaned: \<open>count\<close> is never reset, so
  once one key has been changed every later key is counted as changed too, even if the cleaning
  leaves it as it was.
\<close>

theorem cleankeys_overcounts:
  assumes "data (publickey a) \<noteq> []" and "4 \<le> data (publickey a) ! 0"
    and "data (publickey b) \<noteq> []" and "4 \<le> data (publickey b) ! 0"
    and "clean_key H C dbctx config policies a = Some (a', n)" and "0 < n"
    and "clean_key H C dbctx config policies b = Some (b, 0)"
  shows "cleankeys H C dbctx config (Some [a, b]) policies =
    Some (Some (filter (\<lambda>k. uids k \<noteq> []) [a', b]), 2)"
  using assms by (auto simp: cleankeys_def Let_def not_less [symmetric] simp del: not_less)

definition plain_key :: openpgp_publickey where
  "plain_key = dup_key\<lparr>uids := [sample_uid 65 []]\<rparr>"

lemma plain_key_clean:
  "clean_key sample_hashes sample_crypto empty_db \<lparr>max_sigs_per_uid = 0, max_sigs_per_uat = 0\<rparr> 0 plain_key =
     Some (plain_key, 0)"
  by (simp add: clean_key_def clean_lists_def dedupuids_def dedupsubkeys_def plain_key_def dup_key_def
      merge_dups.simps dedupe_key_def dedupe_sigs_def cap_all_sigs_def check_signatures_def sample_uid_def)

lemma dup_key_cleaned:
  "\<exists>a' n. clean_key sample_hashes sample_crypto empty_db \<lparr>max_sigs_per_uid = 0, max_sigs_per_uat = 0\<rparr> 0
     (plain_key\<lparr>uids := uids plain_key @ uids plain_key\<rparr>) = Some (a', Suc n) \<and> uids a' \<noteq> []"
  by (simp add: clean_key_def clean_lists_def dedupuids_def dedupsubkeys_def plain_key_def dup_key_def
      merge_dups.simps dedupe_key_def dedupe_sigs_def cap_all_sigs_def check_signatures_def sample_uid_def
      compare_packets_eq merge_packet_sigs_def)

theorem cleankeys_overcounts_witness:
  "\<exists>a'. cleankeys sample_hashes sample_crypto empty_db \<lparr>max_sigs_per_uid = 0, max_sigs_per_uat = 0\<rparr>
     (Some [plain_key\<lparr>uids := uids plain_key @ uids plain_key\<rparr>, plain_key]) 0 = Some (Some [a', plain_key], 2)"
proof -
  obtain a' n where a: "clean_key sample_hashes sample_crypto empty_db \<lparr>max_sigs_per_uid = 0, max_sigs_per_uat = 0\<rparr> 0
     (plain_key\<lparr>uids := uids plain_key @ uids plain_key\<rparr>) = Some (a', Suc n)" "uids a' \<noteq> []"
    using dup_key_cleaned by blast
  have p: "data (publickey plain_key) = [4, 1]" "uids plain_key \<noteq> []" by (simp_all add: plain_key_def dup_key_def)
  show ?thesis using cleankeys_overcounts [OF _ _ _ _ a(1) _ plain_key_clean] p a(2) by simp
qed

end
