(* ===== verification/Marshal.thy ===== *)
theory Marshal
  imports Key_Packets Key_Id
begin

text \<open>
  Marshalling (\<open>marshal.c\<close>): the length-prefixed format the key servers exchange hashes and keys
  in. The callbacks are readers and writers of \<open>Streams\<close>; \<open>htonl\<close> followed by storing the four
  octets is \<open>be_bytes 4\<close>. The result of an unmarshalling function is the object, or \<open>None\<close> for
  the null pointer, and the new context.
\<close>

section \<open>Keys, hashes and strings\<close>

text \<open>\<open>len\<close> is a \<open>uint32_t\<close>; the buffer's offset and contents are what the stream writer left.\<close>

definition marshal_publickey :: "'s writer \<Rightarrow> 's \<Rightarrow> openpgp_publickey \<Rightarrow> 's option" where
  "marshal_publickey put ctx key =
     do { (_, buf) \<leftarrow> write_openpgp_stream buffer_putchar (empty_buffer 1024) (flatten_publickey [key] []);
          ctx \<leftarrow> put ctx (be_bytes 4 (buf_offset buf));
          bs \<leftarrow> buffer_read (buf_data buf) 0 (buf_offset buf);
          put ctx bs }"

definition marshal_skshash :: "'s writer \<Rightarrow> 's \<Rightarrow> bytes \<Rightarrow> 's option" where
  "marshal_skshash put ctx hash =
     do { ctx \<leftarrow> put ctx (be_bytes 4 16); put ctx (take 16 hash) }"

text \<open>The array comes from \<open>calloc\<close>: octets that are not read are 0.\<close>

definition unmarshal_skshash :: "'s reader \<Rightarrow> 's \<Rightarrow> (bytes option \<times> 's) option" where
  "unmarshal_skshash getc ctx =
     do { (l, ctx) \<leftarrow> getc ctx 4;
          if length l \<noteq> 4 then Some (None, ctx)
          else do { let len = be_nat l;
                    if len > 16 then Some (None, ctx)
                    else do { (bs, ctx) \<leftarrow> getc ctx len;
                              if length bs \<noteq> len then Some (None, ctx)
                              else Some (Some (bs @ replicate (16 - len) 0), ctx) } } }"

text \<open>A string is given without its final NUL.\<close>

definition marshal_string :: "'s writer \<Rightarrow> 's \<Rightarrow> bytes \<Rightarrow> 's option" where
  "marshal_string put ctx string =
     do { let len = length string mod 2 ^ 32;
          ctx \<leftarrow> put ctx (be_bytes 4 len);
          put ctx (take len string) }"

text \<open>
  \<open>malloc(len + 1)\<close> is computed in 32 bits. Octets delivered past the end of that allocation, or
  the final NUL stored there, are undefined.
\<close>

definition unmarshal_string :: "'s reader \<Rightarrow> 's \<Rightarrow> (bytes option \<times> 's) option" where
  "unmarshal_string getc ctx =
     do { (l, ctx) \<leftarrow> getc ctx 4;
          if length l \<noteq> 4 then Some (None, ctx)
          else do { let len = be_nat l; let room = (len + 1) mod 2 ^ 32;
                    (bs, ctx) \<leftarrow> getc ctx len;
                    if length bs > room then None
                    else if length bs \<noteq> len then Some (None, ctx)
                    else if len < room then Some (Some (takeWhile (\<lambda>c. c \<noteq> 0) bs), ctx) else None } }"

section \<open>Arrays\<close>

fun marshal_items :: "('s \<Rightarrow> 'a \<Rightarrow> 's option) \<Rightarrow> 's \<Rightarrow> 'a list \<Rightarrow> 's option" where
  "marshal_items marshal ctx [] = Some ctx"
| "marshal_items marshal ctx (x # xs) = do { ctx \<leftarrow> marshal ctx x; marshal_items marshal ctx xs }"

definition marshal_array :: "'s writer \<Rightarrow> ('s \<Rightarrow> 'a \<Rightarrow> 's option) \<Rightarrow> 's \<Rightarrow> 'a list \<Rightarrow> 's option" where
  "marshal_array put marshal ctx items =
     do { ctx \<leftarrow> put ctx (be_bytes 4 (length items)); marshal_items marshal ctx items }"

fun unmarshal_items :: "('s \<Rightarrow> ('a option \<times> 's) option) \<Rightarrow> nat \<Rightarrow> 's \<Rightarrow> ('a option list \<times> 's) option" where
  "unmarshal_items unmarshal 0 ctx = Some ([], ctx)"
| "unmarshal_items unmarshal (Suc n) ctx =
     do { (x, ctx) \<leftarrow> unmarshal ctx; (xs, ctx) \<leftarrow> unmarshal_items unmarshal n ctx; Some (x # xs, ctx) }"

text \<open>
  The results are the array (\<open>None\<close> for the null pointer), \<open>*size\<close> where it is written, and the
  context. The count is stored in an \<open>int\<close>; with a negative one \<open>calloc\<close> fails and the loop does
  not run. An element that cannot be read is a null pointer in the array.
\<close>

definition unmarshal_array ::
    "'s reader \<Rightarrow> ('s \<Rightarrow> ('a option \<times> 's) option) \<Rightarrow> 's \<Rightarrow> ('a option list option \<times> int option \<times> 's) option" where
  "unmarshal_array getc unmarshal ctx =
     do { (l, ctx) \<leftarrow> getc ctx 4;
          if length l \<noteq> 4 then Some (None, None, ctx)
          else do { let n = be_nat l;
                    if n \<ge> 2 ^ 31 then Some (None, Some (int n - 2 ^ 32), ctx)
                    else do { (items, ctx) \<leftarrow> unmarshal_items unmarshal n ctx;
                              Some (Some items, Some (int n), ctx) } } }"

section \<open>The contract of a pair of marshalling functions\<close>

text \<open>
  \<open>enc x\<close> is what is written for an item that satisfies \<open>fits\<close>; the writer appends it and the
  reader takes it off again.
\<close>

locale codec =
  source: byte_source getc delivers + sink: byte_sink put holds capacity
  for getc :: "'r reader" and delivers and put :: "'w writer" and holds and capacity +
  fixes enc :: "'a \<Rightarrow> bytes"
    and fits :: "'a \<Rightarrow> bool"
    and marshal :: "'w \<Rightarrow> 'a \<Rightarrow> 'w option"
    and unmarshal :: "'r \<Rightarrow> ('a option \<times> 'r) option"
  assumes marshal_law: "fits x \<Longrightarrow> holds w xs \<Longrightarrow> length xs + length (enc x) \<le> capacity \<Longrightarrow>
      \<exists>w'. marshal w x = Some w' \<and> holds w' (xs @ enc x)"
    and unmarshal_law: "fits x \<Longrightarrow> delivers r (enc x @ ys) \<Longrightarrow>
      \<exists>r'. unmarshal r = Some (Some x, r') \<and> delivers r' ys"
begin

definition enc_array :: "'a list \<Rightarrow> bytes" where
  "enc_array items = be_bytes 4 (length items) @ concat (map enc items)"

lemma marshal_items_holds:
  "list_all fits items \<Longrightarrow> holds s xs \<Longrightarrow> length xs + length (concat (map enc items)) \<le> capacity \<Longrightarrow>
   \<exists>s'. marshal_items marshal s items = Some s' \<and> holds s' (xs @ concat (map enc items))"
proof (induction items arbitrary: s xs)
  case (Cons x items)
  obtain s1 where s1: "marshal s x = Some s1" "holds s1 (xs @ enc x)"
    using marshal_law [of x s xs] Cons.prems by auto
  show ?case using Cons.IH [OF _ s1(2)] Cons.prems s1(1) by auto
qed simp

lemma marshal_array_holds:
  assumes "list_all fits items" and "holds s xs" and "length xs + length (enc_array items) \<le> capacity"
  shows "\<exists>s'. marshal_array put marshal s items = Some s' \<and> holds s' (xs @ enc_array items)"
proof -
  obtain s1 where "put s (be_bytes 4 (length items)) = Some s1" "holds s1 (xs @ be_bytes 4 (length items))"
    using sink.put_holds [OF assms(2), of "be_bytes 4 (length items)"] assms(3) by (auto simp: enc_array_def)
  moreover from marshal_items_holds [OF assms(1) this(2)] obtain s2 where
    "marshal_items marshal s1 items = Some s2" "holds s2 ((xs @ be_bytes 4 (length items)) @ concat (map enc items))"
    using assms(3) by (auto simp: enc_array_def)
  ultimately show ?thesis by (auto simp: marshal_array_def enc_array_def)
qed

lemma unmarshal_items_delivers:
  "list_all fits items \<Longrightarrow> delivers s (concat (map enc items) @ ys) \<Longrightarrow>
   \<exists>s'. unmarshal_items unmarshal (length items) s = Some (map Some items, s') \<and> delivers s' ys"
proof (induction items arbitrary: s)
  case (Cons x items)
  obtain s1 where s1: "unmarshal s = Some (Some x, s1)" "delivers s1 (concat (map enc items) @ ys)"
    using unmarshal_law [of x s "concat (map enc items) @ ys"] Cons.prems by auto
  show ?case using Cons.IH [OF _ s1(2)] Cons.prems(1) s1(1) by auto
qed simp

lemma get_length:
  assumes "delivers s (be_bytes 4 n @ ys)" and "n < 2 ^ 32"
  shows "\<exists>l s'. getc s 4 = Some (l, s') \<and> length l = 4 \<and> be_nat l = n \<and> delivers s' ys"
  using source.get_full [OF assms(1)] assms(2) by (auto simp: be_nat_be_bytes)

lemma unmarshal_array_delivers:
  assumes "list_all fits items" and "length items < 2 ^ 31" and "delivers s (enc_array items @ ys)"
  shows "\<exists>s'. unmarshal_array getc unmarshal s = Some (Some (map Some items), Some (int (length items)), s') \<and>
    delivers s' ys"
proof -
  obtain l s1 where l: "getc s 4 = Some (l, s1)" "length l = 4" "be_nat l = length items"
      "delivers s1 (concat (map enc items) @ ys)"
    using get_length [of s "length items" "concat (map enc items) @ ys"] assms(2,3) by (auto simp: enc_array_def)
  from unmarshal_items_delivers [OF assms(1) l(4)] l(1-3) assms(2) show ?thesis
    by (auto simp: unmarshal_array_def Let_def)
qed

end

section \<open>Strings and hashes over any channel\<close>

text \<open>
  A channel is a source and a sink. Over every channel the string functions and the hash
  functions are a codec: the two sublocales give them the lemmas on arrays.
\<close>

definition string_encoding :: "bytes \<Rightarrow> bytes" where
  "string_encoding string = be_bytes 4 (length string) @ string"

definition string_fits :: "bytes \<Rightarrow> bool" where
  "string_fits string \<longleftrightarrow> length string < 2 ^ 32 - 1 \<and> 0 \<notin> set string"

definition hash_fits :: "bytes \<Rightarrow> bool" where
  "hash_fits hash \<longleftrightarrow> length hash = 16"

lemma takeWhile_nonzero: "(0::u8) \<notin> set xs \<Longrightarrow> takeWhile (\<lambda>c. c \<noteq> 0) xs = xs"
  by (induction xs) auto

locale channel =
  source: byte_source getc delivers + sink: byte_sink put holds capacity
  for getc :: "'r reader" and delivers and put :: "'w writer" and holds and capacity
begin

lemma put_twice:
  assumes "holds w xs" and "length xs + length (ys @ zs) \<le> capacity"
  shows "\<exists>w1 w'. put w ys = Some w1 \<and> put w1 zs = Some w' \<and> holds w' (xs @ ys @ zs)"
proof -
  obtain w1 where w1: "put w ys = Some w1" "holds w1 (xs @ ys)"
    using sink.put_holds [OF assms(1), of ys] assms(2) by auto
  from sink.put_holds [OF w1(2), of zs] w1(1) assms(2) show ?thesis by auto
qed

lemma get_counted:
  assumes "delivers r (be_bytes 4 (length xs) @ xs @ ys)" and "length xs < 2 ^ 32"
  shows "\<exists>l r1 r'. getc r 4 = Some (l, r1) \<and> length l = 4 \<and> be_nat l = length xs \<and>
    getc r1 (length xs) = Some (xs, r') \<and> delivers r' ys"
proof -
  obtain r1 where r1: "getc r 4 = Some (be_bytes 4 (length xs), r1)" "delivers r1 (xs @ ys)"
    using source.get_full [OF assms(1)] by auto
  from source.get_full [OF r1(2)] r1(1) assms(2) show ?thesis by (auto simp: be_nat_be_bytes)
qed

lemma string_codec: "codec getc delivers put holds capacity string_encoding string_fits
    (marshal_string put) (unmarshal_string getc)"
proof unfold_locales
  fix x w xs
  assume "string_fits x" "holds w xs" "length xs + length (string_encoding x) \<le> capacity"
  then show "\<exists>w'. marshal_string put w x = Some w' \<and> holds w' (xs @ string_encoding x)"
    using put_twice [of w xs "be_bytes 4 (length x)" x]
    by (auto simp: marshal_string_def string_encoding_def string_fits_def Let_def)
next
  fix x r ys
  assume x: "string_fits x" and d: "delivers r (string_encoding x @ ys)"
  from get_counted [of r x ys] x d show "\<exists>r'. unmarshal_string getc r = Some (Some x, r') \<and> delivers r' ys"
    by (auto simp: unmarshal_string_def string_encoding_def string_fits_def takeWhile_nonzero Let_def)
qed

lemma hash_codec: "codec getc delivers put holds capacity string_encoding hash_fits
    (marshal_skshash put) (unmarshal_skshash getc)"
proof unfold_locales
  fix x w xs
  assume "hash_fits x" "holds w xs" "length xs + length (string_encoding x) \<le> capacity"
  then show "\<exists>w'. marshal_skshash put w x = Some w' \<and> holds w' (xs @ string_encoding x)"
    using put_twice [of w xs "be_bytes 4 16" x]
    by (auto simp: marshal_skshash_def string_encoding_def hash_fits_def)
next
  fix x r ys
  assume x: "hash_fits x" and d: "delivers r (string_encoding x @ ys)"
  from get_counted [of r x ys] x d show "\<exists>r'. unmarshal_skshash getc r = Some (Some x, r') \<and> delivers r' ys"
    by (auto simp: unmarshal_skshash_def string_encoding_def hash_fits_def Let_def)
qed

end

sublocale channel \<subseteq> strings: codec getc delivers put holds capacity string_encoding string_fits
    "marshal_string put" "unmarshal_string getc"
  by (rule string_codec)

sublocale channel \<subseteq> hashes: codec getc delivers put holds capacity string_encoding hash_fits
    "marshal_skshash put" "unmarshal_skshash getc"
  by (rule hash_codec)

interpretation buf_channel: channel buffer_fetchchar buffer_delivers buffer_putchar buffer_holds "2 ^ 63"
  by unfold_locales

section \<open>Properties\<close>

text \<open>
  The list of hashes of a key exchange survives the wire. Any array of fewer than \<open>2 ^ 31\<close> SKS
  hashes, marshalled into a buffer, is unmarshalled from its contents as the same array with the
  same size, nothing is read past its end, and whatever follows it in the stream is left for the next reader.
\<close>

theorem skshash_array_roundtrip:
  assumes "list_all (\<lambda>h. length h = 16) hashes" and "length hashes < 2 ^ 31" and "length rest < 2 ^ 32"
  shows "\<exists>buf. marshal_array buffer_putchar (marshal_skshash buffer_putchar) (empty_buffer 1024) hashes = Some buf \<and>
    (\<exists>s'. unmarshal_array buffer_fetchchar (unmarshal_skshash buffer_fetchchar)
        (init_buffer (buffer_contents buf @ rest)) =
          Some (Some (map Some hashes), Some (int (length hashes)), s') \<and> buffer_delivers s' rest)"
proof -
  have fits: "list_all hash_fits hashes" using assms(1) by (simp add: hash_fits_def list_all_iff)
  have "length (concat (map string_encoding hashes)) = 20 * length hashes"
    using assms(1) by (induction hashes) (auto simp: string_encoding_def)
  then have len: "length (buf_channel.hashes.enc_array hashes) = 4 + 20 * length hashes"
    by (simp add: buf_channel.hashes.enc_array_def)
  obtain buf where buf: "marshal_array buffer_putchar (marshal_skshash buffer_putchar) (empty_buffer 1024) hashes = Some buf"
      "buffer_holds buf (buf_channel.hashes.enc_array hashes)"
    using buf_channel.hashes.marshal_array_holds [OF fits empty_buffer_holds [of 1024]] len assms(2) by auto
  have "buffer_delivers (init_buffer (buffer_contents buf @ rest)) (buf_channel.hashes.enc_array hashes @ rest)"
    unfolding buffer_holds_contents [OF buf(2)] using len assms(2,3) by (intro init_buffer_delivers) simp
  from buf_channel.hashes.unmarshal_array_delivers [OF fits assms(2) this] buf(1) show ?thesis by blast
qed

theorem skshash_array_roundtrip_witness:
  "\<exists>buf. marshal_array buffer_putchar (marshal_skshash buffer_putchar) (empty_buffer 1024)
      [replicate 16 1, replicate 16 255] = Some buf \<and>
    (\<exists>s'. unmarshal_array buffer_fetchchar (unmarshal_skshash buffer_fetchchar)
        (init_buffer (buffer_contents buf @ [7])) =
          Some (Some [Some (replicate 16 1), Some (replicate 16 255)], Some 2, s') \<and> buffer_delivers s' [7])"
  using skshash_array_roundtrip [of "[replicate 16 1, replicate 16 255]" "[7]"] by simp

text \<open>
  A string of maximal length overruns its buffer. If the length octets of a string are all 255
  and the reader then delivers at least one octet, \<open>unmarshal_string\<close> has no defined behaviour:
  \<open>len + 1\<close> wraps around to 0, and the octets are stored outside the allocation of size 0.
\<close>

lemma unmarshal_string_max_length_undefined:
  assumes "getc ctx 4 = Some ([255, 255, 255, 255], ctx1)" and "getc ctx1 (2 ^ 32 - 1) = Some (b # bs, ctx2)"
  shows "unmarshal_string getc ctx = None"
  using assms by (simp add: unmarshal_string_def be_nat_def Let_def)

text \<open>
  A marshalled key can be read back. For a well-formed key, \<open>marshal_publickey\<close> appends to the
  stream the length of its packet stream, as four octets, and the packet stream; reading and
  parsing those octets gives the key.
\<close>

theorem marshal_publickey_readable:
  assumes "key_ok key" and "list_all (\<lambda>p. packet_wf p \<and> mal (plength p)) (flatten_publickey [key] [])"
    and "length (stream_encoding (flatten_publickey [key] [])) < 2 ^ 32"
    and "buffer_holds ctx xs" and "length xs < 2 ^ 62"
  shows "\<exists>bs ctx'. marshal_publickey buffer_putchar ctx key = Some ctx' \<and>
    buffer_holds ctx' (xs @ be_bytes 4 (length bs) @ bs) \<and> be_nat (be_bytes 4 (length bs)) = length bs \<and>
    (\<exists>ps s'. read_openpgp_stream mal buffer_fetchchar (init_buffer bs) [] 0 = Some (ONAK_E_OK, ps, s') \<and>
       parse_keys ps [] = Some (1, [key]))"
proof -
  let ?ps = "flatten_publickey [key] []" let ?bs = "stream_encoding ?ps"
  have wf: "\<forall>p \<in> set ?ps. packet_wf p \<and> mal (plength p)" using assms(2) by (simp add: list_all_iff)
  then have "\<forall>p \<in> set ?ps. newformat p \<longrightarrow> plength p < 0xFFFFFFFF"
    by (auto simp: packet_wf_def packet_writable_def)
  then obtain buf where buf: "write_openpgp_stream buffer_putchar (empty_buffer 1024) ?ps = Some (ONAK_E_OK, buf)"
      "buffer_holds buf ?bs"
    using buf_sink.write_stream_holds [of "empty_buffer 1024" "[]" ?ps] assms(3) empty_buffer_holds [of 1024] by auto
  have "take (buf_offset buf) (buf_data buf) = map Some ?bs" "buf_offset buf \<le> length (buf_data buf)"
    using buf(2) by (simp_all add: buffer_holds_def buffer_ok_def)
  moreover from arg_cong [OF this(1), of length] this(2) have off: "buf_offset buf = length ?bs" by simp
  ultimately have "buffer_read (buf_data buf) 0 (buf_offset buf) = Some ?bs"
    by (simp add: buffer_read_def comp_def)
  moreover obtain ctx1 ctx' where "buffer_putchar ctx (be_bytes 4 (length ?bs)) = Some ctx1"
      "buffer_putchar ctx1 ?bs = Some ctx'" "buffer_holds ctx' (xs @ be_bytes 4 (length ?bs) @ ?bs)"
    using buf_channel.put_twice [OF assms(4), of "be_bytes 4 (length ?bs)" ?bs] assms(3,5) by auto
  moreover have "\<exists>s'. read_openpgp_stream mal buffer_fetchchar (init_buffer ?bs) [] 0 = Some (ONAK_E_OK, ?ps, s')"
    using buf_source.read_stream_full [OF init_buffer_delivers wf, of "[]"] assms(3) by auto
  ultimately show ?thesis
    using buf(1) off assms(1,3) parse_flatten [of "[key]"]
    by (intro exI [of _ ?bs] exI [of _ ctx']) (auto simp: marshal_publickey_def be_nat_be_bytes)
qed

theorem marshal_publickey_readable_witness:
  "\<exists>bs ctx'. marshal_publickey buffer_putchar (empty_buffer 1024) sample_key = Some ctx' \<and>
    buffer_holds ctx' (be_bytes 4 (length bs) @ bs) \<and>
    (\<exists>ps s'. read_openpgp_stream (\<lambda>_. True) buffer_fetchchar (init_buffer bs) [] 0 = Some (ONAK_E_OK, ps, s') \<and>
       parse_keys ps [] = Some (1, [sample_key]))"
proof -
  have "list_all (\<lambda>p. packet_wf p \<and> True) (flatten_publickey [sample_key] [])"
    "length (stream_encoding (flatten_publickey [sample_key] [])) < 2 ^ 32"
    using sample_key_packets by (simp_all add: list_all_iff)
  from marshal_publickey_readable [OF sample_key_ok this empty_buffer_holds, of 1024] show ?thesis by auto
qed

end
