(* ===== verification/Key_Array.thy ===== *)
theory Key_Array
  imports Compare
begin

text \<open>
  Sorted arrays of fingerprints (\<open>keyarray.c\<close>), as used for the blacklist: lookup and insertion
  by binary search, and loading from a file.

  The array is the list of its allocated slots, \<open>None\<close> where a slot has not been written. A
  read of such a slot or an access outside the allocation is \<open>None\<close>. Allocation succeeds (its
  result is not checked by the code), and the number of entries fits in an \<open>int\<close>.
\<close>

section \<open>The array\<close>

record keyarray =
  ka_keys :: "openpgp_fingerprint option list"
  ka_count :: nat
  ka_size :: nat

definition slot :: "openpgp_fingerprint option list \<Rightarrow> int \<Rightarrow> openpgp_fingerprint option" where
  "slot keys i = (if 0 \<le> i \<and> nat i < length keys then keys ! nat i else None)"

text \<open>The binary search both operations start with. The sum is never negative in the loop.\<close>

function array_search :: "openpgp_fingerprint option list \<Rightarrow> openpgp_fingerprint \<Rightarrow> int \<Rightarrow> int \<Rightarrow> int option" where
  "array_search keys f bottom tp =
     (if tp - bottom > 1 then
        let curpos = (tp + bottom) div 2 in
        (case slot keys curpos of
           None \<Rightarrow> None
         | Some k \<Rightarrow> if fingerprint_cmp f k > 0 then array_search keys f curpos tp
                     else array_search keys f bottom curpos)
      else Some tp)"
  by pat_completeness auto
termination
  by (relation "measure (\<lambda>(keys, f, bottom, tp). nat (tp - bottom))") auto

declare array_search.simps [simp del]

definition array_find :: "keyarray \<Rightarrow> openpgp_fingerprint \<Rightarrow> bool option" where
  "array_find arr f =
     (if ka_keys arr \<noteq> [] \<and> ka_count arr > 0 then
        do { tp \<leftarrow> array_search (ka_keys arr) f (-1) (int (ka_count arr) - 1);
             k \<leftarrow> slot (ka_keys arr) tp;
             Some (fingerprint_cmp f k = 0) }
      else Some False)"

text \<open>
  The \<open>memmove\<close> of the entries from \<open>i\<close> to \<open>n\<close> by one slot and the store into slot \<open>i\<close>.
\<close>

definition slot_insert ::
    "openpgp_fingerprint option list \<Rightarrow> nat \<Rightarrow> nat \<Rightarrow> openpgp_fingerprint \<Rightarrow> openpgp_fingerprint option list option" where
  "slot_insert keys i n f =
     (if i \<le> n \<and> n < length keys
      then Some (take i keys @ Some f # take (n - i) (drop i keys) @ drop (Suc n) keys) else None)"

definition array_add :: "keyarray \<Rightarrow> openpgp_fingerprint \<Rightarrow> (keyarray \<times> bool) option" where
  "array_add arr f =
     do { (found, curpos) \<leftarrow>
            (if ka_size arr \<noteq> 0 \<and> ka_count arr > 0 then
               do { tp \<leftarrow> array_search (ka_keys arr) f (-1) (int (ka_count arr) - 1);
                    k \<leftarrow> slot (ka_keys arr) tp;
                    Some (fingerprint_cmp f k = 0, if fingerprint_cmp f k > 0 then nat tp + 1 else nat tp) }
             else Some (False, 0));
          if found then Some (arr, False)
          else if ka_size arr = 0 then
            Some (\<lparr>ka_keys = Some f # replicate 15 None, ka_count = 1, ka_size = 16\<rparr>, True)
          else do { let (keys, sz) = (if ka_count arr \<ge> ka_size arr
                                      then (ka_keys arr @ replicate (2 * ka_size arr - length (ka_keys arr)) None, 2 * ka_size arr)
                                      else (ka_keys arr, ka_size arr));
                    keys \<leftarrow> slot_insert keys curpos (ka_count arr) f;
                    Some (\<lparr>ka_keys = keys, ka_count = ka_count arr + 1, ka_size = sz\<rparr>, True) } }"

definition array_free :: "keyarray \<Rightarrow> keyarray" where
  "array_free arr = \<lparr>ka_keys = [], ka_count = 0, ka_size = 0\<rparr>"

section \<open>Loading a file\<close>

definition hex2bin :: "u8 \<Rightarrow> u8" where
  "hex2bin c =
     (if c \<ge> 48 \<and> c \<le> 57 then c - 48
      else if c \<ge> 97 \<and> c \<le> 102 then c - 97 + 10
      else if c \<ge> 65 \<and> c \<le> 70 then c - 65 + 10
      else 255)"

text \<open>
  \<open>fgets(buf, n + 1, f)\<close>: the characters up to a newline, at most \<open>n\<close>; the rest of the file;
  and whether the end of the file was met. \<open>None\<close> is the null pointer, at the end of the file.
\<close>

definition fgets :: "nat \<Rightarrow> bytes \<Rightarrow> (bytes \<times> bytes \<times> bool) option" where
  "fgets n s =
     (let l = takeWhile (\<lambda>c. c \<noteq> 10) s;
          line = take n (take (length l + 1) s)
      in if line = [] then None
         else Some (line, drop (length line) s, length line < n \<and> last line \<noteq> 10))"

definition isspace :: "u8 \<Rightarrow> bool" where
  "isspace c \<longleftrightarrow> c = 32 \<or> (9 \<le> c \<and> c \<le> 13)"

text \<open>The line as a string, without its trailing white space.\<close>

definition strip_line :: "bytes \<Rightarrow> bytes" where
  "strip_line line = rev (dropWhile isspace (rev (takeWhile (\<lambda>c. c \<noteq> 0) line)))"

definition line_entry :: "bytes \<Rightarrow> openpgp_fingerprint option" where
  "line_entry line =
     (let curline = strip_line line; n = length curline div 2
      in if curline \<noteq> [] \<and> hd curline = 35 then None
         else if n = 16 \<or> n = 20 \<or> n = 32 then
           Some \<lparr>fp_length = n,
                 fp = map (\<lambda>i. push_bit 4 (hex2bin (curline ! (i * 2))) OR hex2bin (curline ! (i * 2 + 1))) [0..<n]\<rparr>
         else None)"

lemma fgets_progress: "fgets n s = Some (line, rest, eof) \<Longrightarrow> length rest < length s"
  by (auto simp: fgets_def Let_def split: if_splits)

function array_load_loop :: "keyarray \<Rightarrow> bytes \<Rightarrow> bytes \<Rightarrow> bool \<Rightarrow> keyarray option" where
  "array_load_loop arr curline rest eof =
     (if eof then Some arr
      else (case (case line_entry curline of None \<Rightarrow> Some arr | Some f \<Rightarrow> map_option fst (array_add arr f)) of
              None \<Rightarrow> None
            | Some arr \<Rightarrow>
                (case fgets 1022 rest of
                   None \<Rightarrow> Some arr
                 | Some (curline, rest, eof) \<Rightarrow> array_load_loop arr curline rest eof)))"
  by pat_completeness auto
termination
  by (relation "measure (\<lambda>(arr, curline, rest, eof). length rest)") (auto dest: fgets_progress)

declare array_load_loop.simps [simp del]

text \<open>The file is \<open>None\<close> if it cannot be opened.\<close>

definition array_load :: "keyarray \<Rightarrow> bytes option \<Rightarrow> (keyarray \<times> bool) option" where
  "array_load arr file =
     (case file of
        None \<Rightarrow> Some (arr, ka_count arr \<noteq> 0)
      | Some s \<Rightarrow>
          (case fgets 1022 s of
             None \<Rightarrow> Some (arr, False)
           | Some (curline, rest, eof) \<Rightarrow>
               do { arr \<leftarrow> array_load_loop arr curline rest eof; Some (arr, ka_count arr \<noteq> 0) }))"

section \<open>The contract: a set of fingerprints\<close>

locale fingerprint_set =
  fixes valid :: "'s \<Rightarrow> bool"
    and members :: "'s \<Rightarrow> openpgp_fingerprint set"
    and find_op :: "'s \<Rightarrow> openpgp_fingerprint \<Rightarrow> bool option"
    and add_op :: "'s \<Rightarrow> openpgp_fingerprint \<Rightarrow> ('s \<times> bool) option"
  assumes find_law: "valid s \<Longrightarrow> fingerprint_ok f \<Longrightarrow> find_op s f = Some (f \<in> members s)"
    and add_law: "valid s \<Longrightarrow> fingerprint_ok f \<Longrightarrow>
      \<exists>s'. add_op s f = Some (s', f \<notin> members s) \<and> valid s' \<and> members s' = insert f (members s)"

text \<open>Adding the entries of a list one after the other.\<close>

fun add_all :: "('s \<Rightarrow> openpgp_fingerprint \<Rightarrow> ('s \<times> bool) option) \<Rightarrow> 's \<Rightarrow> openpgp_fingerprint list \<Rightarrow> 's option" where
  "add_all add_op s [] = Some s"
| "add_all add_op s (f # fs) = do { (s, _) \<leftarrow> add_op s f; add_all add_op s fs }"

context fingerprint_set
begin

lemma add_all_members:
  "valid s \<Longrightarrow> list_all fingerprint_ok fs \<Longrightarrow>
   \<exists>s'. add_all add_op s fs = Some s' \<and> valid s' \<and> members s' = members s \<union> set fs"
proof (induction fs arbitrary: s)
  case (Cons f fs)
  obtain s1 where s1: "add_op s f = Some (s1, f \<notin> members s)" "valid s1" "members s1 = insert f (members s)"
    using add_law [of s f] Cons.prems by auto
  show ?case using Cons.IH [OF s1(2)] Cons.prems(2) s1 by auto
qed simp

lemma find_after_add_all:
  assumes "valid s" and "list_all fingerprint_ok fs" and "fingerprint_ok f"
  shows "add_all add_op s fs \<bind> (\<lambda>s. find_op s f) = Some (f \<in> members s \<or> f \<in> set fs)"
  using add_all_members [OF assms(1,2)] find_law [OF _ assms(3)] by auto

end

section \<open>The array meets the contract\<close>

definition fps :: "keyarray \<Rightarrow> openpgp_fingerprint list" where
  "fps arr = map the (take (ka_count arr) (ka_keys arr))"

abbreviation (input) fp_sorted :: "openpgp_fingerprint list \<Rightarrow> bool" where
  "fp_sorted \<equiv> sorted_wrt (\<lambda>a b. fingerprint_cmp a b < 0)"

definition keyarray_ok :: "keyarray \<Rightarrow> bool" where
  "keyarray_ok arr \<longleftrightarrow> ka_size arr = length (ka_keys arr) \<and> ka_count arr \<le> ka_size arr \<and>
     take (ka_count arr) (ka_keys arr) = map Some (fps arr) \<and>
     list_all fingerprint_ok (fps arr) \<and> fp_sorted (fps arr)"

context comparator
begin

lemma cmp_less_trans:
  assumes "ok a" "ok b" "ok c" and "cmp a b \<le> 0" and "cmp b c < 0"
  shows "cmp a c < 0"
proof -
  have le: "cmp a c \<le> 0" using assms cmp_trans [of a b c] by simp
  have "cmp a c \<noteq> 0"
  proof
    assume "cmp a c = 0"
    then have "cmp c a \<le> 0" using assms cmp_sym [of a c] by simp
    then have "cmp c b \<le> 0" using assms cmp_trans [of c a b] by simp
    then show False using assms cmp_sym [of b c] by simp
  qed
  then show ?thesis using le by simp
qed

text \<open>In a strictly sorted list, everything before an element that is less is less.\<close>

lemma sorted_below:
  assumes "sorted_wrt (\<lambda>a b. cmp a b < 0) xs" and "list_all ok xs" and "ok x"
    and "j < length xs" and "cmp (xs ! j) x < 0" and "i \<le> j"
  shows "cmp (xs ! i) x < 0"
proof (cases "i = j")
  case False
  then have "cmp (xs ! i) (xs ! j) < 0" using assms by (simp add: sorted_wrt_iff_nth_less)
  then show ?thesis using assms cmp_less_trans [of "xs ! i" "xs ! j" x] by (simp add: list_all_length)
qed (use assms in simp)

lemma sorted_above:
  assumes "sorted_wrt (\<lambda>a b. cmp a b < 0) xs" and "list_all ok xs" and "ok x"
    and "j < length xs" and "cmp x (xs ! j) \<le> 0" and "j < i" and "i < length xs"
  shows "cmp x (xs ! i) < 0"
proof -
  have "cmp (xs ! j) (xs ! i) < 0" using assms by (simp add: sorted_wrt_iff_nth_less)
  then show ?thesis using assms cmp_less_trans [of x "xs ! j" "xs ! i"] by (simp add: list_all_length)
qed

end

lemma slot_in:
  assumes "take n keys = map Some ks" and "length ks = n" and "0 \<le> i" and "nat i < n"
  shows "slot keys i = Some (ks ! nat i)"
proof -
  have "keys ! nat i = take n keys ! nat i" using assms(4) by simp
  moreover have "n \<le> length keys" using arg_cong [OF assms(1), of length] assms(2) by simp
  ultimately show ?thesis using assms by (simp add: slot_def)
qed

lemma array_search_result:
  "take n keys = map Some ks \<Longrightarrow> length ks = n \<Longrightarrow> list_all fingerprint_ok ks \<Longrightarrow> fp_sorted ks \<Longrightarrow> fingerprint_ok f \<Longrightarrow>
   -1 \<le> bottom \<Longrightarrow> bottom < tp \<Longrightarrow> tp < int n \<Longrightarrow>
   0 \<le> bottom \<longrightarrow> fingerprint_cmp (ks ! nat bottom) f < 0 \<Longrightarrow>
   tp < int n - 1 \<longrightarrow> fingerprint_cmp f (ks ! nat tp) \<le> 0 \<Longrightarrow>
   \<exists>r. array_search keys f bottom tp = Some (int r) \<and> r < n \<and>
     (0 < r \<longrightarrow> fingerprint_cmp (ks ! (r - 1)) f < 0) \<and> (r < n - 1 \<longrightarrow> fingerprint_cmp f (ks ! r) \<le> 0)"
proof (induction keys f bottom tp rule: array_search.induct)
  case (1 keys f bottom tp)
  note prems = "1.prems"
  show ?case
  proof (cases "tp - bottom > 1")
    case False
    then have b: "bottom = tp - 1" using prems(7) by simp
    have "array_search keys f bottom tp = Some (int (nat tp))"
      using False prems(6,7) by (subst array_search.simps) simp
    moreover have "nat tp - 1 = nat bottom" using b by simp
    ultimately show ?thesis using prems b by (intro exI [of _ "nat tp"]) auto
  next
    case True
    let ?c = "(tp + bottom) div 2"
    have c: "bottom < ?c" "?c < tp" "0 \<le> ?c" using True prems(6) by linarith+
    have n: "nat ?c < n" using c prems(8) by linarith
    have s: "slot keys ?c = Some (ks ! nat ?c)" using slot_in [OF prems(1,2) c(3) n] .
    have ok: "fingerprint_ok (ks ! nat ?c)" using prems(2,3) n by (simp add: list_all_length)
    show ?thesis
    proof (cases "fingerprint_cmp f (ks ! nat ?c) > 0")
      case g: True
      then have "fingerprint_cmp (ks ! nat ?c) f < 0" using fingerprint_order.cmp_sym [OF prems(5) ok] by simp
      with "1.IH"(1) [OF True refl s g prems(1-5)] c prems
      show ?thesis using True g s by (subst array_search.simps) simp
    next
      case g: False
      with "1.IH"(2) [OF True refl s g prems(1-5)] c prems
      show ?thesis using True s by (subst array_search.simps) simp
    qed
  qed
qed

lemma length_fps: "keyarray_ok arr \<Longrightarrow> length (fps arr) = ka_count arr"
  by (simp add: keyarray_ok_def fps_def)

text \<open>Where the search ends: at the position of the fingerprint or where it belongs.\<close>

lemma array_search_position:
  assumes "keyarray_ok arr" and "0 < ka_count arr" and "fingerprint_ok f"
  shows "\<exists>r k pos. array_search (ka_keys arr) f (-1) (int (ka_count arr) - 1) = Some (int r) \<and>
    slot (ka_keys arr) (int r) = Some k \<and> (fingerprint_cmp f k = 0 \<longleftrightarrow> f \<in> set (fps arr)) \<and>
    pos = (if fingerprint_cmp f k > 0 then r + 1 else r) \<and> pos \<le> ka_count arr \<and>
    (\<forall>a \<in> set (take pos (fps arr)). fingerprint_cmp a f < 0) \<and>
    (f \<notin> set (fps arr) \<longrightarrow> (\<forall>a \<in> set (drop pos (fps arr)). fingerprint_cmp f a < 0))"
proof -
  let ?ks = "fps arr" and ?n = "ka_count arr"
  have len: "length ?ks = ?n" using length_fps [OF assms(1)] .
  have inv: "take ?n (ka_keys arr) = map Some ?ks" "list_all fingerprint_ok ?ks" "fp_sorted ?ks"
    using assms(1) by (simp_all add: keyarray_ok_def)
  obtain r where r: "array_search (ka_keys arr) f (-1) (int ?n - 1) = Some (int r)" "r < ?n"
      and low: "0 < r \<longrightarrow> fingerprint_cmp (?ks ! (r - 1)) f < 0"
      and high: "r < ?n - 1 \<longrightarrow> fingerprint_cmp f (?ks ! r) \<le> 0"
    using array_search_result [OF inv(1) len inv(2,3) assms(3), of "-1" "int ?n - 1"] assms(2) by auto
  define k where "k = ?ks ! r"
  define pos where "pos = (if fingerprint_cmp f k > 0 then r + 1 else r)"
  have k: "slot (ka_keys arr) (int r) = Some k" using slot_in [OF inv(1) len, of "int r"] r(2) by (simp add: k_def)
  have ok: "fingerprint_ok (?ks ! i)" if "i < ?n" for i using inv(2) that len by (simp add: list_all_length)
  have below: "fingerprint_cmp (?ks ! i) f < 0" if "i < pos" for i
  proof (cases "fingerprint_cmp f k > 0")
    case True
    then have "fingerprint_cmp (?ks ! r) f < 0"
      using fingerprint_order.cmp_sym [OF assms(3) ok [OF r(2)]] by (simp add: k_def)
    then show ?thesis using fingerprint_order.sorted_below [OF inv(3,2) assms(3), of r i] that True r(2) len
      by (simp add: pos_def)
  next
    case False
    then have "0 < r" "i \<le> r - 1" using that by (simp_all add: pos_def)
    then show ?thesis using fingerprint_order.sorted_below [OF inv(3,2) assms(3), of "r - 1" i] low r(2) len by simp
  qed
  have above: "fingerprint_cmp f (?ks ! i) < 0" if "pos \<le> i" "i < ?n" "f \<notin> set ?ks" for i
  proof -
    have le: "fingerprint_cmp f k \<le> 0"
    proof (rule ccontr)
      assume "\<not> fingerprint_cmp f k \<le> 0"
      then have "pos = r + 1" by (simp add: pos_def)
      then have "r < ?n - 1" using that(1,2) by simp
      then show False using high \<open>\<not> fingerprint_cmp f k \<le> 0\<close> by (simp add: k_def)
    qed
    have "fingerprint_cmp f k \<noteq> 0"
      using that(3) r(2) len fingerprint_order.cmp_zero [OF assms(3) ok [OF r(2)]] by (auto simp: k_def)
    then show ?thesis using le that r(2) len fingerprint_order.sorted_above [OF inv(3,2) assms(3), of r i]
      by (cases "i = r") (auto simp: pos_def k_def)
  qed
  have mem: "fingerprint_cmp f k = 0 \<longleftrightarrow> f \<in> set ?ks"
  proof
    assume "fingerprint_cmp f k = 0"
    then show "f \<in> set ?ks" using fingerprint_order.cmp_zero [OF assms(3) ok [OF r(2)]] r(2) len by (simp add: k_def)
  next
    assume "f \<in> set ?ks"
    then obtain i where i: "i < ?n" "?ks ! i = f" using len by (auto simp: in_set_conv_nth)
    have z: "fingerprint_cmp f f = 0" using fingerprint_order.cmp_refl [OF assms(3)] .
    then have "pos \<le> i" using below [of i] i by (cases "i < pos") auto
    moreover have "\<not> r < i"
      using fingerprint_order.sorted_above [OF inv(3,2) assms(3), of r i] i z len r(2) high by auto
    ultimately show "fingerprint_cmp f k = 0" using i z by (auto simp: pos_def k_def split: if_splits)
  qed
  have pos: "pos \<le> ?n" using r(2) by (simp add: pos_def)
  have "\<forall>a \<in> set (take pos ?ks). fingerprint_cmp a f < 0" using below len pos by (auto simp: in_set_conv_nth)
  moreover have "\<forall>a \<in> set (drop pos ?ks). fingerprint_cmp f a < 0" if "f \<notin> set ?ks"
    using above [OF _ _ that] len pos by (auto simp: in_set_conv_nth)
  ultimately show ?thesis using r(1) k mem pos pos_def by blast
qed

lemma array_find_member:
  assumes "keyarray_ok arr" and "fingerprint_ok f"
  shows "array_find arr f = Some (f \<in> set (fps arr))"
proof (cases "0 < ka_count arr")
  case True
  then have "ka_keys arr \<noteq> []" using assms(1) by (auto simp: keyarray_ok_def)
  then show ?thesis using array_search_position [OF assms(1) True assms(2)] True by (auto simp: array_find_def)
qed (use assms in \<open>simp add: array_find_def fps_def\<close>)

lemma array_add_empty:
  "ka_size arr = 0 \<Longrightarrow> array_add arr f = Some (\<lparr>ka_keys = Some f # replicate 15 None, ka_count = 1, ka_size = 16\<rparr>, True)"
  by (simp add: array_add_def)

lemma slot_insert_fps:
  assumes "take n keys = map Some ks" and "length ks = n" and "i \<le> n" and "n < length keys"
  shows "\<exists>keys'. slot_insert keys i n f = Some keys' \<and> length keys' = length keys \<and>
    take (Suc n) keys' = map Some (take i ks @ f # drop i ks)"
proof -
  have t: "take i keys = map Some (take i ks)"
    using arg_cong [OF assms(1), of "take i"] assms(3) by (simp add: take_map)
  have d: "take (n - i) (drop i keys) = map Some (drop i ks)"
    using arg_cong [OF assms(1), of "drop i"] by (simp add: drop_take drop_map)
  show ?thesis using assms by (auto simp: slot_insert_def t d Suc_diff_le)
qed

lemma fp_sorted_insert:
  assumes "fp_sorted ks" and "\<forall>a \<in> set (take i ks). fingerprint_cmp a f < 0" and "\<forall>a \<in> set (drop i ks). fingerprint_cmp f a < 0"
  shows "fp_sorted (take i ks @ f # drop i ks)"
proof -
  have "fp_sorted (take i ks @ drop i ks)" using assms(1) by simp
  then show ?thesis using assms(2,3) by (auto simp only: sorted_wrt_append sorted_wrt.simps set_simps)
qed

lemma keyarray_okI:
  assumes "length keys = sz" and "n \<le> sz" and "take n keys = map Some ks" and "list_all fingerprint_ok ks" and "fp_sorted ks"
  shows "keyarray_ok \<lparr>ka_keys = keys, ka_count = n, ka_size = sz\<rparr>"
    and "fps \<lparr>ka_keys = keys, ka_count = n, ka_size = sz\<rparr> = ks"
proof -
  show f: "fps \<lparr>ka_keys = keys, ka_count = n, ka_size = sz\<rparr> = ks" by (simp add: fps_def assms(3) comp_def)
  show "keyarray_ok \<lparr>ka_keys = keys, ka_count = n, ka_size = sz\<rparr>" using assms f by (simp add: keyarray_ok_def)
qed

lemma array_add_insert:
  assumes "keyarray_ok arr" and "fingerprint_ok f"
  shows "\<exists>arr'. array_add arr f = Some (arr', f \<notin> set (fps arr)) \<and> keyarray_ok arr' \<and>
    set (fps arr') = insert f (set (fps arr))"
proof (cases "ka_size arr = 0")
  case True
  then have e: "fps arr = []" using assms(1) by (simp add: keyarray_ok_def fps_def)
  let ?new = "\<lparr>ka_keys = Some f # replicate 15 None, ka_count = 1, ka_size = 16\<rparr>"
  have "keyarray_ok ?new" "fps ?new = [f]"
    using keyarray_okI [of "Some f # replicate 15 None" 16 1 "[f]"] assms(2) by simp_all
  then show ?thesis using array_add_empty [OF True, of f] e True by simp
next
  case False
  let ?n = "ka_count arr" and ?ks = "fps arr"
  have inv: "ka_size arr = length (ka_keys arr)" "?n \<le> ka_size arr" "take ?n (ka_keys arr) = map Some ?ks"
      "list_all fingerprint_ok ?ks" "fp_sorted ?ks" and len: "length ?ks = ?n"
    using assms(1) length_fps [OF assms(1)] by (simp_all add: keyarray_ok_def)
  obtain found pos where start: "(if ka_size arr \<noteq> 0 \<and> ?n > 0 then
        do { tp \<leftarrow> array_search (ka_keys arr) f (-1) (int ?n - 1); k \<leftarrow> slot (ka_keys arr) tp;
             Some (fingerprint_cmp f k = 0, if fingerprint_cmp f k > 0 then nat tp + 1 else nat tp) }
        else Some (False, 0)) = Some (found, pos)"
      and found: "found \<longleftrightarrow> f \<in> set ?ks" and pos: "pos \<le> ?n"
      and low: "\<forall>a \<in> set (take pos ?ks). fingerprint_cmp a f < 0"
      and high: "f \<notin> set ?ks \<longrightarrow> (\<forall>a \<in> set (drop pos ?ks). fingerprint_cmp f a < 0)"
  proof (cases "?n = 0")
    case True
    then show ?thesis using that [of False 0] len by simp
  next
    case n: False
    then obtain r k pos where r: "array_search (ka_keys arr) f (-1) (int ?n - 1) = Some (int r)" "slot (ka_keys arr) (int r) = Some k"
        "fingerprint_cmp f k = 0 \<longleftrightarrow> f \<in> set ?ks" "pos = (if fingerprint_cmp f k > 0 then r + 1 else r)" and
        p: "pos \<le> ?n" "\<forall>a \<in> set (take pos ?ks). fingerprint_cmp a f < 0"
        "f \<notin> set ?ks \<longrightarrow> (\<forall>a \<in> set (drop pos ?ks). fingerprint_cmp f a < 0)"
      using array_search_position [OF assms(1) _ assms(2)] by blast
    show ?thesis by (rule that [OF _ r(3) p]) (use r False n in simp)
  qed
  show ?thesis
  proof (cases found)
    case True
    then have "array_add arr f = Some (arr, False)" unfolding array_add_def start by simp
    then show ?thesis using True found assms(1) by (simp add: insert_absorb)
  next
    case nf: False
    define keys where "keys = (if ?n \<ge> ka_size arr then ka_keys arr @ replicate (2 * ka_size arr - length (ka_keys arr)) None else ka_keys arr)"
    define sz where "sz = (if ?n \<ge> ka_size arr then 2 * ka_size arr else ka_size arr)"
    have keys: "length keys = sz" "?n < length keys" "take ?n keys = map Some ?ks"
    proof -
      have pos: "0 < length (ka_keys arr)" using inv(1) False by simp
      show "length keys = sz" using inv(1,2) by (simp add: keys_def sz_def)
      show "?n < length keys"
      proof (cases "?n \<ge> ka_size arr")
        case True
        then have "length keys = 2 * ka_size arr" "?n = ka_size arr" using inv(1,2) by (simp_all add: keys_def)
        then show ?thesis using False by linarith
      next
        case False
        then show ?thesis using inv(1) by (simp add: keys_def)
      qed
      show "take ?n keys = map Some ?ks" using inv(1-3) by (simp add: keys_def)
    qed
    obtain keys' where k': "slot_insert keys pos ?n f = Some keys'" "length keys' = length keys"
        "take (Suc ?n) keys' = map Some (take pos ?ks @ f # drop pos ?ks)"
      using slot_insert_fps [OF keys(3) len pos keys(2)] by blast
    let ?new = "\<lparr>ka_keys = keys', ka_count = Suc ?n, ka_size = sz\<rparr>"
    have "list_all fingerprint_ok (take pos ?ks @ f # drop pos ?ks)"
      using inv(4) assms(2) by (auto simp: list_all_iff dest: in_set_takeD in_set_dropD)
    moreover have "fp_sorted (take pos ?ks @ f # drop pos ?ks)"
      using fp_sorted_insert [OF inv(5) low] high nf found by simp
    moreover have "length keys' = sz" "Suc ?n \<le> sz" using k'(2) keys(1,2) by simp_all
    ultimately have new: "keyarray_ok ?new" "fps ?new = take pos ?ks @ f # drop pos ?ks"
      using keyarray_okI [OF _ _ k'(3)] by simp_all
    have "array_add arr f = Some (?new, True)"
      unfolding array_add_def start using nf False k'(1) by (auto simp: keys_def sz_def split: if_splits)
    moreover have "set (take pos ?ks) \<union> set (drop pos ?ks) = set ?ks" by (metis append_take_drop_id set_append)
    ultimately show ?thesis using new nf found by auto
  qed
qed

interpretation keyarray_set: fingerprint_set keyarray_ok "\<lambda>arr. set (fps arr)" array_find array_add
  by unfold_locales (auto simp: array_find_member dest: array_add_insert)

section \<open>What loading adds\<close>

lemma line_entry_ok: "line_entry l = Some f \<Longrightarrow> fingerprint_ok f"
  by (auto simp: line_entry_def Let_def fingerprint_ok_def split: if_splits)

text \<open>A line is read as a whole if it is short enough.\<close>

lemma fgets_line:
  assumes "10 \<notin> set l" and "length l < n"
  shows "fgets n (l @ 10 # rest) = Some (l @ [10], rest, False)"
proof -
  have t: "takeWhile (\<lambda>c. c \<noteq> 10) (l @ 10 # rest) = l" using assms(1) by (induction l) auto
  show ?thesis using assms(2) unfolding fgets_def t Let_def by simp
qed

lemma fgets_tail:
  assumes "10 \<notin> set l" and "length l < n" and "l \<noteq> []"
  shows "fgets n l = Some (l, [], True)"
proof -
  have t: "takeWhile (\<lambda>c. c \<noteq> 10) l = l" using assms(1) by (induction l) auto
  have "last l \<noteq> 10" using assms(1) last_in_set [OF assms(3)] by auto
  then show ?thesis using assms(2,3) unfolding fgets_def t Let_def by simp
qed

lemma fgets_Nil: "fgets n [] = None"
  by (simp add: fgets_def)

text \<open>The text file with these lines and, after the last newline, the tail.\<close>

definition file_text :: "bytes list \<Rightarrow> bytes \<Rightarrow> bytes" where
  "file_text ls tail = concat (map (\<lambda>l. l @ [10]) ls) @ tail"

definition line_ok :: "bytes \<Rightarrow> bool" where
  "line_ok l \<longleftrightarrow> 10 \<notin> set l \<and> length l < 1022"

definition entries :: "bytes list \<Rightarrow> openpgp_fingerprint list" where
  "entries ls = List.map_filter (\<lambda>l. line_entry (l @ [10])) ls"

lemma entries_Cons:
  "entries (l # ls) = (case line_entry (l @ [10]) of None \<Rightarrow> [] | Some f \<Rightarrow> [f]) @ entries ls"
  by (simp add: entries_def List.map_filter_simps split: option.split)

lemma entries_fingerprint_ok: "list_all fingerprint_ok (entries ls)"
  by (induction ls) (auto simp: entries_Cons entries_def List.map_filter_simps dest: line_entry_ok split: option.splits)

lemma array_load_loop_entries:
  "list_all line_ok (l # ls) \<Longrightarrow> line_ok tail \<Longrightarrow>
   array_load_loop arr (l @ [10]) (file_text ls tail) False = add_all array_add arr (entries (l # ls))"
proof (induction ls arbitrary: arr l)
  case Nil
  then have tl: "array_load_loop a (tail) [] True = Some a" "fgets 1022 (file_text [] tail) = (if tail = [] then None else Some (tail, [], True))" for a
    using fgets_tail [of tail 1022] by (auto simp: file_text_def line_ok_def fgets_Nil array_load_loop.simps)
  show ?case
    by (subst array_load_loop.simps)
       (auto simp: entries_Cons tl entries_def List.map_filter_simps split: option.split Option.bind_split)
next
  case (Cons l2 ls)
  have f: "fgets 1022 (file_text (l2 # ls) tail) = Some (l2 @ [10], file_text ls tail, False)"
    using fgets_line [of l2 1022 "file_text ls tail"] Cons.prems by (simp add: file_text_def line_ok_def)
  have ih: "array_load_loop a (l2 @ [10]) (file_text ls tail) False = add_all array_add a (entries (l2 # ls))" for a
    using Cons by simp
  show ?case
  proof (cases "line_entry (l @ [10])")
    case None
    then show ?thesis by (subst array_load_loop.simps) (simp add: f ih entries_Cons [of l])
  next
    case (Some g)
    then show ?thesis by (subst array_load_loop.simps) (simp add: f ih entries_Cons [of l] split: option.split Option.bind_split)
  qed
qed

lemma array_load_entries:
  assumes "list_all line_ok ls" and "line_ok tail"
  shows "array_load arr (Some (file_text ls tail)) =
    (if file_text ls tail = [] then Some (arr, False)
     else do { arr \<leftarrow> add_all array_add arr (entries ls); Some (arr, ka_count arr \<noteq> 0) })"
proof (cases ls)
  case Nil
  have "fgets 1022 tail = (if tail = [] then None else Some (tail, [], True))"
    using assms(2) fgets_tail [of tail 1022] by (simp add: line_ok_def fgets_Nil)
  then show ?thesis
    using Nil by (simp add: array_load_def file_text_def entries_def List.map_filter_simps array_load_loop.simps)
next
  case (Cons l ls')
  have "fgets 1022 (file_text ls tail) = Some (l @ [10], file_text ls' tail, False)"
    using fgets_line [of l 1022 "file_text ls' tail"] assms(1) Cons by (simp add: file_text_def line_ok_def)
  moreover have "file_text ls tail \<noteq> []" using Cons by (simp add: file_text_def)
  ultimately show ?thesis
    using array_load_loop_entries [of l ls' tail arr] assms Cons by (simp add: array_load_def)
qed

section \<open>Properties\<close>

text \<open>
  C19. The sorted array implements a set of fingerprints. Starting from the empty array and
  adding any fingerprints in any order, every insertion stays inside the allocation and tells
  whether the fingerprint was new; the array stays strictly sorted; and a lookup afterwards,
  by binary search, finds exactly the fingerprints that were added.
\<close>

theorem array_add_find_set:
  assumes "list_all fingerprint_ok fs" and "fingerprint_ok f"
  shows "\<exists>arr. add_all array_add (array_free a) fs = Some arr \<and> keyarray_ok arr \<and>
    set (fps arr) = set fs \<and> array_find arr f = Some (f \<in> set fs) \<and>
    map_option snd (array_add arr f) = Some (f \<notin> set fs)"
proof -
  have "keyarray_ok (array_free a)" "fps (array_free a) = []"
    by (simp_all add: array_free_def keyarray_ok_def fps_def)
  then obtain arr where arr: "add_all array_add (array_free a) fs = Some arr" "keyarray_ok arr" "set (fps arr) = set fs"
    using keyarray_set.add_all_members [of "array_free a" fs] assms(1) by auto
  then show ?thesis
    using keyarray_set.find_law [of arr f] keyarray_set.add_law [of arr f] assms(2) by auto
qed

definition sample_fp :: "u8 \<Rightarrow> openpgp_fingerprint" where
  "sample_fp b = \<lparr>fp_length = 20, fp = replicate 20 b\<rparr>"

theorem array_add_find_set_witness:
  "\<exists>arr. add_all array_add (array_free \<lparr>ka_keys = [], ka_count = 0, ka_size = 0\<rparr>) [sample_fp 9, sample_fp 1, sample_fp 9, sample_fp 4] = Some arr \<and>
    keyarray_ok arr \<and> array_find arr (sample_fp 4) = Some True"
proof -
  have ok: "fingerprint_ok (sample_fp b)" for b by (simp add: fingerprint_ok_def sample_fp_def)
  then have "list_all fingerprint_ok [sample_fp 9, sample_fp 1, sample_fp 9, sample_fp 4]" by simp
  from array_add_find_set [OF this ok, of "\<lparr>ka_keys = [], ka_count = 0, ka_size = 0\<rparr>" 4] show ?thesis by auto
qed

text \<open>
  What \<open>array_load\<close> adds. From a file of lines of fewer than 1022 characters it adds to a
  valid array exactly the fingerprints of the lines that end in a newline (lines that start
  with \<open>#\<close> and lines of other lengths are skipped). A last line without a newline is ignored,
  whatever it holds: reading it sets the end-of-file flag the loop tests before using it.
\<close>

theorem array_load_adds_complete_lines:
  assumes "keyarray_ok arr" and "list_all line_ok ls" and "line_ok tail" and "ls \<noteq> []"
  shows "\<exists>arr'. array_load arr (Some (file_text ls tail)) = Some (arr', ka_count arr' \<noteq> 0) \<and> keyarray_ok arr' \<and>
    set (fps arr') = set (fps arr) \<union> set (entries ls)"
proof -
  have "file_text ls tail \<noteq> []" using assms(4) by (cases ls) (simp_all add: file_text_def)
  then show ?thesis
    using array_load_entries [OF assms(2,3), of arr]
      keyarray_set.add_all_members [OF assms(1) entries_fingerprint_ok [of ls]] by auto
qed

theorem array_load_adds_complete_lines_witness:
  "\<exists>arr'. array_load \<lparr>ka_keys = [], ka_count = 0, ka_size = 0\<rparr> (Some (file_text [replicate 40 48, [35]] (replicate 40 49))) =
     Some (arr', ka_count arr' \<noteq> 0) \<and> keyarray_ok arr' \<and>
     set (fps arr') = set (entries [replicate 40 48, [35]])"
proof -
  have "keyarray_ok \<lparr>ka_keys = [], ka_count = 0, ka_size = 0\<rparr>" "fps \<lparr>ka_keys = [], ka_count = 0, ka_size = 0\<rparr> = []"
    by (simp_all add: keyarray_ok_def fps_def)
  moreover have "list_all line_ok [replicate 40 48, [35]]" "line_ok (replicate 40 49)" by (simp_all add: line_ok_def)
  ultimately show ?thesis
    using array_load_adds_complete_lines
      [of "\<lparr>ka_keys = [], ka_count = 0, ka_size = 0\<rparr>" "[replicate 40 48, [35]]" "replicate 40 49"] by simp
qed

end
