(* ===== verification/Armor.thy ===== *)
theory Armor
  imports Parse_Key
begin

text \<open>
  ASCII armor (\<open>armor.c\<close>): the base 64 code, the running CRC-24, the armoring writer wrapped
  around any \<open>putchar_func\<close>, the dearmoring reader wrapped around any \<open>getchar_func\<close>, and
  the two entry points. An armor context carries its \<open>putchar_func\<close>/\<open>getchar_func\<close> and their
  context; here the function is an argument and the context is the second component of the
  state.

  The lemmas show that the armored text of any bytes decodes to these bytes, so that the two
  wrappers again meet the stream contracts, and hence that armoring and dearmoring a packet
  list is the identity.
\<close>

section \<open>Base 64 digits\<close>

definition encode64 :: "u8 \<Rightarrow> u8" where
  "encode64 c =
     (if c \<le> 25 then c + 65
      else if c \<ge> 26 \<and> c \<le> 51 then c + (97 - 26)
      else if c \<ge> 52 \<and> c \<le> 61 then c + (48 - 52)
      else if c = 62 then 43
      else if c = 63 then 47
      else 63)"

definition decode64 :: "u8 \<Rightarrow> u8" where
  "decode64 c =
     (if c \<ge> 65 \<and> c \<le> 90 then c - 65
      else if c \<ge> 97 \<and> c \<le> 122 then c - (97 - 26)
      else if c \<ge> 48 \<and> c \<le> 57 then c - (48 - 52)
      else if c = 43 then 62
      else if c = 47 then 63
      else if c = 61 \<or> c = 45 then 64
      else 65)"

section \<open>CRC-24\<close>

abbreviation (input) CRC24_INIT :: u64 where "CRC24_INIT \<equiv> 0xb704ce"
abbreviation (input) CRC24_POLY :: u64 where "CRC24_POLY \<equiv> 0x1864cfb"

definition crc24_bit :: "u64 \<Rightarrow> u64" where
  "crc24_bit crc24 =
     (let crc24 = push_bit 1 crc24
      in if crc24 AND 0x1000000 \<noteq> 0 then crc24 XOR CRC24_POLY else crc24)"

definition crc24_octet :: "u64 \<Rightarrow> u8 \<Rightarrow> u64" where
  "crc24_octet crc24 c = (crc24_bit ^^ 8) (crc24 XOR push_bit 16 (ucast c))"

section \<open>Armoring\<close>

abbreviation (input) ARMOR_WIDTH :: nat where "ARMOR_WIDTH \<equiv> 64"

record armor_context =
  lastoctet :: u8
  curoctet :: nat
  octets :: nat
  crc24 :: u64

definition armor_init :: armor_context where
  "armor_init = \<lparr>lastoctet = 0, curoctet = 0, octets = 0, crc24 = CRC24_INIT\<rparr>"

text \<open>The base 64 digits \<open>armor_putchar_int\<close> outputs for an octet, without the line feed.\<close>

definition armor_digits :: "armor_context \<Rightarrow> u8 \<Rightarrow> bytes" where
  "armor_digits state c =
     (if curoctet state = 0 then [encode64 (drop_bit 2 c)]
      else if curoctet state = 1 then
        [encode64 (push_bit 4 (lastoctet state AND 3) + drop_bit 4 c)]
      else if curoctet state = 2 then
        [encode64 (push_bit 2 (lastoctet state AND 0xF) + drop_bit 6 c), encode64 (c AND 0x3F)]
      else [])"

definition armor_next :: "armor_context \<Rightarrow> u8 \<Rightarrow> armor_context" where
  "armor_next state c =
     \<lparr>lastoctet = c, curoctet = (curoctet state + 1) mod 3,
      octets = octets state + length (armor_digits state c),
      crc24 = crc24_octet (crc24 state) c\<rparr>"

definition armor_putchar_int :: "'s writer \<Rightarrow> armor_context \<times> 's \<Rightarrow> u8 \<Rightarrow> (armor_context \<times> 's) option" where
  "armor_putchar_int put ctx c =
     (case ctx of (state, s) \<Rightarrow>
        let state' = armor_next state c in
        do { s \<leftarrow> put_octets put (armor_digits state c) s;
             s \<leftarrow> (if octets state' mod ARMOR_WIDTH = 0 then put s [10] else Some s);
             Some (state', s) })"

fun armor_putchar :: "'s writer \<Rightarrow> (armor_context \<times> 's) writer" where
  "armor_putchar put ctx [] = Some ctx"
| "armor_putchar put ctx (c # cs) = do { ctx \<leftarrow> armor_putchar_int put ctx c; armor_putchar put ctx cs }"

text \<open>The characters \<open>armor_finish\<close> outputs, one \<open>putchar_func\<close> call each.\<close>

definition armor_pad :: "armor_context \<Rightarrow> bytes" where
  "armor_pad state =
     (if curoctet state = 1 then [encode64 (push_bit 4 (lastoctet state AND 3)), 61, 61]
      else if curoctet state = 2 then [encode64 (push_bit 2 (lastoctet state AND 0xF)), 61]
      else [])"

definition armor_crc :: "u64 \<Rightarrow> bytes" where
  "armor_crc crc =
     (let crc = crc AND 0xffffff in
      [61, encode64 (ucast (drop_bit 18 crc)), encode64 (ucast (drop_bit 12 crc AND 0x3F)),
       encode64 (ucast (drop_bit 6 crc AND 0x3F)), encode64 (ucast (crc AND 0x3F)), 10])"

definition armor_finish :: "'s writer \<Rightarrow> armor_context \<times> 's \<Rightarrow> 's option" where
  "armor_finish put ctx =
     (case ctx of (state, s) \<Rightarrow>
        let pad = armor_pad state; cnt = octets state + length pad in
        do { s \<leftarrow> put_octets put pad s;
             s \<leftarrow> (if pad \<noteq> [] \<and> cnt mod ARMOR_WIDTH = 0 then put s [10] else Some s);
             s \<leftarrow> (if cnt mod ARMOR_WIDTH \<noteq> 0 then put s [10] else Some s);
             put_octets put (armor_crc (crc24 state)) s })"

definition armor_header :: bytes where
  "armor_header = map (\<lambda>c. word_of_nat (of_char c))
     (''-----BEGIN PGP PUBLIC KEY BLOCK-----'' @ [CHR 0x0A, CHR 0x0A])"

definition armor_footer :: bytes where
  "armor_footer = map (\<lambda>c. word_of_nat (of_char c))
     (''-----END PGP PUBLIC KEY BLOCK-----'' @ [CHR 0x0A])"

text \<open>The return value is always 0; the status of \<open>write_openpgp_stream\<close> is not looked at.\<close>

definition armor_openpgp_stream :: "'s writer \<Rightarrow> 's \<Rightarrow> openpgp_packet list \<Rightarrow> 's option" where
  "armor_openpgp_stream put s packets =
     do { s \<leftarrow> put s armor_header;
          (_, ctx) \<leftarrow> write_openpgp_stream (armor_putchar put) (armor_init, s) packets;
          s \<leftarrow> armor_finish put ctx;
          put s armor_footer }"

section \<open>Dearmoring\<close>

text \<open>
  \<open>while (tmpc == 65) { getchar_func(ctx, 1, &tmpc); tmpc = decode64(tmpc); }\<close>. The result
  of \<open>getchar_func\<close> is not looked at: at the end of the input \<open>tmpc\<close> keeps its value.
\<close>

partial_function (option) next_digit :: "'s reader \<Rightarrow> u8 \<Rightarrow> 's \<Rightarrow> (u8 \<times> 's) option" where
  "next_digit getc tmpc s =
     (if tmpc = 65 then
        do { (cs, s) \<leftarrow> getc s 1;
             next_digit getc (decode64 (case cs of [] \<Rightarrow> tmpc | c # _ \<Rightarrow> c)) s }
      else Some (tmpc, s))"

text \<open>The result says whether the end was reached (\<open>tmpc == 64\<close>), and gives the octet \<open>*c\<close>.\<close>

definition dearmor_getchar ::
    "'s reader \<Rightarrow> armor_context \<times> 's \<Rightarrow> (bool \<times> u8 \<times> (armor_context \<times> 's)) option" where
  "dearmor_getchar getc ctx =
     (case ctx of (state, s) \<Rightarrow>
        do { (tmpc, s) \<leftarrow> next_digit getc 65 s;
             if tmpc = 64 then Some (True, 0, (state, s))
             else
               do { (c, tmpc, s) \<leftarrow>
                      (if curoctet state = 0 then
                         do { let first = tmpc;
                              (tmpc, s) \<leftarrow> next_digit getc 65 s;
                              Some (push_bit 2 first + drop_bit 4 tmpc, tmpc, s) }
                       else if curoctet state = 1 then
                         Some (push_bit 4 (lastoctet state AND 0xF) + drop_bit 2 tmpc, tmpc, s)
                       else if curoctet state = 2 then
                         Some (push_bit 6 (lastoctet state AND 3) + tmpc, tmpc, s)
                       else Some (0, tmpc, s));
                    Some (tmpc = 64, c,
                      (\<lparr>lastoctet = tmpc, curoctet = (curoctet state + 1) mod 3,
                        octets = octets state + 1, crc24 = crc24_octet (crc24 state) c\<rparr>, s)) } })"

fun dearmor_octets ::
    "'s reader \<Rightarrow> nat \<Rightarrow> armor_context \<times> 's \<Rightarrow> (bool \<times> bytes \<times> (armor_context \<times> 's)) option" where
  "dearmor_octets getc 0 ctx = Some (False, [], ctx)"
| "dearmor_octets getc (Suc n) ctx =
     do { (rc, c, ctx) \<leftarrow> dearmor_getchar getc ctx;
          if rc then Some (True, [c], ctx)
          else do { (rc, cs, ctx) \<leftarrow> dearmor_octets getc n ctx; Some (rc, c # cs, ctx) } }"

definition dearmor_getchar_c :: "'s reader \<Rightarrow> (armor_context \<times> 's) reader" where
  "dearmor_getchar_c getc ctx n =
     do { (rc, cs, ctx) \<leftarrow> dearmor_octets getc n ctx;
          Some (if rc then [] else cs, ctx) }"

text \<open>The search for the armor header: the state machine's step on one character.\<close>

definition header_step :: "nat \<times> nat \<Rightarrow> u8 \<Rightarrow> nat \<times> nat" where
  "header_step st curchar =
     (case st of (state, cnt) \<Rightarrow>
        if state = 0 then (if curchar = 10 then (1, 0) else (0, cnt))
        else if state = 1 then
          (if curchar = 45 then (if cnt + 1 = 5 then (2, cnt + 1) else (1, cnt + 1))
           else if curchar \<noteq> 10 then (0, cnt) else (1, cnt))
        else if state = 2 then (if curchar = 66 then (3, 0) else (0, cnt))
        else if state = 3 then
          (if curchar = 10 then (if cnt + 1 = 2 then (4, cnt + 1) else (3, cnt + 1))
           else if curchar \<noteq> 13 then (3, 0) else (3, cnt))
        else (state, cnt))"

partial_function (option) find_header :: "'s reader \<Rightarrow> nat \<times> nat \<Rightarrow> 's \<Rightarrow> (nat \<times> 's) option" where
  "find_header getc st s =
     (if fst st \<noteq> 4 then
        do { (c, s) \<leftarrow> read_char getc s;
             (case c of None \<Rightarrow> Some (fst st, s)
              | Some curchar \<Rightarrow> find_header getc (header_step st curchar) s) }
      else Some (fst st, s))"

text \<open>
  The return value is always 0; neither the status of \<open>read_openpgp_stream\<close> nor the checksum
  is looked at.
\<close>

definition dearmor_openpgp_stream ::
    "(nat \<Rightarrow> bool) \<Rightarrow> 's reader \<Rightarrow> 's \<Rightarrow> openpgp_packet list \<Rightarrow> (openpgp_packet list \<times> 's) option" where
  "dearmor_openpgp_stream mal getc s packets =
     do { (state, s) \<leftarrow> find_header getc (1, 0) s;
          if state = 4 then
            do { (_, packets, ctx) \<leftarrow>
                   read_openpgp_stream mal (dearmor_getchar_c getc) (armor_init, s) packets 0;
                 Some (packets, snd ctx) }
          else Some (packets, s) }"

section \<open>The base 64 code and its inverse\<close>

lemma decode64_encode64: "x < 64 \<Longrightarrow> decode64 (encode64 x) = x"
proof -
  have "list_all (\<lambda>n. decode64 (encode64 (word_of_nat n)) = word_of_nat n) [0..<64]"
    by code_simp
  then have all: "\<forall>n \<in> {0..<64}. decode64 (encode64 (word_of_nat n)) = word_of_nat n"
    by (simp add: list_all_iff)
  assume "x < 64"
  then have "unat x \<in> {0..<64}" by (simp add: word_less_nat_alt)
  from bspec [OF all this] show ?thesis by simp
qed

text \<open>The six-bit groups of a byte string, the last one filled up with zero bits.\<close>

fun sextets :: "bytes \<Rightarrow> u8 list" where
  "sextets [] = []"
| "sextets [a] = [drop_bit 2 a, push_bit 4 (a AND 3)]"
| "sextets [a, b] = [drop_bit 2 a, push_bit 4 (a AND 3) + drop_bit 4 b, push_bit 2 (b AND 0xF)]"
| "sextets (a # b # c # r) =
     drop_bit 2 a # (push_bit 4 (a AND 3) + drop_bit 4 b) #
     (push_bit 2 (b AND 0xF) + drop_bit 6 c) # (c AND 0x3F) # sextets r"

text \<open>What a dearmor context in the given position makes of a sequence of six-bit groups.\<close>

inductive decodes :: "nat \<Rightarrow> u8 \<Rightarrow> u8 list \<Rightarrow> bytes \<Rightarrow> bool" where
  decodes_end: "decodes k l [] []"
| decodes_0: "decodes 1 y xs bs \<Longrightarrow> decodes 0 l (x # y # xs) ((push_bit 2 x + drop_bit 4 y) # bs)"
| decodes_1: "decodes 2 x xs bs \<Longrightarrow> decodes 1 l (x # xs) ((push_bit 4 (l AND 0xF) + drop_bit 2 x) # bs)"
| decodes_2: "decodes 0 x xs bs \<Longrightarrow> decodes 2 l (x # xs) ((push_bit 6 (l AND 3) + x) # bs)"

inductive_cases decodes_Nil: "decodes k l xs []"
inductive_cases decodes_0_Cons: "decodes 0 l xs (b # bs)"
inductive_cases decodes_1_Cons: "decodes 1 l xs (b # bs)"
inductive_cases decodes_2_Cons: "decodes 2 l xs (b # bs)"
inductive_cases decodes_Cons: "decodes k l xs (b # bs)"

text \<open>The octets come back out of their six-bit groups.\<close>

lemma and_masks:
  fixes x :: u8
  shows "x AND 3 = take_bit 2 x" and "x AND 0xF = take_bit 4 x" and "x AND 0x3F = take_bit 6 x"
  by (simp_all add: take_bit_eq_mask mask_eq_exp_minus_1)

lemma join_bits:
  fixes x y :: u8
  shows "take_bit n y = y \<Longrightarrow> push_bit n x + y = push_bit n x OR y"
  by (rule disjunctive_add) (metis bit_push_bit_iff bit_take_bit_iff not_le)

lemma take_bit_drop_bit_u8: "m + n = 8 \<Longrightarrow> take_bit n (drop_bit m (x :: u8)) = drop_bit m x"
  by (rule bit_eqI) (auto simp: bit_simps dest: bit_imp_le_length)

lemma regroup:
  fixes a b c :: u8
  shows "push_bit 2 (drop_bit 2 a) + drop_bit 4 (push_bit 4 (a AND 3) + drop_bit 4 b) = a"
    and "push_bit 4 ((push_bit 4 (a AND 3) + drop_bit 4 b) AND 0xF) +
         drop_bit 2 (push_bit 2 (b AND 0xF) + drop_bit 6 c) = b"
    and "push_bit 6 ((push_bit 2 (b AND 0xF) + drop_bit 6 c) AND 3) + (c AND 0x3F) = c"
proof -
  have j1: "push_bit 4 (take_bit 2 a) + drop_bit 4 b = push_bit 4 (take_bit 2 a) OR drop_bit 4 b"
    and j2: "push_bit 2 (take_bit 4 b) + drop_bit 6 c = push_bit 2 (take_bit 4 b) OR drop_bit 6 c"
    by (simp_all add: join_bits take_bit_drop_bit_u8)
  have d1: "drop_bit 4 (push_bit 4 (take_bit 2 a) OR drop_bit 4 b) = take_bit 2 a"
    and d2: "take_bit 4 (push_bit 4 (take_bit 2 a) OR drop_bit 4 b) = drop_bit 4 b"
    and d3: "drop_bit 2 (push_bit 2 (take_bit 4 b) OR drop_bit 6 c) = take_bit 4 b"
    and d4: "take_bit 2 (push_bit 2 (take_bit 4 b) OR drop_bit 6 c) = drop_bit 6 c"
    by (rule bit_eqI; auto simp: bit_simps dest: bit_imp_le_length)+
  have m: "push_bit 2 (drop_bit 2 a) + take_bit 2 a = a" "push_bit 4 (drop_bit 4 b) + take_bit 4 b = b"
    "push_bit 6 (drop_bit 6 c) + take_bit 6 c = c"
    by (simp_all add: bits_ident)
  show "push_bit 2 (drop_bit 2 a) + drop_bit 4 (push_bit 4 (a AND 3) + drop_bit 4 b) = a"
    by (simp only: and_masks j1 d1 m)
  show "push_bit 4 ((push_bit 4 (a AND 3) + drop_bit 4 b) AND 0xF) +
         drop_bit 2 (push_bit 2 (b AND 0xF) + drop_bit 6 c) = b"
    by (simp only: and_masks j1 j2 d2 d3 m)
  show "push_bit 6 ((push_bit 2 (b AND 0xF) + drop_bit 6 c) AND 3) + (c AND 0x3F) = c"
    by (simp only: and_masks j2 d4 m)
qed

lemma decodes_sextets: "decodes 0 l (sextets bs) bs"
proof (induction bs arbitrary: l rule: sextets.induct)
  case 1
  then show ?case by (simp add: decodes_end)
next
  case (2 a)
  from decodes_0 [OF decodes_end [of 1 "push_bit 4 (a AND 3)"], of l "drop_bit 2 a"]
  show ?case using regroup(1) [of a 0] by simp
next
  case (3 a b)
  let ?y = "push_bit 4 (a AND 3) + drop_bit 4 b" and ?z = "push_bit 2 (b AND 0xF)"
  from decodes_0 [OF decodes_1 [OF decodes_end [of 2 ?z], of ?y], of l "drop_bit 2 a"]
  show ?case using regroup(1) [of a b] regroup(2) [of a b 0] by simp
next
  case (4 a b c r)
  let ?y = "push_bit 4 (a AND 3) + drop_bit 4 b" and ?z = "push_bit 2 (b AND 0xF) + drop_bit 6 c"
  from decodes_0 [OF decodes_1 [OF decodes_2 [OF 4 [of "c AND 0x3F"], of ?z], of ?y], of l "drop_bit 2 a"]
  show ?case using regroup [of a b] regroup(2,3) [where b = b and c = c] by simp
qed

lemma take_bit_6_less: "take_bit 6 (x :: u8) = x \<Longrightarrow> x < 64"
  using take_bit_nat_less_exp [of 6 "unat x"]
  by (simp add: word_less_nat_alt unsigned_take_bit_eq [symmetric])

lemma sextet_bounds:
  fixes a b c :: u8
  shows "drop_bit 2 a < 64" and "push_bit 4 (a AND 3) + drop_bit 4 b < 64"
    and "push_bit 2 (b AND 0xF) + drop_bit 6 c < 64" and "c AND 0x3F < 64"
proof -
  have "push_bit 4 (take_bit 2 a) + drop_bit 4 b = push_bit 4 (take_bit 2 a) OR drop_bit 4 b"
    and "push_bit 2 (take_bit 4 b) + drop_bit 6 c = push_bit 2 (take_bit 4 b) OR drop_bit 6 c"
    by (simp_all add: join_bits take_bit_drop_bit_u8)
  note j = this
  show "drop_bit 2 a < 64" "c AND 0x3F < 64"
    by (rule take_bit_6_less; simp add: take_bit_drop_bit_u8 and_masks)+
  show "push_bit 4 (a AND 3) + drop_bit 4 b < 64" "push_bit 2 (b AND 0xF) + drop_bit 6 c < 64"
    unfolding and_masks j
    by (rule take_bit_6_less, rule bit_eqI, auto simp: bit_simps dest: bit_imp_le_length)+
qed

lemma sextets_less: "\<forall>x \<in> set (sextets bs). x < 64"
proof (induction bs rule: sextets.induct)
  case (2 a)
  show ?case using sextet_bounds(1) [of a] sextet_bounds(2) [of a 0] by simp
next
  case (3 a b)
  show ?case using sextet_bounds(1) [of a] sextet_bounds(2) [of a b] sextet_bounds(3) [of b 0] by simp
next
  case (4 a b c r)
  then show ?case using sextet_bounds(1) [of a] sextet_bounds(2) [of a b] sextet_bounds(3) [of b c]
      sextet_bounds(4) [of c] by simp
qed simp

section \<open>The armored text\<close>

text \<open>The characters a dearmor context does not skip, as six-bit groups (64 ends the data).\<close>

definition digits_of :: "bytes \<Rightarrow> u8 list" where
  "digits_of cs = filter (\<lambda>x. x \<noteq> 65) (map decode64 cs)"

lemma digits_of_append [simp]: "digits_of (xs @ ys) = digits_of xs @ digits_of ys"
  by (simp add: digits_of_def)

lemma digits_of_encode: "x < 64 \<Longrightarrow> digits_of (encode64 x # cs) = x # digits_of cs"
  by (auto simp: digits_of_def decode64_encode64)

lemma digits_of_special [simp]:
  "digits_of [] = []" "digits_of (10 # cs) = digits_of cs" "digits_of (61 # cs) = 64 # digits_of cs"
  by (simp_all add: digits_of_def decode64_def)

text \<open>All the characters the armoring writer outputs for a byte string.\<close>

definition armor_chars :: "armor_context \<Rightarrow> u8 \<Rightarrow> bytes" where
  "armor_chars state c =
     armor_digits state c @ (if octets (armor_next state c) mod ARMOR_WIDTH = 0 then [10] else [])"

fun armor_text :: "armor_context \<Rightarrow> bytes \<Rightarrow> bytes" where
  "armor_text state [] = []"
| "armor_text state (c # cs) = armor_chars state c @ armor_text (armor_next state c) cs"

definition armor_tail :: "armor_context \<Rightarrow> bytes" where
  "armor_tail state = armor_pad state @ (if armor_pad state \<noteq> [] \<or>
      (octets state + length (armor_pad state)) mod ARMOR_WIDTH \<noteq> 0 then [10] else []) @
     armor_crc (crc24 state)"

lemma digits_of_crc: "\<exists>r. digits_of (armor_crc crc) = 64 # r"
  by (simp add: armor_crc_def Let_def)

lemma digits_of_armor_chars: "digits_of (armor_chars state c) = digits_of (armor_digits state c)"
  by (simp add: armor_chars_def)

lemma armor_next_fields [simp]:
  "curoctet (armor_next state c) = (curoctet state + 1) mod 3" "lastoctet (armor_next state c) = c"
  "crc24 (armor_next state c) = crc24_octet (crc24 state) c"
  "octets (armor_next state c) = octets state + length (armor_digits state c)"
  by (simp_all add: armor_next_def)

lemma armor_text_digits:
  "curoctet state = 0 \<Longrightarrow>
   \<exists>r. digits_of (armor_text state bs @ armor_tail (foldl armor_next state bs)) = sextets bs @ 64 # r"
proof (induction bs arbitrary: state rule: sextets.induct)
  case 1
  then show ?case
    using digits_of_crc [of "crc24 state"] by (auto simp: armor_tail_def armor_pad_def)
next
  case (2 a)
  then show ?case
    using sextet_bounds(1) [of a] sextet_bounds(2) [of a 0]
    by (simp add: digits_of_armor_chars armor_digits_def armor_tail_def armor_pad_def
        digits_of_encode)
next
  case (3 a b)
  then show ?case
    using sextet_bounds(1) [of a] sextet_bounds(2) [of a b] sextet_bounds(3) [of b 0]
    by (simp add: digits_of_armor_chars armor_digits_def armor_tail_def armor_pad_def
        digits_of_encode)
next
  case (4 a b c r)
  let ?st = "armor_next (armor_next (armor_next state a) b) c"
  have "curoctet ?st = 0" using 4(2) by simp
  from 4(1) [OF this] 4(2) show ?case
    using sextet_bounds(1) [of a] sextet_bounds(2) [of a b] sextet_bounds(3) [of b c]
      sextet_bounds(4) [of c]
    by (simp add: digits_of_armor_chars armor_digits_def digits_of_encode)
qed

lemma length_armor_text: "length (armor_text state bs) \<le> 3 * length bs"
proof (induction bs arbitrary: state)
  case (Cons c cs)
  have "length (armor_chars state c) \<le> 3" by (simp add: armor_chars_def armor_digits_def)
  with Cons [of "armor_next state c"] show ?case by simp
qed simp

lemma armor_text_append: "armor_text state (xs @ ys) = armor_text state xs @ armor_text (foldl armor_next state xs) ys"
  by (induction xs arbitrary: state) auto

text \<open>The checksum keeps to 24 bits, so that the shifts of the \<open>long\<close> never overflow.\<close>

lemma take_bit_less_u64: "take_bit 24 x = x \<longleftrightarrow> x < (2 :: u64) ^ 24"
proof -
  have "take_bit 24 x = x \<longleftrightarrow> unat (take_bit 24 x) = unat x" by (simp only: word_unat_eq_iff)
  also have "\<dots> \<longleftrightarrow> unat x < 2 ^ 24" by (simp only: unsigned_take_bit_eq take_bit_nat_eq_self_iff)
  finally show ?thesis by (simp add: word_less_nat_alt)
qed

lemma crc24_bit_bound: "crc < 2 ^ 24 \<Longrightarrow> crc24_bit crc < 2 ^ 24"
proof -
  assume "crc < 2 ^ 24"
  then have t: "take_bit 24 crc = crc" by (simp add: take_bit_less_u64)
  let ?x = "push_bit 1 crc"
  have x: "bit ?x i \<Longrightarrow> i \<le> 24" for i
  proof -
    assume "bit ?x i"
    then have "bit (take_bit 24 crc) (i - 1)" unfolding t bit_push_bit_iff by simp
    then show "i \<le> 24" unfolding bit_take_bit_iff by linarith
  qed
  have p: "bit (0x1864cfb :: u64) i \<Longrightarrow> i \<le> 24" for i
  proof -
    assume "bit (0x1864cfb :: u64) i"
    then have "bit (take_bit 25 (0x1864cfb :: u64)) i" by simp
    then show "i \<le> 24" unfolding bit_take_bit_iff by linarith
  qed
  have h: "?x AND 0x1000000 \<noteq> 0 \<longleftrightarrow> bit ?x 24"
    by (simp add: bit_iff_and_push_bit_not_eq_0)
  have "bit (crc24_bit crc) i \<Longrightarrow> i < 24" for i
    using x p h by (cases "i = 24") (auto simp: crc24_bit_def Let_def bit_simps le_less split: if_splits)
  then have "take_bit 24 (crc24_bit crc) = crc24_bit crc"
    by (intro bit_eqI) (auto simp: bit_simps)
  then show ?thesis by (simp add: take_bit_less_u64)
qed

lemma crc24_octet_bound: "crc < 2 ^ 24 \<Longrightarrow> crc24_octet crc c < 2 ^ 24"
proof -
  assume "crc < 2 ^ 24"
  then have "take_bit 24 crc = crc" by (simp add: take_bit_less_u64)
  moreover have "take_bit 24 (push_bit 16 (ucast c)) = (push_bit 16 (ucast c) :: u64)"
    by (rule bit_eqI) (auto simp: bit_simps dest: bit_imp_le_length)
  ultimately have "take_bit 24 (crc XOR push_bit 16 (ucast c)) = crc XOR push_bit 16 (ucast c)"
    by (simp only: take_bit_xor)
  then have "crc XOR push_bit 16 (ucast c) < 2 ^ 24" by (simp only: take_bit_less_u64)
  then have "(crc24_bit ^^ n) (crc XOR push_bit 16 (ucast c)) < 2 ^ 24" for n
    by (induction n) (auto dest!: crc24_bit_bound [simplified])
  then show ?thesis by (simp only: crc24_octet_def)
qed

section \<open>The armoring writer is a byte sink again\<close>

text \<open>\<open>pre\<close> is what the underlying writer had taken before the armored data.\<close>

definition armor_holds ::
    "('s \<Rightarrow> bytes \<Rightarrow> bool) \<Rightarrow> bytes \<Rightarrow> armor_context \<times> 's \<Rightarrow> bytes \<Rightarrow> bool" where
  "armor_holds holds pre ctx xs \<longleftrightarrow>
     fst ctx = foldl armor_next armor_init xs \<and> holds (snd ctx) (pre @ armor_text armor_init xs)"

locale armored_sink = byte_sink +
  fixes pre :: bytes
begin

lemma armor_putchar_int_holds:
  assumes "armor_holds holds pre ctx xs" and "length pre + 3 * (length xs + 1) \<le> capacity"
  shows "\<exists>ctx'. armor_putchar_int put ctx c = Some ctx' \<and> armor_holds holds pre ctx' (xs @ [c])"
proof -
  let ?st = "foldl armor_next armor_init xs" and ?out = "pre @ armor_text armor_init xs"
  obtain s where ctx: "ctx = (?st, s)" and h: "holds s ?out"
    using assms(1) by (cases ctx) (auto simp: armor_holds_def)
  have len: "length ?out + length (armor_chars ?st c) \<le> capacity"
    using assms(2) length_armor_text [of armor_init "xs @ [c]"] by (simp add: armor_text_append)
  then have "length ?out + length (armor_digits ?st c) \<le> capacity"
    by (simp add: armor_chars_def)
  from put_octets_holds [OF h this]
  obtain s1 where s1: "put_octets put (armor_digits ?st c) s = Some s1"
    "holds s1 (?out @ armor_digits ?st c)" by blast
  show ?thesis
  proof (cases "octets (armor_next ?st c) mod ARMOR_WIDTH = 0")
    case True
    then obtain s2 where "put s1 [10] = Some s2" "holds s2 ((?out @ armor_digits ?st c) @ [10])"
      using put_holds [OF s1(2), of "[10]"] len by (auto simp: armor_chars_def)
    then show ?thesis using True s1(1)
      by (simp add: armor_putchar_int_def ctx armor_holds_def armor_text_append armor_chars_def)
  next
    case False
    then show ?thesis using s1
      by (simp add: armor_putchar_int_def ctx armor_holds_def armor_text_append armor_chars_def)
  qed
qed

lemma armor_putchar_holds:
  "armor_holds holds pre ctx xs \<Longrightarrow> length xs + length ys \<le> (capacity - length pre) div 3 \<Longrightarrow>
   \<exists>ctx'. armor_putchar put ctx ys = Some ctx' \<and> armor_holds holds pre ctx' (xs @ ys)"
proof (induction ys arbitrary: ctx xs)
  case (Cons c cs)
  obtain ctx1 where "armor_putchar_int put ctx c = Some ctx1" "armor_holds holds pre ctx1 (xs @ [c])"
    using armor_putchar_int_holds [OF Cons.prems(1)] Cons.prems(2) by force
  then show ?case using Cons.IH [of ctx1 "xs @ [c]"] Cons.prems(2) by simp
qed simp

lemma armor_finish_holds:
  assumes "holds s xs" and "length xs + length (armor_tail state) \<le> capacity"
  shows "\<exists>s'. armor_finish put (state, s) = Some s' \<and> holds s' (xs @ armor_tail state)"
proof -
  let ?p = "armor_pad state" and ?crc = "armor_crc (crc24 state)"
  let ?c = "(octets state + length ?p) mod ARMOR_WIDTH"
  from put_octets_holds [OF assms(1), of ?p] assms(2)
  obtain s1 where s1: "put_octets put ?p s = Some s1" "holds s1 (xs @ ?p)"
    by (auto simp: armor_tail_def)
  show ?thesis
  proof (cases "?p \<noteq> [] \<or> ?c \<noteq> 0")
    case True
    obtain s2 where s2: "put s1 [10] = Some s2" "holds s2 ((xs @ ?p) @ [10])"
      using put_holds [OF s1(2), of "[10]"] assms(2) True by (auto simp: armor_tail_def)
    obtain s3 where "put_octets put ?crc s2 = Some s3" "holds s3 (((xs @ ?p) @ [10]) @ ?crc)"
      using put_octets_holds [OF s2(2), of ?crc] assms(2) True by (auto simp: armor_tail_def)
    then show ?thesis using s1(1) s2(1) True
      by (cases "?c = 0") (simp_all add: armor_finish_def armor_tail_def Let_def)
  next
    case False
    obtain s3 where "put_octets put ?crc s1 = Some s3" "holds s3 ((xs @ ?p) @ ?crc)"
      using put_octets_holds [OF s1(2), of ?crc] assms(2) False by (auto simp: armor_tail_def)
    then show ?thesis using s1(1) False by (auto simp: armor_finish_def armor_tail_def Let_def)
  qed
qed

end

sublocale armored_sink \<subseteq> armored: byte_sink "armor_putchar put" "armor_holds holds pre"
    "(capacity - length pre) div 3"
  by unfold_locales (rule armor_putchar_holds)

text \<open>The whole armored file for a packet list.\<close>

definition armored_file :: "bytes \<Rightarrow> bytes" where
  "armored_file bs = armor_header @ armor_text armor_init bs @
     armor_tail (foldl armor_next armor_init bs) @ armor_footer"

context armored_sink
begin

lemma armor_stream_holds:
  assumes "holds s xs" and "pre = xs @ armor_header"
    and "\<forall>p \<in> set ps. newformat p \<longrightarrow> plength p < 0xFFFFFFFF"
    and "length xs + 3 * length (stream_encoding ps) + 100 \<le> capacity"
  shows "\<exists>s'. armor_openpgp_stream put s ps = Some s' \<and>
           holds s' (xs @ armored_file (stream_encoding ps))"
proof -
  let ?bs = "stream_encoding ps" and ?st = "foldl armor_next armor_init (stream_encoding ps)"
  have lens: "length armor_header = 38" "length armor_footer = 35" "length (armor_tail st) \<le> 10" for st
    by (simp_all add: armor_header_def armor_footer_def armor_tail_def armor_pad_def armor_crc_def Let_def)
  obtain s1 where s1: "put s armor_header = Some s1" "holds s1 pre"
    using put_holds [OF assms(1), of armor_header] assms(2,4) lens by auto
  then have "armor_holds holds pre (armor_init, s1) []" by (simp add: armor_holds_def)
  from armored.write_stream_holds [OF this assms(3)] assms(2,4) lens
  obtain s2 where s2: "write_openpgp_stream (armor_putchar put) (armor_init, s1) ps =
      Some (ONAK_E_OK, (?st, s2))" "holds s2 (pre @ armor_text armor_init ?bs)"
    by (fastforce simp: armor_holds_def)
  have len: "length (pre @ armor_text armor_init ?bs) + 10 + 35 \<le> capacity"
    using length_armor_text [of armor_init ?bs] assms(2,4) lens by simp
  then obtain s3 where s3: "armor_finish put (?st, s2) = Some s3"
      "holds s3 ((pre @ armor_text armor_init ?bs) @ armor_tail ?st)"
    using armor_finish_holds [OF s2(2), of ?st] lens(3) [of ?st] by fastforce
  then obtain s4 where "put s3 armor_footer = Some s4" "holds s4
      (((pre @ armor_text armor_init ?bs) @ armor_tail ?st) @ armor_footer)"
    using put_holds [OF s3(2), of armor_footer] len lens(2) lens(3) [of ?st] by fastforce
  with s1 s2(1) s3(1) show ?thesis
    by (simp add: armor_openpgp_stream_def armored_file_def assms(2))
qed

end

section \<open>The dearmoring reader is a byte source again\<close>

text \<open>
  A dearmor context delivers what its position makes of the six-bit groups before the first
  \<open>=\<close> or \<open>-\<close>; other characters are skipped.
\<close>

definition dearmor_delivers ::
    "('s \<Rightarrow> bytes \<Rightarrow> bool) \<Rightarrow> armor_context \<times> 's \<Rightarrow> bytes \<Rightarrow> bool" where
  "dearmor_delivers delivers ctx bs \<longleftrightarrow>
     (\<exists>chars xs r. delivers (snd ctx) chars \<and> digits_of chars = xs @ 64 # r \<and>
        (\<forall>x \<in> set xs. x < 64) \<and> decodes (curoctet (fst ctx)) (lastoctet (fst ctx)) xs bs)"

locale armored_source = byte_source
begin

lemma next_digit_full:
  "delivers s chars \<Longrightarrow> digits_of chars = x # r \<Longrightarrow>
   \<exists>s' chars'. next_digit getc 65 s = Some (x, s') \<and> delivers s' chars' \<and> digits_of chars' = r"
proof (induction chars arbitrary: s)
  case Nil
  then show ?case by simp
next
  case (Cons c cs)
  obtain s1 where s1: "getc s 1 = Some ([c], s1)" "delivers s1 cs"
    using get_full [of s "[c]" cs] Cons.prems(1) by auto
  show ?case
  proof (cases "decode64 c = 65")
    case True
    then have "digits_of cs = x # r" using Cons.prems(2) by (simp add: digits_of_def)
    with Cons.IH [OF s1(2)] s1(1) True show ?thesis
      by (subst next_digit.simps) simp
  next
    case False
    then have "x = decode64 c" "digits_of cs = r" using Cons.prems(2) by (auto simp: digits_of_def)
    moreover have "next_digit getc (decode64 c) s1 = Some (decode64 c, s1)"
      using False by (subst next_digit.simps) simp
    ultimately show ?thesis
      using s1 by (subst next_digit.simps) auto
  qed
qed

lemma dearmor_deliversI:
  "delivers s chars \<Longrightarrow> digits_of chars = xs @ 64 # r \<Longrightarrow> \<forall>x \<in> set xs. x < 64 \<Longrightarrow>
   decodes (curoctet st) (lastoctet st) xs bs \<Longrightarrow> dearmor_delivers delivers (st, s) bs"
  unfolding dearmor_delivers_def by auto

lemma dearmor_getchar_full:
  assumes "dearmor_delivers delivers ctx (b # bs)"
  shows "\<exists>ctx'. dearmor_getchar getc ctx = Some (False, b, ctx') \<and> dearmor_delivers delivers ctx' bs"
proof -
  obtain st s where ctx: "ctx = (st, s)" by (cases ctx)
  obtain chars xs r where d: "delivers s chars" "digits_of chars = xs @ 64 # r"
    and lt: "\<forall>x \<in> set xs. x < 64" and dec: "decodes (curoctet st) (lastoctet st) xs (b # bs)"
    using assms by (auto simp: dearmor_delivers_def ctx)
  from dec show ?thesis
  proof cases
    case (decodes_0 y zs x)
    have x: "x \<noteq> 64" "y \<noteq> 64" using lt decodes_0 by auto
    obtain s1 c1 where s1: "next_digit getc 65 s = Some (x, s1)" "delivers s1 c1"
      "digits_of c1 = y # zs @ 64 # r"
      using next_digit_full [OF d(1), of x "y # zs @ 64 # r"] d(2) decodes_0 by auto
    obtain s2 c2 where s2: "next_digit getc 65 s1 = Some (y, s2)" "delivers s2 c2"
      "digits_of c2 = zs @ 64 # r"
      using next_digit_full [OF s1(2,3)] by auto
    then show ?thesis using s1(1) x decodes_0 lt
      by (simp add: dearmor_getchar_def ctx dearmor_deliversI)
  next
    case (decodes_1 x zs)
    have x: "x \<noteq> 64" using lt decodes_1 by auto
    obtain s1 c1 where s1: "next_digit getc 65 s = Some (x, s1)" "delivers s1 c1"
      "digits_of c1 = zs @ 64 # r"
      using next_digit_full [OF d(1), of x "zs @ 64 # r"] d(2) decodes_1 by auto
    then show ?thesis using x decodes_1 lt
      by (simp add: dearmor_getchar_def ctx dearmor_deliversI numeral_2_eq_2)
  next
    case (decodes_2 x zs)
    have x: "x \<noteq> 64" using lt decodes_2 by auto
    obtain s1 c1 where s1: "next_digit getc 65 s = Some (x, s1)" "delivers s1 c1"
      "digits_of c1 = zs @ 64 # r"
      using next_digit_full [OF d(1), of x "zs @ 64 # r"] d(2) decodes_2 by auto
    then show ?thesis using x decodes_2 lt
      by (simp add: dearmor_getchar_def ctx dearmor_deliversI)
  qed
qed

lemma dearmor_getchar_end:
  assumes "dearmor_delivers delivers ctx []"
  shows "\<exists>ctx'. dearmor_getchar getc ctx = Some (True, 0, ctx')"
proof -
  obtain st s where ctx: "ctx = (st, s)" by (cases ctx)
  obtain chars r where d: "delivers s chars" "digits_of chars = 64 # r"
    using assms by (auto simp: dearmor_delivers_def ctx elim: decodes_Nil)
  from next_digit_full [OF this] show ?thesis by (auto simp: dearmor_getchar_def ctx)
qed

lemma dearmor_octets_full:
  "dearmor_delivers delivers ctx (xs @ ys) \<Longrightarrow>
   \<exists>ctx'. dearmor_octets getc (length xs) ctx = Some (False, xs, ctx') \<and> dearmor_delivers delivers ctx' ys"
proof (induction xs arbitrary: ctx)
  case (Cons x xs)
  obtain ctx1 where "dearmor_getchar getc ctx = Some (False, x, ctx1)"
    "dearmor_delivers delivers ctx1 (xs @ ys)"
    using dearmor_getchar_full [of ctx x "xs @ ys"] Cons.prems by auto
  with Cons.IH [of ctx1] show ?case by auto
qed simp

lemma dearmor_octets_short:
  "dearmor_delivers delivers ctx xs \<Longrightarrow> length xs < n \<Longrightarrow>
   \<exists>cs ctx'. dearmor_octets getc n ctx = Some (True, cs, ctx')"
proof (induction n arbitrary: ctx xs)
  case (Suc n)
  show ?case
  proof (cases xs)
    case Nil
    then show ?thesis using dearmor_getchar_end [of ctx] Suc.prems by auto
  next
    case (Cons b bs)
    then show ?thesis using dearmor_getchar_full [of ctx b bs] Suc.prems Suc.IH [of _ bs] by fastforce
  qed
qed simp

end

sublocale armored_source \<subseteq> dearmored: byte_source "dearmor_getchar_c getc" "dearmor_delivers delivers"
proof
  fix s xs ys
  assume "dearmor_delivers delivers s (xs @ ys)"
  from dearmor_octets_full [OF this]
  show "\<exists>s'. dearmor_getchar_c getc s (length xs) = Some (xs, s') \<and> dearmor_delivers delivers s' ys"
    by (auto simp: dearmor_getchar_c_def)
next
  fix s xs and n :: nat
  assume "dearmor_delivers delivers s xs" "length xs < n"
  from dearmor_octets_short [OF this] this(2)
  show "\<exists>ys s'. dearmor_getchar_c getc s n = Some (ys, s') \<and> length ys < n"
    by (fastforce simp: dearmor_getchar_c_def)
qed

text \<open>The scan for the header stops after the blank line.\<close>

context byte_source
begin

lemma find_header_run:
  "delivers s (cs @ ys) \<Longrightarrow> \<forall>k < length cs. fst (foldl header_step st (take k cs)) \<noteq> 4 \<Longrightarrow>
   \<exists>s'. find_header getc st s = find_header getc (foldl header_step st cs) s' \<and> delivers s' ys"
proof (induction cs arbitrary: st s)
  case (Cons c cs)
  obtain s1 where s1: "read_char getc s = Some (Some c, s1)" "delivers s1 (cs @ ys)"
    using read_char_full [of s c "cs @ ys"] Cons.prems(1) by auto
  have "fst st \<noteq> 4" using Cons.prems(2) [rule_format, of 0] by simp
  then have "find_header getc st s = find_header getc (header_step st c) s1"
    using s1(1) by (subst find_header.simps) simp
  moreover have "\<forall>k < length cs. fst (foldl header_step (header_step st c) (take k cs)) \<noteq> 4"
    using Cons.prems(2) [rule_format, of "Suc k" for k] by auto
  ultimately show ?case using Cons.IH [OF s1(2), of "header_step st c"] by auto
qed auto

end

lemma header_step_armor_header:
  "\<forall>k < length armor_header. fst (foldl header_step (1, 0) (take k armor_header)) \<noteq> 4"
  "foldl header_step (1, 0) armor_header = (4, 2)"
proof -
  have "list_all (\<lambda>k. fst (foldl header_step (1, 0) (take k armor_header)) \<noteq> 4) [0..<length armor_header]"
    by code_simp
  then show "\<forall>k < length armor_header. fst (foldl header_step (1, 0) (take k armor_header)) \<noteq> 4"
    by (simp add: list_all_iff)
  show "foldl header_step (1, 0) armor_header = (4, 2)" by code_simp
qed

context armored_source
begin

lemma dearmor_stream_full:
  assumes "delivers s (armored_file (stream_encoding ps))"
    and "\<forall>p \<in> set ps. packet_wf p \<and> mal (plength p)"
  shows "\<exists>s'. dearmor_openpgp_stream mal getc s acc = Some (acc @ ps, s')"
proof -
  let ?bs = "stream_encoding ps"
  let ?body = "armor_text armor_init ?bs @ armor_tail (foldl armor_next armor_init ?bs)"
  obtain s1 where s1: "find_header getc (1, 0) s = find_header getc (4, 2) s1"
      "delivers s1 (?body @ armor_footer)"
    using find_header_run [OF _ header_step_armor_header(1), of s "?body @ armor_footer"]
      header_step_armor_header(2) assms(1) by (auto simp: armored_file_def)
  have "find_header getc (1, 0) s = Some (4, s1)"
    unfolding s1(1) by (subst find_header.simps) simp
  moreover obtain r where "digits_of ?body = sextets ?bs @ 64 # r"
    using armor_text_digits [of armor_init ?bs] by (auto simp: armor_init_def)
  then have "dearmor_delivers delivers (armor_init, s1) ?bs"
    using s1(2) sextets_less [of ?bs] decodes_sextets [of 0 ?bs]
    by (intro dearmor_deliversI [of _ "?body @ armor_footer" "sextets ?bs" "r @ digits_of armor_footer"])
       (simp_all add: armor_init_def)
  from dearmored.read_stream_full [OF this assms(2), of acc]
  obtain ctx where "read_openpgp_stream mal (dearmor_getchar_c getc) (armor_init, s1) acc 0 =
    Some (ONAK_E_OK, acc @ ps, ctx)" by blast
  ultimately show ?thesis by (simp add: dearmor_openpgp_stream_def)
qed

end

interpretation buf_armor: armored_sink buffer_putchar buffer_holds "2 ^ 63" armor_header
  by unfold_locales

interpretation buf_dearmor: armored_source buffer_fetchchar buffer_delivers
  by unfold_locales

section \<open>Properties\<close>

lemma buffer_contents_bound: "buffer_ok buf \<Longrightarrow> length (buffer_contents buf) < 2 ^ 64"
  by (simp add: buffer_contents_def buffer_ok_def)

text \<open>At the end of the input \<open>getchar_func\<close> stores nothing, and \<open>tmpc\<close> is still 65, an \<open>A\<close>.\<close>

lemma buffer_fetch_end: "buffer_delivers s [] \<Longrightarrow> buffer_fetchchar s 1 = Some ([], s)"
  by (auto simp: buffer_delivers_def buffer_ok_def buffer_fetchchar_def buffer_read_def Let_def)

lemma next_digit_end: "buffer_delivers s [] \<Longrightarrow> next_digit buffer_fetchchar 65 s = Some (0, s)"
proof -
  assume "buffer_delivers s []"
  moreover have "next_digit buffer_fetchchar 0 s = Some (0, s)" by (subst next_digit.simps) simp
  ultimately show ?thesis
    using buffer_fetch_end [of s] by (subst next_digit.simps) (simp add: decode64_def)
qed

lemma dearmor_octets_end:
  "buffer_delivers s [] \<Longrightarrow> curoctet st < 3 \<Longrightarrow> curoctet st = 0 \<or> lastoctet st = 0 \<Longrightarrow>
   \<exists>st'. dearmor_octets buffer_fetchchar n (st, s) = Some (False, replicate n 0, (st', s))"
proof (induction n arbitrary: st)
  case (Suc n)
  let ?st' = "\<lparr>lastoctet = 0, curoctet = (curoctet st + 1) mod 3, octets = octets st + 1,
    crc24 = crc24_octet (crc24 st) 0\<rparr>"
  have "dearmor_getchar buffer_fetchchar (st, s) = Some (False, 0, (?st', s))"
    using next_digit_end [OF Suc.prems(1)] Suc.prems(2,3) by (auto simp: dearmor_getchar_def)
  with Suc.IH [of ?st'] Suc.prems(1) show ?case by auto
qed simp

lemma armor_dearmor_packets:
  assumes "\<forall>p \<in> set ps. packet_wf p \<and> mal (plength p)" and "length (stream_encoding ps) < 2 ^ 30"
  shows "\<exists>buf. armor_openpgp_stream buffer_putchar (empty_buffer 1024) ps = Some buf \<and>
     (\<exists>s'. dearmor_openpgp_stream mal buffer_fetchchar (init_buffer (buffer_contents buf)) [] =
             Some (ps, s'))"
proof -
  have "\<forall>p \<in> set ps. newformat p \<longrightarrow> plength p < 0xFFFFFFFF"
    using assms(1) by (auto simp: packet_wf_def packet_writable_def)
  then obtain buf where buf: "armor_openpgp_stream buffer_putchar (empty_buffer 1024) ps = Some buf"
      "buffer_holds buf (armored_file (stream_encoding ps))"
    using buf_armor.armor_stream_holds [of "empty_buffer 1024" "[]" ps] assms(2)
      empty_buffer_holds [of 1024] by auto
  have "length (buffer_contents buf) < 2 ^ 64"
    using buf(2) by (intro buffer_contents_bound) (simp add: buffer_holds_def)
  then have "buffer_delivers (init_buffer (buffer_contents buf)) (armored_file (stream_encoding ps))"
    using init_buffer_delivers [of "buffer_contents buf"] by (simp add: buffer_holds_contents [OF buf(2)])
  from buf_dearmor.dearmor_stream_full [OF this assms(1), of "[]"] buf(1) show ?thesis by auto
qed

text \<open>
  C5. Round trip of the ASCII armor. Armoring any list of well-formed packets into a growing
  buffer and dearmoring the text finds the armor header and returns exactly these packets,
  and nothing else is taken from the padding, the checksum line or the footer. The bound on
  the size keeps the character count of the armor context inside its \<open>int\<close>.
\<close>

theorem armor_dearmor_roundtrip:
  assumes "\<forall>p \<in> set ps. packet_wf p \<and> mal (plength p)" and "length (stream_encoding ps) < 2 ^ 30"
  shows "\<exists>buf. armor_openpgp_stream buffer_putchar (empty_buffer 1024) ps = Some buf \<and>
     (\<exists>s'. dearmor_openpgp_stream mal buffer_fetchchar (init_buffer (buffer_contents buf)) [] =
             Some (ps, s'))"
  using assms by (rule armor_dearmor_packets)

theorem armor_dearmor_roundtrip_witness:
  "\<exists>buf. armor_openpgp_stream buffer_putchar (empty_buffer 1024) [sample_packet] = Some buf \<and>
     (\<exists>s'. dearmor_openpgp_stream (\<lambda>_. True) buffer_fetchchar (init_buffer (buffer_contents buf)) [] =
             Some ([sample_packet], s'))"
proof (rule armor_dearmor_roundtrip)
  show "\<forall>p \<in> set [sample_packet]. packet_wf p \<and> True"
    by (simp add: sample_packet_wf)
  show "length (stream_encoding [sample_packet]) < 2 ^ 30"
    by (simp add: packet_encoding_def length_octets_def sample_packet_def plength_def)
qed

text \<open>
  A truncated armored text does not end. When the input of the dearmoring reader is
  exhausted at an octet boundary (no \<open>=\<close>, \<open>-\<close> seen), every further request for \<open>n\<close> octets is
  answered in full, with \<open>n\<close> zero octets: the result of \<open>getchar_func\<close> is not looked at, and
  the sentinel 65 left in \<open>tmpc\<close> is itself decoded as the letter \<open>A\<close>. The packet reader above
  never learns of the end of the data.
\<close>

theorem dearmor_truncated_reads_zeros:
  assumes "buffer_delivers s []" and "curoctet st = 0"
  shows "\<exists>ctx. dearmor_getchar_c buffer_fetchchar (st, s) n = Some (replicate n 0, ctx)"
  using dearmor_octets_end [OF assms(1), of st n] assms(2) by (auto simp: dearmor_getchar_c_def)

theorem dearmor_truncated_reads_zeros_witness:
  "\<exists>ctx. dearmor_getchar_c buffer_fetchchar (armor_init, init_buffer []) 5 = Some (replicate 5 0, ctx)"
proof (rule dearmor_truncated_reads_zeros)
  show "buffer_delivers (init_buffer []) []" by (rule init_buffer_delivers) simp
  show "curoctet armor_init = 0" by (simp add: armor_init_def)
qed

text \<open>
  The running checksum of an armor context keeps to 24 bits, whatever is written, so
  the left shifts of the \<open>long\<close> never overflow, and the four digits of the checksum line
  carry all of it.
\<close>

lemma armor_checksum_24_bits: "crc24 (foldl armor_next armor_init bs) < 2 ^ 24"
proof -
  have "crc24 st < 2 ^ 24 \<Longrightarrow> crc24 (foldl armor_next st bs) < 2 ^ 24" for st
    by (induction bs arbitrary: st) (use crc24_octet_bound in auto)
  then show ?thesis by (simp add: armor_init_def)
qed

end
