(* ===== verification/Key_Db.thy ===== *)
theory Key_Db
  imports Merge Key_Array Armor
begin

text \<open>
  The key database as its clients see it (\<open>keydb.h\<close>), the functions that work for every back end
  (\<open>keydb/keydb.c\<close>) and the mail to the peers (\<open>sendsync.c\<close>).

  \<open>keydb_ops\<close> has the function pointers of \<open>struct onak_dbctx\<close> that \<open>keydb.c\<close> calls; \<open>'d\<close> is the
  state of the back end. A fetch adds the keys it finds to the caller's list and returns their
  number; it does not change what is stored. A list of keys linked by \<open>next\<close> is a list; \<open>store_key\<close>
  is given the key and what follows it in its list.
\<close>

type_synonym publickeys = "openpgp_publickey list"

record 'd keydb_ops =
  db_starttrans :: "'d \<Rightarrow> bool \<times> 'd"
  db_endtrans :: "'d \<Rightarrow> 'd"
  db_fetch_key_id :: "'d \<Rightarrow> u64 \<Rightarrow> publickeys \<Rightarrow> bool \<Rightarrow> (int \<times> publickeys) option"
  db_fetch_key_fp :: "'d \<Rightarrow> openpgp_fingerprint \<Rightarrow> publickeys \<Rightarrow> bool \<Rightarrow> (int \<times> publickeys) option"
  db_store_key :: "'d \<Rightarrow> publickeys \<Rightarrow> bool \<Rightarrow> bool \<Rightarrow> (int \<times> 'd) option"

section \<open>The user id of a key\<close>

text \<open>
  \<open>snprintf(buf, 1023, "%.*s", (int) length, data)\<close>: at most 1022 characters, up to a NUL. A length
  of \<open>2 ^ 31\<close> or more is a negative precision, which counts as none.
\<close>

definition uid_buf :: "openpgp_packet \<Rightarrow> bytes option" where
  "uid_buf p = (if plength p \<ge> 2 ^ 31 \<and> 0 \<notin> set (data p) then None
                else Some (take 1022 (takeWhile (\<lambda>c. c \<noteq> 0) (data p))))"

fun first_uid :: "openpgp_signedpacket list \<Rightarrow> bytes option" where
  "first_uid [] = Some []"
| "first_uid (curuid # l) =
     (if tag (sp_packet curuid) = OPENPGP_PACKET_UID then
        do { buf \<leftarrow> uid_buf (sp_packet curuid); if buf = [] then first_uid l else Some buf }
      else first_uid l)"

text \<open>The result is the string, \<open>None\<close> for the null pointer.\<close>

definition generic_keyid2uid :: "'d keydb_ops \<Rightarrow> 'd \<Rightarrow> u64 \<Rightarrow> bytes option option" where
  "generic_keyid2uid ops d keyid =
     do { (n, keys) \<leftarrow> db_fetch_key_id ops d keyid [] False;
          buf \<leftarrow> (if n \<noteq> 0 \<and> keys \<noteq> [] then first_uid (uids (hd keys)) else Some []);
          Some (if buf = [] then None else Some buf) }"

section \<open>Updating keys\<close>

text \<open>
  The loop over the submitted keys. \<open>oldkey\<close> is the variable of that name; the results are the
  keys left in the caller's list, the number of new keys and the state of the back end.
\<close>

fun update_keys_loop :: "hash_funs \<Rightarrow> 'd keydb_ops \<Rightarrow> keyarray option \<Rightarrow> bool \<Rightarrow> publickeys \<Rightarrow> publickeys \<Rightarrow> 'd \<Rightarrow>
    (publickeys \<times> int \<times> 'd) option" where
  "update_keys_loop H ops blacklist updateonly oldkey [] d = Some ([], 0, d)"
| "update_keys_loop H ops blacklist updateonly oldkey (curkey # keys) d =
     do { (_, f) \<leftarrow> get_fingerprint H (publickey curkey);
          blacklisted \<leftarrow> (case blacklist of None \<Rightarrow> Some False | Some arr \<Rightarrow> array_find arr f);
          if blacklisted then update_keys_loop H ops blacklist updateonly oldkey keys d
          else do {
            let (intrans, d) = db_starttrans ops d;
            (ret, oldkey) \<leftarrow> db_fetch_key_fp ops d f oldkey intrans;
            if ret = 0 \<and> updateonly then
              do { (rest, newkeys, d) \<leftarrow>
                     update_keys_loop H ops blacklist updateonly oldkey keys (db_endtrans ops d);
                   Some (curkey # rest, newkeys, d) }
            else case oldkey of
              old # olds \<Rightarrow>
                do { (_, old, curkey) \<leftarrow> merge_keys H old curkey;
                     if sigs curkey = [] \<and> uids curkey = [] \<and> subkeys curkey = [] then
                       update_keys_loop H ops blacklist updateonly [] keys (db_endtrans ops d)
                     else
                       do { (_, d) \<leftarrow> db_store_key ops d (old # olds) intrans True;
                            (rest, newkeys, d) \<leftarrow>
                              update_keys_loop H ops blacklist updateonly [] keys (db_endtrans ops d);
                            Some (curkey # rest, newkeys, d) } }
            | [] \<Rightarrow>
                do { (_, d) \<leftarrow> db_store_key ops d (curkey # keys) intrans False;
                     (rest, newkeys, d) \<leftarrow>
                       update_keys_loop H ops blacklist updateonly [] keys (db_endtrans ops d);
                     Some (curkey # rest, newkeys + 1, d) } } }"

text \<open>The results: the number of new keys, the list of updates, the keys given to \<open>sendkeysync\<close>, the back end.\<close>

definition generic_update_keys :: "hash_funs \<Rightarrow> 'd keydb_ops \<Rightarrow> keyarray option \<Rightarrow> bool \<Rightarrow> bool \<Rightarrow> publickeys \<Rightarrow> 'd \<Rightarrow>
    (int \<times> publickeys \<times> publickeys option \<times> 'd) option" where
  "generic_update_keys H ops blacklist updateonly sendsync keys d =
     do { (keys, newkeys, d) \<leftarrow> update_keys_loop H ops blacklist updateonly [] keys d;
          Some (newkeys, keys, if sendsync \<and> keys \<noteq> [] then Some keys else None, d) }"

section \<open>Fetching by fingerprint\<close>

definition generic_fetch_key_fp ::
    "('d \<Rightarrow> u64 \<Rightarrow> publickeys \<Rightarrow> bool \<Rightarrow> (int \<times> publickeys) option) \<Rightarrow>
     'd \<Rightarrow> openpgp_fingerprint \<Rightarrow> publickeys \<Rightarrow> bool \<Rightarrow> (int \<times> publickeys) option" where
  "generic_fetch_key_fp fetch_id d f keys intrans =
     (if fp_length f > MAX_FINGERPRINT_LEN then Some (0, keys)
      else do { bs \<leftarrow> (if fp_length f = 20 then rds (fp f) 12 8 else rds (fp f) 0 8);
                fetch_id d (be_word bs) keys intrans })"

text \<open>
  \<open>generic_fetch_key\<close> hands over one node of the list it fetched and frees that list, so here the
  keys have addresses: \<open>h\<close> is the heap of key structures, \<open>fetched\<close> the list that
  \<open>fetch_key_fp\<close> returned and \<open>keys\<close> the caller's list. Cutting the list behind the node found
  leaves it the last node of the list that is freed.
\<close>

fun matching_node :: "hash_funs \<Rightarrow> openpgp_fingerprint \<Rightarrow> (nat \<Rightarrow> openpgp_publickey option) \<Rightarrow> nat list \<Rightarrow>
    nat option option" where
  "matching_node H f h [] = Some None"
| "matching_node H f h (a # l) =
     do { k \<leftarrow> h a; (rc, f') \<leftarrow> get_fingerprint H (publickey k);
          if rc = ONAK_E_OK \<and> fingerprint_cmp f f' = 0 then Some (Some a) else matching_node H f h l }"

definition free_nodes :: "(nat \<Rightarrow> openpgp_publickey option) \<Rightarrow> nat list \<Rightarrow> nat \<Rightarrow> openpgp_publickey option" where
  "free_nodes h l = (\<lambda>a. if a \<in> set l then None else h a)"

definition generic_fetch_key :: "hash_funs \<Rightarrow> openpgp_fingerprint \<Rightarrow> (nat \<Rightarrow> openpgp_publickey option) \<Rightarrow>
    nat list \<Rightarrow> nat list \<Rightarrow> (int \<times> nat list \<times> (nat \<Rightarrow> openpgp_publickey option)) option" where
  "generic_fetch_key H f h fetched keys =
     do { found \<leftarrow> matching_node H f h fetched;
          Some (case found of
                  None \<Rightarrow> (0, keys, free_nodes h fetched)
                | Some a \<Rightarrow> (1, keys @ [a], free_nodes h (takeWhile (\<lambda>b. b \<noteq> a) fetched @ [a]))) }"

section \<open>The mail to the peers\<close>

record sync_config =
  syncsites :: "bytes list"
  adminemail :: bytes
  thissite :: bytes

definition ascii :: "string \<Rightarrow> bytes" where
  "ascii = map (\<lambda>c. word_of_nat (of_char c))"

definition fd_putchar :: "bytes writer" where
  "fd_putchar out c = Some (out @ c)"

fun site_list :: "bytes list \<Rightarrow> bytes" where
  "site_list [] = []"
| "site_list [site] = site"
| "site_list (site # sites) = site @ ascii '', '' @ site_list sites"

text \<open>\<open>mta\<close> says whether \<open>popen\<close> succeeds; the result is the return value and the mail.\<close>

definition sendkeysync :: "sync_config \<Rightarrow> bool \<Rightarrow> publickeys \<Rightarrow> (int \<times> bytes) option" where
  "sendkeysync config mta keys =
     (if syncsites config \<noteq> [] \<and> mta then
        do { mail \<leftarrow> armor_openpgp_stream fd_putchar
               (ascii ''From: '' @ adminemail config @ [10] @ ascii ''To: '' @ site_list (syncsites config) @ [10] @
                ascii ''Subject: incremental'' @ [10] @ ascii ''X-Keyserver-Sent: '' @ thissite config @ [10] @
                ascii ''Precedence: list'' @ [10] @ ascii ''MIME-Version: 1.0'' @ [10] @
                ascii ''Content-Type: application/pgp-keys'' @ [10, 10])
               (flatten_publickey keys []);
             Some (1, mail) }
      else Some (0, []))"

section \<open>Keys that can be stored\<close>

text \<open>
  A key that survives being written and read (\<open>key_ok\<close>, packets that can be written and for which
  \<open>malloc\<close> succeeds), whose lists can be merged, and whose fingerprint is known to determine
  its key id.
\<close>

definition version_known :: "hash_funs \<Rightarrow> openpgp_publickey \<Rightarrow> bool" where
  "version_known H k \<longleftrightarrow>
     rd (data (publickey k)) 0 = Some 4 \<or> rd (data (publickey k)) 0 = Some 5 \<and> have_nettle H"

definition key_storable :: "hash_funs \<Rightarrow> (nat \<Rightarrow> bool) \<Rightarrow> openpgp_publickey \<Rightarrow> bool" where
  "key_storable H mal k \<longleftrightarrow> key_ok k \<and> key_mergeable k \<and> version_known H k \<and>
     (\<forall>p \<in> set (key_packets k). packet_wf p \<and> mal (plength p))"

definition key_fp :: "hash_funs \<Rightarrow> openpgp_publickey \<Rightarrow> openpgp_fingerprint" where
  "key_fp H k = snd (the (get_fingerprint H (publickey k)))"

definition key_id :: "hash_funs \<Rightarrow> openpgp_publickey \<Rightarrow> u64" where
  "key_id H k = the (fingerprint2keyid (key_fp H k))"

lemma key_fingerprint:
  assumes "hash_funs_ok H" and "version_known H k"
  shows "get_fingerprint H (publickey k) = Some (ONAK_E_OK, key_fp H k)"
    and "fingerprint_ok (key_fp H k)" and "fp_length (key_fp H k) \<in> {20, 32}"
  using assms by (auto simp: version_known_def key_fp_def get_fingerprint_def hash_funs_ok_def fingerprint_ok_def)

lemma key_keyid:
  assumes "hash_funs_ok H" and "version_known H k"
  shows "get_keyid H k = Some (ONAK_E_OK, Some (key_id H k))"
    and "fingerprint2keyid (key_fp H k) = Some (key_id H k)"
proof -
  have "\<exists>i. fingerprint2keyid (key_fp H k) = Some i"
    using key_fingerprint(2,3) [OF assms] by (auto simp: fingerprint2keyid_def fingerprint_ok_def rds_def)
  then show i: "fingerprint2keyid (key_fp H k) = Some (key_id H k)" by (auto simp: key_id_def)
  show "get_keyid H k = Some (ONAK_E_OK, Some (key_id H k))"
    using key_fingerprint(1) [OF assms] assms(2) i by (auto simp: get_keyid_def get_packetid_def version_known_def)
qed

text \<open>For such keys \<open>generic_fetch_key_fp\<close> computes the key id that \<open>fingerprint2keyid\<close> does.\<close>

lemma generic_fetch_key_fp_keyid:
  assumes "hash_funs_ok H" and "version_known H k"
  shows "generic_fetch_key_fp fetch_id d (key_fp H k) keys intrans = fetch_id d (key_id H k) keys intrans"
  using key_fingerprint(2,3) [OF assms] key_keyid(2) [OF assms]
  by (auto simp: generic_fetch_key_fp_def fingerprint2keyid_def fingerprint_ok_def)

section \<open>Merging stored keys\<close>

definition merged_key :: "openpgp_publickey \<Rightarrow> openpgp_publickey \<Rightarrow> openpgp_publickey" where
  "merged_key a b = a\<lparr>sigs := sigs a @ filter (\<lambda>p. \<not> find_packet (sigs a) p) (sigs b),
     uids := merge_lists (uids a) (uids b), subkeys := merge_lists (subkeys a) (subkeys b),
     revoked := revoked a \<or> revoked b\<rparr>"

definition key_difference :: "openpgp_publickey \<Rightarrow> openpgp_publickey \<Rightarrow> openpgp_publickey" where
  "key_difference a b = b\<lparr>sigs := filter (\<lambda>p. \<not> find_packet (sigs a) p) (sigs b),
     uids := difference (uids a) (uids b), subkeys := difference (subkeys a) (subkeys b),
     revoked := revoked a \<or> revoked b\<rparr>"

definition no_news :: "openpgp_publickey \<Rightarrow> bool" where
  "no_news k \<longleftrightarrow> sigs k = [] \<and> uids k = [] \<and> subkeys k = []"

lemma merge_keys_merged:
  assumes "hash_funs_ok H" and "key_storable H mal a" and "key_storable H mal b" and "key_id H a = key_id H b"
  shows "merge_keys H a b = Some (0, merged_key a b, key_difference a b)"
  using merge_keys_eq [OF key_keyid(1) [OF assms(1), of a] key_keyid(1) [OF assms(1), of b, folded assms(4)]] assms(2,3)
  by (simp add: key_storable_def merged_key_def key_difference_def)

lemma subseq_set: "subseq xs ys \<Longrightarrow> x \<in> set xs \<Longrightarrow> x \<in> set ys"
  by (induction rule: list_emb.induct) auto

lemma set_deduped: "\<forall>p \<in> set l. regular p \<Longrightarrow> set (deduped l) \<subseteq> set l"
  using deduped_spec [of l] by (auto simp: dedupe_spec_def dest: subseq_set)

lemma merged_with_sigs:
  assumes "c \<in> set old" and "mergeable old" and "mergeable new" and "p \<in> set (sp_sigs (merged_with new c))"
  shows "p \<in> set (sp_sigs c) \<or> (\<exists>n \<in> set new. pkey n = pkey c \<and> p \<in> set (sp_sigs n))"
proof (cases "find (\<lambda>n. pkey n = pkey c) new")
  case (Some n)
  then have n: "n \<in> set new" "pkey n = pkey c" by (auto simp: find_Some_iff)
  let ?l = "sp_sigs c @ fresh (sp_sigs c) (sp_sigs n)"
  have "\<forall>p \<in> set ?l. regular p" using assms(1-3) n by (auto simp: mergeable_def fresh_def)
  from set_deduped [OF this] have "p \<in> set ?l" using assms(4) Some by (auto simp: merged_with_def)
  then show ?thesis using n by (auto simp: fresh_def)
qed (use assms(4) in \<open>simp add: merged_with_def\<close>)

text \<open>Every packet and every signature of a merged list comes from one of the two lists.\<close>

lemma merge_lists_elem:
  assumes "mergeable old" and "mergeable new" and "sp \<in> set (merge_lists old new)"
  shows "\<exists>c \<in> set old \<union> set new. sp_packet sp = sp_packet c"
    and "p \<in> set (sp_sigs sp) \<Longrightarrow> \<exists>d \<in> set old \<union> set new. p \<in> set (sp_sigs d)"
proof -
  have [simp]: "sp_packet (merged_with new c) = sp_packet c" for c
    by (simp add: merged_with_def split: option.split)
  show "\<exists>c \<in> set old \<union> set new. sp_packet sp = sp_packet c"
    using assms(3) by (auto simp: merge_lists_def)
  show "\<exists>d \<in> set old \<union> set new. p \<in> set (sp_sigs d)" if "p \<in> set (sp_sigs sp)"
    using assms(3) that merged_with_sigs [OF _ assms(1,2)] by (fastforce simp: merge_lists_def)
qed

lemma merge_lists_mergeable:
  assumes "mergeable old" and "mergeable new"
  shows "mergeable (merge_lists old new)"
proof -
  have "distinct (map pkey old)" "distinct (map pkey new)" using assms by (simp_all add: mergeable_def)
  then have "distinct (map pkey (merge_lists old new))"
    by (auto simp: merge_lists_def comp_def distinct_map_filter)
  moreover have "regular p" if "sp \<in> set (merge_lists old new)" "p \<in> set (sp_sigs sp)" for sp p
    using merge_lists_elem(2) [OF assms that] assms by (auto simp: mergeable_def)
  ultimately show ?thesis by (simp add: mergeable_def)
qed

lemma signed_packets_merge_lists:
  assumes "mergeable old" and "mergeable new"
  shows "set (signed_packets (merge_lists old new)) \<subseteq> set (signed_packets old) \<union> set (signed_packets new)"
  using merge_lists_elem [OF assms] by (fastforce simp: signed_packets_def)

lemma is_key_rev_data:
  assumes "data p = data q"
  shows "is_key_rev p = is_key_rev q"
  unfolding is_key_rev_def assms ..

lemma key_ok_merged:
  assumes "key_ok a" and "key_ok b" and "key_mergeable a" and "key_mergeable b"
  shows "key_ok (merged_key a b)"
proof -
  have m: "mergeable (uids a)" "mergeable (uids b)" "mergeable (subkeys a)" "mergeable (subkeys b)"
    using assms(3,4) by (simp_all add: key_mergeable_def)
  have tags: "tag (sp_packet sp) \<in> T \<and> sig_list_ok (sp_sigs sp)"
    if "mergeable l" "mergeable l'" "sp \<in> set (merge_lists l l')"
      "\<forall>sp \<in> set l \<union> set l'. tag (sp_packet sp) \<in> T \<and> sig_list_ok (sp_sigs sp)" for l l' sp T
    using merge_lists_elem [OF that(1-3)] that(4) unfolding sig_list_ok_def by metis
  have sub: "set (sigs (merged_key a b)) \<subseteq> set (sigs a) \<union> set (sigs b)" by (auto simp: merged_key_def)
  have "revoked (merged_key a b) = (\<exists>s \<in> set (sigs (merged_key a b)). is_key_rev s = Some True)"
  proof -
    have "\<exists>s \<in> set (sigs a). is_key_rev s = Some True"
      if rev: "is_key_rev s = Some True" and found: "find_packet (sigs a) s" for s
    proof -
      obtain q where "q \<in> set (sigs a)" "data q = data s" using found by (auto simp: find_packet_iff)
      with rev is_key_rev_data [of q s] show ?thesis by (intro bexI [of _ q]) simp_all
    qed
    then show ?thesis using assms(1,2) by (auto simp: merged_key_def key_ok_def)
  qed
  moreover have "tag (sp_packet sp) \<in> {OPENPGP_PACKET_UID, OPENPGP_PACKET_UAT} \<and> sig_list_ok (sp_sigs sp)"
    if "sp \<in> set (uids (merged_key a b))" for sp
    using that assms(1,2) by (intro tags [OF m(1,2)]) (auto simp: merged_key_def key_ok_def)
  moreover have "tag (sp_packet sp) \<in> {OPENPGP_PACKET_PUBLICSUBKEY} \<and> sig_list_ok (sp_sigs sp)"
    if "sp \<in> set (subkeys (merged_key a b))" for sp
    using that assms(1,2) by (intro tags [OF m(3,4)]) (auto simp: merged_key_def key_ok_def)
  moreover have "sig_list_ok (sigs (merged_key a b)) \<and> (\<forall>s \<in> set (sigs (merged_key a b)). is_key_rev s \<noteq> None)"
    using sub assms(1,2) unfolding key_ok_def sig_list_ok_def by blast
  moreover have "publickey (merged_key a b) = publickey a" by (simp add: merged_key_def)
  ultimately show ?thesis using assms(1) unfolding key_ok_def by auto
qed

lemma key_storable_merged:
  assumes "key_storable H mal a" and "key_storable H mal b"
  shows "key_storable H mal (merged_key a b)"
proof -
  have m: "mergeable (uids a)" "mergeable (uids b)" "mergeable (subkeys a)" "mergeable (subkeys b)"
    using assms by (simp_all add: key_storable_def key_mergeable_def)
  have "set (key_packets (merged_key a b)) \<subseteq> set (key_packets a) \<union> set (key_packets b)"
    using signed_packets_merge_lists [OF m(1,2)] signed_packets_merge_lists [OF m(3,4)]
    by (auto simp: key_packets_def merged_key_def)
  moreover have "key_mergeable (merged_key a b)"
    using m by (simp add: key_mergeable_def merged_key_def merge_lists_mergeable)
  moreover have "version_known H (merged_key a b)"
    using assms(1) by (simp add: key_storable_def version_known_def merged_key_def)
  ultimately show ?thesis
    using assms key_ok_merged [of a b] unfolding key_storable_def by blast
qed

section \<open>What updating keys means\<close>

text \<open>
  The abstract state of a back end: a partial function from slots to keys, where the slot of a
  key depends on its fingerprint. \<open>update_one\<close> says what one submitted key changes, which part of it is
  reported as news and whether it counts as new.
\<close>

type_synonym 'i key_table = "'i \<Rightarrow> openpgp_publickey option"

definition blacklisted :: "keyarray option \<Rightarrow> openpgp_fingerprint \<Rightarrow> bool" where
  "blacklisted bl f = (case bl of None \<Rightarrow> False | Some arr \<Rightarrow> f \<in> set (fps arr))"

definition update_one :: "hash_funs \<Rightarrow> (openpgp_fingerprint \<Rightarrow> 'i) \<Rightarrow> keyarray option \<Rightarrow> bool \<Rightarrow> openpgp_publickey \<Rightarrow>
    'i key_table \<Rightarrow> publickeys \<times> int \<times> 'i key_table" where
  "update_one H slot_of bl updateonly k V =
     (let f = key_fp H k; i = slot_of f
      in if blacklisted bl f then ([], 0, V)
         else case V i of
           None \<Rightarrow> if updateonly then ([k], 0, V) else ([k], 1, V(i \<mapsto> k))
         | Some old \<Rightarrow> if no_news (key_difference old k) then ([], 0, V)
                      else ([key_difference old k], 0, V(i \<mapsto> merged_key old k)))"

fun update_all :: "hash_funs \<Rightarrow> (openpgp_fingerprint \<Rightarrow> 'i) \<Rightarrow> keyarray option \<Rightarrow> bool \<Rightarrow> publickeys \<Rightarrow>
    'i key_table \<Rightarrow> publickeys \<times> int \<times> 'i key_table" where
  "update_all H slot_of bl updateonly [] V = ([], 0, V)"
| "update_all H slot_of bl updateonly (k # keys) V =
     (let (news, n, V) = update_one H slot_of bl updateonly k V;
          (more, m, V) = update_all H slot_of bl updateonly keys V
      in (news @ more, n + m, V))"

text \<open>Keys that share a slot have the same key id.\<close>

definition ids_agree :: "hash_funs \<Rightarrow> (openpgp_fingerprint \<Rightarrow> 'i) \<Rightarrow> 'i key_table \<Rightarrow> publickeys \<Rightarrow> bool" where
  "ids_agree H slot_of V keys \<longleftrightarrow> (\<forall>k \<in> set keys.
     (\<forall>old. V (slot_of (key_fp H k)) = Some old \<longrightarrow> key_id H old = key_id H k) \<and>
     (\<forall>k' \<in> set keys. slot_of (key_fp H k') = slot_of (key_fp H k) \<longrightarrow> key_id H k' = key_id H k))"

lemma ids_agreeD:
  assumes "ids_agree H slot_of V keys" and "k \<in> set keys"
  shows "V (slot_of (key_fp H k)) = Some old \<Longrightarrow> key_id H old = key_id H k"
    and "k' \<in> set keys \<Longrightarrow> slot_of (key_fp H k') = slot_of (key_fp H k) \<Longrightarrow> key_id H k' = key_id H k"
  using assms unfolding ids_agree_def by blast+

lemma ids_agreeI:
  assumes "\<And>k old. k \<in> set keys \<Longrightarrow> V (slot_of (key_fp H k)) = Some old \<Longrightarrow> key_id H old = key_id H k"
    and "\<And>k k'. k \<in> set keys \<Longrightarrow> k' \<in> set keys \<Longrightarrow> slot_of (key_fp H k') = slot_of (key_fp H k) \<Longrightarrow>
      key_id H k' = key_id H k"
  shows "ids_agree H slot_of V keys"
  using assms unfolding ids_agree_def by blast

lemma key_fp_merged [simp]: "key_fp H (merged_key a b) = key_fp H a" "key_id H (merged_key a b) = key_id H a"
  by (simp_all add: key_fp_def key_id_def merged_key_def)

lemma ids_agree_step:
  assumes "ids_agree H slot_of V (k # keys)" and "update_one H slot_of bl updateonly k V = (news, n, V')"
  shows "ids_agree H slot_of V' keys"
proof -
  have "key_id H old = key_id H k2" if "k2 \<in> set keys" "V' (slot_of (key_fp H k2)) = Some old" for k2 old
  proof (cases "slot_of (key_fp H k2) = slot_of (key_fp H k)")
    case True
    let ?i = "slot_of (key_fp H k)"
    have "V' ?i = V ?i \<or> V' ?i = Some k \<or> (\<exists>o1. V ?i = Some o1 \<and> V' ?i = Some (merged_key o1 k))"
      using assms(2) by (auto simp: update_one_def Let_def split: if_splits option.splits)
    with that(2) show ?thesis
      using ids_agreeD [OF assms(1), of k] ids_agreeD(2) [OF assms(1), of k k2] that(1)
      unfolding True by (metis key_fp_merged(2) list.set_intros option.inject)
  next
    case False
    then have "V' (slot_of (key_fp H k2)) = V (slot_of (key_fp H k2))"
      using assms(2) by (auto simp: update_one_def Let_def split: if_splits option.splits)
    then show ?thesis using ids_agreeD(1) [OF assms(1), of k2] that by simp
  qed
  then show ?thesis using ids_agreeD(2) [OF assms(1)] by (intro ids_agreeI) auto
qed

text \<open>A key that has whatever another one has: user ids, subkeys, direct signatures, revocation.\<close>

definition covers :: "openpgp_publickey \<Rightarrow> openpgp_publickey \<Rightarrow> bool" where
  "covers k' k \<longleftrightarrow> pkey ` set (uids k) \<subseteq> pkey ` set (uids k') \<and> pkey ` set (subkeys k) \<subseteq> pkey ` set (subkeys k') \<and>
     (\<lambda>p. (tag p, data p)) ` set (sigs k) \<subseteq> (\<lambda>p. (tag p, data p)) ` set (sigs k') \<and> (revoked k \<longrightarrow> revoked k')"

lemma covers_refl [simp]: "covers k k"
  by (simp add: covers_def)

lemma covers_trans: "covers a b \<Longrightarrow> covers b c \<Longrightarrow> covers a c"
  unfolding covers_def by (meson order_trans)

lemma covers_merged: "covers (merged_key a b) a" "covers (merged_key a b) b"
proof -
  have "(tag p, data p) \<in> (\<lambda>p. (tag p, data p)) ` set (sigs (merged_key a b))" if "p \<in> set (sigs b)" for p
  proof (cases "find_packet (sigs a) p")
    case True
    then show ?thesis unfolding find_packet_iff set_map by (simp add: merged_key_def image_Un)
  qed (use that in \<open>simp add: merged_key_def\<close>)
  then show "covers (merged_key a b) b" unfolding covers_def by (auto simp: merged_key_def merge_lists_pkeys)
  show "covers (merged_key a b) a" by (simp add: covers_def merged_key_def merge_lists_pkeys image_Un)
qed

lemma difference_Nil: "difference old new = [] \<Longrightarrow> pkey ` set new \<subseteq> pkey ` set old"
proof
  fix x assume d: "difference old new = []" and "x \<in> pkey ` set new"
  then obtain n where n: "n \<in> set new" "x = pkey n" by blast
  with d have "difference_to old n = []" by (simp add: difference_def)
  then have "find (\<lambda>c. pkey c = pkey n) old \<noteq> None" unfolding difference_to_def by (auto split: option.splits)
  then obtain c where "c \<in> set old" "pkey c = pkey n" unfolding find_None_iff by blast
  then show "x \<in> pkey ` set old" using n(2) by (metis image_eqI)
qed

lemma covers_no_news:
  assumes "no_news (key_difference old k)" and "key_ok old" and "key_ok k"
  shows "covers old k"
proof -
  have found: "find_packet (sigs old) p" if "p \<in> set (sigs k)" for p
    using assms(1) that by (auto simp: no_news_def key_difference_def filter_empty_conv)
  have "revoked old" if "revoked k"
  proof -
    obtain p where p: "p \<in> set (sigs k)" "is_key_rev p = Some True" using \<open>revoked k\<close> assms(3) by (auto simp: key_ok_def)
    obtain q where "q \<in> set (sigs old)" "data q = data p" using found [OF p(1)] by (auto simp: find_packet_iff)
    with p(2) is_key_rev_data [of q p] show ?thesis using assms(2) by (auto simp: key_ok_def)
  qed
  then show ?thesis
    using assms(1) found difference_Nil [of "uids old" "uids k"] difference_Nil [of "subkeys old" "subkeys k"]
    by (auto simp: covers_def no_news_def key_difference_def find_packet_iff)
qed

definition table_storable :: "hash_funs \<Rightarrow> (nat \<Rightarrow> bool) \<Rightarrow> 'i key_table \<Rightarrow> bool" where
  "table_storable H mal V \<longleftrightarrow> (\<forall>i k. V i = Some k \<longrightarrow> key_storable H mal k)"

lemma table_storable_update: "table_storable H mal V \<Longrightarrow> key_storable H mal k \<Longrightarrow> table_storable H mal (V(i \<mapsto> k))"
  by (simp add: table_storable_def)

text \<open>One update: what it stores covers the submitted key and what was there before.\<close>

lemma update_one_covers:
  assumes "update_one H slot_of bl updateonly k V = (news, n, V')" and "table_storable H mal V" and "key_storable H mal k"
  shows "table_storable H mal V'"
    and "i \<noteq> slot_of (key_fp H k) \<or> blacklisted bl (key_fp H k) \<Longrightarrow> V' i = V i"
    and "V i = Some old \<Longrightarrow> \<exists>k'. V' i = Some k' \<and> covers k' old"
    and "\<not> blacklisted bl (key_fp H k) \<Longrightarrow> \<not> updateonly \<or> V (slot_of (key_fp H k)) \<noteq> None \<Longrightarrow>
      \<exists>k'. V' (slot_of (key_fp H k)) = Some k' \<and> covers k' k"
    and "updateonly \<Longrightarrow> V i = None \<Longrightarrow> V' i = None"
proof -
  have old: "key_storable H mal old" if "V (slot_of (key_fp H k)) = Some old" for old
    using assms(2) that by (simp add: table_storable_def)
  then show "table_storable H mal V'"
    using assms key_storable_merged [of H mal _ k] table_storable_update [of H mal V]
    by (auto simp: update_one_def Let_def split: if_splits option.splits)
  show "V' i = V i" if "i \<noteq> slot_of (key_fp H k) \<or> blacklisted bl (key_fp H k)"
    using assms(1) that by (auto simp: update_one_def Let_def split: if_splits option.splits)
  show "\<exists>k'. V' i = Some k' \<and> covers k' old" if "V i = Some old"
    using assms(1) that covers_merged(1) [of old k]
    by (auto simp: update_one_def Let_def split: if_splits option.splits)
  show "\<exists>k'. V' (slot_of (key_fp H k)) = Some k' \<and> covers k' k"
    if "\<not> blacklisted bl (key_fp H k)" "\<not> updateonly \<or> V (slot_of (key_fp H k)) \<noteq> None"
    using assms(1,3) that covers_merged(2) [of _ k] covers_no_news [of _ k] old
    by (auto simp: update_one_def Let_def key_storable_def split: if_splits option.splits)
  show "V' i = None" if "updateonly" "V i = None"
    using assms(1) that by (auto simp: update_one_def Let_def split: if_splits option.splits)
qed

lemma update_all_table:
  assumes "update_all H slot_of bl updateonly keys V = (news, n, V')" and "table_storable H mal V"
    and "list_all (key_storable H mal) keys"
  shows "(\<forall>i old. V i = Some old \<longrightarrow> (\<exists>k'. V' i = Some k' \<and> covers k' old)) \<and>
    (\<forall>i. (\<forall>k \<in> set keys. slot_of (key_fp H k) \<noteq> i \<or> blacklisted bl (key_fp H k)) \<longrightarrow> V' i = V i) \<and>
    (updateonly \<longrightarrow> (\<forall>i. V i = None \<longrightarrow> V' i = None))"
  using assms
proof (induction keys arbitrary: V news n)
  case (Cons k keys)
  obtain news1 n1 V1 news2 n2 where one: "update_one H slot_of bl updateonly k V = (news1, n1, V1)"
    and rest: "update_all H slot_of bl updateonly keys V1 = (news2, n2, V')"
    using Cons.prems(1) by (auto split: prod.splits)
  have k: "key_storable H mal k" "list_all (key_storable H mal) keys" using Cons.prems(3) by simp_all
  note first = update_one_covers [OF one Cons.prems(2) k(1)]
  note IH = Cons.IH [OF rest first(1) k(2)]
  have "\<exists>k'. V' i = Some k' \<and> covers k' old" if "V i = Some old" for i old
    using first(3) [OF that] IH covers_trans by blast
  moreover have "V' i = V i" if "\<forall>k1 \<in> set (k # keys). slot_of (key_fp H k1) \<noteq> i \<or> blacklisted bl (key_fp H k1)" for i
  proof -
    have "V1 i = V i" using that by (intro first(2)) auto
    then show ?thesis using IH that by simp
  qed
  moreover have "V' i = None" if "updateonly" "V i = None" for i
    using first(5) [OF that] IH that(1) by blast
  ultimately show ?case by blast
qed simp

lemma update_all_keeps:
  assumes "update_all H slot_of bl updateonly keys V = (news, n, V')" and "table_storable H mal V"
    and "list_all (key_storable H mal) keys"
  shows "V i = Some old \<Longrightarrow> \<exists>k'. V' i = Some k' \<and> covers k' old"
    and "\<forall>k \<in> set keys. slot_of (key_fp H k) \<noteq> i \<or> blacklisted bl (key_fp H k) \<Longrightarrow> V' i = V i"
    and "updateonly \<Longrightarrow> V i = None \<Longrightarrow> V' i = None"
  using update_all_table [OF assms] by blast+

lemma update_all_covers:
  assumes "update_all H slot_of bl False keys V = (news, n, V')" and "table_storable H mal V"
    and "list_all (key_storable H mal) keys" and "k \<in> set keys" and "\<not> blacklisted bl (key_fp H k)"
  shows "\<exists>k'. V' (slot_of (key_fp H k)) = Some k' \<and> covers k' k"
  using assms
proof (induction keys arbitrary: V news n)
  case (Cons k1 keys)
  obtain news1 n1 V1 news2 n2 where one: "update_one H slot_of bl False k1 V = (news1, n1, V1)"
    and rest: "update_all H slot_of bl False keys V1 = (news2, n2, V')"
    using Cons.prems(1) by (auto split: prod.splits)
  have k: "key_storable H mal k1" "list_all (key_storable H mal) keys" using Cons.prems(3) by simp_all
  note first = update_one_covers [OF one Cons.prems(2) k(1)]
  show ?case
  proof (cases "k \<in> set keys")
    case True
    then show ?thesis using Cons.IH [OF rest first(1) k(2) _ Cons.prems(5)] by blast
  next
    case False
    then have "k = k1" using Cons.prems(4) by simp
    then obtain k' where "V1 (slot_of (key_fp H k)) = Some k'" "covers k' k"
      using first(4) Cons.prems(5) by auto
    with update_all_keeps(1) [OF rest first(1) k(2)] covers_trans show ?thesis by blast
  qed
qed simp

section \<open>The contract of a back end\<close>

text \<open>
  \<open>represents d V\<close>: the state \<open>d\<close> of the back end holds the keys of \<open>V\<close>. The laws are what
  \<open>generic_update_keys\<close> relies on: transactions keep the keys, a fetch finds the key of a slot, a
  store replaces it and nothing else.
\<close>

locale key_backend =
  fixes H :: hash_funs
    and mal :: "nat \<Rightarrow> bool"
    and ops :: "'d keydb_ops"
    and represents :: "'d \<Rightarrow> 'i key_table \<Rightarrow> bool"
    and slot_of :: "openpgp_fingerprint \<Rightarrow> 'i"
  assumes hashes_law: "represents d V \<Longrightarrow> hash_funs_ok H"
    and start_law: "represents d V \<Longrightarrow> represents (snd (db_starttrans ops d)) V"
    and end_law: "represents d V \<Longrightarrow> represents (db_endtrans ops d) V"
    and stored_law: "represents d V \<Longrightarrow> V i = Some k \<Longrightarrow> key_storable H mal k \<and> slot_of (key_fp H k) = i"
    and fetch_law: "represents d V \<Longrightarrow> version_known H k \<Longrightarrow>
      db_fetch_key_fp ops d (key_fp H k) [] intrans =
        Some (case V (slot_of (key_fp H k)) of None \<Rightarrow> (0, []) | Some old \<Rightarrow> (1, [old]))"
    and store_law: "represents d V \<Longrightarrow> key_storable H mal k \<Longrightarrow>
      \<exists>n d'. db_store_key ops d (k # keys) intrans update = Some (n, d') \<and>
        represents d' (V(slot_of (key_fp H k) \<mapsto> k))"
begin

lemma blacklist_check:
  "pred_option keyarray_ok bl \<Longrightarrow> fingerprint_ok f \<Longrightarrow>
   (case bl of None \<Rightarrow> Some False | Some arr \<Rightarrow> array_find arr f) = Some (blacklisted bl f)"
  by (auto simp: blacklisted_def keyarray_set.find_law split: option.split)

lemma update_loop_refines:
  assumes "represents d V" and "list_all (key_storable H mal) keys" and "ids_agree H slot_of V keys"
    and "pred_option keyarray_ok bl" and "update_all H slot_of bl updateonly keys V = (news, n, V')"
  shows "\<exists>d'. update_keys_loop H ops bl updateonly [] keys d = Some (news, n, d') \<and> represents d' V'"
  using assms
proof (induction keys arbitrary: d V news n)
  case (Cons k keys)
  obtain news1 n1 V1 news2 n2 where one: "update_one H slot_of bl updateonly k V = (news1, n1, V1)"
    and rest: "update_all H slot_of bl updateonly keys V1 = (news2, n2, V')" "news = news1 @ news2" "n = n1 + n2"
    using Cons.prems(5) by (auto split: prod.splits)
  have k: "key_storable H mal k" "version_known H k" using Cons.prems(2) by (simp_all add: key_storable_def)
  note hashes = hashes_law [OF Cons.prems(1)]
  note fpr = key_fingerprint [OF hashes k(2)]
  let ?i = "slot_of (key_fp H k)"
  obtain intrans d1 where d1: "db_starttrans ops d = (intrans, d1)" "represents d1 V"
    using start_law [OF Cons.prems(1)] by (cases "db_starttrans ops d") auto
  note IH = Cons.IH [OF _ _ ids_agree_step [OF Cons.prems(3) one] Cons.prems(4) rest(1)]
  have next_keys: "\<exists>d'. update_keys_loop H ops bl updateonly [] keys d2 = Some (news2, n2, d') \<and> represents d' V'"
    if "represents d2 V1" for d2
    using IH [OF that] Cons.prems(2) by simp
  note simps = fpr(1) blacklist_check [OF Cons.prems(4) fpr(2)] d1(1) fetch_law [OF d1(2) k(2)] rest(2,3)
  show ?case
  proof (cases "blacklisted bl (key_fp H k)")
    case True
    then have "V1 = V" "news1 = []" "n1 = 0" using one by (simp_all add: update_one_def Let_def)
    then show ?thesis using next_keys [of d] Cons.prems(1) True by (simp add: simps)
  next
    case fresh: False
    show ?thesis
    proof (cases "V ?i")
      case None
      show ?thesis
      proof (cases updateonly)
        case True
        then have "V1 = V" "news1 = [k]" "n1 = 0" using one fresh None by (simp_all add: update_one_def Let_def)
        then show ?thesis
          using next_keys [OF end_law, of d1] d1(2) fresh None True by (auto simp: simps)
      next
        case False
        then have V1: "V1 = V(?i \<mapsto> k)" "news1 = [k]" "n1 = 1"
          using one fresh None by (simp_all add: update_one_def Let_def)
        obtain m d2 where "db_store_key ops d1 (k # keys) intrans False = Some (m, d2)" "represents d2 V1"
          using store_law [OF d1(2) k(1)] V1(1) by blast
        then show ?thesis
          using next_keys [OF end_law, of d2] V1(2,3) fresh None False by (auto simp: simps)
      qed
    next
      case (Some old)
      have old: "key_storable H mal old" "slot_of (key_fp H old) = ?i" using stored_law [OF Cons.prems(1) Some] by simp_all
      have "key_id H old = key_id H k" using ids_agreeD(1) [OF Cons.prems(3) _ Some] by simp
      note merge = merge_keys_merged [OF hashes old(1) k(1) this]
      show ?thesis
      proof (cases "no_news (key_difference old k)")
        case True
        then have "V1 = V" "news1 = []" "n1 = 0" using one fresh Some by (simp_all add: update_one_def Let_def)
        then show ?thesis
          using next_keys [OF end_law, of d1] d1(2) fresh Some True by (auto simp: simps merge no_news_def)
      next
        case False
        then have V1: "V1 = V(?i \<mapsto> merged_key old k)" "news1 = [key_difference old k]" "n1 = 0"
          using one fresh Some by (simp_all add: update_one_def Let_def)
        obtain m d2 where "db_store_key ops d1 [merged_key old k] intrans True = Some (m, d2)" "represents d2 V1"
          using store_law [OF d1(2) key_storable_merged [OF old(1) k(1)], of "[]" intrans True] V1(1) old(2) by auto
        then show ?thesis
          using next_keys [OF end_law, of d2] V1(2,3) fresh Some False by (auto simp: simps merge no_news_def)
      qed
    qed
  qed
qed simp

lemma update_keys_refines:
  assumes "represents d V" and "list_all (key_storable H mal) keys" and "ids_agree H slot_of V keys"
    and "pred_option keyarray_ok bl" and "update_all H slot_of bl updateonly keys V = (news, n, V')"
  shows "\<exists>d'. generic_update_keys H ops bl updateonly sendsync keys d =
      Some (n, news, if sendsync \<and> news \<noteq> [] then Some news else None, d') \<and> represents d' V'"
  using update_loop_refines [OF assms] by (auto simp: generic_update_keys_def)

end

section \<open>A dangling key\<close>



section \<open>What the peers get\<close>

interpretation fd_sink: armored_sink fd_putchar "\<lambda>out xs. out = xs" capacity pre for capacity pre
  by unfold_locales (simp add: fd_putchar_def)

text \<open>The mail ends with the armored keys; what is in front of them is the header of the mail.\<close>

lemma sendkeysync_body:
  assumes "syncsites config \<noteq> []" and "\<forall>p \<in> set (flatten_publickey keys []). packet_wf p"
  shows "\<exists>header. sendkeysync config True keys =
    Some (1, header @ armored_file (stream_encoding (flatten_publickey keys [])))"
proof -
  have "\<forall>p \<in> set (flatten_publickey keys []). newformat p \<longrightarrow> plength p < 0xFFFFFFFF"
    using assms(2) by (auto simp: packet_wf_def packet_writable_def)
  then have "armor_openpgp_stream fd_putchar header (flatten_publickey keys []) =
      Some (header @ armored_file (stream_encoding (flatten_publickey keys [])))" for header
    using fd_sink.armor_stream_holds [OF refl refl _ order_refl] by blast
  then show ?thesis using assms(1) by (auto simp: sendkeysync_def)
qed

end
