(* ===== verification/Key_Cache.thy ===== *)
theory Key_Cache
  imports Key_Db
begin

text \<open>
  The cache of key details: linked lists (\<open>ll.c\<close>), the hash table of \<open>hash.c\<close>, and the functions
  of \<open>keydb/keydb.c\<close> that fill it with the signatures on keys.

  A \<open>struct ll\<close> is a list; allocations of list nodes succeed. The objects of the table are created by
  \<open>createandaddtohash\<close> only, one for each key id, and live until \<open>destroyhash\<close>: a pointer to one
  is represented by its key id, and following it by \<open>findinhash\<close> (\<open>None\<close> if there is no such object).
\<close>

section \<open>Linked lists\<close>

definition lladd :: "'a list \<Rightarrow> 'a \<Rightarrow> 'a list" where
  "lladd curll object = object # curll"

fun lladdend :: "'a list \<Rightarrow> 'a \<Rightarrow> 'a list" where
  "lladdend [] object = [object]"
| "lladdend (x # l) object = x # lladdend l object"

text \<open>A comparison returns 0 for equal objects.\<close>

fun lldel :: "'a list \<Rightarrow> 'b \<Rightarrow> ('a \<Rightarrow> 'b \<Rightarrow> int) \<Rightarrow> 'a list" where
  "lldel [] object objectcmp = []"
| "lldel (x # l) object objectcmp = (if objectcmp x object = 0 then l else x # lldel l object objectcmp)"

text \<open>The object of the node found.\<close>

fun llfind :: "'a list \<Rightarrow> 'b \<Rightarrow> ('a \<Rightarrow> 'b \<Rightarrow> int) \<Rightarrow> 'a option" where
  "llfind [] object objectcmp = None"
| "llfind (x # l) object objectcmp = (if objectcmp x object \<noteq> 0 then llfind l object objectcmp else Some x)"

fun llsize :: "'a list \<Rightarrow> nat" where
  "llsize [] = 0"
| "llsize (x # l) = Suc (llsize l)"

lemma lladdend_eq [simp]: "lladdend l x = l @ [x]"
  by (induction l) auto

lemma llsize_eq [simp]: "llsize l = length l"
  by (induction l) auto

lemma llfind_eq: "llfind l y cmp = find (\<lambda>x. cmp x y = 0) l"
  by (induction l) auto

lemma lldel_eq: "lldel l y cmp = takeWhile (\<lambda>x. cmp x y \<noteq> 0) l @ drop 1 (dropWhile (\<lambda>x. cmp x y \<noteq> 0) l)"
  by (induction l) auto

section \<open>The hash table\<close>

record stats_key =
  sk_keyid :: u64
  sk_colour :: nat
  sk_parent :: u64
  sk_sigs :: "u64 list"
  sk_signs :: "u64 list"
  sk_gotsigs :: bool
  sk_disabled :: bool
  sk_revoked :: bool

record hash_state =
  hashtable :: "stats_key list list"
  elements :: nat

definition hash_index :: "u64 \<Rightarrow> nat" where
  "hash_index keyid = unat (keyid AND 0x3FF)"

definition inithash :: hash_state where
  "inithash = \<lparr>hashtable = replicate 1024 [], elements = 0\<rparr>"

definition addtohash :: "hash_state \<Rightarrow> stats_key \<Rightarrow> hash_state" where
  "addtohash st key =
     (let i = hash_index (sk_keyid key)
      in st\<lparr>elements := elements st + 1, hashtable := (hashtable st)[i := lladd (hashtable st ! i) key]\<rparr>)"

definition stats_key_cmp :: "stats_key \<Rightarrow> u64 \<Rightarrow> int" where
  "stats_key_cmp key keyid = (if sk_keyid key = keyid then 0 else 1)"

definition findinhash :: "hash_state \<Rightarrow> u64 \<Rightarrow> stats_key option" where
  "findinhash st keyid = llfind (hashtable st ! hash_index keyid) keyid stats_key_cmp"

definition hashelements :: "hash_state \<Rightarrow> nat" where
  "hashelements st = elements st"

definition new_stats_key :: "u64 \<Rightarrow> stats_key" where
  "new_stats_key keyid = \<lparr>sk_keyid = keyid, sk_colour = 0, sk_parent = 0, sk_sigs = [], sk_signs = [],
     sk_gotsigs = False, sk_disabled = False, sk_revoked = False\<rparr>"

definition createandaddtohash :: "hash_state \<Rightarrow> u64 \<Rightarrow> hash_state" where
  "createandaddtohash st keyid =
     (if findinhash st keyid = None then addtohash st (new_stats_key keyid) else st)"

text \<open>An assignment to fields of the object with this key id.\<close>

fun update_key :: "u64 \<Rightarrow> (stats_key \<Rightarrow> stats_key) \<Rightarrow> stats_key list \<Rightarrow> stats_key list" where
  "update_key keyid f [] = []"
| "update_key keyid f (k # l) = (if sk_keyid k = keyid then f k # l else k # update_key keyid f l)"

definition modify :: "u64 \<Rightarrow> (stats_key \<Rightarrow> stats_key) \<Rightarrow> hash_state \<Rightarrow> hash_state" where
  "modify keyid f st =
     (let i = hash_index keyid
      in st\<lparr>hashtable := (hashtable st)[i := update_key keyid f (hashtable st ! i)]\<rparr>)"

section \<open>Signatures on keys\<close>

fun create_signers :: "hash_state \<Rightarrow> u64 list \<Rightarrow> openpgp_packet list \<Rightarrow> (u64 list \<times> hash_state) option" where
  "create_signers st l [] = Some (l, st)"
| "create_signers st l (cursig # rest) =
     do { i \<leftarrow> sig_keyid cursig; create_signers (createandaddtohash st i) (lladd l i) rest }"

text \<open>The loops over the user ids and their signatures, one after the other.\<close>

definition generic_getkeysigs :: "'d keydb_ops \<Rightarrow> 'd \<Rightarrow> u64 \<Rightarrow> bool \<Rightarrow> hash_state \<Rightarrow> (u64 list \<times> bool \<times> hash_state) option" where
  "generic_getkeysigs ops d keyid revd st =
     do { (_, keys) \<leftarrow> db_fetch_key_id ops d keyid [] False;
          (case keys of
             [] \<Rightarrow> Some ([], revd, st)
           | key # _ \<Rightarrow>
               do { (l, st) \<leftarrow> create_signers st [] (concat (map sp_sigs (uids key)));
                    Some (l, revoked key, st) }) }"

fun add_signs :: "u64 \<Rightarrow> u64 list \<Rightarrow> hash_state \<Rightarrow> hash_state" where
  "add_signs keyid [] st = st"
| "add_signs keyid (cursig # rest) st =
     add_signs keyid rest (modify cursig (\<lambda>k. k\<lparr>sk_signs := lladd (sk_signs k) keyid\<rparr>) st)"

definition generic_cached_getkeysigs :: "'d keydb_ops \<Rightarrow> 'd \<Rightarrow> u64 \<Rightarrow> hash_state \<Rightarrow> (u64 list \<times> hash_state) option" where
  "generic_cached_getkeysigs ops d keyid st =
     (if keyid = 0 then Some ([], st)
      else case findinhash st keyid of
        Some key \<Rightarrow>
          if sk_gotsigs key then Some (sk_sigs key, st)
          else do { (l, revd, st) \<leftarrow> generic_getkeysigs ops d keyid False st;
                    if l = [] then Some ([], st)
                    else Some (l, modify keyid (\<lambda>k. k\<lparr>sk_gotsigs := True\<rparr>)
                      (add_signs keyid l (modify keyid (\<lambda>k. k\<lparr>sk_sigs := l, sk_revoked := revd\<rparr>) st))) }
      | None \<Rightarrow>
          do { (l, revd, st) \<leftarrow> generic_getkeysigs ops d keyid False st;
               if l = [] then Some ([], st)
               else Some (l, modify keyid (\<lambda>k. k\<lparr>sk_gotsigs := True\<rparr>)
                 (add_signs keyid l (modify keyid (\<lambda>k. k\<lparr>sk_sigs := l, sk_revoked := revd\<rparr>)
                   (createandaddtohash st keyid)))) })"

section \<open>The table as a map\<close>

definition hash_ok :: "hash_state \<Rightarrow> bool" where
  "hash_ok st \<longleftrightarrow> length (hashtable st) = 1024 \<and> elements st = length (concat (hashtable st)) \<and>
     (\<forall>i < 1024. distinct (map sk_keyid (hashtable st ! i)) \<and> (\<forall>k \<in> set (hashtable st ! i). hash_index (sk_keyid k) = i))"

lemma hash_index_less [simp]: "hash_index keyid < 1024"
proof -
  have "keyid AND 0x3FF \<le> 0x3FF" by (rule word_and_le1)
  then have "unat (keyid AND 0x3FF) \<le> unat (0x3FF :: u64)" by (simp add: word_le_nat_alt)
  then show ?thesis by (simp add: hash_index_def)
qed

lemma findinhash_eq: "findinhash st keyid = find (\<lambda>k. sk_keyid k = keyid) (hashtable st ! hash_index keyid)"
  by (simp add: findinhash_def llfind_eq stats_key_cmp_def [abs_def] if_distrib cong: if_cong)

lemma findinhash_keyid: "findinhash st i = Some k \<Longrightarrow> sk_keyid k = i"
  by (auto simp: findinhash_eq find_Some_iff)

lemma inithash_ok: "hash_ok inithash" "findinhash inithash i = None"
  by (simp_all add: hash_ok_def inithash_def findinhash_eq)

lemma length_concat_update:
  "i < length ll \<Longrightarrow> length (concat (ll[i := l])) + length (ll ! i) = length (concat ll) + length l"
  by (induction ll arbitrary: i) (auto split: nat.split)

lemma addtohash_ok:
  assumes "hash_ok st" and "findinhash st (sk_keyid k) = None"
  shows "hash_ok (addtohash st k)"
proof -
  let ?i = "hash_index (sk_keyid k)"
  have "length (concat ((hashtable st)[?i := k # hashtable st ! ?i])) = length (concat (hashtable st)) + 1"
    using length_concat_update [of ?i "hashtable st" "k # hashtable st ! ?i"] assms(1) by (simp add: hash_ok_def)
  moreover have "sk_keyid k \<notin> sk_keyid ` set (hashtable st ! ?i)"
    using assms(2) by (auto simp: findinhash_eq find_None_iff)
  ultimately show ?thesis
    using assms(1) by (auto simp: hash_ok_def addtohash_def lladd_def Let_def nth_list_update)
qed

lemma findinhash_addtohash:
  assumes "hash_ok st"
  shows "findinhash (addtohash st k) j = (if j = sk_keyid k then Some k else findinhash st j)"
  using assms by (auto simp: findinhash_eq addtohash_def lladd_def Let_def nth_list_update hash_ok_def)

lemma create_lookup:
  assumes "hash_ok st"
  shows "findinhash (createandaddtohash st i) j =
    (if j = i \<and> findinhash st i = None then Some (new_stats_key i) else findinhash st j)"
  using assms by (auto simp: createandaddtohash_def findinhash_addtohash new_stats_key_def)

lemma create_ok: "hash_ok st \<Longrightarrow> hash_ok (createandaddtohash st i)"
  by (simp add: createandaddtohash_def addtohash_ok new_stats_key_def)

lemma update_key_props:
  assumes "\<And>k. sk_keyid (f k) = sk_keyid k"
  shows "map sk_keyid (update_key i f l) = map sk_keyid l" "length (update_key i f l) = length l"
    "find (\<lambda>k. sk_keyid k = j) (update_key i f l) =
       (if j = i then map_option f (find (\<lambda>k. sk_keyid k = i) l) else find (\<lambda>k. sk_keyid k = j) l)"
  using assms by (induction l) auto

lemma modify_lookup:
  assumes "hash_ok st" and "\<And>k. sk_keyid (f k) = sk_keyid k"
  shows "findinhash (modify i f st) j = (if j = i then map_option f (findinhash st i) else findinhash st j)"
proof -
  have f: "hash_index i < length (hashtable st)" using assms(1) by (simp add: hash_ok_def)
  then show ?thesis
    using update_key_props(3) [OF assms(2)]
    by (auto simp: findinhash_eq modify_def Let_def nth_list_update)
qed

lemma modify_ok:
  assumes "hash_ok st" and "\<And>k. sk_keyid (f k) = sk_keyid k"
  shows "hash_ok (modify i f st)"
proof -
  let ?l = "hashtable st ! hash_index i" and ?n = "hash_index i"
  note u = update_key_props [OF assms(2)]
  have "sk_keyid ` set (update_key i f ?l) = sk_keyid ` set ?l" using u(1) by (metis set_map)
  have "\<forall>k \<in> set (update_key i f ?l). hash_index (sk_keyid k) = ?n"
  proof
    fix k assume "k \<in> set (update_key i f ?l)"
    then have "sk_keyid k \<in> sk_keyid ` set ?l" using \<open>sk_keyid ` set (update_key i f ?l) = _\<close> by blast
    moreover have "\<forall>k \<in> set ?l. hash_index (sk_keyid k) = ?n" using assms(1) by (simp add: hash_ok_def)
    ultimately show "hash_index (sk_keyid k) = ?n" by auto
  qed
  moreover have "length (concat ((hashtable st)[?n := update_key i f ?l])) = length (concat (hashtable st))"
    using length_concat_update [of ?n "hashtable st" "update_key i f ?l"] assms(1) u(2) by (simp add: hash_ok_def)
  ultimately show ?thesis
    using assms(1) u(1) [of i ?l] by (auto simp: hash_ok_def modify_def Let_def nth_list_update)
qed

section \<open>What the cache promises\<close>

text \<open>An object that is not in the table yet counts as one with the initial values.\<close>

definition entry :: "hash_state \<Rightarrow> u64 \<Rightarrow> stats_key" where
  "entry st i = (case findinhash st i of None \<Rightarrow> new_stats_key i | Some k \<Rightarrow> k)"

definition present :: "hash_state \<Rightarrow> u64 \<Rightarrow> bool" where
  "present st i \<longleftrightarrow> findinhash st i \<noteq> None"

text \<open>Loading the signatures on key \<open>i\<close> changes marks and flags of no object, but for the revocation of \<open>i\<close>.\<close>

definition loads :: "u64 \<Rightarrow> hash_state \<Rightarrow> hash_state \<Rightarrow> bool" where
  "loads i st st' \<longleftrightarrow> (\<forall>j. (present st j \<longrightarrow> present st' j) \<and> sk_colour (entry st' j) = sk_colour (entry st j) \<and>
     sk_parent (entry st' j) = sk_parent (entry st j) \<and> sk_disabled (entry st' j) = sk_disabled (entry st j) \<and>
     (j \<noteq> i \<longrightarrow> sk_revoked (entry st' j) = sk_revoked (entry st j)))"

lemma loads_refl: "loads i st st"
  by (simp add: loads_def)

lemma entry_present: "present st i \<Longrightarrow> findinhash st i = Some (entry st i)"
  by (auto simp: entry_def present_def)

lemma entry_modify:
  assumes "hash_ok st" and "\<And>k. sk_keyid (f k) = sk_keyid k"
  shows "entry (modify i f st) j = (if j = i \<and> present st i then f (entry st i) else entry st j)"
    and "present (modify i f st) j = present st j"
  using modify_lookup [OF assms, of i j] by (auto simp: entry_def present_def split: option.split)

lemma entry_create:
  "hash_ok st \<Longrightarrow> entry (createandaddtohash st i) j = entry st j"
  "hash_ok st \<Longrightarrow> present (createandaddtohash st i) j \<longleftrightarrow> j = i \<or> present st j"
  using create_lookup [of st i j] by (auto simp: entry_def present_def split: option.split)

text \<open>The key ids that the signatures on the user ids of a key state, the last one first.\<close>

definition signers_of :: "'d keydb_ops \<Rightarrow> 'd \<Rightarrow> u64 \<Rightarrow> u64 list" where
  "signers_of ops d i =
     (if i = 0 then []
      else case db_fetch_key_id ops d i [] False of
        Some (_, key # _) \<Rightarrow> rev (map (\<lambda>p. the (sig_keyid p)) (concat (map sp_sigs (uids key))))
      | _ \<Rightarrow> [])"

definition db_readable :: "'d keydb_ops \<Rightarrow> 'd \<Rightarrow> bool" where
  "db_readable ops d \<longleftrightarrow> (\<forall>i. \<exists>n keys. db_fetch_key_id ops d i [] False = Some (n, keys) \<and>
     (case keys of [] \<Rightarrow> True | key # _ \<Rightarrow> \<forall>u \<in> set (uids key). \<forall>p \<in> set (sp_sigs u). sig_keyid p \<noteq> None))"

text \<open>What is cached are the signers, and their objects exist.\<close>

definition cache_good :: "(u64 \<Rightarrow> u64 list) \<Rightarrow> hash_state \<Rightarrow> bool" where
  "cache_good signers st \<longleftrightarrow> hash_ok st \<and>
     (\<forall>i k. findinhash st i = Some k \<and> sk_gotsigs k \<longrightarrow> sk_sigs k = signers i \<and> (\<forall>s \<in> set (signers i). present st s))"

lemma create_signers_spec:
  assumes "hash_ok st" and "\<forall>p \<in> set ps. sig_keyid p \<noteq> None"
  shows "\<exists>st'. create_signers st l ps = Some (rev (map (\<lambda>p. the (sig_keyid p)) ps) @ l, st') \<and> hash_ok st' \<and>
    (\<forall>j. entry st' j = entry st j) \<and> (\<forall>j. present st' j \<longleftrightarrow> j \<in> (\<lambda>p. the (sig_keyid p)) ` set ps \<or> present st j)"
  using assms
proof (induction ps arbitrary: st l)
  case (Cons p ps)
  then obtain i where i: "sig_keyid p = Some i" by auto
  from Cons.IH [OF create_ok [OF Cons.prems(1), of i], of "lladd l i"] Cons.prems
  show ?case by (auto simp: i lladd_def entry_create)
qed simp

lemma add_signs_spec:
  assumes "hash_ok st"
  shows "hash_ok (add_signs i l st) \<and> (\<exists>x. entry (add_signs i l st) j = (entry st j)\<lparr>sk_signs := x\<rparr>) \<and>
    present (add_signs i l st) j = present st j"
  using assms
proof (induction l arbitrary: st)
  case Nil
  then show ?case by (auto intro!: exI [of _ "sk_signs (entry st j)"])
next
  case (Cons s l)
  let ?st = "modify s (\<lambda>k. k\<lparr>sk_signs := lladd (sk_signs k) i\<rparr>) st"
  have ok: "hash_ok ?st" using Cons.prems by (intro modify_ok) simp_all
  have e: "entry ?st j = (if j = s \<and> present st s then (entry st s)\<lparr>sk_signs := lladd (sk_signs (entry st s)) i\<rparr> else entry st j)"
    "present ?st j = present st j"
    using entry_modify [OF Cons.prems, of "\<lambda>k. k\<lparr>sk_signs := lladd (sk_signs k) i\<rparr>" s j] by simp_all
  from Cons.IH [OF ok] obtain x where x: "entry (add_signs i l ?st) j = (entry ?st j)\<lparr>sk_signs := x\<rparr>"
    "hash_ok (add_signs i l ?st)" "present (add_signs i l ?st) j = present ?st j" by blast
  have "entry (add_signs i l ?st) j = (entry st j)\<lparr>sk_signs := x\<rparr>" using x(1) e(1) by (simp split: if_splits)
  then show ?case using x(2,3) e(2) by auto
qed

lemma getkeysigs_spec:
  assumes "db_readable ops d" and "hash_ok st" and "i \<noteq> 0"
  shows "\<exists>revd' st'. generic_getkeysigs ops d i revd st = Some (signers_of ops d i, revd', st') \<and> hash_ok st' \<and>
    (\<forall>j. entry st' j = entry st j) \<and> (\<forall>j. present st' j \<longleftrightarrow> j \<in> set (signers_of ops d i) \<or> present st j)"
proof -
  obtain n keys where keys: "db_fetch_key_id ops d i [] False = Some (n, keys)"
    "case keys of [] \<Rightarrow> True | key # _ \<Rightarrow> \<forall>u \<in> set (uids key). \<forall>p \<in> set (sp_sigs u). sig_keyid p \<noteq> None"
    using assms(1) unfolding db_readable_def by blast
  show ?thesis
  proof (cases keys)
    case Nil
    then show ?thesis using keys(1) assms(2) by (simp add: generic_getkeysigs_def signers_of_def)
  next
    case (Cons key rest)
    then have "\<forall>p \<in> set (concat (map sp_sigs (uids key))). sig_keyid p \<noteq> None" using keys(2) by auto
    from create_signers_spec [OF assms(2) this, of "[]"] obtain st' where
      "create_signers st [] (concat (map sp_sigs (uids key))) = Some (signers_of ops d i, st')" "hash_ok st'"
      "\<forall>j. entry st' j = entry st j" "\<forall>j. present st' j \<longleftrightarrow> j \<in> set (signers_of ops d i) \<or> present st j"
      using keys(1) Cons assms(3) by (auto simp: signers_of_def)
    then show ?thesis using keys(1) Cons by (simp add: generic_getkeysigs_def)
  qed
qed

text \<open>The assignments that store the signatures on a key.\<close>

definition store_sigs :: "u64 \<Rightarrow> u64 list \<Rightarrow> bool \<Rightarrow> hash_state \<Rightarrow> hash_state" where
  "store_sigs i l revd st = modify i (\<lambda>k. k\<lparr>sk_gotsigs := True\<rparr>)
     (add_signs i l (modify i (\<lambda>k. k\<lparr>sk_sigs := l, sk_revoked := revd\<rparr>) st))"

lemma store_sigs_spec:
  assumes "hash_ok st" and "present st i"
  shows "hash_ok (store_sigs i l revd st)" and "present (store_sigs i l revd st) j = present st j"
    and "\<exists>x. entry (store_sigs i l revd st) j =
      (if j = i then (entry st i)\<lparr>sk_sigs := l, sk_revoked := revd, sk_signs := x, sk_gotsigs := True\<rparr>
       else (entry st j)\<lparr>sk_signs := x\<rparr>)"
proof -
  let ?f = "\<lambda>k. k\<lparr>sk_sigs := l, sk_revoked := revd\<rparr>" and ?g = "\<lambda>k. k\<lparr>sk_gotsigs := True\<rparr>"
  let ?st1 = "modify i ?f st" let ?st2 = "add_signs i l ?st1"
  have ok1: "hash_ok ?st1" by (rule modify_ok [OF assms(1)]) simp
  have e1: "entry ?st1 j = (if j = i then ?f (entry st i) else entry st j)" "present ?st1 j = present st j" for j
    using entry_modify [OF assms(1), of ?f i j] assms(2) by simp_all
  note a = add_signs_spec [OF ok1, of i l]
  have e2: "entry (store_sigs i l revd st) j = (if j = i then ?g (entry ?st2 i) else entry ?st2 j)"
    "present (store_sigs i l revd st) j = present ?st2 j" for j
    using entry_modify [of ?st2 ?g i j] a [of i] e1(2) [of i] assms(2) by (simp_all add: store_sigs_def)
  show "hash_ok (store_sigs i l revd st)" unfolding store_sigs_def using a by (intro modify_ok) simp_all
  show "present (store_sigs i l revd st) j = present st j" using e2(2) a [of j] e1(2) by simp
  obtain x where "entry ?st2 j = (entry ?st1 j)\<lparr>sk_signs := x\<rparr>" using a [of j] by blast
  then show "\<exists>x. entry (store_sigs i l revd st) j =
      (if j = i then (entry st i)\<lparr>sk_sigs := l, sk_revoked := revd, sk_signs := x, sk_gotsigs := True\<rparr>
       else (entry st j)\<lparr>sk_signs := x\<rparr>)"
    using e2(1) [of j] e1(1) [of j] by (intro exI [of _ x]) (cases "j = i"; simp)
qed

lemma store_sigs_good:
  assumes "cache_good signers st" and "present st i" and "\<forall>s \<in> set (signers i). present st s"
  shows "cache_good signers (store_sigs i (signers i) revd st)" and "loads i st (store_sigs i (signers i) revd st)"
proof -
  have ok: "hash_ok st" using assms(1) by (simp add: cache_good_def)
  note spec = store_sigs_spec [OF ok assms(2), of "signers i" revd]
  let ?st = "store_sigs i (signers i) revd st"
  show "loads i st ?st"
    unfolding loads_def
  proof (intro allI)
    fix j
    obtain x where "entry ?st j = (if j = i then (entry st i)\<lparr>sk_sigs := signers i, sk_revoked := revd, sk_signs := x, sk_gotsigs := True\<rparr>
       else (entry st j)\<lparr>sk_signs := x\<rparr>)" using spec(3) [of j] by blast
    then show "(present st j \<longrightarrow> present ?st j) \<and> sk_colour (entry ?st j) = sk_colour (entry st j) \<and>
      sk_parent (entry ?st j) = sk_parent (entry st j) \<and> sk_disabled (entry ?st j) = sk_disabled (entry st j) \<and>
      (j \<noteq> i \<longrightarrow> sk_revoked (entry ?st j) = sk_revoked (entry st j))"
      using spec(2) [of j] by simp
  qed
  have "sk_sigs k = signers j \<and> (\<forall>s \<in> set (signers j). present ?st s)"
    if "findinhash ?st j = Some k" "sk_gotsigs k" for j k
  proof -
    have p: "present st j" "k = entry ?st j" using that(1) spec(2) [of j] by (auto simp: present_def entry_def)
    obtain x where e: "entry ?st j = (if j = i then (entry st i)\<lparr>sk_sigs := signers i, sk_revoked := revd, sk_signs := x, sk_gotsigs := True\<rparr>
       else (entry st j)\<lparr>sk_signs := x\<rparr>)" using spec(3) [of j] by blast
    show ?thesis
    proof (cases "j = i")
      case True
      then show ?thesis using p(2) e assms(3) spec(2) by simp
    next
      case False
      then have "sk_gotsigs (entry st j)" "sk_sigs k = sk_sigs (entry st j)" using p(2) e that(2) by simp_all
      then show ?thesis using assms(1) entry_present [OF p(1)] spec(2) by (auto simp: cache_good_def)
    qed
  qed
  then show "cache_good signers ?st" using spec(1) unfolding cache_good_def by blast
qed

lemma create_present: "present st i \<Longrightarrow> createandaddtohash st i = st"
  by (auto simp: createandaddtohash_def present_def)

text \<open>Objects with the initial values do not disturb the cache.\<close>

lemma cache_good_extend:
  assumes "cache_good signers st" and "hash_ok st'" and "\<forall>j. entry st' j = entry st j" and "\<forall>j. present st j \<longrightarrow> present st' j"
  shows "cache_good signers st'" and "loads i st st'"
proof -
  have "sk_sigs k = signers j \<and> (\<forall>s \<in> set (signers j). present st' s)" if k: "findinhash st' j = Some k" "sk_gotsigs k" for j k
  proof -
    have "entry st j = k" using k(1) assms(3) by (metis entry_def option.simps(5))
    then have "findinhash st j = Some k"
      using k(2) by (cases "findinhash st j") (auto simp: entry_def new_stats_key_def)
    then show ?thesis using assms(1,4) k(2) unfolding cache_good_def by blast
  qed
  then show "cache_good signers st'" using assms(2) unfolding cache_good_def by blast
  show "loads i st st'" using assms(3,4) by (simp add: loads_def)
qed

lemma loads_trans: "loads i st st1 \<Longrightarrow> loads i st1 st2 \<Longrightarrow> loads i st st2"
  unfolding loads_def by (metis (no_types, lifting))

lemma cached_getkeysigs_spec:
  assumes "db_readable ops d" and "cache_good (signers_of ops d) st"
  shows "\<exists>st'. generic_cached_getkeysigs ops d i st = Some (signers_of ops d i, st') \<and>
    cache_good (signers_of ops d) st' \<and> loads i st st' \<and> (\<forall>s \<in> set (signers_of ops d i). present st' s)"
proof (cases "i = 0")
  case True
  then show ?thesis using assms(2) by (simp add: generic_cached_getkeysigs_def signers_of_def loads_refl)
next
  case i: False
  let ?l = "signers_of ops d i"
  show ?thesis
  proof (cases "\<exists>k. findinhash st i = Some k \<and> sk_gotsigs k")
    case True
    then show ?thesis using assms(2) i by (auto simp: generic_cached_getkeysigs_def cache_good_def loads_refl)
  next
    case False
    have ok: "hash_ok st" using assms(2) by (simp add: cache_good_def)
    obtain revd st1 where st1: "generic_getkeysigs ops d i False st = Some (?l, revd, st1)" "hash_ok st1"
      "\<forall>j. entry st1 j = entry st j" "\<forall>j. present st1 j \<longleftrightarrow> j \<in> set ?l \<or> present st j"
      using getkeysigs_spec [OF assms(1) ok i, of False] by blast
    have g1: "cache_good (signers_of ops d) st1" "loads i st st1"
      using cache_good_extend [OF assms(2) st1(2,3)] st1(4) by simp_all
    let ?st2 = "createandaddtohash st1 i"
    have g2: "cache_good (signers_of ops d) ?st2" "loads i st1 ?st2" "present ?st2 i" "\<forall>s \<in> set ?l. present ?st2 s"
      using cache_good_extend [OF g1(1) create_ok [OF st1(2), of i]] st1(2,4) by (simp_all add: entry_create)
    note g3 = store_sigs_good [OF g2(1,3,4), of revd]
    have eq: "generic_cached_getkeysigs ops d i st = Some (?l, if ?l = [] then st1 else store_sigs i ?l revd ?st2)"
    proof (cases "findinhash st i")
      case None
      then show ?thesis using i st1(1) by (simp add: generic_cached_getkeysigs_def store_sigs_def)
    next
      case (Some k)
      then have "present st1 i" "\<not> sk_gotsigs k" using st1(4) False by (auto simp: present_def)
      then show ?thesis
        using i st1(1) Some create_present [of st1 i] by (simp add: generic_cached_getkeysigs_def store_sigs_def)
    qed
    show ?thesis
    proof (cases "?l = []")
      case True
      then show ?thesis using eq g1 by simp
    next
      case False
      have "loads i st (store_sigs i ?l revd ?st2)" using loads_trans [OF loads_trans [OF g1(2) g2(2)] g3(2)] .
      then show ?thesis
        using eq False g3(1) store_sigs_spec(2) [OF _ g2(3)] g2(1,4) by (simp add: cache_good_def)
    qed
  qed
qed

end
