(* ===== verification/Stats.thy ===== *)
theory Stats
  imports Key_Cache
begin

text \<open>
  Paths in the graph of signatures (\<open>stats.c\<close>): \<open>findpath\<close> and \<open>furthestkey\<close> search the signers of a key
  level by level and mark each key with its distance and the key that led to it.

  The two functions have the same loops; they differ in which keys they mark and in when they
  stop. \<open>seen\<close> lists the marked keys, the last one first: its length is the variable
  \<open>count\<close>, its head the variable \<open>max\<close>. \<open>getsigs\<close> is the function pointer \<open>cached_getkeysigs\<close>. The
  flag behind \<open>cleanup()\<close>, which a signal handler sets, stays false; degrees do not exceed the
  range of an \<open>int\<close>.
\<close>

section \<open>Operations\<close>

definition initcolour :: "bool \<Rightarrow> hash_state \<Rightarrow> hash_state" where
  "initcolour parent st = st\<lparr>hashtable := map (map (\<lambda>k. if parent then k\<lparr>sk_colour := 0, sk_parent := 0\<rparr>
     else k\<lparr>sk_colour := 0\<rparr>)) (hashtable st)\<rparr>"

definition mark :: "nat \<Rightarrow> u64 \<Rightarrow> stats_key \<Rightarrow> stats_key" where
  "mark degree parent k = k\<lparr>sk_colour := degree, sk_parent := parent\<rparr>"

text \<open>The test \<open>have->colour != 0\<close>; \<open>furthestkey\<close> has none.\<close>

definition found :: "u64 option \<Rightarrow> hash_state \<Rightarrow> bool option" where
  "found target st = (case target of None \<Rightarrow> Some False | Some have \<Rightarrow> map_option (\<lambda>k. sk_colour k \<noteq> 0) (findinhash st have))"

fun scan_sigs :: "(stats_key \<Rightarrow> bool) \<Rightarrow> u64 option \<Rightarrow> u64 \<Rightarrow> nat \<Rightarrow> u64 list \<Rightarrow> u64 list \<Rightarrow> u64 list \<Rightarrow> hash_state \<Rightarrow>
    (u64 list \<times> u64 list \<times> hash_state) option" where
  "scan_sigs admit target cur degree [] nextkeys seen st = Some (nextkeys, seen, st)"
| "scan_sigs admit target cur degree (s # l) nextkeys seen st =
     do { stop \<leftarrow> found target st;
          if stop then Some (nextkeys, seen, st)
          else do { k \<leftarrow> findinhash st s;
                    if admit k \<and> sk_colour k = 0
                    then scan_sigs admit target cur degree l (lladd nextkeys s) (s # seen) (modify s (mark degree cur) st)
                    else scan_sigs admit target cur degree l nextkeys seen st } }"

partial_function (option) search :: "(stats_key \<Rightarrow> bool) \<Rightarrow> u64 option \<Rightarrow>
    (u64 \<Rightarrow> hash_state \<Rightarrow> (u64 list \<times> hash_state) option) \<Rightarrow> nat \<Rightarrow> u64 list \<Rightarrow> u64 list \<Rightarrow> u64 list \<Rightarrow> hash_state \<Rightarrow>
    (u64 list \<times> hash_state) option" where
  "search admit target getsigs curdegree keys nextkeys seen st =
     (case keys of
        [] \<Rightarrow> Some (seen, st)
      | cur # ks \<Rightarrow>
          do { stop \<leftarrow> found target st;
               if stop then Some (seen, st)
               else do { k \<leftarrow> findinhash st cur;
                         (l, st) \<leftarrow> getsigs (sk_keyid k) st;
                         (nextkeys, seen, st) \<leftarrow> scan_sigs admit target (sk_keyid k) curdegree l nextkeys seen st;
                         if ks = [] then search admit target getsigs (curdegree + 1) nextkeys [] seen st
                         else search admit target getsigs curdegree ks nextkeys seen st } })"

definition findpath :: "(u64 \<Rightarrow> hash_state \<Rightarrow> (u64 list \<times> hash_state) option) \<Rightarrow> u64 \<Rightarrow> u64 \<Rightarrow> hash_state \<Rightarrow>
    (nat \<times> hash_state) option" where
  "findpath getsigs have want st =
     do { (seen, st) \<leftarrow> search (\<lambda>k. \<not> sk_disabled k \<and> \<not> sk_revoked k) (Some have) getsigs 1 (lladd [] want) [] [] st;
          Some (length seen, st) }"

definition furthestkey :: "(u64 \<Rightarrow> hash_state \<Rightarrow> (u64 list \<times> hash_state) option) \<Rightarrow> u64 option \<Rightarrow> hash_state \<Rightarrow>
    (u64 option \<times> hash_state) option" where
  "furthestkey getsigs have st =
     (case have of
        None \<Rightarrow> Some (None, st)
      | Some i \<Rightarrow> do { (seen, st) \<leftarrow> search (\<lambda>_. True) None getsigs 1 (lladd [] i) [] [] st;
                     Some (Some (case seen of [] \<Rightarrow> i | x # _ \<Rightarrow> x), st) })"

text \<open>
  \<open>dofindpath\<close>, without the text and markup of its output: a round reports the number of keys examined,
  the size of the table, the number of steps (0 if there is no path) and the key ids it prints. The two
  loops that follow the parents, one of which disables the keys between the two ends, are one.
\<close>

partial_function (option) print_path :: "u64 \<Rightarrow> u64 \<Rightarrow> u64 \<Rightarrow> u64 list \<Rightarrow> hash_state \<Rightarrow> (u64 list \<times> hash_state) option" where
  "print_path have want cur path st =
     (case findinhash st cur of
        None \<Rightarrow> Some (path, st)
      | Some k \<Rightarrow>
          if sk_keyid k = 0 then Some (path, st)
          else print_path have want (sk_parent k) (path @ [sk_keyid k])
            (if cur \<noteq> have \<and> cur \<noteq> want then modify cur (\<lambda>k. k\<lparr>sk_disabled := True\<rparr>) st else st))"

record path_report =
  examined :: nat
  in_hash :: nat
  path_steps :: nat
  path_keys :: "u64 list"

fun path_rounds :: "(u64 \<Rightarrow> hash_state \<Rightarrow> (u64 list \<times> hash_state) option) \<Rightarrow> u64 \<Rightarrow> u64 \<Rightarrow> nat \<Rightarrow> hash_state \<Rightarrow>
    (path_report list \<times> hash_state) option" where
  "path_rounds getsigs have want 0 st = Some ([], st)"
| "path_rounds getsigs have want (Suc n) st =
     do { (rec, st) \<leftarrow> findpath getsigs have want (initcolour True st);
          let st = modify want (\<lambda>k. k\<lparr>sk_parent := 0\<rparr>) st;
          k \<leftarrow> findinhash st have;
          if sk_colour k = 0 then
            Some ([\<lparr>examined = rec, in_hash = hashelements st, path_steps = 0, path_keys = []\<rparr>], st)
          else do { (path, st') \<leftarrow> print_path have want have [] st;
                    let report = \<lparr>examined = rec, in_hash = hashelements st, path_steps = sk_colour k, path_keys = path\<rparr>;
                    if sk_colour k = 1 then Some ([report], st')
                    else do { (reports, st') \<leftarrow> path_rounds getsigs have want n st'; Some (report # reports, st') } } }"

text \<open>The result is \<open>Inl\<close> and the key id for a key that is not found.\<close>

definition dofindpath :: "(u64 \<Rightarrow> hash_state \<Rightarrow> (u64 list \<times> hash_state) option) \<Rightarrow> u64 \<Rightarrow> u64 \<Rightarrow> nat \<Rightarrow> hash_state \<Rightarrow>
    ((u64 + path_report list) \<times> hash_state) option" where
  "dofindpath getsigs have want n st =
     do { (_, st) \<leftarrow> getsigs have st;
          (_, st) \<leftarrow> getsigs want st;
          if findinhash st have = None then Some (Inl have, st)
          else if findinhash st want = None then Some (Inl want, st)
          else do { (reports, st) \<leftarrow> path_rounds getsigs have want n st; Some (Inr reports, st) } }"

section \<open>Distances\<close>

text \<open>\<open>steps n x\<close>: a chain of \<open>n\<close> signatures leads from \<open>x\<close> to the key \<open>start\<close>, over allowed keys.\<close>

inductive steps :: "(u64 \<Rightarrow> u64 list) \<Rightarrow> (u64 \<Rightarrow> bool) \<Rightarrow> u64 \<Rightarrow> nat \<Rightarrow> u64 \<Rightarrow> bool" for signers allowed start where
  one: "x \<in> set (signers start) \<Longrightarrow> allowed x \<Longrightarrow> steps signers allowed start 1 x"
| more: "steps signers allowed start n y \<Longrightarrow> x \<in> set (signers y) \<Longrightarrow> allowed x \<Longrightarrow> steps signers allowed start (Suc n) x"

definition distance :: "(u64 \<Rightarrow> u64 list) \<Rightarrow> (u64 \<Rightarrow> bool) \<Rightarrow> u64 \<Rightarrow> nat \<Rightarrow> u64 \<Rightarrow> bool" where
  "distance signers allowed start n x \<longleftrightarrow>
     steps signers allowed start n x \<and> (\<forall>m < n. \<not> steps signers allowed start m x)"

lemma steps_pos: "steps signers allowed start n x \<Longrightarrow> 0 < n"
  by (induction rule: steps.induct) auto

lemma steps_allowed: "steps signers allowed start n x \<Longrightarrow> allowed x"
  by (induction rule: steps.induct) auto

section \<open>Scanning the signers of a key\<close>

abbreviation colour :: "hash_state \<Rightarrow> u64 \<Rightarrow> nat" where
  "colour st x \<equiv> sk_colour (entry st x)"

abbreviation parent :: "hash_state \<Rightarrow> u64 \<Rightarrow> u64" where
  "parent st x \<equiv> sk_parent (entry st x)"

definition stopped :: "u64 option \<Rightarrow> hash_state \<Rightarrow> bool" where
  "stopped target st = (case target of None \<Rightarrow> False | Some have \<Rightarrow> colour st have \<noteq> 0)"

lemma found_stopped: "pred_option (present st) target \<Longrightarrow> found target st = Some (stopped target st)"
  by (auto simp: found_def stopped_def entry_present split: option.split)

text \<open>Whether a key is marked depends on its flags only.\<close>

definition admits_flags :: "(stats_key \<Rightarrow> bool) \<Rightarrow> bool" where
  "admits_flags admit \<longleftrightarrow> (\<forall>k k'. sk_disabled k = sk_disabled k' \<and> sk_revoked k = sk_revoked k' \<longrightarrow> admit k = admit k')"

lemma admits_flagsD:
  "admits_flags admit \<Longrightarrow> sk_disabled k = sk_disabled k' \<Longrightarrow> sk_revoked k = sk_revoked k' \<Longrightarrow> admit k = admit k'"
  unfolding admits_flags_def by blast

text \<open>The effect of marking the keys \<open>ms\<close>.\<close>

definition marked :: "nat \<Rightarrow> u64 \<Rightarrow> u64 list \<Rightarrow> hash_state \<Rightarrow> hash_state \<Rightarrow> bool" where
  "marked degree cur ms st st' \<longleftrightarrow> (\<forall>j. present st' j = present st j \<and>
     entry st' j = (if j \<in> set ms then mark degree cur (entry st j) else entry st j))"

text \<open>
  What the search relies on: an invariant \<open>good\<close> of the table that marking keeps, and that
  loading the signers of a key returns them and changes no mark.
\<close>

locale signer_source =
  fixes getsigs :: "u64 \<Rightarrow> hash_state \<Rightarrow> (u64 list \<times> hash_state) option"
    and signers :: "u64 \<Rightarrow> u64 list"
    and good :: "hash_state \<Rightarrow> bool"
  assumes good_hash: "good st \<Longrightarrow> hash_ok st"
    and mark_law: "good st \<Longrightarrow> good (modify i (mark degree cur) st)"
    and get_law: "good st \<Longrightarrow> \<exists>st'. getsigs i st = Some (signers i, st') \<and> good st' \<and> loads i st st' \<and>
      (\<forall>s \<in> set (signers i). present st' s)"
begin

lemma marked_one:
  assumes "good st" and "present st s"
  shows "marked degree cur [s] st (modify s (mark degree cur) st)"
  using entry_modify [OF good_hash [OF assms(1)], of "mark degree cur" s] assms(2)
  by (simp add: marked_def mark_def)

lemma scan_sigs_spec:
  assumes "good st" and "pred_option (present st) target" and "\<forall>s \<in> set l. present st s"
    and "0 < degree" and "admits_flags admit"
  shows "\<exists>ms st'. scan_sigs admit target cur degree l nextkeys seen st = Some (rev ms @ nextkeys, rev ms @ seen, st') \<and>
    good st' \<and> marked degree cur ms st st' \<and> distinct ms \<and> set ms \<subseteq> set l \<and>
    (\<forall>m \<in> set ms. colour st m = 0 \<and> admit (entry st m)) \<and>
    (stopped target st' \<or> (\<forall>y \<in> set l. admit (entry st y) \<longrightarrow> colour st' y \<noteq> 0))"
  using assms(1-3)
proof (induction l arbitrary: nextkeys seen st)
  case Nil
  then show ?case by (intro exI [of _ "[]"] exI [of _ st]) (simp add: marked_def)
next
  case (Cons s l)
  have f: "found target st = Some (stopped target st)" by (rule found_stopped [OF Cons.prems(2)])
  have s: "findinhash st s = Some (entry st s)" using Cons.prems(3) entry_present by simp
  show ?case
  proof (cases "stopped target st")
    case True
    then show ?thesis using f Cons.prems(1) by (intro exI [of _ "[]"] exI [of _ st]) (simp add: marked_def)
  next
    case run: False
    show ?thesis
    proof (cases "admit (entry st s) \<and> colour st s = 0")
      case True
      let ?st = "modify s (mark degree cur) st"
      have m: "marked degree cur [s] st ?st" using marked_one [OF Cons.prems(1)] Cons.prems(3) by simp
      have p: "pred_option (present ?st) target" "\<forall>s \<in> set l. present ?st s"
        using m Cons.prems(2,3) by (auto simp: marked_def pred_option_def)
      obtain ms st' where ms: "scan_sigs admit target cur degree l (s # nextkeys) (s # seen) ?st =
          Some (rev ms @ s # nextkeys, rev ms @ s # seen, st')" "good st'" "marked degree cur ms ?st st'"
        "distinct ms" "set ms \<subseteq> set l" "\<forall>m \<in> set ms. colour ?st m = 0 \<and> admit (entry ?st m)"
        "stopped target st' \<or> (\<forall>y \<in> set l. admit (entry ?st y) \<longrightarrow> colour st' y \<noteq> 0)"
        using Cons.IH [OF mark_law [OF Cons.prems(1)] p] by blast
      have e: "entry ?st j = (if j = s then mark degree cur (entry st s) else entry st j)" for j
        using m by (simp add: marked_def)
      have "s \<notin> set ms" using ms(6) e [of s] assms(4) by (auto simp: mark_def)
      moreover have "marked degree cur (s # ms) st st'" using ms(3) m by (auto simp: marked_def mark_def)
      moreover have "admit (mark degree cur (entry st s)) = admit (entry st s)"
        by (rule admits_flagsD [OF assms(5)]) (simp_all add: mark_def)
      moreover have "colour st' s \<noteq> 0" using calculation(1) ms(3) e [of s] assms(4) by (simp add: marked_def mark_def)
      moreover have "colour ?st m = colour st m \<and> entry ?st m = entry st m" if "m \<in> set ms" for m
        using e [of m] that calculation(1) by auto
      ultimately show ?thesis
        using f s run True ms e
        by (intro exI [of _ "s # ms"] exI [of _ st']) (auto simp: lladd_def split: if_splits)
    next
      case False
      from Cons.IH [OF Cons.prems(1,2), of nextkeys seen] Cons.prems(3) obtain ms st' where
        ms: "scan_sigs admit target cur degree l nextkeys seen st = Some (rev ms @ nextkeys, rev ms @ seen, st')" "good st'"
        "marked degree cur ms st st'" "distinct ms" "set ms \<subseteq> set l" "\<forall>m \<in> set ms. colour st m = 0 \<and> admit (entry st m)"
        "stopped target st' \<or> (\<forall>y \<in> set l. admit (entry st y) \<longrightarrow> colour st' y \<noteq> 0)" by auto
      have "admit (entry st s) \<longrightarrow> colour st' s \<noteq> 0"
        using False ms(3) assms(4) by (auto simp: marked_def mark_def)
      then show ?thesis using f s run False ms by (intro exI [of _ ms] exI [of _ st']) auto
    qed
  qed
qed

end

section \<open>The invariant of the search\<close>

text \<open>
  A marked key has its distance as its mark and a signer relation to its parent, which is one step
  nearer. The second part says which keys are still to be expanded; \<open>d\<close> is the distance of those
  in \<open>keys\<close>, and a key is closed when all the allowed signers on it are marked. The start is
  not marked at the beginning and may be marked later; it is no step on a path.
\<close>

definition core :: "(u64 \<Rightarrow> u64 list) \<Rightarrow> (stats_key \<Rightarrow> bool) \<Rightarrow> (u64 \<Rightarrow> bool) \<Rightarrow> u64 \<Rightarrow> hash_state \<Rightarrow> bool" where
  "core signers admit allowed start st \<longleftrightarrow> (\<forall>x. x \<noteq> start \<longrightarrow>
     (if colour st x = 0 then admit (entry st x) = allowed x
      else distance signers allowed start (colour st x) x \<and> x \<in> set (signers (parent st x)) \<and>
        (if colour st x = 1 then parent st x = start
         else parent st x \<noteq> start \<and> Suc (colour st (parent st x)) = colour st x)))"

definition closed :: "(u64 \<Rightarrow> u64 list) \<Rightarrow> (u64 \<Rightarrow> bool) \<Rightarrow> hash_state \<Rightarrow> u64 \<Rightarrow> bool" where
  "closed signers allowed st x \<longleftrightarrow> (\<forall>y \<in> set (signers x). allowed y \<longrightarrow> colour st y \<noteq> 0)"

definition level :: "(u64 \<Rightarrow> u64 list) \<Rightarrow> (u64 \<Rightarrow> bool) \<Rightarrow> u64 \<Rightarrow> nat \<Rightarrow> u64 list \<Rightarrow> u64 list \<Rightarrow> hash_state \<Rightarrow> bool" where
  "level signers allowed start d keys nextkeys st \<longleftrightarrow>
     (\<forall>k \<in> set keys. present st k \<and> (k = start \<or> 0 < d \<and> colour st k = d)) \<and>
     (\<forall>k \<in> set nextkeys. present st k \<and> (k = start \<or> colour st k = Suc d)) \<and>
     (\<forall>x. x \<noteq> start \<longrightarrow> colour st x \<le> Suc d \<and> (colour st x = Suc d \<longrightarrow> x \<in> set nextkeys)) \<and>
     (\<forall>x. x \<noteq> start \<and> colour st x \<noteq> 0 \<and> colour st x \<le> d \<longrightarrow> x \<in> set keys \<or> closed signers allowed st x) \<and>
     (start \<in> set keys \<or> closed signers allowed st start) \<and> (0 < d \<longrightarrow> closed signers allowed st start) \<and>
     (\<forall>m x. steps signers allowed start m x \<and> m \<le> d \<longrightarrow> colour st x \<noteq> 0)"

definition seen_ok :: "nat \<Rightarrow> u64 list \<Rightarrow> hash_state \<Rightarrow> bool" where
  "seen_ok d seen st \<longleftrightarrow> distinct seen \<and> (\<forall>x. colour st x \<noteq> 0 \<longleftrightarrow> x \<in> set seen) \<and> (\<forall>x. colour st x \<le> Suc d) \<and>
     sorted_wrt (\<lambda>a b. colour st b \<le> colour st a) seen"

lemma loads_same:
  assumes "loads i st st'"
  shows "colour st' = colour st" "parent st' = parent st" "present st j \<Longrightarrow> present st' j"
  using assms by (auto simp: loads_def)

text \<open>Loading signers keeps the invariant.\<close>

lemma core_loads:
  assumes "core signers admit allowed start st" and "loads i st st'" and "i = start \<or> colour st i \<noteq> 0"
    and "admits_flags admit"
  shows "core signers admit allowed start st'"
proof -
  note same = loads_same [OF assms(2)]
  have "admit (entry st' x) = admit (entry st x)" if "x \<noteq> start" "colour st x = 0" for x
  proof (rule admits_flagsD [OF assms(4)])
    have "x \<noteq> i" using assms(3) that by auto
    then show "sk_disabled (entry st' x) = sk_disabled (entry st x)" "sk_revoked (entry st' x) = sk_revoked (entry st x)"
      using assms(2) by (simp_all add: loads_def)
  qed
  then show ?thesis
    using assms(1) unfolding core_def fun_cong [OF same(1)] fun_cong [OF same(2)] by (simp cong: if_cong)
qed

lemma closed_loads: "loads i st st' \<Longrightarrow> closed signers allowed st' = closed signers allowed st"
  by (intro ext) (simp add: closed_def loads_def)

lemma level_loads:
  assumes "level signers allowed start d keys nextkeys st" and "loads i st st'"
  shows "level signers allowed start d keys nextkeys st'"
  using assms(1) loads_same [OF assms(2)] closed_loads [OF assms(2)] unfolding level_def by (simp add: fun_eq_iff)

lemma seen_loads: "seen_ok d seen st \<Longrightarrow> loads i st st' \<Longrightarrow> seen_ok d seen st'"
  by (simp add: seen_ok_def loads_def)

text \<open>Marks are only added.\<close>

lemma marked_colour:
  assumes "marked degree cur ms st st'"
  shows "colour st' x = (if x \<in> set ms then degree else colour st x)"
    and "parent st' x = (if x \<in> set ms then cur else parent st x)" and "present st' x = present st x"
  using assms by (simp_all add: marked_def mark_def)

lemma closed_marked: "closed signers allowed st x \<Longrightarrow> marked (Suc d) cur ms st st' \<Longrightarrow> closed signers allowed st' x"
  by (auto simp: closed_def marked_colour)

text \<open>Marking some of the allowed signers of a key of distance \<open>d\<close>.\<close>

lemma new_mark_distance:
  assumes core: "core signers admit allowed start st" and level: "level signers allowed start d keys nextkeys st"
    and cur: "cur \<in> set keys" and x: "x \<in> set (signers cur)" "colour st x = 0" "x \<noteq> start" "admit (entry st x)"
  shows "distance signers allowed start (Suc d) x" and "d = 0 \<Longrightarrow> cur = start" and "0 < d \<Longrightarrow> cur \<noteq> start \<and> colour st cur = d"
proof -
  have al: "allowed x" using core x by (simp add: core_def)
  have k: "cur = start \<or> 0 < d \<and> colour st cur = d" using level cur by (auto simp: level_def)
  have ns: "cur \<noteq> start" if "0 < d"
  proof
    assume "cur = start"
    moreover have "closed signers allowed st start" using level that by (simp add: level_def)
    ultimately show False using al x(1,2) by (auto simp: closed_def)
  qed
  then show "d = 0 \<Longrightarrow> cur = start" "0 < d \<Longrightarrow> cur \<noteq> start \<and> colour st cur = d" using k by auto
  have "steps signers allowed start (Suc d) x"
  proof (cases "d = 0")
    case True
    then show ?thesis using k steps.one [of x signers start allowed] x(1) al by simp
  next
    case False
    then have "distance signers allowed start d cur" using core k ns unfolding core_def by (metis False gr0I)
    then show ?thesis unfolding distance_def using steps.more [of signers allowed start d cur x] x(1) al by simp
  qed
  moreover have "\<forall>m y. steps signers allowed start m y \<and> m \<le> d \<longrightarrow> colour st y \<noteq> 0" using level by (simp add: level_def)
  then have "\<not> steps signers allowed start m x" if "m < Suc d" for m
    using x(2) that by (metis less_Suc_eq_le)
  ultimately show "distance signers allowed start (Suc d) x" by (simp add: distance_def)
qed

lemma core_marked:
  assumes core: "core signers admit allowed start st" and level: "level signers allowed start d keys nextkeys st"
    and cur: "cur \<in> set keys" and ms: "marked (Suc d) cur ms st st'" "set ms \<subseteq> set (signers cur)"
      "\<forall>m \<in> set ms. colour st m = 0 \<and> admit (entry st m)"
  shows "core signers admit allowed start st'"
  unfolding core_def
proof (intro allI impI)
  fix x assume x: "x \<noteq> start"
  note c = marked_colour [OF ms(1)]
  show "if colour st' x = 0 then admit (entry st' x) = allowed x
      else distance signers allowed start (colour st' x) x \<and> x \<in> set (signers (parent st' x)) \<and>
        (if colour st' x = 1 then parent st' x = start
         else parent st' x \<noteq> start \<and> Suc (colour st' (parent st' x)) = colour st' x)"
  proof (cases "x \<in> set ms")
    case True
    then have "x \<in> set (signers cur)" "colour st x = 0" "admit (entry st x)" using ms(2,3) by auto
    note new = new_mark_distance [OF core level cur this(1,2) x this(3)]
    have "colour st' cur = d" if "0 < d" using new(3) [OF that] ms(3) c(1) [of cur] that by auto
    then show ?thesis using True new ms(2) c(1,2) [of x] by auto
  next
    case False
    then have same: "colour st' x = colour st x" "parent st' x = parent st x" "entry st' x = entry st x"
      using c ms(1) by (simp_all add: marked_def)
    have px: "parent st x \<notin> set ms" if "colour st x \<noteq> 0" "colour st x \<noteq> 1"
      using core x that ms(3) by (auto simp: core_def split: if_splits)
    then have "colour st' (parent st x) = colour st (parent st x)" if "colour st x \<noteq> 0" "colour st x \<noteq> 1"
      using that c(1) by simp
    then show ?thesis using core x same unfolding core_def by auto
  qed
qed

lemma level_marked:
  assumes core: "core signers admit allowed start st" and level: "level signers allowed start d (cur # ks) nextkeys st"
    and ms: "marked (Suc d) cur ms st st'" "set ms \<subseteq> set (signers cur)" "\<forall>m \<in> set ms. colour st m = 0 \<and> admit (entry st m)"
    and pres: "\<forall>s \<in> set (signers cur). present st s"
    and all: "\<forall>y \<in> set (signers cur). admit (entry st y) \<longrightarrow> colour st' y \<noteq> 0"
    and allowed: "\<And>y. allowed y \<Longrightarrow> y \<noteq> start"
  shows "level signers allowed start d ks (rev ms @ nextkeys) st'"
proof -
  note c = marked_colour [OF ms(1)]
  have old: "colour st' x = colour st x" if "colour st x \<noteq> 0" for x using that ms(3) c(1) by auto
  have cl: "closed signers allowed st' cur"
    unfolding closed_def
  proof (intro ballI impI)
    fix y assume y: "y \<in> set (signers cur)" "allowed y"
    show "colour st' y \<noteq> 0"
    proof (cases "colour st y = 0")
      case True
      then have "admit (entry st y)" using core y allowed [OF y(2)] by (simp add: core_def)
      then show ?thesis using all y(1) by blast
    qed (use old in simp)
  qed
  note mono = closed_marked [OF _ ms(1)]
  have 1: "\<forall>k \<in> set ks. present st' k \<and> (k = start \<or> 0 < d \<and> colour st' k = d)"
    using level old c(3) by (auto simp: level_def)
  have 2: "\<forall>k \<in> set (rev ms @ nextkeys). present st' k \<and> (k = start \<or> colour st' k = Suc d)"
  proof
    fix k assume "k \<in> set (rev ms @ nextkeys)"
    then consider "k \<in> set ms" | "k \<in> set nextkeys" by auto
    then show "present st' k \<and> (k = start \<or> colour st' k = Suc d)"
    proof cases
      case 1
      then have "present st k" using ms(2) pres by blast
      then show ?thesis using 1 c by simp
    next
      case 2
      then have "present st k" "k = start \<or> colour st k = Suc d" using level by (auto simp: level_def)
      then show ?thesis using old [of k] c(3) by auto
    qed
  qed
  have 3: "\<forall>x. x \<noteq> start \<longrightarrow> colour st' x \<le> Suc d \<and> (colour st' x = Suc d \<longrightarrow> x \<in> set (rev ms @ nextkeys))"
    using level c(1) by (auto simp: level_def)
  have 4: "\<forall>x. x \<noteq> start \<and> colour st' x \<noteq> 0 \<and> colour st' x \<le> d \<longrightarrow> x \<in> set ks \<or> closed signers allowed st' x"
  proof (intro allI impI)
    fix x assume x: "x \<noteq> start \<and> colour st' x \<noteq> 0 \<and> colour st' x \<le> d"
    then have "colour st x \<noteq> 0 \<and> colour st x \<le> d" using c(1) [of x] by (auto split: if_splits)
    then have "x \<in> set (cur # ks) \<or> closed signers allowed st x" using level x unfolding level_def by blast
    then show "x \<in> set ks \<or> closed signers allowed st' x" using cl mono by auto
  qed
  have "start \<in> set (cur # ks) \<or> closed signers allowed st start" "0 < d \<longrightarrow> closed signers allowed st start"
    using level by (simp_all add: level_def)
  then have 5: "start \<in> set ks \<or> closed signers allowed st' start" "0 < d \<longrightarrow> closed signers allowed st' start"
    using cl mono by auto
  have 6: "\<forall>m x. steps signers allowed start m x \<and> m \<le> d \<longrightarrow> colour st' x \<noteq> 0"
    using level old unfolding level_def by simp
  show ?thesis unfolding level_def using 1 2 3 4 5 6 by blast
qed

lemma level_next:
  assumes core: "core signers admit allowed start st" and level: "level signers allowed start d [] nextkeys st"
    and allowed: "\<And>y. allowed y \<Longrightarrow> y \<noteq> start"
  shows "level signers allowed start (Suc d) nextkeys [] st"
proof -
  have le: "colour st y \<le> d" if "steps signers allowed start d y" for y
  proof -
    have "colour st y \<noteq> 0" "y \<noteq> start" using level that steps_allowed [OF that] allowed by (auto simp: level_def)
    then have "distance signers allowed start (colour st y) y" using core by (simp add: core_def)
    then show ?thesis using that by (meson distance_def not_le)
  qed
  have 6: "colour st x \<noteq> 0" if "steps signers allowed start m x" "m \<le> Suc d" for m x
  proof (cases "m \<le> d")
    case True
    then show ?thesis using level that by (auto simp: level_def)
  next
    case False
    then have "steps signers allowed start (Suc d) x" using that by (simp add: le_Suc_eq)
    then show ?thesis
    proof cases
      case one
      then show ?thesis using level by (auto simp: level_def closed_def)
    next
      case (more y)
      then have "y \<noteq> start" using steps_allowed [of signers allowed start d y] allowed by blast
      moreover have "colour st y \<noteq> 0" "colour st y \<le> d" using level le more by (auto simp: level_def)
      ultimately have "closed signers allowed st y" using level by (auto simp: level_def)
      then show ?thesis using more by (simp add: closed_def)
    qed
  qed
  have 3: "\<forall>x. x \<noteq> start \<longrightarrow> colour st x \<le> Suc (Suc d) \<and> colour st x \<noteq> Suc (Suc d)"
    using level unfolding level_def by (metis Suc_n_not_le_n le_SucI)
  show ?thesis
    using level 3 6 unfolding level_def by (auto simp: le_Suc_eq)
qed

lemma seen_marked:
  assumes "seen_ok d seen st" and "marked (Suc d) cur ms st st'" and "distinct ms" and "\<forall>m \<in> set ms. colour st m = 0"
  shows "seen_ok d (rev ms @ seen) st'"
proof -
  note c = marked_colour(1) [OF assms(2)]
  have new: "set ms \<inter> set seen = {}" using assms(1,4) unfolding seen_ok_def by (metis disjoint_iff)
  have "sorted_wrt (\<lambda>a b. colour st' b \<le> colour st' a) seen"
  proof (rule sorted_wrt_mono_rel)
    show "sorted_wrt (\<lambda>a b. colour st b \<le> colour st a) seen" using assms(1) by (simp add: seen_ok_def)
    fix x y assume "x \<in> set seen" "y \<in> set seen" "colour st y \<le> colour st x"
    then show "colour st' y \<le> colour st' x" using new c [of x] c [of y] by auto
  qed
  moreover have le: "colour st' x \<le> Suc d" for x
    using assms(1) c [of x] unfolding seen_ok_def by presburger
  moreover have "sorted_wrt (\<lambda>a b. colour st' b \<le> colour st' a) l" if "\<forall>x \<in> set l. colour st' x = Suc d" for l
    using that by (induction l) simp_all
  moreover have in_ms: "\<forall>x \<in> set (rev ms). colour st' x = Suc d" using c by simp
  ultimately have "sorted_wrt (\<lambda>a b. colour st' b \<le> colour st' a) (rev ms @ seen)"
    unfolding sorted_wrt_append by (metis le)
  moreover have "colour st' x \<noteq> 0 \<longleftrightarrow> x \<in> set (rev ms @ seen)" for x
    using assms(1) c [of x] unfolding seen_ok_def by auto
  ultimately show ?thesis
    using le assms(1,3) new unfolding seen_ok_def by auto
qed

lemma seen_next: "seen_ok d seen st \<Longrightarrow> seen_ok (Suc d) seen st"
  by (auto simp: seen_ok_def intro: le_SucI)

definition unmarked :: "hash_state \<Rightarrow> nat" where
  "unmarked st = card {x. colour st x = 0}"

lemma unmarked_marked:
  assumes "marked (Suc d) cur ms st st'" and "distinct ms" and "\<forall>m \<in> set ms. colour st m = 0"
  shows "unmarked st' + length ms = unmarked st"
proof -
  have "{x. colour st x = 0} = {x. colour st' x = 0} \<union> set ms" "{x. colour st' x = 0} \<inter> set ms = {}"
    using assms(3) marked_colour(1) [OF assms(1)] by auto
  then show ?thesis unfolding unmarked_def using assms(2) by (simp add: card_Un_disjoint distinct_card)
qed

context signer_source
begin

lemma search_result:
  assumes "good st" and "pred_option (present st) target" and "core signers admit allowed start st"
    and "level signers allowed start d keys nextkeys st" and "seen_ok d seen st" and "keys = [] \<longrightarrow> nextkeys = []"
    and "admits_flags admit" and "\<And>y. allowed y \<Longrightarrow> y \<noteq> start"
  shows "\<exists>seen' st' d'. search admit target getsigs (Suc d) keys nextkeys seen st = Some (seen', st') \<and> good st' \<and>
    core signers admit allowed start st' \<and> seen_ok d' seen' st' \<and>
    (\<forall>j. (present st j \<longrightarrow> present st' j) \<and> sk_disabled (entry st' j) = sk_disabled (entry st j)) \<and>
    (stopped target st' \<or> (\<forall>m x. steps signers allowed start m x \<longrightarrow> colour st' x \<noteq> 0))"
  using assms(1-6)
proof (induction "2 * unmarked st + length keys + length nextkeys" arbitrary: st d keys nextkeys seen rule: less_induct)
  case less
  show ?case
  proof (cases keys)
    case Nil
    have "colour st x \<noteq> 0" if "steps signers allowed start m x" for m x
      using that
    proof (induction rule: steps.induct)
      case (one x)
      then show ?case using less.prems(4) Nil by (auto simp: level_def closed_def)
    next
      case (more n y x)
      have "y \<noteq> start" using steps_allowed [OF more.hyps(1)] assms(8) by blast
      then have "closed signers allowed st y"
        using less.prems(4,6) Nil more.IH unfolding level_def by (metis le_Suc_eq list.set(1) empty_iff)
      then show ?case using more.hyps by (simp add: closed_def)
    qed
    then show ?thesis using Nil less.prems by (subst search.simps) auto
  next
    case (Cons cur ks)
    have f: "found target st = Some (stopped target st)" by (rule found_stopped [OF less.prems(2)])
    show ?thesis
    proof (cases "stopped target st")
      case True
      then show ?thesis using Cons f less.prems(1,3,5) by (subst search.simps) auto
    next
      case run: False
      have cur: "present st cur" "cur = start \<or> colour st cur \<noteq> 0" using less.prems(4) Cons by (auto simp: level_def)
      obtain k where k: "findinhash st cur = Some k" "sk_keyid k = cur"
        using entry_present [OF cur(1)] findinhash_keyid by blast
      obtain st1 where st1: "getsigs cur st = Some (signers cur, st1)" "good st1" "loads cur st st1"
        "\<forall>s \<in> set (signers cur). present st1 s" using get_law [OF less.prems(1)] by blast
      note same = loads_same [OF st1(3)]
      have t1: "pred_option (present st1) target" using less.prems(2) same(3) by (auto simp: pred_option_def)
      have c1: "core signers admit allowed start st1" using core_loads [OF less.prems(3) st1(3) cur(2) assms(7)] .
      have l1: "level signers allowed start d (cur # ks) nextkeys st1"
        using level_loads [OF less.prems(4) st1(3)] Cons by simp
      obtain ms st2 where ms: "scan_sigs admit target cur (Suc d) (signers cur) nextkeys seen st1 =
          Some (rev ms @ nextkeys, rev ms @ seen, st2)" "good st2" "marked (Suc d) cur ms st1 st2" "distinct ms"
        "set ms \<subseteq> set (signers cur)" "\<forall>m \<in> set ms. colour st1 m = 0 \<and> admit (entry st1 m)"
        "stopped target st2 \<or> (\<forall>y \<in> set (signers cur). admit (entry st1 y) \<longrightarrow> colour st2 y \<noteq> 0)"
        using scan_sigs_spec [OF st1(2) t1 st1(4) _ assms(7), of "Suc d" cur nextkeys seen] by auto
      have c2: "core signers admit allowed start st2" using core_marked [OF c1 l1 _ ms(3,5,6)] by simp
      have s2: "seen_ok d (rev ms @ seen) st2"
        using seen_marked [OF seen_loads [OF less.prems(5) st1(3)] ms(3,4)] ms(6) by blast
      have "sk_disabled (entry st2 j) = sk_disabled (entry st j)" for j
        using st1(3) ms(3) by (auto simp: marked_def mark_def loads_def)
      then have t2: "pred_option (present st2) target"
        "\<forall>j. (present st j \<longrightarrow> present st2 j) \<and> sk_disabled (entry st2 j) = sk_disabled (entry st j)"
        using t1 same(3) marked_colour(3) [OF ms(3)] by (auto simp: pred_option_def)
      have eq: "search admit target getsigs (Suc d) keys nextkeys seen st =
          (if ks = [] then search admit target getsigs (Suc (Suc d)) (rev ms @ nextkeys) [] (rev ms @ seen) st2
           else search admit target getsigs (Suc d) ks (rev ms @ nextkeys) (rev ms @ seen) st2)"
        using Cons f run k st1(1) ms(1) by (subst search.simps) simp
      show ?thesis
      proof (cases "stopped target st2")
        case True
        have "search admit target getsigs e l n (rev ms @ seen) st2 = Some (rev ms @ seen, st2)" for e l n
          using found_stopped [OF t2(1)] True by (subst search.simps) (auto split: list.split)
        then show ?thesis using eq ms(2) c2 s2 t2(2) True by auto
      next
        case False
        then have l2: "level signers allowed start d ks (rev ms @ nextkeys) st2"
          using ms(7) level_marked [OF c1 l1 ms(3,5,6) st1(4) _ assms(8)] by blast
        have "unmarked st1 = unmarked st" using same(1) by (simp add: unmarked_def fun_eq_iff)
        then have m: "unmarked st2 + length ms = unmarked st" using unmarked_marked [OF ms(3,4)] ms(6) by simp
        show ?thesis
        proof (cases "ks = []")
          case True
          have "2 * unmarked st2 + length (rev ms @ nextkeys) + length [] < 2 * unmarked st + length keys + length nextkeys"
            using m Cons by simp
          from less.hyps [OF this ms(2) t2(1) c2 level_next [OF c2 l2 [unfolded True] assms(8)] seen_next [OF s2]]
          show ?thesis using eq True t2(2) by auto
        next
          case False
          have "2 * unmarked st2 + length ks + length (rev ms @ nextkeys) < 2 * unmarked st + length keys + length nextkeys"
            using m Cons by simp
          from less.hyps [OF this ms(2) t2(1) c2 l2 s2] show ?thesis using eq False t2(2) by auto
        qed
      qed
    qed
  qed
qed

end

lemma core_parents:
  assumes "core signers admit allowed start st" and "x \<noteq> start" and "colour st x = Suc n"
  shows "(parent st ^^ Suc n) x = start \<and> (\<forall>k \<le> n. (parent st ^^ k) x \<noteq> start \<and> colour st ((parent st ^^ k) x) = Suc n - k \<and>
    (parent st ^^ k) x \<in> set (signers ((parent st ^^ Suc k) x)))"
  using assms(2,3)
proof (induction n arbitrary: x)
  case 0
  then have "parent st x = start" "x \<in> set (signers (parent st x))" using assms(1) by (auto simp: core_def)
  then show ?case using 0 by simp
next
  case (Suc n)
  let ?p = "parent st x"
  have p: "?p \<noteq> start" "colour st ?p = Suc n" "x \<in> set (signers ?p)"
    using assms(1) Suc.prems by (auto simp: core_def split: if_splits)
  note IH = Suc.IH [OF p(1,2)]
  have step: "(parent st ^^ Suc k) x = (parent st ^^ k) ?p" for k by (simp only: funpow_Suc_right comp_apply)
  have "(parent st ^^ Suc (Suc n)) x = start" unfolding step using IH by blast
  moreover have "(parent st ^^ k) x \<noteq> start \<and> colour st ((parent st ^^ k) x) = Suc (Suc n) - k \<and>
      (parent st ^^ k) x \<in> set (signers ((parent st ^^ Suc k) x))" if k: "k \<le> Suc n" for k
  proof (cases k)
    case 0
    then show ?thesis using p Suc.prems by simp
  next
    case (Suc m)
    then have "m \<le> n" using k by simp
    with IH have "(parent st ^^ m) ?p \<noteq> start \<and> colour st ((parent st ^^ m) ?p) = Suc n - m \<and>
        (parent st ^^ m) ?p \<in> set (signers ((parent st ^^ Suc m) ?p))" by blast
    then show ?thesis unfolding Suc step by simp
  qed
  ultimately show ?case by blast
qed

text \<open>The cache is a source of signers for the search.\<close>

lemma cache_good_modify:
  assumes "cache_good signers st" and f: "\<And>k. sk_keyid (f k) = sk_keyid k \<and> sk_sigs (f k) = sk_sigs k \<and> sk_gotsigs (f k) = sk_gotsigs k"
  shows "cache_good signers (modify i f st)"
proof -
  have ok: "hash_ok st" using assms(1) by (simp add: cache_good_def)
  have id: "sk_keyid (f k) = sk_keyid k" for k using f by blast
  have "sk_sigs k = signers j \<and> (\<forall>s \<in> set (signers j). present (modify i f st) s)"
    if k: "findinhash (modify i f st) j = Some k" "sk_gotsigs k" for j k
  proof -
    obtain k' where "findinhash st j = Some k'" "sk_gotsigs k'" "sk_sigs k' = sk_sigs k"
      using k modify_lookup [OF ok id, of i j] f by (auto split: if_splits)
    then show ?thesis using assms(1) entry_modify(2) [OF ok id] by (auto simp: cache_good_def)
  qed
  then show ?thesis using modify_ok [OF ok id] unfolding cache_good_def by blast
qed

lemma cache_good_mark: "cache_good signers st \<Longrightarrow> cache_good signers (modify i (mark degree cur) st)"
  by (erule cache_good_modify) (simp add: mark_def)

interpretation key_signers: signer_source "generic_cached_getkeysigs ops d" "signers_of ops d"
    "\<lambda>st. db_readable ops d \<and> cache_good (signers_of ops d) st" for ops d
proof
  fix st i degree cur
  assume g: "db_readable ops d \<and> cache_good (signers_of ops d) st"
  show "hash_ok st" using g by (simp add: cache_good_def)
  show "db_readable ops d \<and> cache_good (signers_of ops d) (modify i (mark degree cur) st)"
    using g cache_good_mark by blast
  show "\<exists>st'. generic_cached_getkeysigs ops d i st = Some (signers_of ops d i, st') \<and>
      (db_readable ops d \<and> cache_good (signers_of ops d) st') \<and> loads i st st' \<and> (\<forall>s \<in> set (signers_of ops d i). present st' s)"
    using cached_getkeysigs_spec [OF conjunct1 [OF g] conjunct2 [OF g], of i] g by simp
qed

section \<open>Properties\<close>

definition usable :: "hash_state \<Rightarrow> u64 \<Rightarrow> u64 \<Rightarrow> bool" where
  "usable st want x \<longleftrightarrow> x \<noteq> want \<and> \<not> sk_disabled (entry st x) \<and> \<not> sk_revoked (entry st x)"

lemma level_start:
  assumes "\<forall>x. colour st x = 0" and "present st start"
  shows "level signers allowed start 0 [start] [] st" and "seen_ok 0 [] st"
proof -
  have "\<not> (steps signers allowed start m x \<and> m \<le> 0)" for m x using steps_pos [of signers allowed start m x] by auto
  then show "level signers allowed start 0 [start] [] st" using assms unfolding level_def by simp
  show "seen_ok 0 [] st" using assms(1) by (simp add: seen_ok_def)
qed

lemma findpath_result:
  assumes "db_readable ops d" and "cache_good (signers_of ops d) st" and "present st have" and "present st want"
    and "\<forall>x. colour st x = 0"
  shows "\<exists>n st'. findpath (generic_cached_getkeysigs ops d) have want st = Some (n, st') \<and>
    cache_good (signers_of ops d) st' \<and>
    core (signers_of ops d) (\<lambda>k. \<not> sk_disabled k \<and> \<not> sk_revoked k) (usable st want) want st' \<and>
    (\<forall>j. (present st j \<longrightarrow> present st' j) \<and> sk_disabled (entry st' j) = sk_disabled (entry st j)) \<and>
    n = card {x. colour st' x \<noteq> 0} \<and>
    (colour st' have \<noteq> 0 \<or> (\<forall>m x. steps (signers_of ops d) (usable st want) want m x \<longrightarrow> colour st' x \<noteq> 0))"
proof -
  let ?admit = "\<lambda>k. \<not> sk_disabled k \<and> \<not> sk_revoked k"
  have "core (signers_of ops d) ?admit (usable st want) want st" using assms(5) by (simp add: core_def usable_def)
  moreover have "admits_flags ?admit" by (simp add: admits_flags_def)
  moreover have "pred_option (present st) (Some have)" using assms(3) by simp
  ultimately obtain seen' st' d' where r: "search ?admit (Some have) (generic_cached_getkeysigs ops d) (Suc 0) [want] [] [] st = Some (seen', st')"
    "cache_good (signers_of ops d) st'" "core (signers_of ops d) ?admit (usable st want) want st'" "seen_ok d' seen' st'"
    "\<forall>j. (present st j \<longrightarrow> present st' j) \<and> sk_disabled (entry st' j) = sk_disabled (entry st j)"
    "stopped (Some have) st' \<or> (\<forall>m x. steps (signers_of ops d) (usable st want) want m x \<longrightarrow> colour st' x \<noteq> 0)"
    using key_signers.search_result [OF _ _ _ level_start [OF assms(5,4)], of ops d "Some have" ?admit "usable st want"] assms(1,2)
    by (auto simp: usable_def)
  have "length seen' = card {x. colour st' x \<noteq> 0}"
    using r(4) distinct_card [of seen'] by (simp add: seen_ok_def)
  then show ?thesis using r by (auto simp: findpath_def lladd_def stopped_def)
qed

text \<open>The keys from \<open>x\<close> along the parents.\<close>

definition parent_path :: "hash_state \<Rightarrow> u64 \<Rightarrow> u64 list" where
  "parent_path st x = map (\<lambda>k. (parent st ^^ k) x) [0..<Suc (colour st x)]"

text \<open>Every key of the list signs the next one.\<close>

definition signs_along :: "(u64 \<Rightarrow> u64 list) \<Rightarrow> u64 list \<Rightarrow> bool" where
  "signs_along signers p \<longleftrightarrow> successively (\<lambda>x y. x \<in> set (signers y)) p"

lemma parent_path_signs:
  assumes "core signers admit allowed start st" and "x \<noteq> start" and "colour st x \<noteq> 0"
  shows "hd (parent_path st x) = x" "last (parent_path st x) = start" "length (parent_path st x) = Suc (colour st x)"
    "signs_along signers (parent_path st x)"
proof -
  obtain n where n: "colour st x = Suc n" using assms(3) by (cases "colour st x") auto
  note p = core_parents [OF assms(1,2) n]
  show "hd (parent_path st x) = x" unfolding parent_path_def by (subst upt_conv_Cons) simp_all
  show "last (parent_path st x) = start" using p unfolding parent_path_def n by simp
  show "length (parent_path st x) = Suc (colour st x)" by (simp add: parent_path_def)
  have "parent_path st x ! i \<in> set (signers (parent_path st x ! Suc i))" if "Suc i < length (parent_path st x)" for i
  proof -
    have "i \<le> n" using that n by (simp add: parent_path_def)
    then have "(parent st ^^ i) x \<in> set (signers ((parent st ^^ Suc i) x))" using p by blast
    then show ?thesis using that unfolding parent_path_def by (simp del: upt_Suc)
  qed
  then show "signs_along signers (parent_path st x)" unfolding signs_along_def successively_conv_nth by blast
qed

text \<open>
  C36. \<open>findpath\<close> finds a shortest path. On a database whose keys can be read, with a consistent cache and no marks,
  the search from \<open>want\<close> returns, counting the keys it marked. If the key \<open>have\<close> is left unmarked,
  no chain of signatures over usable keys leads from it to \<open>want\<close>; otherwise its mark is
  the length of the shortest such chain, and the parents lead along one: each key on it signs the next.
\<close>

theorem findpath_shortest:
  assumes "db_readable ops d" and "cache_good (signers_of ops d) st" and "present st have" and "present st want"
    and "\<forall>x. colour st x = 0" and "have \<noteq> want"
  shows "\<exists>n st'. findpath (generic_cached_getkeysigs ops d) have want st = Some (n, st') \<and>
    n = card {x. colour st' x \<noteq> 0} \<and>
    (if colour st' have = 0 then \<forall>m. \<not> steps (signers_of ops d) (usable st want) want m have
     else distance (signers_of ops d) (usable st want) want (colour st' have) have \<and>
       hd (parent_path st' have) = have \<and> last (parent_path st' have) = want \<and>
       length (parent_path st' have) = Suc (colour st' have) \<and> signs_along (signers_of ops d) (parent_path st' have))"
proof -
  obtain n st' where r: "findpath (generic_cached_getkeysigs ops d) have want st = Some (n, st')"
    "core (signers_of ops d) (\<lambda>k. \<not> sk_disabled k \<and> \<not> sk_revoked k) (usable st want) want st'"
    "n = card {x. colour st' x \<noteq> 0}"
    "colour st' have \<noteq> 0 \<or> (\<forall>m x. steps (signers_of ops d) (usable st want) want m x \<longrightarrow> colour st' x \<noteq> 0)"
    using findpath_result [OF assms(1-5)] by blast
  show ?thesis
  proof (cases "colour st' have = 0")
    case True
    then have "\<not> steps (signers_of ops d) (usable st want) want m have" for m using r(4) by blast
    then show ?thesis using r(1,3) True by auto
  next
    case False
    then have "distance (signers_of ops d) (usable st want) want (colour st' have) have"
      using r(2) assms(6) by (simp add: core_def)
    then show ?thesis using r(1,3) False parent_path_signs [OF r(2) assms(6) False] by auto
  qed
qed

section \<open>The paths that are printed\<close>

lemma initcolour_lookup:
  "findinhash (initcolour True st) j =
     (if hash_index j < length (hashtable st) then map_option (\<lambda>k. k\<lparr>sk_colour := 0, sk_parent := 0\<rparr>) (findinhash st j)
      else findinhash (initcolour True st) j)"
proof -
  have "find (\<lambda>k. sk_keyid k = j) (map (\<lambda>k. k\<lparr>sk_colour := 0, sk_parent := 0\<rparr>) l) =
      map_option (\<lambda>k. k\<lparr>sk_colour := 0, sk_parent := 0\<rparr>) (find (\<lambda>k. sk_keyid k = j) l)" for l :: "stats_key list"
    by (induction l) auto
  then show ?thesis by (simp add: findinhash_eq initcolour_def)
qed

lemma initcolour_good:
  assumes "cache_good signers st"
  shows "cache_good signers (initcolour True st)" and "present (initcolour True st) j = present st j"
    and "colour (initcolour True st) j = 0" and "sk_disabled (entry (initcolour True st) j) = sk_disabled (entry st j)"
proof -
  have ok: "hash_ok st" using assms by (simp add: cache_good_def)
  then have l: "findinhash (initcolour True st) i = map_option (\<lambda>k. k\<lparr>sk_colour := 0, sk_parent := 0\<rparr>) (findinhash st i)" for i
    using initcolour_lookup [of st i] by (simp add: hash_ok_def)
  show pres: "present (initcolour True st) j = present st j" for j using l by (simp add: present_def)
  show "colour (initcolour True st) j = 0" "sk_disabled (entry (initcolour True st) j) = sk_disabled (entry st j)"
    using l by (simp_all add: entry_def new_stats_key_def split: option.split)
  have "hash_ok (initcolour True st)"
    using ok by (auto simp: hash_ok_def initcolour_def length_concat comp_def)
  then show "cache_good signers (initcolour True st)" using assms l pres unfolding cache_good_def by auto
qed

text \<open>Following the parents to the end prints the path and disables what is between the two ends.\<close>

lemma print_path_end: "print_path have want 0 path st = Some (path, st)"
  using findinhash_keyid [of st 0] by (subst print_path.simps) (auto split: option.split)

lemma print_path_step:
  assumes "hash_ok st" and "present st x" and "x \<noteq> 0"
  shows "\<exists>st1. print_path have want x path st = print_path have want (parent st x) (path @ [x]) st1 \<and> hash_ok st1 \<and>
    parent st1 = parent st \<and> (\<forall>j. present st1 j = present st j \<and> entry st1 j =
      (if j = x \<and> x \<notin> {have, want} then (entry st j)\<lparr>sk_disabled := True\<rparr> else entry st j))"
proof -
  let ?f = "\<lambda>k. k\<lparr>sk_disabled := True\<rparr>"
  let ?st = "if x \<noteq> have \<and> x \<noteq> want then modify x ?f st else st"
  have st: "hash_ok ?st" "present ?st j = present st j"
    "entry ?st j = (if j = x \<and> x \<notin> {have, want} then ?f (entry st j) else entry st j)" for j
    using modify_ok [OF assms(1), of ?f x] entry_modify [OF assms(1), of ?f x j] assms(1,2) by auto
  have "parent ?st = parent st" using st(3) by (intro ext) simp
  moreover have k: "findinhash st x = Some (entry st x)" "sk_keyid (entry st x) = x"
    using entry_present [OF assms(2)] findinhash_keyid by auto
  have "print_path have want x path st = print_path have want (parent st x) (path @ [x]) ?st"
    using k assms(3) by (subst print_path.simps) simp
  ultimately show ?thesis using st by blast
qed

lemma print_path_result:
  assumes "hash_ok st" and "\<forall>k < n. present st ((parent st ^^ k) x) \<and> (parent st ^^ k) x \<noteq> 0" and "(parent st ^^ n) x = 0"
  shows "\<exists>st'. print_path have want x path st = Some (path @ map (\<lambda>k. (parent st ^^ k) x) [0..<n], st') \<and> hash_ok st' \<and>
    (\<forall>j. present st' j = present st j \<and> entry st' j =
      (if j \<in> set (map (\<lambda>k. (parent st ^^ k) x) [0..<n]) - {have, want} then (entry st j)\<lparr>sk_disabled := True\<rparr> else entry st j))"
  using assms
proof (induction n arbitrary: x path st)
  case 0
  then show ?case by (simp add: print_path_end)
next
  case (Suc n)
  let ?p = "parent st x"
  have x: "present st x" "x \<noteq> 0" using Suc.prems(2) [rule_format, of 0] by simp_all
  obtain st1 where st1: "print_path have want x path st = print_path have want ?p (path @ [x]) st1" "hash_ok st1"
    "parent st1 = parent st" "\<forall>j. present st1 j = present st j \<and> entry st1 j =
      (if j = x \<and> x \<notin> {have, want} then (entry st j)\<lparr>sk_disabled := True\<rparr> else entry st j)"
    using print_path_step [OF Suc.prems(1) x] by blast
  have sw: "(parent st ^^ k) ?p = (parent st ^^ Suc k) x" for k by (simp only: funpow_Suc_right comp_apply)
  have ih: "\<forall>k < n. present st1 ((parent st1 ^^ k) ?p) \<and> (parent st1 ^^ k) ?p \<noteq> 0" "(parent st1 ^^ n) ?p = 0"
    using Suc.prems(2,3) st1(4) unfolding st1(3) sw by auto
  obtain st' where st': "print_path have want ?p (path @ [x]) st1 =
      Some ((path @ [x]) @ map (\<lambda>k. (parent st ^^ k) ?p) [0..<n], st')" "hash_ok st'"
    "\<forall>j. present st' j = present st1 j \<and> entry st' j =
      (if j \<in> set (map (\<lambda>k. (parent st ^^ k) ?p) [0..<n]) - {have, want} then (entry st1 j)\<lparr>sk_disabled := True\<rparr> else entry st1 j)"
    using Suc.IH [OF st1(2) ih, of "path @ [x]"] unfolding st1(3) by blast
  have l: "map (\<lambda>k. (parent st ^^ k) x) [0..<Suc n] = x # map (\<lambda>k. (parent st ^^ k) ?p) [0..<n]"
    unfolding sw by (subst upt_conv_Cons) (simp_all del: upt_Suc add: map_Suc_upt [symmetric] comp_def)
  have "entry st' j = (if j \<in> set (map (\<lambda>k. (parent st ^^ k) x) [0..<Suc n]) - {have, want}
      then (entry st j)\<lparr>sk_disabled := True\<rparr> else entry st j)" for j
    unfolding l using st'(3) st1(4) by (auto simp del: set_map)
  then show ?case unfolding l using st1(1,4) st'(1-3) by (intro exI [of _ st']) simp
qed

lemma cache_good_same:
  assumes "cache_good signers st" and "hash_ok st'"
    and "\<forall>j. present st' j = present st j \<and> sk_sigs (entry st' j) = sk_sigs (entry st j) \<and> sk_gotsigs (entry st' j) = sk_gotsigs (entry st j)"
  shows "cache_good signers st'"
proof -
  have "sk_sigs k = signers j \<and> (\<forall>s \<in> set (signers j). present st' s)" if k: "findinhash st' j = Some k" "sk_gotsigs k" for j k
  proof -
    have "present st' j" "entry st' j = k" using k(1) by (simp_all add: present_def entry_def)
    then have "findinhash st j = Some (entry st j)" "sk_gotsigs (entry st j)" "sk_sigs (entry st j) = sk_sigs k"
      using assms(3) k(2) entry_present by auto
    then show ?thesis using assms(1,3) unfolding cache_good_def by auto
  qed
  then show ?thesis using assms(2) unfolding cache_good_def by blast
qed

lemma coloured_present: "colour st x \<noteq> 0 \<Longrightarrow> present st x"
  by (auto simp: entry_def present_def new_stats_key_def split: option.splits)

abbreviation interior :: "u64 \<Rightarrow> u64 \<Rightarrow> u64 list \<Rightarrow> u64 set" where
  "interior have want p \<equiv> set p - {have, want}"

text \<open>One round that finds a path: it is printed, and what is between its ends was usable and is disabled.\<close>

lemma print_found_path:
  assumes core: "core (signers_of ops d) admit (usable st want) want st1" and good: "cache_good (signers_of ops d) st1"
    and pw: "present st1 want" and ne: "have \<noteq> want" "have \<noteq> 0" and c: "colour st1 have \<noteq> 0"
  shows "\<exists>st3. print_path have want have [] (modify want (\<lambda>k. k\<lparr>sk_parent := 0\<rparr>) st1) = Some (parent_path st1 have, st3) \<and>
    cache_good (signers_of ops d) st3 \<and> (\<forall>j. present st3 j = present st1 j \<and>
      sk_disabled (entry st3 j) = (sk_disabled (entry st1 j) \<or> j \<in> interior have want (parent_path st1 have))) \<and>
    (\<forall>j \<in> interior have want (parent_path st1 have). usable st want j)"
proof -
  obtain n where n: "colour st1 have = Suc n" using c by (cases "colour st1 have") auto
  note p = core_parents [OF core ne(1) n]
  let ?f = "\<lambda>k. k\<lparr>sk_parent := 0\<rparr>" let ?st2 = "modify want ?f st1" let ?x = "\<lambda>k. (parent st1 ^^ k) have"
  have ok: "hash_ok st1" using good by (simp add: cache_good_def)
  have st2: "hash_ok ?st2" "cache_good (signers_of ops d) ?st2" "present ?st2 j = present st1 j"
    "entry ?st2 j = (if j = want then ?f (entry st1 j) else entry st1 j)" for j
    using modify_ok [OF ok, of ?f want] cache_good_modify [OF good, of ?f want] entry_modify [OF ok, of ?f want j] pw by auto
  have par: "parent ?st2 j = (if j = want then 0 else parent st1 j)" for j using st2(4) by simp
  have same: "(parent ?st2 ^^ k) have = ?x k" if "k \<le> Suc n" for k
    using that
  proof (induction k)
    case (Suc k)
    then have "?x k \<noteq> want" using p by auto
    with Suc show ?case using par [of "?x k"] by simp
  qed simp
  have last: "(parent ?st2 ^^ Suc (Suc n)) have = 0" using same [of "Suc n"] p par [of want] by simp
  have x0: "?x k \<noteq> 0" if "k \<le> Suc n" for k
  proof (cases k)
    case (Suc m)
    then have "?x m \<in> set (signers_of ops d (?x k))" using p that by auto
    then show ?thesis by (auto simp: signers_of_def)
  qed (use ne(2) in simp)
  have xp: "present st1 (?x k)" if "k \<le> Suc n" for k
    using that p pw coloured_present by (cases "k = Suc n") auto
  have "\<forall>k < Suc (Suc n). present ?st2 ((parent ?st2 ^^ k) have) \<and> (parent ?st2 ^^ k) have \<noteq> 0"
    using same x0 xp st2(3) by auto
  moreover have "map (\<lambda>k. (parent ?st2 ^^ k) have) [0..<Suc (Suc n)] = parent_path st1 have"
    unfolding parent_path_def n by (rule map_cong [OF refl], rule same) auto
  ultimately obtain st3 where st3: "print_path have want have [] ?st2 = Some (parent_path st1 have, st3)" "hash_ok st3"
    "\<forall>j. present st3 j = present ?st2 j \<and> entry st3 j =
      (if j \<in> interior have want (parent_path st1 have) then (entry ?st2 j)\<lparr>sk_disabled := True\<rparr> else entry ?st2 j)"
    using print_path_result [OF st2(1) _ last, of "have" want "[]"] by auto
  have "cache_good (signers_of ops d) st3" using cache_good_same [OF st2(2) st3(2)] st3(3) by simp
  moreover have "usable st want j" if j: "j \<in> interior have want (parent_path st1 have)" for j
  proof -
    have "j \<in> ?x ` {..<Suc (Suc n)}" using j unfolding parent_path_def n by (simp add: atLeast0LessThan del: funpow.simps upt_Suc)
    then obtain k where k: "k \<le> Suc n" "j = ?x k" unfolding lessThan_Suc_atMost by blast
    have "j \<noteq> want" using j by simp
    then have "k \<le> n" using k p by (cases "k = Suc n") auto
    then have "colour st1 j \<noteq> 0" using p k by simp
    then have "distance (signers_of ops d) (usable st want) want (colour st1 j) j" using core \<open>j \<noteq> want\<close> by (simp add: core_def)
    then show ?thesis unfolding distance_def using steps_allowed by blast
  qed
  ultimately show ?thesis using st3 st2(3,4) by auto
qed

definition report_ok :: "(u64 \<Rightarrow> u64 list) \<Rightarrow> u64 \<Rightarrow> u64 \<Rightarrow> path_report \<Rightarrow> bool" where
  "report_ok signers have want r \<longleftrightarrow> path_steps r = 0 \<and> path_keys r = [] \<or>
     length (path_keys r) = Suc (path_steps r) \<and> hd (path_keys r) = have \<and> last (path_keys r) = want \<and>
     signs_along signers (path_keys r)"

lemma path_rounds_result:
  assumes "db_readable ops d" and "cache_good (signers_of ops d) st" and "present st have" and "present st want"
    and ne: "have \<noteq> want" "have \<noteq> 0"
  shows "\<exists>reports st'. path_rounds (generic_cached_getkeysigs ops d) have want n st = Some (reports, st') \<and>
    length reports \<le> n \<and> list_all (report_ok (signers_of ops d) have want) reports \<and>
    sorted_wrt (\<lambda>r r'. interior have want (path_keys r) \<inter> interior have want (path_keys r') = {}) reports \<and>
    list_all (\<lambda>r. \<forall>j \<in> interior have want (path_keys r). \<not> sk_disabled (entry st j)) reports"
  using assms(2-4)
proof (induction n arbitrary: st)
  case (Suc n)
  let ?st0 = "initcolour True st" and ?g = "generic_cached_getkeysigs ops d"
  note init = initcolour_good [OF Suc.prems(1)]
  have p0: "present ?st0 have" "present ?st0 want" "\<forall>x. colour ?st0 x = 0" using init(2,3) Suc.prems(2,3) by simp_all
  obtain rec st1 where st1: "findpath ?g have want ?st0 = Some (rec, st1)" "cache_good (signers_of ops d) st1"
    "core (signers_of ops d) (\<lambda>k. \<not> sk_disabled k \<and> \<not> sk_revoked k) (usable ?st0 want) want st1"
    "\<forall>j. (present ?st0 j \<longrightarrow> present st1 j) \<and> sk_disabled (entry st1 j) = sk_disabled (entry ?st0 j)"
    using findpath_result [OF assms(1) init(1) p0] by blast
  have p1: "present st1 have" "present st1 want" using st1(4) p0 by blast+
  have dis: "sk_disabled (entry st1 j) = sk_disabled (entry st j)" for j using st1(4) init(4) by simp
  let ?f = "\<lambda>k. k\<lparr>sk_parent := 0\<rparr>" let ?st2 = "modify want ?f st1"
  have ok: "hash_ok st1" using st1(2) by (simp add: cache_good_def)
  have "findinhash ?st2 have = Some (entry ?st2 have)" "colour ?st2 have = colour st1 have"
    using entry_modify [OF ok, of ?f want "have"] entry_present [of ?st2 "have"] p1(1) ne(1) by simp_all
  note k = this
  show ?case
  proof (cases "colour st1 have = 0")
    case True
    then show ?thesis using st1(1) k by (simp add: report_ok_def Let_def)
  next
    case False
    obtain st3 where st3: "print_path have want have [] ?st2 = Some (parent_path st1 have, st3)"
      "cache_good (signers_of ops d) st3" "\<forall>j. present st3 j = present st1 j \<and>
        sk_disabled (entry st3 j) = (sk_disabled (entry st1 j) \<or> j \<in> interior have want (parent_path st1 have))"
      "\<forall>j \<in> interior have want (parent_path st1 have). usable ?st0 want j"
      using print_found_path [OF st1(3,2) p1(2) ne False] by blast
    let ?r = "\<lparr>examined = rec, in_hash = hashelements ?st2, path_steps = colour st1 have, path_keys = parent_path st1 have\<rparr>"
    have r: "report_ok (signers_of ops d) have want ?r"
      using parent_path_signs [OF st1(3) ne(1) False] by (simp add: report_ok_def)
    have r_free: "\<forall>j \<in> interior have want (parent_path st1 have). \<not> sk_disabled (entry st j)"
      using st3(4) init(4) by (simp add: usable_def)
    show ?thesis
    proof (cases "colour st1 have = 1")
      case True
      then show ?thesis using st1(1) k st3(1) r r_free by (simp add: Let_def)
    next
      case more: False
      have p3: "present st3 have" "present st3 want" using st3(3) p1 by simp_all
      obtain reports st' where rs: "path_rounds ?g have want n st3 = Some (reports, st')" "length reports \<le> n"
        "list_all (report_ok (signers_of ops d) have want) reports"
        "sorted_wrt (\<lambda>r r'. interior have want (path_keys r) \<inter> interior have want (path_keys r') = {}) reports"
        "list_all (\<lambda>r. \<forall>j \<in> interior have want (path_keys r). \<not> sk_disabled (entry st3 j)) reports"
        using Suc.IH [OF st3(2) p3] by blast
      have eq: "path_rounds ?g have want (Suc n) st = Some (?r # reports, st')"
        using st1(1) k st3(1) rs(1) False more by (simp add: Let_def)
      have "\<forall>r \<in> set reports. \<forall>j \<in> interior have want (path_keys r).
          \<not> sk_disabled (entry st j) \<and> j \<notin> interior have want (parent_path st1 have)"
        using rs(5) st3(3) dis by (simp add: list_all_iff)
      then show ?thesis unfolding eq using rs(2-4) r r_free by (fastforce simp: list_all_iff)
    qed
  qed
qed simp

text \<open>
  C37. \<open>dofindpath\<close> returns on a readable database with a consistent cache. Unless one of the two keys is missing,
  it makes at most \<open>n\<close> reports; each is either that there is no path, or a path from \<open>have\<close> to \<open>want\<close>
  with the number of steps that is printed, on which every key signs the next. No two of the paths share a key other
  than the two ends, and no path goes through a key that was disabled before.
\<close>

theorem dofindpath_paths:
  assumes "db_readable ops d" and "cache_good (signers_of ops d) st" and "have \<noteq> want" and "have \<noteq> 0"
  shows "\<exists>result st'. dofindpath (generic_cached_getkeysigs ops d) have want n st = Some (result, st') \<and>
    (case result of
       Inl i \<Rightarrow> i = have \<or> i = want
     | Inr reports \<Rightarrow> length reports \<le> n \<and> list_all (report_ok (signers_of ops d) have want) reports \<and>
         sorted_wrt (\<lambda>r r'. interior have want (path_keys r) \<inter> interior have want (path_keys r') = {}) reports \<and>
         list_all (\<lambda>r. \<forall>j \<in> interior have want (path_keys r). \<not> sk_disabled (entry st j)) reports)"
proof -
  let ?g = "generic_cached_getkeysigs ops d"
  obtain st1 where st1: "?g have st = Some (signers_of ops d have, st1)" "cache_good (signers_of ops d) st1" "loads have st st1"
    using cached_getkeysigs_spec [OF assms(1,2)] by blast
  obtain st2 where st2: "?g want st1 = Some (signers_of ops d want, st2)" "cache_good (signers_of ops d) st2" "loads want st1 st2"
    using cached_getkeysigs_spec [OF assms(1) st1(2)] by blast
  show ?thesis
  proof (cases "present st2 have \<and> present st2 want")
    case True
    obtain reports st' where r: "path_rounds ?g have want n st2 = Some (reports, st')"
      "length reports \<le> n" "list_all (report_ok (signers_of ops d) have want) reports"
      "sorted_wrt (\<lambda>r r'. interior have want (path_keys r) \<inter> interior have want (path_keys r') = {}) reports"
      "list_all (\<lambda>r. \<forall>j \<in> interior have want (path_keys r). \<not> sk_disabled (entry st2 j)) reports"
      using path_rounds_result [OF assms(1) st2(2) _ _ assms(3,4)] True by blast
    moreover have "sk_disabled (entry st2 j) = sk_disabled (entry st j)" for j using st1(3) st2(3) by (simp add: loads_def)
    ultimately show ?thesis using True st1(1) st2(1) by (auto simp: dofindpath_def present_def)
  next
    case False
    then show ?thesis using st1(1) st2(1) by (auto simp: dofindpath_def present_def)
  qed
qed

text \<open>
  \<open>furthestkey\<close> returns a key of the greatest mark. On a readable database with a consistent cache and no marks
  the search returns; every other key is marked with the length of the shortest chain
  of signatures from it to the key \<open>i\<close>, and left unmarked if there is none, and no mark exceeds that of the key
  that is returned.
\<close>

theorem furthestkey_max:
  assumes "db_readable ops d" and "cache_good (signers_of ops d) st" and "present st i" and "\<forall>x. colour st x = 0"
  shows "\<exists>far st'. furthestkey (generic_cached_getkeysigs ops d) (Some i) st = Some (Some far, st') \<and>
    (\<forall>x. colour st' x \<le> colour st' far) \<and>
    (\<forall>x. x \<noteq> i \<longrightarrow>
       (if colour st' x = 0 then \<forall>m. \<not> steps (signers_of ops d) (\<lambda>y. y \<noteq> i) i m x
        else distance (signers_of ops d) (\<lambda>y. y \<noteq> i) i (colour st' x) x))"
proof -
  have "core (signers_of ops d) (\<lambda>_. True) (\<lambda>y. y \<noteq> i) i st" using assms(4) by (simp add: core_def)
  moreover have "admits_flags (\<lambda>_. True)" by (simp add: admits_flags_def)
  ultimately obtain seen' st' d' where r: "search (\<lambda>_. True) None (generic_cached_getkeysigs ops d) (Suc 0) [i] [] [] st = Some (seen', st')"
    "core (signers_of ops d) (\<lambda>_. True) (\<lambda>y. y \<noteq> i) i st'" "seen_ok d' seen' st'"
    "stopped None st' \<or> (\<forall>m x. steps (signers_of ops d) (\<lambda>y. y \<noteq> i) i m x \<longrightarrow> colour st' x \<noteq> 0)"
    using key_signers.search_result [OF _ _ _ level_start [OF assms(4,3)], of ops d None "\<lambda>_. True" "\<lambda>y. y \<noteq> i"] assms(1,2)
    by auto
  let ?far = "case seen' of [] \<Rightarrow> i | x # _ \<Rightarrow> x"
  have eq: "furthestkey (generic_cached_getkeysigs ops d) (Some i) st = Some (Some ?far, st')"
    using r(1) by (simp add: furthestkey_def lladd_def)
  have max: "colour st' x \<le> colour st' ?far" for x
  proof (cases "x \<in> set seen'")
    case True
    then show ?thesis using r(3) by (cases seen') (auto simp: seen_ok_def)
  next
    case False
    then have "colour st' x = 0" using r(3) by (auto simp: seen_ok_def)
    then show ?thesis by simp
  qed
  have all: "\<not> steps (signers_of ops d) (\<lambda>y. y \<noteq> i) i m x" if "colour st' x = 0" for m x
    using r(4) that unfolding stopped_def option.simps by blast
  have dist: "distance (signers_of ops d) (\<lambda>y. y \<noteq> i) i (colour st' x) x" if "x \<noteq> i" "colour st' x \<noteq> 0" for x
    using r(2) that by (simp add: core_def)
  then show ?thesis using eq max all by (intro exI [of _ ?far] exI [of _ st']) auto
qed

section \<open>Examples\<close>

text \<open>A database for examples: its state gives for each key id whether the key is revoked, and who signs it.\<close>

definition v3_sig_by :: "u8 \<Rightarrow> openpgp_packet" where
  "v3_sig_by i = \<lparr>tag = 2, newformat = False, data = [3, 5, 16, 0, 0, 0, 1, 0, 0, 0, 0, 0, 0, 0, i, 1, 2, 0, 0]\<rparr>"

definition graph_key :: "bool \<Rightarrow> u8 list \<Rightarrow> openpgp_publickey" where
  "graph_key r l = \<lparr>publickey = sample_pubkey, revoked = r, sigs = [],
     uids = [\<lparr>sp_packet = \<lparr>tag = 13, newformat = False, data = [65]\<rparr>, sp_sigs = map v3_sig_by l\<rparr>], subkeys = []\<rparr>"

definition graph_ops :: "(u64 \<Rightarrow> bool \<times> u8 list) keydb_ops" where
  "graph_ops = \<lparr>db_starttrans = \<lambda>d. (True, d), db_endtrans = \<lambda>d. d,
     db_fetch_key_id = \<lambda>d i keys intrans.
       Some (if snd (d i) = [] then (0, keys) else (1, keys @ [graph_key (fst (d i)) (snd (d i))])),
     db_fetch_key_fp = \<lambda>d f keys intrans. Some (0, keys), db_store_key = \<lambda>d keys intrans update. Some (0, d)\<rparr>"

lemma sig_keyid_v3: "sig_keyid (v3_sig_by i) = Some (ucast i)"
proof -
  have "be_word [0, 0, 0, 0, 0, 0, 0, i] = ucast i" by (simp add: be_word_def)
  then show ?thesis by (simp add: sig_keyid_def sig_info_def v3_sig_by_def rds_def rd_def)
qed

declare search.simps [code] print_path.simps [code]


lemma graph_readable: "db_readable graph_ops d"
  by (auto simp: db_readable_def graph_ops_def graph_key_def sig_keyid_v3)

lemma two_keys_good:
  assumes "st = createandaddtohash (createandaddtohash inithash i) j"
  shows "cache_good signers st" and "present st i" and "present st j" and "\<forall>x. colour st x = 0"
proof -
  have ok: "hash_ok (createandaddtohash inithash i)" "hash_ok st" using assms create_ok inithash_ok(1) by simp_all
  have l: "findinhash st x = (if x = i \<or> x = j then Some (new_stats_key x) else None)" for x
    unfolding assms create_lookup [OF ok(1)] create_lookup [OF inithash_ok(1)] by (simp add: inithash_ok)
  show "present st i" "present st j" by (simp_all add: present_def l)
  show "\<forall>x. colour st x = 0" "cache_good signers st"
    using ok(2) by (auto simp: entry_def cache_good_def l new_stats_key_def split: if_splits)
qed

text \<open>The key 3 signs the key 2, which signs the key 1; the key 1 signs the key 3.\<close>

definition ring_graph :: "bool \<Rightarrow> u64 \<Rightarrow> bool \<times> u8 list" where
  "ring_graph revd i =
     (if i = 1 then (False, [2]) else if i = 2 then (revd, [3]) else (False, if i = 3 then [1] else []))"

lemma findpath_shortest_witness:
  "\<exists>st'. findpath (generic_cached_getkeysigs graph_ops (ring_graph False)) 3 1
      (createandaddtohash (createandaddtohash inithash 3) 1) = Some (2, st') \<and> colour st' 3 = 2 \<and>
    distance (signers_of graph_ops (ring_graph False)) (usable (createandaddtohash (createandaddtohash inithash 3) 1) 1) 1 2 3 \<and>
    signs_along (signers_of graph_ops (ring_graph False)) (parent_path st' 3)"
proof -
  let ?st = "createandaddtohash (createandaddtohash inithash 3) 1" and ?g = "generic_cached_getkeysigs graph_ops (ring_graph False)"
  have run: "map_option (\<lambda>(n, st). (n, colour st 3)) (findpath ?g 3 1 ?st) = Some (2, 2)" by code_simp
  note good = two_keys_good [of ?st 3 1, OF refl]
  show ?thesis
    using findpath_shortest [OF graph_readable good, of "ring_graph False"] run by auto
qed

lemma dofindpath_paths_witness:
  "\<exists>r st'. dofindpath (generic_cached_getkeysigs graph_ops (ring_graph False)) 3 1 1 inithash = Some (Inr [r], st') \<and>
    path_keys r = [3, 2, 1] \<and> report_ok (signers_of graph_ops (ring_graph False)) 3 1 r"
proof -
  let ?g = "generic_cached_getkeysigs graph_ops (ring_graph False)"
  have run: "map_option (\<lambda>(x, st). map_sum id (map path_keys) x) (dofindpath ?g 3 1 1 inithash) = Some (Inr [[3, 2, 1]])"
    by code_simp
  have "cache_good signers inithash" for signers by (simp add: cache_good_def inithash_ok)
  from dofindpath_paths [OF graph_readable this, of 3 1 "ring_graph False" 1] obtain result st'
    where r: "dofindpath ?g 3 1 1 inithash = Some (result, st')" and
      "case result of Inl i \<Rightarrow> i = 3 \<or> i = 1 | Inr l \<Rightarrow> length l \<le> 1 \<and>
         list_all (report_ok (signers_of graph_ops (ring_graph False)) 3 1) l \<and>
         sorted_wrt (\<lambda>r r'. interior 3 1 (path_keys r) \<inter> interior 3 1 (path_keys r') = {}) l \<and>
         list_all (\<lambda>r. \<forall>j \<in> interior 3 1 (path_keys r). \<not> sk_disabled (entry inithash j)) l"
    by auto
  then show ?thesis using run r by (cases result) auto
qed

lemma furthestkey_max_witness:
  "\<exists>st'. furthestkey (generic_cached_getkeysigs graph_ops (ring_graph False)) (Some 2)
      (createandaddtohash (createandaddtohash inithash 3) 2) = Some (Some 2, st') \<and>
    distance (signers_of graph_ops (ring_graph False)) (\<lambda>y. y \<noteq> 2) 2 (colour st' 1) 1"
proof -
  let ?st = "createandaddtohash (createandaddtohash inithash 3) 2" and ?g = "generic_cached_getkeysigs graph_ops (ring_graph False)"
  have run: "map_option (\<lambda>(x, st). (x, colour st 1)) (furthestkey ?g (Some 2) ?st) = Some (Some 2, 2)" by code_simp
  note good = two_keys_good [of ?st 3 2, OF refl]
  show ?thesis
    using furthestkey_max [OF graph_readable good(1,3,4), of "ring_graph False"] run
    by (auto dest: spec [of _ 1])
qed

text \<open>
  On a ring the search of \<open>furthestkey\<close> comes back to its start, which it marks like any other key:
  the key returned as the furthest one is the start itself.
\<close>

lemma furthestkey_returns_start:
  "map_option (\<lambda>(x, st). (x, colour st 2, colour st 1))
     (furthestkey (generic_cached_getkeysigs graph_ops (ring_graph False)) (Some 2) (createandaddtohash inithash 2)) =
   Some (Some 2, 3, 2)"
  by code_simp

text \<open>
  Whether a key is revoked is known once its own signatures are loaded. The search tests the
  flag of a key when it meets the key as a signer, before that: the path printed goes through the revoked key 2.
\<close>

lemma dofindpath_revoked_key:
  "map_option (\<lambda>(x, st). (map_sum id (map path_keys) x, sk_revoked (entry st 2)))
     (dofindpath (generic_cached_getkeysigs graph_ops (ring_graph True)) 3 1 1 inithash) = Some (Inr [[3, 2, 1]], True)"
  by code_simp

text \<open>A key without signatures on it is reported as missing, even if it is stored and signs others.\<close>

lemma dofindpath_unsigned_key:
  "map_option fst (dofindpath (generic_cached_getkeysigs graph_ops (\<lambda>i. (False, if i = 1 then [2] else if i = 2 then [3] else [])))
     3 1 1 inithash) =
   Some (Inl 3)"
  by code_simp

end
