(* ===== verification/Word_List.thy ===== *)
theory Word_List
  imports Key_Cache Key_Array
begin

text \<open>
  The words of user ids (\<open>wordlist.c\<close>), under which the databases with a text search index a key.

  A string is its list of octets without the NUL at its end. \<open>makewordlist\<close> writes into the string it splits;
  a word of its result is a pointer into it, and nothing is written to a word after it was added.
  The character classes are those of the C locale, in which the octets from 128 on belong to none.
\<close>

section \<open>Operations\<close>

definition ispunct :: "u8 \<Rightarrow> bool" where
  "ispunct c \<longleftrightarrow> 33 \<le> c \<and> c \<le> 47 \<or> 58 \<le> c \<and> c \<le> 64 \<or> 91 \<le> c \<and> c \<le> 96 \<or> 123 \<le> c \<and> c \<le> 126"

definition tolower :: "u8 \<Rightarrow> u8" where
  "tolower c = (if 65 \<le> c \<and> c \<le> 90 then c + 32 else c)"

fun strcmp :: "bytes \<Rightarrow> bytes \<Rightarrow> int" where
  "strcmp [] [] = 0"
| "strcmp [] (b # bs) = - 1"
| "strcmp (a # as) [] = 1"
| "strcmp (a # as) (b # bs) = (if a = b then strcmp as bs else if a < b then - 1 else 1)"

definition separator :: "u8 \<Rightarrow> bool" where
  "separator c \<longleftrightarrow> ispunct c \<or> isspace c"

text \<open>
  One round of the loop starts at \<open>end\<close>. A word of at least two characters is terminated by a NUL, which
  replaces the character behind it; a single character is passed over.
\<close>

function makewordlist :: "bytes list \<Rightarrow> bytes \<Rightarrow> bytes list" where
  "makewordlist wordlist ends =
     (if ends = [] then wordlist
      else let start = dropWhile separator ends;
               word = map tolower (takeWhile (\<lambda>c. \<not> separator c) start);
               ends = dropWhile (\<lambda>c. \<not> separator c) start
           in if 1 < length word
              then makewordlist (if llfind wordlist word strcmp = None then lladdend wordlist word else wordlist) (drop 1 ends)
              else makewordlist wordlist ends)"
  by pat_completeness auto

lemma word_round_shorter:
  assumes "s \<noteq> []"
  shows "length (dropWhile (\<lambda>c. \<not> separator c) (dropWhile separator s)) < length s"
proof (cases s)
  case (Cons c l)
  have "length (dropWhile p (dropWhile q xs)) \<le> length xs" for p q and xs :: bytes
    by (meson length_dropWhile_le order_trans)
  then show ?thesis using Cons by (auto simp: less_Suc_eq_le length_dropWhile_le)
qed (use assms in simp)

termination makewordlist
proof (relation "measure (\<lambda>(_, s). length s)")
  show "wf (measure (\<lambda>(_, s). length s))" by simp
qed (use word_round_shorter in \<open>auto simp: less_imp_diff_less\<close>)

text \<open>\<open>keyuids\<close> returns a null pointer for a key without user ids.\<close>

fun add_words :: "bytes list \<Rightarrow> bytes list \<Rightarrow> bytes list" where
  "add_words wordlist [] = wordlist"
| "add_words wordlist (wl # words) =
     add_words (if llfind wordlist wl strcmp = None then lladd wordlist wl else wordlist) words"

definition makewordlistfromkey :: "bytes list \<Rightarrow> openpgp_publickey \<Rightarrow> bytes list" where
  "makewordlistfromkey wordlist key =
     (case fst (keyuids key) of
        None \<Rightarrow> wordlist
      | Some us \<Rightarrow> foldl (\<lambda>wl u. add_words wl (makewordlist [] u)) wordlist us)"

declare makewordlist.simps [simp del]

section \<open>Properties\<close>

lemma strcmp_0 [simp]: "strcmp a b = 0 \<longleftrightarrow> a = b"
  by (induction a b rule: strcmp.induct) auto

lemma llfind_strcmp [simp]: "llfind l w strcmp = None \<longleftrightarrow> w \<notin> set l"
  by (auto simp: llfind_eq find_None_iff)

text \<open>A word of a string: a longest run of at least two characters that are no separators.\<close>

definition is_word :: "bytes \<Rightarrow> bytes \<Rightarrow> bool" where
  "is_word s w \<longleftrightarrow> (\<exists>pre v post. s = pre @ v @ post \<and> w = map tolower v \<and> 2 \<le> length v \<and> list_all (\<lambda>c. \<not> separator c) v \<and>
     (pre = [] \<or> separator (last pre)) \<and> (post = [] \<or> separator (hd post)))"

lemma is_word_Nil [simp]: "\<not> is_word [] w"
  by (simp add: is_word_def)

lemma is_word_separator:
  assumes "separator c"
  shows "is_word (c # s) w = is_word s w"
proof
  assume "is_word (c # s) w"
  then obtain pre v post where w: "c # s = pre @ v @ post" "w = map tolower v" "2 \<le> length v" "list_all (\<lambda>c. \<not> separator c) v"
    "pre = [] \<or> separator (last pre)" "post = [] \<or> separator (hd post)" unfolding is_word_def by blast
  then obtain pre' where pre: "pre = c # pre'" using assms by (cases pre; cases v) auto
  then have "s = pre' @ v @ post" "pre' = [] \<or> separator (last pre')" using w(1,5) by (auto split: if_splits)
  then show "is_word s w" unfolding is_word_def using w by blast
next
  assume "is_word s w"
  then obtain pre v post where w: "s = pre @ v @ post" "w = map tolower v" "2 \<le> length v" "list_all (\<lambda>c. \<not> separator c) v"
    "pre = [] \<or> separator (last pre)" "post = [] \<or> separator (hd post)" unfolding is_word_def by blast
  then have "c # s = (c # pre) @ v @ post" "separator (last (c # pre))" using assms by auto
  then show "is_word (c # s) w" unfolding is_word_def using w by blast
qed

lemma is_word_skip: "is_word (dropWhile separator s) w = is_word s w"
  by (induction s) (auto simp: is_word_separator)

lemma is_word_run:
  assumes "list_all (\<lambda>c. \<not> separator c) v" and r: "r = [] \<or> separator (hd r)"
  shows "is_word (v @ r) w \<longleftrightarrow> 2 \<le> length v \<and> w = map tolower v \<or> is_word r w"
proof
  assume "is_word (v @ r) w"
  then obtain pre u post where w: "v @ r = pre @ u @ post" "w = map tolower u" "2 \<le> length u" "list_all (\<lambda>c. \<not> separator c) u"
    "pre = [] \<or> separator (last pre)" "post = [] \<or> separator (hd post)" unfolding is_word_def by blast
  show "2 \<le> length v \<and> w = map tolower v \<or> is_word r w"
  proof (cases "pre = []")
    case True
    have run: "takeWhile (\<lambda>c. \<not> separator c) (x @ y) = x" if "list_all (\<lambda>c. \<not> separator c) x" "y = [] \<or> separator (hd y)" for x y
      using that by (cases y) (auto simp: list_all_iff takeWhile_append2)
    then have "u = v" using w True run [OF assms] run [OF w(4,6)] by simp
    then show ?thesis using w by simp
  next
    case False
    then have sep: "separator (last pre)" using w(5) by simp
    have "length v < length pre"
    proof (rule ccontr)
      assume "\<not> length v < length pre"
      then have "pre = take (length pre) v" using arg_cong [OF w(1), of "take (length pre)"] by simp
      then have "last pre \<in> set v" using False by (metis in_set_takeD last_in_set)
      then show False using assms(1) sep by (auto simp: list_all_iff)
    qed
    moreover obtain us where "v = pre @ us \<or> v @ us = pre \<and> r = us @ u @ post"
      using w(1) by (metis append_eq_append_conv2)
    ultimately have "r = us @ u @ post" "us \<noteq> []" "separator (last us)" using sep by auto
    then show ?thesis unfolding is_word_def using w by blast
  qed
next
  assume "2 \<le> length v \<and> w = map tolower v \<or> is_word r w"
  then show "is_word (v @ r) w"
  proof
    assume "2 \<le> length v \<and> w = map tolower v"
    then show ?thesis unfolding is_word_def using assms by (intro exI [of _ "[]"] exI [of _ v] exI [of _ r]) simp
  next
    assume "is_word r w"
    then obtain pre u post where w: "r = pre @ u @ post" "w = map tolower u" "2 \<le> length u" "list_all (\<lambda>c. \<not> separator c) u"
      "pre = [] \<or> separator (last pre)" "post = [] \<or> separator (hd post)" unfolding is_word_def by blast
    then have "pre \<noteq> []" using r by (cases u) auto
    then show ?thesis unfolding is_word_def using w by (intro exI [of _ "v @ pre"] exI [of _ u] exI [of _ post]) auto
  qed
qed

lemma makewordlist_spec:
  "set (makewordlist wl s) = set wl \<union> {w. is_word s w} \<and> (distinct wl \<longrightarrow> distinct (makewordlist wl s))"
proof (induction wl s rule: makewordlist.induct)
  case (1 wl s)
  show ?case
  proof (cases "s = []")
    case True
    then show ?thesis by (simp add: makewordlist.simps [of wl])
  next
    case False
    define start where "start = dropWhile separator s"
    define v where "v = takeWhile (\<lambda>c. \<not> separator c) start"
    define r where "r = dropWhile (\<lambda>c. \<not> separator c) start"
    have run: "list_all (\<lambda>c. \<not> separator c) v" "r = [] \<or> separator (hd r)" "start = v @ r"
      using hd_dropWhile [of "\<lambda>c. \<not> separator c" start] by (auto simp: v_def r_def list_all_iff dest: set_takeWhileD)
    have words: "is_word s w \<longleftrightarrow> 2 \<le> length v \<and> w = map tolower v \<or> is_word r w" for w
      using is_word_run [OF run(1,2)] is_word_skip [of s] run(3) by (simp add: start_def)
    have drop1: "is_word (drop (Suc 0) r) w = is_word r w" for w
      using run(2) by (cases r) (auto simp: is_word_separator)
    have word: "map tolower v = map tolower (takeWhile (\<lambda>c. \<not> separator c) start)" by (simp add: v_def)
    have eq: "makewordlist wl s = (if 1 < length v
        then makewordlist (if map tolower v \<notin> set wl then wl @ [map tolower v] else wl) (drop 1 r)
        else makewordlist wl r)"
      using False unfolding makewordlist.simps [of wl s] by (simp add: Let_def v_def r_def start_def)
    show ?thesis
    proof (cases "1 < length v")
      case True
      let ?wl = "if map tolower v \<notin> set wl then wl @ [map tolower v] else wl"
      have "set (makewordlist ?wl (drop 1 r)) = set ?wl \<union> {w. is_word (drop 1 r) w} \<and>
          (distinct ?wl \<longrightarrow> distinct (makewordlist ?wl (drop 1 r)))"
        using 1(1) [OF False start_def word r_def] True by (simp split: if_splits)
      then show ?thesis unfolding eq using True by (auto simp: words drop1)
    next
      case short: False
      have "set (makewordlist wl r) = set wl \<union> {w. is_word r w} \<and> (distinct wl \<longrightarrow> distinct (makewordlist wl r))"
        using 1(2) [OF False start_def word r_def] short by simp
      then show ?thesis unfolding eq using short by (auto simp: words)
    qed
  qed
qed

lemma add_words_spec:
  "set (add_words wl ws) = set wl \<union> set ws \<and> (distinct wl \<longrightarrow> distinct (add_words wl ws))"
  by (induction wl ws rule: add_words.induct) (auto simp: lladd_def split: if_splits)

lemma fold_words_spec:
  "set (foldl (\<lambda>wl u. add_words wl (makewordlist [] u)) wl us) = set wl \<union> {w. \<exists>u \<in> set us. is_word u w} \<and>
    (distinct wl \<longrightarrow> distinct (foldl (\<lambda>wl u. add_words wl (makewordlist [] u)) wl us))"
proof (induction us arbitrary: wl)
  case (Cons u us)
  then show ?case using add_words_spec [of wl "makewordlist [] u"] makewordlist_spec [of "[]" u] by auto
qed simp

text \<open>
  C40. \<open>makewordlistfromkey\<close> collects the words of a key. To a list without repetitions it adds exactly the longest runs
  of two or more characters other than white space and punctuation in the user ids, in lower case, each once.
\<close>

theorem makewordlistfromkey_words:
  assumes "distinct wordlist"
  shows "set (makewordlistfromkey wordlist key) =
      set wordlist \<union> {w. \<exists>u \<in> set (uids key). tag (sp_packet u) = OPENPGP_PACKET_UID \<and> is_word (uid_string (sp_packet u)) w} \<and>
    distinct (makewordlistfromkey wordlist key)"
proof (cases "uids key = []")
  case True
  then show ?thesis using assms by (simp add: makewordlistfromkey_def keyuids_def)
next
  case False
  then show ?thesis
    using assms fold_words_spec [of wordlist] by (auto simp: makewordlistfromkey_def keyuids_def Let_def)
qed

text \<open>The words of the user id \<open>Al B <al@x.yz>\<close>.\<close>

theorem makewordlistfromkey_words_witness:
  "makewordlistfromkey [] (key_with [\<lparr>sp_packet = \<lparr>tag = 13, newformat = False,
      data = [65, 108, 32, 66, 32, 60, 97, 108, 64, 120, 46, 121, 122, 62]\<rparr>, sp_sigs = []\<rparr>]) = [[121, 122], [97, 108]] \<and>
   distinct (makewordlistfromkey [] (key_with [\<lparr>sp_packet = \<lparr>tag = 13, newformat = False,
      data = [65, 108, 32, 66, 32, 60, 97, 108, 64, 120, 46, 121, 122, 62]\<rparr>, sp_sigs = []\<rparr>]))"
proof -
  have "makewordlistfromkey [] (key_with [\<lparr>sp_packet = \<lparr>tag = 13, newformat = False,
      data = [65, 108, 32, 66, 32, 60, 97, 108, 64, 120, 46, 121, 122, 62]\<rparr>, sp_sigs = []\<rparr>]) = [[121, 122], [97, 108]]"
    by code_simp
  then show ?thesis using makewordlistfromkey_words [OF distinct.simps(1) [THEN iffD2, OF TrueI]] by blast
qed

end
