(* ===== verification/Photo_Id.thy ===== *)
theory Photo_Id
  imports Decode_Key
begin

text \<open>
  Photo ids (\<open>photoid.c\<close>): the picture in a user attribute packet.

  A pointer to the picture is the packet it points into, an offset in its data, and the length.
\<close>

section \<open>Operations\<close>

text \<open>The length of the first subpacket and the offset behind it.\<close>

definition photo_length :: "bytes \<Rightarrow> (nat \<times> nat) option" where
  "photo_length d =
     do { b \<leftarrow> rd d 0;
          if b < 192 then Some (unat b, 1)
          else if b < 255 then do { c \<leftarrow> rd d 1; Some ((unat b - 192) * 256 + unat c + 192, 2) }
          else do { l \<leftarrow> rds d 1 4; Some (be_nat l, 5) } }"

definition photo_header :: "openpgp_packet \<Rightarrow> (onak_status \<times> (nat \<times> nat) option) option" where
  "photo_header p =
     (if plength p < 17 then Some (ONAK_E_INVALID_PKT, None)
      else do { (len, j) \<leftarrow> photo_length (data p);
                if len < 17 then Some (ONAK_E_INVALID_PKT, None)
                else if plength p - j < len then Some (ONAK_E_INVALID_PKT, None)
                else do { t \<leftarrow> rd (data p) j;
                          if t \<noteq> 1 then Some (ONAK_E_INVALID_PKT, None)
                          else do { a \<leftarrow> rd (data p) (j + 1);
                                    b \<leftarrow> rd (data p) (j + 2);
                                    c \<leftarrow> rd (data p) (j + 3);
                                    e \<leftarrow> rd (data p) (j + 4);
                                    if a \<noteq> 0x10 \<or> b \<noteq> 0 \<or> c \<noteq> 1 \<or> e \<noteq> 1 then Some (ONAK_E_INVALID_PKT, None)
                                    else Some (ONAK_E_OK, Some (j + 17, len - 17)) } } })"

fun photo_loop :: "openpgp_signedpacket list \<Rightarrow> int \<Rightarrow> int \<Rightarrow> (onak_status \<times> (openpgp_packet \<times> nat \<times> nat) option) option" where
  "photo_loop [] i index = Some (ONAK_E_NOT_FOUND, None)"
| "photo_loop (curuid # rest) i index =
     (if index < i then Some (ONAK_E_NOT_FOUND, None)
      else if tag (sp_packet curuid) \<noteq> OPENPGP_PACKET_UAT then photo_loop rest i index
      else if i \<noteq> index then photo_loop rest (i + 1) index
      else do { (s, r) \<leftarrow> photo_header (sp_packet curuid); Some (s, map_option (Pair (sp_packet curuid)) r) })"

text \<open>The pointers to the results are given.\<close>

definition getphoto :: "openpgp_publickey option \<Rightarrow> int \<Rightarrow> (onak_status \<times> (openpgp_packet \<times> nat \<times> nat) option) option" where
  "getphoto key index =
     (case key of None \<Rightarrow> Some (ONAK_E_INVALID_PARAM, None) | Some key \<Rightarrow> photo_loop (uids key) 0 index)"

section \<open>Properties\<close>

lemma photo_length_total:
  assumes "17 \<le> length d"
  shows "\<exists>len j. photo_length d = Some (len, j) \<and> j \<le> 5"
proof -
  note rd_less [OF assms, of 0] rd_less [OF assms, of 1]
  moreover have "rds d 1 4 = Some (take 4 (drop 1 d))" using assms by simp
  ultimately show ?thesis by (simp add: photo_length_def)
qed

lemma photo_header_total:
  "\<exists>s r. photo_header p = Some (s, r) \<and> (r = None \<longleftrightarrow> s \<noteq> ONAK_E_OK) \<and>
    (case r of None \<Rightarrow> True | Some (j, n) \<Rightarrow> j + n \<le> plength p)"
proof (cases "plength p < 17")
  case True
  then show ?thesis by (simp add: photo_header_def)
next
  case False
  then obtain len j where l: "photo_length (data p) = Some (len, j)" "j \<le> 5"
    using photo_length_total [of "data p"] by (auto simp: plength_def)
  then show ?thesis using False by (auto simp: photo_header_def plength_def)
qed

definition user_attributes :: "openpgp_publickey \<Rightarrow> openpgp_packet list" where
  "user_attributes key = filter (\<lambda>p. tag p = OPENPGP_PACKET_UAT) (map sp_packet (uids key))"

lemma photo_loop_eq:
  assumes "i \<le> index"
  shows "photo_loop l i index =
    (let us = filter (\<lambda>p. tag p = OPENPGP_PACKET_UAT) (map sp_packet l) in
     if nat (index - i) < length us
     then (case photo_header (us ! nat (index - i)) of None \<Rightarrow> None
           | Some (s, r) \<Rightarrow> Some (s, map_option (Pair (us ! nat (index - i))) r))
     else Some (ONAK_E_NOT_FOUND, None))"
  using assms
proof (induction l arbitrary: i)
  case (Cons u l)
  have "nat (index - i) = Suc (nat (index - (i + 1)))" if "i \<noteq> index" using Cons.prems that by simp
  then show ?case
    using Cons by (auto simp: Let_def split: option.splits)
qed simp

text \<open>
  \<open>getphoto\<close> stays inside the packet. For every key and index it reads no octet outside the data of a packet. It
  succeeds only for the user attribute packet of that index, and the picture it points to ends inside this packet.
\<close>

theorem getphoto_safe:
  "\<exists>s r. getphoto (Some key) index = Some (s, r) \<and> (r = None \<longleftrightarrow> s \<noteq> ONAK_E_OK) \<and>
    (case r of None \<Rightarrow> True | Some (p, j, n) \<Rightarrow> 0 \<le> index \<and> nat index < length (user_attributes key) \<and>
       p = user_attributes key ! nat index \<and> j + n \<le> plength p)"
proof (cases "0 \<le> index \<and> nat index < length (user_attributes key)")
  case True
  obtain s r where "photo_header (user_attributes key ! nat index) = Some (s, r)" "r = None \<longleftrightarrow> s \<noteq> ONAK_E_OK"
      "case r of None \<Rightarrow> True | Some (j, n) \<Rightarrow> j + n \<le> plength (user_attributes key ! nat index)"
    using photo_header_total by blast
  then show ?thesis
    using True photo_loop_eq [of 0 index "uids key"] by (auto simp: getphoto_def user_attributes_def Let_def split: option.splits)
next
  case False
  have "getphoto (Some key) index = Some (ONAK_E_NOT_FOUND, None)"
  proof (cases "index < 0")
    case True
    then show ?thesis by (cases "uids key") (simp_all add: getphoto_def)
  next
    case pos: False
    then show ?thesis using False photo_loop_eq [of 0 index "uids key"] by (simp add: getphoto_def user_attributes_def Let_def)
  qed
  then show ?thesis by simp
qed

text \<open>
  \<open>getphoto\<close> finds the picture that was put in. If the user attribute packet of the given index starts with
  an image subpacket (a header of sixteen octets and then the picture), the pointer and the length select the picture.
\<close>

theorem getphoto_extracts:
  assumes "n < length (user_attributes key)" and "user_attributes key ! n = p"
    and "data p = encode_subpacket (1, [0x10, 0, 1, 1] @ reserved @ photo) @ rest"
    and "length reserved = 12" and "length photo < 2 ^ 31"
  shows "\<exists>j. getphoto (Some key) (int n) = Some (ONAK_E_OK, Some (p, j, length photo)) \<and>
    take (length photo) (drop j (data p)) = photo"
proof -
  let ?b = "[0x10, 0, 1, 1] @ reserved @ photo" and ?n = "length photo + 17"
  have "\<exists>j. photo_length (data p) = Some (?n, j) \<and> drop j (data p) = 1 # ?b @ rest \<and> length (data p) = j + ?n + length rest"
  proof (cases "?n < 192")
    case True
    then have d: "data p = word_of_nat ?n # 1 # ?b @ rest" using assms(3,4) by (simp add: encode_subpacket_def Let_def)
    have "unat (word_of_nat ?n :: u8) = ?n" unfolding unat_word_of_nat_u8 using True by simp
    moreover from this have "(word_of_nat ?n :: u8) < 192" using True by (simp only: word_less_nat_alt) simp
    ultimately show ?thesis unfolding d using assms(4) by (simp add: photo_length_def)
  next
    case False
    then have d: "data p = 255 # be_bytes 4 ?n @ 1 # ?b @ rest" using assms(3,4) by (simp add: encode_subpacket_def Let_def add.commute)
    have "be_nat (be_bytes 4 ?n) = ?n" using assms(5) by (simp add: be_nat_be_bytes)
    then show ?thesis unfolding d using assms(4) by (simp add: photo_length_def rds_def)
  qed
  then obtain j where j: "photo_length (data p) = Some (?n, j)" "drop j (data p) = 1 # ?b @ rest"
    "length (data p) = j + ?n + length rest" by blast
  have at: "data p ! (j + k) = (1 # ?b @ rest) ! k" for k using nth_drop [of j "data p" k] j(2,3) by simp
  have "data p ! j = 1" "data p ! (j + 1) = 0x10" "data p ! (j + 2) = 0" "data p ! (j + 3) = 1" "data p ! (j + 4) = 1"
    using at [of 0] at [of 1] at [of 2] at [of 3] at [of 4] by simp_all
  then have h: "photo_header p = Some (ONAK_E_OK, Some (j + 17, length photo))"
    using j(1,3) by (simp add: photo_header_def plength_def)
  have "drop (j + 17) (data p) = drop 17 (drop j (data p))" by (simp add: add.commute)
  then have "take (length photo) (drop (j + 17) (data p)) = photo" unfolding j(2) using assms(4) by simp
  then show ?thesis
    using h assms(1,2) photo_loop_eq [of 0 "int n" "uids key"] by (simp add: getphoto_def user_attributes_def Let_def)
qed

definition photo_packet :: openpgp_packet where
  "photo_packet = \<lparr>tag = 17, newformat = False, data = encode_subpacket (1, [0x10, 0, 1, 1] @ replicate 12 0 @ [7, 8, 9]) @ [1, 0]\<rparr>"

definition photo_key :: openpgp_publickey where
  "photo_key = \<lparr>publickey = sample_packet, revoked = False, sigs = [],
     uids = [\<lparr>sp_packet = \<lparr>tag = 13, newformat = False, data = [65]\<rparr>, sp_sigs = []\<rparr>, \<lparr>sp_packet = photo_packet, sp_sigs = []\<rparr>],
     subkeys = []\<rparr>"

theorem getphoto_extracts_witness:
  "\<exists>j. getphoto (Some photo_key) 0 = Some (ONAK_E_OK, Some (photo_packet, j, 3)) \<and>
    take 3 (drop j (data photo_packet)) = [7, 8, 9]"
proof -
  have p: "data photo_packet = encode_subpacket (1, [0x10, 0, 1, 1] @ replicate 12 0 @ [7, 8, 9]) @ [1, 0]"
    by (simp add: photo_packet_def)
  have "user_attributes photo_key = [photo_packet]" by (simp add: user_attributes_def photo_key_def photo_packet_def)
  then show ?thesis
    using getphoto_extracts [OF _ _ p, of 0 photo_key] by (simp add: numeral_3_eq_3)
qed

end
