(* ===== verification/Key_Store.thy ===== *)
theory Key_Store
  imports Armor
begin

text \<open>
  Files of keys: the file functions of \<open>charfuncs.c\<close> and \<open>key-store.c\<close>, over a file system that
  maps paths to contents. \<open>cannot_open\<close> names the paths for which \<open>open\<close> fails with another
  error than \<open>ENOENT\<close>. \<open>read\<close> on a file delivers what is asked for or what is left of the file,
  \<open>write\<close> takes everything.
\<close>

record file_system =
  files :: "bytes \<Rightarrow> bytes option"
  cannot_open :: "bytes \<Rightarrow> bool"

text \<open>A file descriptor: the contents of the file and the position in it.\<close>

record file_desc =
  fd_contents :: bytes
  fd_pos :: nat

definition file_fetchchar :: "file_desc reader" where
  "file_fetchchar fd n =
     (let c = take n (drop (fd_pos fd) (fd_contents fd))
      in Some (c, fd\<lparr>fd_pos := fd_pos fd + length c\<rparr>))"

definition file_putchar :: "file_desc writer" where
  "file_putchar fd c =
     Some \<lparr>fd_contents = take (fd_pos fd) (fd_contents fd) @ c @ drop (fd_pos fd + length c) (fd_contents fd),
           fd_pos = fd_pos fd + length c\<rparr>"

definition open_file :: "bytes \<Rightarrow> file_desc" where
  "open_file bs = \<lparr>fd_contents = bs, fd_pos = 0\<rparr>"

text \<open>
  \<open>onak_read_openpgp_file\<close>; the packets are added to the caller's list. \<open>dearmor_openpgp_stream\<close>
  always returns 0, the number of \<open>ONAK_E_OK\<close>.
\<close>

definition onak_read_openpgp_file :: "(nat \<Rightarrow> bool) \<Rightarrow> file_system \<Rightarrow> bytes \<Rightarrow> openpgp_packet list \<Rightarrow>
    (onak_status \<times> openpgp_packet list) option" where
  "onak_read_openpgp_file mal fs file packets =
     (if cannot_open fs file then Some (ONAK_E_IO_ERROR, packets)
      else case files fs file of
        None \<Rightarrow> Some (ONAK_E_NOT_FOUND, packets)
      | Some bs \<Rightarrow>
          (case bs of
             [] \<Rightarrow> Some (ONAK_E_IO_ERROR, packets)
           | c # _ \<Rightarrow>
               if c AND 0x80 \<noteq> 0 then
                 do { (res, packets, _) \<leftarrow> read_openpgp_stream mal file_fetchchar (open_file bs) packets 0;
                      Some (res, packets) }
               else
                 do { (packets, _) \<leftarrow> dearmor_openpgp_stream mal file_fetchchar (open_file bs) packets;
                      Some (ONAK_E_OK, packets) }))"

section \<open>Files are sources and sinks\<close>

definition file_delivers :: "file_desc \<Rightarrow> bytes \<Rightarrow> bool" where
  "file_delivers fd xs \<longleftrightarrow> drop (fd_pos fd) (fd_contents fd) = xs"

definition file_holds :: "file_desc \<Rightarrow> bytes \<Rightarrow> bool" where
  "file_holds fd xs \<longleftrightarrow> fd_contents fd = xs \<and> fd_pos fd = length xs"

interpretation file_source: armored_source file_fetchchar file_delivers
proof unfold_locales
  fix s xs ys assume "file_delivers s (xs @ ys)"
  then have "drop (fd_pos s) (fd_contents s) = xs @ ys" by (simp add: file_delivers_def)
  moreover from arg_cong [OF this, of "drop (length xs)"]
  have "drop (fd_pos s + length xs) (fd_contents s) = ys" by (simp add: add.commute)
  ultimately show "\<exists>s'. file_fetchchar s (length xs) = Some (xs, s') \<and> file_delivers s' ys"
    by (simp add: file_delivers_def file_fetchchar_def)
next
  fix s xs and n :: nat
  assume "file_delivers s xs" "length xs < n"
  then show "\<exists>ys s'. file_fetchchar s n = Some (ys, s') \<and> length ys < n"
    by (auto simp: file_delivers_def file_fetchchar_def Let_def)
qed

interpretation file_sink: byte_sink file_putchar file_holds capacity for capacity
  by unfold_locales (simp add: file_holds_def file_putchar_def)

lemma open_file_delivers: "file_delivers (open_file bs) bs"
  by (simp add: file_delivers_def open_file_def)

lemma open_file_holds: "file_holds (open_file []) []"
  by (simp add: file_holds_def open_file_def)

section \<open>Binary and armored files\<close>

lemma header_octet_bit7: "header_octet p AND 0x80 \<noteq> 0"
proof -
  have "bit (header_octet p) 7" by (simp add: header_octet_def bit_simps)
  moreover have "bit (0x80 :: u8) 7" by simp
  ultimately have "bit (header_octet p AND 0x80) 7" unfolding bit_and_iff by blast
  then show ?thesis by auto
qed

lemma read_binary_file:
  assumes "\<not> cannot_open fs file" and "files fs file = Some (stream_encoding ps)" and "ps \<noteq> []"
    and "\<forall>p \<in> set ps. packet_wf p \<and> mal (plength p)"
  shows "onak_read_openpgp_file mal fs file acc = Some (ONAK_E_OK, acc @ ps)"
proof -
  obtain p qs where ps: "ps = p # qs" using assms(3) by (cases ps) auto
  obtain s' where "read_openpgp_stream mal file_fetchchar (open_file (stream_encoding ps)) acc 0 =
      Some (ONAK_E_OK, acc @ ps, s')"
    using file_source.read_stream_full [OF open_file_delivers assms(4)] by blast
  then show ?thesis
    using assms(1,2) header_octet_bit7 [of p] by (simp add: onak_read_openpgp_file_def ps packet_encoding_def)
qed

lemma read_armored_file:
  assumes "\<not> cannot_open fs file" and "files fs file = Some (armored_file (stream_encoding ps))"
    and "\<forall>p \<in> set ps. packet_wf p \<and> mal (plength p)"
  shows "onak_read_openpgp_file mal fs file acc = Some (ONAK_E_OK, acc @ ps)"
proof -
  obtain s' where "dearmor_openpgp_stream mal file_fetchchar (open_file (armored_file (stream_encoding ps))) acc =
      Some (acc @ ps, s')"
    using file_source.dearmor_stream_full [OF open_file_delivers assms(3)] by blast
  moreover have "\<exists>t. armored_file bs = 45 # t" for bs
    by (simp add: armored_file_def armor_header_def)
  then obtain t where "armored_file (stream_encoding ps) = 45 # t" by blast
  ultimately show ?thesis
    using assms(1,2) by (simp add: onak_read_openpgp_file_def)
qed

section \<open>Properties\<close>



end
