(* ===== verification/Key_Db_File.thy ===== *)
theory Key_Db_File
  imports Key_Db Key_Store
begin

text \<open>
  The back end that keeps each key in a file of its own (\<open>keydb/keydb_file.c\<close>). Its state is the file
  system; \<open>db_dir\<close> is the directory that the context's private pointer names. The interpretation
  \<open>file_db\<close> shows that it meets the contract of a back end.
\<close>

section \<open>File names\<close>

text \<open>\<open>snprintf(keyfile, 1023, "%s/0x%" PRIX64, db_dir, keyid & 0xFFFFFFFF)\<close>.\<close>

definition upper_digit :: "nat \<Rightarrow> u8" where
  "upper_digit d = (if d < 10 then 48 + word_of_nat d else 55 + word_of_nat d)"

fun hex_upper :: "nat \<Rightarrow> bytes" where
  "hex_upper n = (if n < 16 then [upper_digit n] else hex_upper (n div 16) @ [upper_digit (n mod 16)])"

declare hex_upper.simps [simp del]

definition keyfile :: "bytes \<Rightarrow> u64 \<Rightarrow> bytes" where
  "keyfile db_dir keyid = take 1022 (db_dir @ [47, 48, 120] @ hex_upper (unat (keyid AND 0xFFFFFFFF)))"

section \<open>Operations\<close>

definition file_starttrans :: "file_system \<Rightarrow> bool \<times> file_system" where
  "file_starttrans fs = (True, fs)"

definition file_endtrans :: "file_system \<Rightarrow> file_system" where
  "file_endtrans fs = fs"

definition file_fetch_key_id :: "(nat \<Rightarrow> bool) \<Rightarrow> bytes \<Rightarrow> file_system \<Rightarrow> u64 \<Rightarrow> publickeys \<Rightarrow> bool \<Rightarrow>
    (int \<times> publickeys) option" where
  "file_fetch_key_id mal db_dir fs keyid keys intrans =
     do { (res, packets) \<leftarrow> onak_read_openpgp_file mal fs (keyfile db_dir keyid) [];
          if res = ONAK_E_OK then do { (_, keys) \<leftarrow> parse_keys packets keys; Some (1, keys) }
          else Some (0, keys) }"

definition file_store_key :: "hash_funs \<Rightarrow> bytes \<Rightarrow> file_system \<Rightarrow> publickeys \<Rightarrow> bool \<Rightarrow> bool \<Rightarrow>
    (int \<times> file_system) option" where
  "file_store_key H db_dir fs keys intrans update =
     (case keys of
        [] \<Rightarrow> None
      | k # _ \<Rightarrow>
          do { (rc, keyid) \<leftarrow> get_keyid H k;
               if rc \<noteq> ONAK_E_OK then Some (0, fs)
               else do { i \<leftarrow> keyid;
                         if cannot_open fs (keyfile db_dir i) then Some (0, fs)
                         else do { (_, fd) \<leftarrow> write_openpgp_stream file_putchar (open_file []) (flatten_publickey [k] []);
                                   Some (1, fs\<lparr>files := (files fs)(keyfile db_dir i \<mapsto> fd_contents fd)\<rparr>) } } })"

text \<open>The result of \<open>unlink\<close>.\<close>

definition file_delete_key :: "bytes \<Rightarrow> file_system \<Rightarrow> openpgp_fingerprint \<Rightarrow> bool \<Rightarrow> (int \<times> file_system) option" where
  "file_delete_key db_dir fs f intrans =
     do { i \<leftarrow> fingerprint2keyid f;
          Some (if files fs (keyfile db_dir i) = None then (-1, fs)
                else (0, fs\<lparr>files := (files fs)(keyfile db_dir i := None)\<rparr>)) }"

definition file_fetch_key_text :: "file_system \<Rightarrow> bytes \<Rightarrow> publickeys \<Rightarrow> int \<times> publickeys" where
  "file_fetch_key_text fs search keys = (0, keys)"

text \<open>
  The loop over the names \<open>readdir\<close> returns. \<open>packets\<close> is the variable of that name: it is reset
  only where the file was read without an error. The callback maps its context and the keys to
  the new context.
\<close>

fun iterate_files :: "(nat \<Rightarrow> bool) \<Rightarrow> bytes \<Rightarrow> file_system \<Rightarrow> ('c \<Rightarrow> publickeys \<Rightarrow> 'c) \<Rightarrow> bytes list \<Rightarrow>
    openpgp_packet list \<Rightarrow> 'c \<Rightarrow> int \<Rightarrow> (int \<times> 'c) option" where
  "iterate_files mal db_dir fs iterfunc [] packets ctx numkeys = Some (numkeys, ctx)"
| "iterate_files mal db_dir fs iterfunc (name # names) packets ctx numkeys =
     (if take 2 name = [48, 120] then
        do { (res, packets) \<leftarrow> onak_read_openpgp_file mal fs (take 1022 (db_dir @ [47] @ name)) packets;
             if res = ONAK_E_OK then
               do { (_, keys) \<leftarrow> parse_keys packets [];
                    iterate_files mal db_dir fs iterfunc names [] (iterfunc ctx keys) (numkeys + 1) }
             else iterate_files mal db_dir fs iterfunc names packets ctx (numkeys + 1) }
      else iterate_files mal db_dir fs iterfunc names packets ctx numkeys)"

text \<open>\<open>listing\<close> is the list of names, \<open>None\<close> if \<open>opendir\<close> fails.\<close>

definition file_iterate_keys :: "(nat \<Rightarrow> bool) \<Rightarrow> bytes \<Rightarrow> file_system \<Rightarrow> bytes list option \<Rightarrow>
    ('c \<Rightarrow> publickeys \<Rightarrow> 'c) \<Rightarrow> 'c \<Rightarrow> (int \<times> 'c) option" where
  "file_iterate_keys mal db_dir fs listing iterfunc ctx =
     (case listing of
        None \<Rightarrow> Some (0, ctx)
      | Some names \<Rightarrow> iterate_files mal db_dir fs iterfunc names [] ctx 0)"

text \<open>The table of functions.\<close>

definition keydb_file_init :: "hash_funs \<Rightarrow> (nat \<Rightarrow> bool) \<Rightarrow> bytes \<Rightarrow> file_system keydb_ops" where
  "keydb_file_init H mal db_dir =
     \<lparr>db_starttrans = file_starttrans, db_endtrans = file_endtrans,
      db_fetch_key_id = file_fetch_key_id mal db_dir,
      db_fetch_key_fp = generic_fetch_key_fp (file_fetch_key_id mal db_dir),
      db_store_key = file_store_key H db_dir\<rparr>"

section \<open>File names are distinct\<close>

lemma upper_digit_inj: "d < 16 \<Longrightarrow> e < 16 \<Longrightarrow> upper_digit d = upper_digit e \<longleftrightarrow> d = e"
proof -
  assume "d < 16" "e < 16"
  have "list_all (\<lambda>d. list_all (\<lambda>e. upper_digit d = upper_digit e \<longleftrightarrow> d = e) [0..<16]) [0..<16]" by code_simp
  then have "\<forall>d \<in> {0..<16}. \<forall>e \<in> {0..<16}. upper_digit d = upper_digit e \<longleftrightarrow> d = e" by (simp add: list_all_iff)
  with \<open>d < 16\<close> \<open>e < 16\<close> show ?thesis by simp
qed

lemma hex_upper_not_Nil [simp]: "hex_upper n \<noteq> []" "[] \<noteq> hex_upper n"
  by (subst hex_upper.simps, simp)+

lemma hex_upper_inj: "hex_upper m = hex_upper n \<Longrightarrow> m = n"
proof (induction m arbitrary: n rule: hex_upper.induct)
  case (1 m)
  show ?case
  proof (cases "m < 16")
    case True
    then show ?thesis using "1.prems" upper_digit_inj
      by (subst (asm) (1 2) hex_upper.simps) (auto split: if_splits)
  next
    case m: False
    show ?thesis
    proof (cases "n < 16")
      case True
      then show ?thesis using "1.prems" m
        by (subst (asm) (1 2) hex_upper.simps) auto
    next
      case False
      then have "hex_upper (m div 16) = hex_upper (n div 16)" "upper_digit (m mod 16) = upper_digit (n mod 16)"
        using "1.prems" m by (subst (asm) (1 2) hex_upper.simps; simp)+
      then have "m div 16 = n div 16" "m mod 16 = n mod 16" using "1.IH" [OF m] upper_digit_inj by simp_all
      then show ?thesis by (metis div_mult_mod_eq)
    qed
  qed
qed

lemma hex_upper_length: "n < 16 ^ Suc k \<Longrightarrow> length (hex_upper n) \<le> Suc k"
proof (induction k arbitrary: n)
  case 0
  then show ?case by (subst hex_upper.simps) simp
next
  case (Suc k)
  have "n div 16 < 16 ^ Suc k" using Suc.prems by (simp add: less_mult_imp_div_less mult.commute)
  from Suc.IH [OF this] show ?case by (subst hex_upper.simps) simp
qed

text \<open>A slot is the low half of a key id.\<close>

definition slot_file :: "bytes \<Rightarrow> 32 word \<Rightarrow> bytes" where
  "slot_file db_dir i = take 1022 (db_dir @ [47, 48, 120] @ hex_upper (unat i))"

definition id_slot :: "u64 \<Rightarrow> 32 word" where
  "id_slot i = ucast i"

definition fp_slot :: "openpgp_fingerprint \<Rightarrow> 32 word" where
  "fp_slot f = id_slot (the (fingerprint2keyid f))"

lemma keyfile_slot: "keyfile db_dir i = slot_file db_dir (id_slot i)"
proof -
  have "i AND 0xFFFFFFFF = take_bit 32 i" by (simp add: take_bit_eq_mask mask_eq_exp_minus_1)
  then have "unat (i AND 0xFFFFFFFF) = unat (ucast i :: 32 word)"
    by (simp add: unsigned_take_bit_eq unsigned_ucast_eq)
  then show ?thesis by (simp add: keyfile_def slot_file_def id_slot_def)
qed

lemma slot_file_inj:
  assumes "length db_dir \<le> 1011" and "slot_file db_dir i = slot_file db_dir j"
  shows "i = j"
proof -
  have "length (hex_upper (unat x)) \<le> 8" for x :: "32 word"
    using hex_upper_length [of "unat x" 7] unsigned_less [of x] by simp
  then have "slot_file db_dir x = db_dir @ [47, 48, 120] @ hex_upper (unat x)" for x
    using assms(1) add_mono [OF assms(1), of "length ([47, 48, 120] @ hex_upper (unat x))" 11]
    unfolding slot_file_def by (intro take_all) simp
  then have "hex_upper (unat i) = hex_upper (unat j)" using assms(2) by simp
  then show ?thesis using hex_upper_inj by (simp add: word_unat_eq_iff)
qed

section \<open>The files as a table of keys\<close>

definition key_file :: "openpgp_publickey \<Rightarrow> bytes" where
  "key_file k = stream_encoding (key_packets k)"

definition dir_holds :: "hash_funs \<Rightarrow> (nat \<Rightarrow> bool) \<Rightarrow> bytes \<Rightarrow> file_system \<Rightarrow> 32 word key_table \<Rightarrow> bool" where
  "dir_holds H mal db_dir fs V \<longleftrightarrow> hash_funs_ok H \<and> length db_dir \<le> 1011 \<and>
     (\<forall>i. \<not> cannot_open fs (slot_file db_dir i) \<and> files fs (slot_file db_dir i) = map_option key_file (V i) \<and>
        (\<forall>k. V i = Some k \<longrightarrow> key_storable H mal k \<and> fp_slot (key_fp H k) = i))"

lemma read_key_file:
  assumes "\<not> cannot_open fs file" and "files fs file = Some (key_file k)" and "key_storable H mal k"
  shows "onak_read_openpgp_file mal fs file [] = Some (ONAK_E_OK, key_packets k)"
    and "parse_keys (key_packets k) keys = Some (1, keys @ [k])"
proof -
  show "onak_read_openpgp_file mal fs file [] = Some (ONAK_E_OK, key_packets k)"
    using read_binary_file [OF assms(1), of "key_packets k" mal "[]"] assms(2,3)
    by (simp add: key_file_def key_storable_def) (simp add: key_packets_def)
  show "parse_keys (key_packets k) keys = Some (1, keys @ [k])"
    using parse_all_keys [of "[k]" keys 0] assms(3) by (simp add: parse_keys_def key_storable_def)
qed

text \<open>Writing does not depend on the \<open>revoked\<close> flag, which is not part of the file.\<close>

lemma write_key_file:
  assumes "\<forall>p \<in> set (key_packets k). packet_wf p"
  shows "\<exists>fd. write_openpgp_stream file_putchar (open_file []) (flatten_publickey [k] []) = Some (ONAK_E_OK, fd) \<and>
    fd_contents fd = key_file k"
proof -
  have "\<forall>p \<in> set (key_packets k). newformat p \<longrightarrow> plength p < 0xFFFFFFFF"
    using assms by (auto simp: packet_wf_def packet_writable_def)
  from file_sink.write_stream_holds [OF open_file_holds this order_refl]
  show ?thesis by (auto simp: flatten_publickey_eq file_holds_def key_file_def)
qed

lemma file_store_key_eq:
  assumes "get_keyid H k = Some (ONAK_E_OK, Some i)" and "\<not> cannot_open fs (keyfile db_dir i)"
    and "\<forall>p \<in> set (key_packets k). packet_wf p"
  shows "file_store_key H db_dir fs (k # keys) intrans update =
    Some (1, fs\<lparr>files := (files fs)(keyfile db_dir i \<mapsto> key_file k)\<rparr>)"
  using write_key_file [OF assms(3)] assms(1,2) by (auto simp: file_store_key_def)

lemma fp_slot_key: "hash_funs_ok H \<Longrightarrow> version_known H k \<Longrightarrow> fp_slot (key_fp H k) = id_slot (key_id H k)"
  using key_keyid(2) by (simp add: fp_slot_def)

lemma file_fetch_slot:
  assumes "dir_holds H mal db_dir fs V"
  shows "file_fetch_key_id mal db_dir fs i keys intrans =
    Some (case V (id_slot i) of None \<Rightarrow> (0, keys) | Some k \<Rightarrow> (1, keys @ [k]))"
proof -
  let ?f = "slot_file db_dir (id_slot i)"
  have f: "\<not> cannot_open fs ?f" "files fs ?f = map_option key_file (V (id_slot i))"
    using assms by (simp_all add: dir_holds_def)
  show ?thesis
  proof (cases "V (id_slot i)")
    case None
    then show ?thesis using f by (simp add: file_fetch_key_id_def keyfile_slot onak_read_openpgp_file_def)
  next
    case (Some k)
    then have "key_storable H mal k" "files fs ?f = Some (key_file k)" using assms f by (auto simp: dir_holds_def)
    with read_key_file [OF f(1)] Some show ?thesis by (simp add: file_fetch_key_id_def keyfile_slot)
  qed
qed

lemma dir_holds_write:
  assumes "dir_holds H mal db_dir fs V" and "key_storable H mal k" and "fp_slot (key_fp H k) = i"
  shows "dir_holds H mal db_dir (fs\<lparr>files := (files fs)(slot_file db_dir i \<mapsto> key_file k)\<rparr>) (V(i \<mapsto> k))"
  using assms slot_file_inj [of db_dir] by (auto simp: dir_holds_def)

text \<open>
  The file back end meets the contract. What is stored in a directory is part of \<open>dir_holds\<close>, and so
  are the digest sizes and that the directory name leaves room for the file names.
\<close>

interpretation file_db: key_backend H mal "keydb_file_init H mal db_dir" "dir_holds H mal db_dir" fp_slot
  for H mal db_dir
proof
  fix d V i k and keys :: publickeys and intrans update :: bool
  assume d: "dir_holds H mal db_dir d V"
  then show hashes: "hash_funs_ok H" and "dir_holds H mal db_dir (snd (db_starttrans (keydb_file_init H mal db_dir) d)) V"
    and "dir_holds H mal db_dir (db_endtrans (keydb_file_init H mal db_dir) d) V"
    by (simp_all add: keydb_file_init_def file_starttrans_def file_endtrans_def dir_holds_def)
  show "key_storable H mal k \<and> fp_slot (key_fp H k) = i" if "V i = Some k"
    using d that by (simp add: dir_holds_def)
  show "db_fetch_key_fp (keydb_file_init H mal db_dir) d (key_fp H k) [] intrans =
      Some (case V (fp_slot (key_fp H k)) of None \<Rightarrow> (0, []) | Some old \<Rightarrow> (1, [old]))" if "version_known H k"
    by (simp add: keydb_file_init_def generic_fetch_key_fp_keyid [OF hashes that] file_fetch_slot [OF d]
        fp_slot_key [OF hashes that] split: option.split)
  show "\<exists>n d'. db_store_key (keydb_file_init H mal db_dir) d (k # keys) intrans update = Some (n, d') \<and>
      dir_holds H mal db_dir d' (V(fp_slot (key_fp H k) \<mapsto> k))" if k: "key_storable H mal k"
  proof -
    have v: "version_known H k" "\<forall>p \<in> set (key_packets k). packet_wf p" using k by (simp_all add: key_storable_def)
    have "\<not> cannot_open d (keyfile db_dir (key_id H k))" using d by (simp add: dir_holds_def keyfile_slot)
    from file_store_key_eq [OF key_keyid(1) [OF hashes v(1)] this v(2)] dir_holds_write [OF d k refl]
    show ?thesis by (simp add: keydb_file_init_def keyfile_slot fp_slot_key [OF hashes v(1)])
  qed
qed

section \<open>Visiting all keys\<close>

definition slot_name :: "32 word \<Rightarrow> bytes" where
  "slot_name i = [48, 120] @ hex_upper (unat i)"

lemma slot_name_file: "take 1022 (db_dir @ [47] @ slot_name i) = slot_file db_dir i"
  by (simp add: slot_name_def slot_file_def)

lemma iterate_files_step:
  assumes "dir_holds H mal db_dir fs V" and "V i = Some k"
  shows "iterate_files mal db_dir fs iterfunc (slot_name i # names) [] ctx numkeys =
    iterate_files mal db_dir fs iterfunc names [] (iterfunc ctx [k]) (numkeys + 1)"
proof -
  have "\<not> cannot_open fs (slot_file db_dir i)" "files fs (slot_file db_dir i) = Some (key_file k)" "key_storable H mal k"
    using assms by (auto simp: dir_holds_def)
  note k = read_key_file [OF this]
  have "take 2 (slot_name i) = [48, 120]" by (simp add: slot_name_def)
  then show ?thesis by (simp add: k slot_name_file del: take_append append.simps) simp
qed

lemma iterate_files_all:
  assumes "dir_holds H mal db_dir fs V" and "list_all (\<lambda>i. V i \<noteq> None) slots"
    and "filter (\<lambda>n. take 2 n = [48, 120]) names = map slot_name slots"
  shows "iterate_files mal db_dir fs iterfunc names [] ctx numkeys =
    Some (numkeys + int (length slots), foldl (\<lambda>c i. iterfunc c [the (V i)]) ctx slots)"
  using assms(2,3)
proof (induction names arbitrary: slots ctx numkeys)
  case (Cons name names)
  show ?case
  proof (cases "take 2 name = [48, 120]")
    case True
    then obtain i sl where s: "slots = i # sl" "name = slot_name i"
      "filter (\<lambda>n. take 2 n = [48, 120]) names = map slot_name sl"
      using Cons.prems(2) by (cases slots) auto
    then obtain k where "V i = Some k" "list_all (\<lambda>i. V i \<noteq> None) sl" using Cons.prems(1) by auto
    with Cons.IH [of sl] s show ?thesis by (simp add: iterate_files_step [OF assms(1)] del: iterate_files.simps)
  next
    case False
    then show ?thesis using Cons by simp
  qed
qed simp

lemma read_truncated_file:
  assumes "\<not> cannot_open fs file" and "files fs file = Some (stream_encoding ps @ take n (packet_encoding p))"
    and "ps \<noteq> []" and "\<forall>p \<in> set ps. packet_wf p \<and> mal (plength p)" and "packet_writable p"
    and "0 < n" and "n < length (packet_encoding p)"
  shows "\<exists>rc. onak_read_openpgp_file mal fs file acc = Some (rc, acc @ ps) \<and> rc \<noteq> ONAK_E_OK"
proof -
  obtain q qs where ps: "ps = q # qs" using assms(3) by (cases ps) auto
  obtain rc s' where "read_openpgp_stream mal file_fetchchar (open_file (stream_encoding ps @ take n (packet_encoding p))) acc 0 =
      Some (rc, acc @ ps, s')" "rc \<noteq> ONAK_E_OK"
    using file_source.read_stream_truncated [OF open_file_delivers, where ps = ps and xs = "take n (packet_encoding p)" and zs = "drop n (packet_encoding p)" and p = p and mal = mal and acc = acc]
      assms(4-7) by auto
  then show ?thesis
    using assms(1,2) header_octet_bit7 [of q] by (simp add: onak_read_openpgp_file_def ps packet_encoding_def)
qed

section \<open>Properties\<close>

text \<open>
  C26. Updating keys does what \<open>update_all\<close> says. On a directory that holds the table \<open>V\<close>, for storable keys
  whose short ids do not collide and with any blacklist, \<open>generic_update_keys\<close> over the file back end
  terminates without an undefined read, returns the news and the number of new keys of the
  abstract update, mails exactly the news, and leaves a directory that holds the updated table.
\<close>

theorem file_update_keys_refines:
  assumes "dir_holds H mal db_dir fs V" and "list_all (key_storable H mal) keys" and "ids_agree H fp_slot V keys"
    and "pred_option keyarray_ok bl" and "update_all H fp_slot bl updateonly keys V = (news, n, V')"
  shows "\<exists>fs'. generic_update_keys H (keydb_file_init H mal db_dir) bl updateonly sendsync keys fs =
      Some (n, news, if sendsync \<and> news \<noteq> [] then Some news else None, fs') \<and> dir_holds H mal db_dir fs' V'"
  using assms by (rule file_db.update_keys_refines)

definition empty_dir :: file_system where
  "empty_dir = \<lparr>files = \<lambda>_. None, cannot_open = \<lambda>_. False\<rparr>"

definition stored_dir :: "openpgp_publickey \<Rightarrow> file_system" where
  "stored_dir k = empty_dir\<lparr>files := [slot_file [100] (fp_slot (key_fp sample_hashes k)) \<mapsto> key_file k]\<rparr>"

definition stored_table :: "openpgp_publickey \<Rightarrow> 32 word key_table" where
  "stored_table k = [fp_slot (key_fp sample_hashes k) \<mapsto> k]"

lemma empty_dir_holds: "hash_funs_ok H \<Longrightarrow> length db_dir \<le> 1011 \<Longrightarrow> dir_holds H mal db_dir empty_dir (\<lambda>_. None)"
  by (simp add: dir_holds_def empty_dir_def)

lemma stored_dir_holds:
  assumes "key_storable sample_hashes mal k"
  shows "dir_holds sample_hashes mal [100] (stored_dir k) (stored_table k)"
  using dir_holds_write [OF empty_dir_holds [OF sample_hashes_ok, of "[100]"] assms refl]
  by (simp add: stored_dir_def stored_table_def empty_dir_def)

definition stored_key :: "u8 list \<Rightarrow> u8 list \<Rightarrow> openpgp_publickey" where
  "stored_key us b = \<lparr>publickey = \<lparr>tag = 6, newformat = False, data = 4 # replicate 8 0 @ b\<rparr>, revoked = False,
     sigs = [], uids = map (\<lambda>c. sample_uid c []) us, subkeys = []\<rparr>"

lemma stored_key_storable: "distinct us \<Longrightarrow> length b < 200 \<Longrightarrow> key_storable H (\<lambda>_. True) (stored_key us b)"
proof -
  assume "distinct us" "length b < 200"
  then have "distinct (map pkey (uids (stored_key us b)))"
    by (auto simp: stored_key_def sample_uid_def pkey_def comp_def distinct_map inj_on_def)
  moreover have "set (key_packets (stored_key us b)) \<subseteq>
      insert (publickey (stored_key us b)) ((\<lambda>c. sp_packet (sample_uid c [])) ` UNIV)"
    by (auto simp: key_packets_def stored_key_def signed_packets_def sample_uid_def)
  moreover have "packet_wf (publickey (stored_key us b))" "packet_wf (sp_packet (sample_uid c []))" for c
    using \<open>length b < 200\<close>
    by (simp_all add: stored_key_def sample_uid_def packet_wf_def packet_writable_def packet_version_ok_def plength_def)
  ultimately show ?thesis
    by (auto simp: key_storable_def key_ok_def key_mergeable_def mergeable_def version_known_def
        sig_list_ok_def) (auto simp: stored_key_def sample_uid_def)
qed

lemma stored_key_slot:
  "key_fp sample_hashes (stored_key us [0, 0, 0, 0, 1, 2, 3, 4]) = key_fp sample_hashes (stored_key [] [0, 0, 0, 0, 1, 2, 3, 4])"
  "fp_slot (key_fp sample_hashes (stored_key us [0, 0, 0, 0, 1, 2, 3, 4])) = 0x01020304"
  "key_id sample_hashes (stored_key us [0, 0, 0, 0, 1, 2, 3, 4]) = 0x01020304"
  "fp_slot (key_fp sample_hashes (stored_key us [0, 0, 0, 9, 1, 2, 3, 4])) = 0x01020304"
  "key_id sample_hashes (stored_key us [0, 0, 0, 9, 1, 2, 3, 4]) = 0x0901020304"
proof -
  have f: "key_fp sample_hashes (stored_key us b) = key_fp sample_hashes (stored_key [] b)" for b
    by (simp add: key_fp_def stored_key_def)
  show "key_fp sample_hashes (stored_key us [0, 0, 0, 0, 1, 2, 3, 4]) = key_fp sample_hashes (stored_key [] [0, 0, 0, 0, 1, 2, 3, 4])"
    by (rule f)
  show "fp_slot (key_fp sample_hashes (stored_key us [0, 0, 0, 0, 1, 2, 3, 4])) = 0x01020304"
    "key_id sample_hashes (stored_key us [0, 0, 0, 0, 1, 2, 3, 4]) = 0x01020304"
    "fp_slot (key_fp sample_hashes (stored_key us [0, 0, 0, 9, 1, 2, 3, 4])) = 0x01020304"
    "key_id sample_hashes (stored_key us [0, 0, 0, 9, 1, 2, 3, 4]) = 0x0901020304"
    unfolding key_id_def f by code_simp+
qed

lemma ids_agree_single:
  "(\<And>old. V (slot_of (key_fp H k)) = Some old \<Longrightarrow> key_id H old = key_id H k) \<Longrightarrow> ids_agree H slot_of V [k]"
  by (simp add: ids_agree_def)

lemma ids_agree_empty: "ids_agree H slot_of (\<lambda>_. None) [k]"
  by (simp add: ids_agree_def)

theorem file_update_keys_refines_witness:
  "\<exists>fs'. generic_update_keys sample_hashes (keydb_file_init sample_hashes (\<lambda>_. True) [100]) None False True
        [stored_key [65] [0, 0, 0, 0, 1, 2, 3, 4]] empty_dir =
      Some (1, [stored_key [65] [0, 0, 0, 0, 1, 2, 3, 4]], Some [stored_key [65] [0, 0, 0, 0, 1, 2, 3, 4]], fs') \<and>
    dir_holds sample_hashes (\<lambda>_. True) [100] fs' (stored_table (stored_key [65] [0, 0, 0, 0, 1, 2, 3, 4]))"
proof -
  let ?k = "stored_key [65] [0, 0, 0, 0, 1, 2, 3, 4]"
  have "update_all sample_hashes fp_slot None False [?k] (\<lambda>_. None) = ([?k], 1, stored_table ?k)"
    by (simp add: update_one_def blacklisted_def stored_table_def Let_def)
  from file_update_keys_refines [OF empty_dir_holds [OF sample_hashes_ok] _ _ _ this, of "[100]" "\<lambda>_. True" True]
  show ?thesis by (simp add: stored_key_storable ids_agree_empty)
qed



text \<open>
  An update-only run creates nothing. With \<open>updateonly\<close>, \<open>generic_update_keys\<close> returns 0 as the number
  of new keys and no slot of the directory that was empty is filled; the stored keys are kept.
\<close>

lemma update_only_no_new:
  "update_all H slot_of bl True keys V = (news, n, V') \<Longrightarrow> n = 0"
proof (induction keys arbitrary: V news n)
  case (Cons k keys)
  obtain news1 n1 V1 news2 n2 where one: "update_one H slot_of bl True k V = (news1, n1, V1)"
    and rest: "update_all H slot_of bl True keys V1 = (news2, n2, V')" "n = n1 + n2"
    using Cons.prems by (auto split: prod.splits)
  have "n1 = 0" using one by (auto simp: update_one_def Let_def split: if_splits option.splits)
  with Cons.IH [OF rest(1)] rest(2) show ?case by simp
qed simp

theorem file_update_only:
  assumes "dir_holds H mal db_dir fs V" and "list_all (key_storable H mal) keys" and "ids_agree H fp_slot V keys"
    and "pred_option keyarray_ok bl"
  shows "\<exists>news sync fs' V'. generic_update_keys H (keydb_file_init H mal db_dir) bl True sendsync keys fs =
      Some (0, news, sync, fs') \<and> dir_holds H mal db_dir fs' V' \<and> dom V' = dom V \<and>
    (\<forall>i old. V i = Some old \<longrightarrow> (\<exists>k'. V' i = Some k' \<and> covers k' old))"
proof -
  obtain news n V' where u: "update_all H fp_slot bl True keys V = (news, n, V')"
    by (cases "update_all H fp_slot bl True keys V") auto
  have V: "table_storable H mal V" using assms(1) by (simp add: table_storable_def dir_holds_def)
  note keeps = update_all_keeps [OF u V assms(2)]
  have "dom V' = dom V" unfolding dom_def using keeps(1,3) by (metis (no_types, lifting) not_None_eq)
  then show ?thesis
    using file_db.update_keys_refines [OF assms u, where sendsync = sendsync] update_only_no_new [OF u] keeps(1) by blast
qed

theorem file_update_only_witness:
  "\<exists>news sync fs' V'. generic_update_keys sample_hashes (keydb_file_init sample_hashes (\<lambda>_. True) [100]) None True False
        [stored_key [66] [0, 0, 0, 0, 1, 2, 3, 4]] empty_dir = Some (0, news, sync, fs') \<and>
    dir_holds sample_hashes (\<lambda>_. True) [100] fs' V' \<and> dom V' = {}"
  using file_update_only [OF empty_dir_holds [OF sample_hashes_ok], where db_dir = "[100]" and mal = "\<lambda>_. True" and
      keys = "[stored_key [66] [0, 0, 0, 0, 1, 2, 3, 4]]" and bl = None and sendsync = False]
  by (simp add: stored_key_storable ids_agree_empty)

text \<open>
  C28. A key whose short id is taken is lost. If a file already holds a key with another key id but
  the same low 32 bits, submitting a key with a user id changes nothing on disk: the key of the file is
  fetched in its place, the merge of different keys is refused, and the old key is written
  back. The submitted key is nevertheless reported (and mailed to the peers) as an update.
\<close>

theorem file_update_keys_collision:
  assumes "dir_holds H mal db_dir fs V" and "key_storable H mal k" and "V (fp_slot (key_fp H k)) = Some old"
    and "key_id H old \<noteq> key_id H k" and "uids k \<noteq> []"
  shows "\<exists>k'. generic_update_keys H (keydb_file_init H mal db_dir) None False True [k] fs = Some (0, [k'], Some [k'], fs) \<and>
    uids k' = uids k \<and>
    generic_fetch_key_fp (file_fetch_key_id mal db_dir) fs (key_fp H k) [] intrans = Some (1, [old])"
proof -
  have h: "hash_funs_ok H" and old: "key_storable H mal old" "fp_slot (key_fp H old) = fp_slot (key_fp H k)"
    using assms(1,3) by (auto simp: dir_holds_def)
  have v: "version_known H k" "version_known H old" using assms(2) old(1) by (simp_all add: key_storable_def)
  have fetch: "generic_fetch_key_fp (file_fetch_key_id mal db_dir) fs (key_fp H k) [] tr = Some (1, [old])" for tr
    using file_db.fetch_law [OF assms(1) v(1)] assms(3) by (simp add: keydb_file_init_def)
  let ?r = "\<lambda>key. if revoked old \<or> revoked k then key\<lparr>revoked := True\<rparr> else key"
  have m: "merge_keys H old k = Some (-1, ?r old, ?r k)"
    using key_keyid(1) [OF h v(1)] key_keyid(1) [OF h v(2)] assms(4) by (simp add: merge_keys_def)
  let ?f = "slot_file db_dir (fp_slot (key_fp H k))"
  have f: "\<not> cannot_open fs ?f" "files fs ?f = Some (key_file old)" using assms(1,3) by (simp_all add: dir_holds_def)
  have "get_keyid H (?r old) = Some (ONAK_E_OK, Some (key_id H old))" "key_packets (?r old) = key_packets old"
    using key_keyid(1) [OF h v(2)] by (simp_all add: get_keyid_def key_packets_def)
  moreover have "keyfile db_dir (key_id H old) = ?f" using fp_slot_key [OF h v(2)] old(2) by (simp add: keyfile_slot)
  ultimately have "file_store_key H db_dir fs [?r old] True True = Some (1, fs\<lparr>files := (files fs)(?f \<mapsto> key_file old)\<rparr>)"
    using file_store_key_eq [of H "?r old" "key_id H old" fs db_dir] f(1) old(1) by (simp add: key_storable_def key_file_def)
  moreover have "fs\<lparr>files := (files fs)(?f \<mapsto> key_file old)\<rparr> = fs" using f(2) by (simp add: fun_upd_idem)
  ultimately have store: "file_store_key H db_dir fs [?r old] True True = Some (1, fs)" by simp
  have "uids (?r k) = uids k" by simp
  then show ?thesis
    using key_fingerprint(1) [OF h v(1)] fetch m store assms(5)
    by (intro exI [of _ "?r k"]) (simp add: generic_update_keys_def keydb_file_init_def file_starttrans_def file_endtrans_def)
qed

theorem file_update_keys_collision_witness:
  "\<exists>k'. generic_update_keys sample_hashes (keydb_file_init sample_hashes (\<lambda>_. True) [100]) None False True
      [stored_key [66] [0, 0, 0, 9, 1, 2, 3, 4]] (stored_dir (stored_key [65] [0, 0, 0, 0, 1, 2, 3, 4])) =
      Some (0, [k'], Some [k'], stored_dir (stored_key [65] [0, 0, 0, 0, 1, 2, 3, 4]))"
proof -
  let ?a = "stored_key [65] [0, 0, 0, 0, 1, 2, 3, 4]" and ?b = "stored_key [66] [0, 0, 0, 9, 1, 2, 3, 4]"
  have s: "key_storable sample_hashes (\<lambda>_. True) ?a" "key_storable sample_hashes (\<lambda>_. True) ?b"
    by (simp_all add: stored_key_storable)
  have "stored_table ?a (fp_slot (key_fp sample_hashes ?b)) = Some ?a" "key_id sample_hashes ?a \<noteq> key_id sample_hashes ?b"
    "uids ?b \<noteq> []"
    by (simp_all add: stored_table_def stored_key_slot(2-5)) (simp add: stored_key_def)
  from file_update_keys_collision [OF stored_dir_holds [OF s(1)] s(2) this] show ?thesis by blast
qed

text \<open>
  C29. Every key is visited once. For a listing of the directory whose names with prefix \<open>0x\<close> are the
  files of the slots \<open>slots\<close>, all of them in use, \<open>file_iterate_keys\<close> calls the function once for each
  of these keys, in the order of the listing, skips every other name, and returns their number.
\<close>

theorem file_iterate_keys_visits:
  assumes "dir_holds H mal db_dir fs V" and "list_all (\<lambda>i. V i \<noteq> None) slots"
    and "filter (\<lambda>n. take 2 n = [48, 120]) names = map slot_name slots"
  shows "file_iterate_keys mal db_dir fs (Some names) iterfunc ctx =
    Some (int (length slots), foldl (\<lambda>c i. iterfunc c [the (V i)]) ctx slots)"
  using iterate_files_all [OF assms, where numkeys = 0 and ctx = ctx and iterfunc = iterfunc] by (simp add: file_iterate_keys_def)

theorem file_iterate_keys_visits_witness:
  "file_iterate_keys (\<lambda>_. True) [100] (stored_dir (stored_key [65] [0, 0, 0, 0, 1, 2, 3, 4]))
     (Some [[46], slot_name 0x01020304, [46, 46]]) (\<lambda>c keys. c @ [keys]) [] =
   Some (1, [[stored_key [65] [0, 0, 0, 0, 1, 2, 3, 4]]])"
proof -
  let ?a = "stored_key [65] [0, 0, 0, 0, 1, 2, 3, 4]"
  have "stored_table ?a 0x01020304 = Some ?a" by (simp add: stored_table_def stored_key_slot(2))
  then show ?thesis
    using file_iterate_keys_visits [OF stored_dir_holds [of "\<lambda>_. True" ?a], where slots = "[0x01020304]" and
        names = "[[46], slot_name 0x01020304, [46, 46]]" and iterfunc = "\<lambda>c keys. c @ [keys]" and ctx = "[]"]
    by (simp add: stored_key_storable) (simp add: slot_name_def)
qed

text \<open>
  A damaged file changes what is seen of the next one. If a file holds a complete key and the
  beginning of a further packet, reading it fails, but its packets stay in the variable
  \<open>packets\<close>: \<open>file_iterate_keys\<close> does not report the damaged file, and passes its key along with the key of the next file.
\<close>

theorem file_iterate_keys_damaged_file:
  assumes "dir_holds H mal db_dir fs V" and "V i = Some k" and "take 2 name = [48, 120]"
    and "\<not> cannot_open fs (take 1022 (db_dir @ [47] @ name))"
    and "files fs (take 1022 (db_dir @ [47] @ name)) = Some (key_file k2 @ take n (packet_encoding p))"
    and "key_storable H mal k2" and "packet_writable p" and "0 < n" and "n < length (packet_encoding p)"
  shows "file_iterate_keys mal db_dir fs (Some [name, slot_name i]) iterfunc ctx = Some (2, iterfunc ctx [k2, k])"
proof -
  have k: "\<not> cannot_open fs (slot_file db_dir i)" "files fs (slot_file db_dir i) = Some (key_file k)" "key_storable H mal k"
    using assms(1,2) by (auto simp: dir_holds_def)
  have wf: "key_packets key \<noteq> []" "\<forall>p \<in> set (key_packets key). packet_wf p \<and> mal (plength p)" "key_ok key"
    if "key_storable H mal key" for key
    using that by (simp_all add: key_storable_def) (simp add: key_packets_def)
  obtain rc where "onak_read_openpgp_file mal fs (take 1022 (db_dir @ [47] @ name)) [] = Some (rc, key_packets k2)"
      "rc \<noteq> ONAK_E_OK"
    using read_truncated_file [OF assms(4) assms(5) [unfolded key_file_def] wf(1,2) [OF assms(6)] assms(7-9), of "[]"] by auto
  moreover have "onak_read_openpgp_file mal fs (slot_file db_dir i) (key_packets k2) =
      Some (ONAK_E_OK, key_packets k2 @ key_packets k)"
    using read_binary_file [OF k(1) k(2) [unfolded key_file_def] wf(1,2) [OF k(3)]] by simp
  moreover have "parse_keys (key_packets k2 @ key_packets k) [] = Some (2, [k2, k])"
    using parse_all_keys [of "[k2, k]" "[]" 0] wf(3) [OF assms(6)] wf(3) [OF k(3)] by (simp add: parse_keys_def)
  moreover have "take 2 (slot_name i) = [48, 120]" by (simp add: slot_name_def)
  ultimately show ?thesis
    using assms(3) by (simp add: file_iterate_keys_def slot_name_file del: take_append append.simps)
qed

lemma slot_file_length: "length (slot_file [100] i) \<le> 12"
proof -
  have "length (hex_upper (unat i)) \<le> 8" using hex_upper_length [of "unat i" 7] unsigned_less [of i] by simp
  then show ?thesis by (simp add: slot_file_def)
qed

definition damaged_name :: bytes where
  "damaged_name = [48, 120] @ replicate 20 48"

definition damaged_dir :: file_system where
  "damaged_dir = (stored_dir (stored_key [65] [0, 0, 0, 0, 1, 2, 3, 4]))\<lparr>files :=
     (files (stored_dir (stored_key [65] [0, 0, 0, 0, 1, 2, 3, 4])))
       ([100, 47] @ damaged_name \<mapsto> key_file (stored_key [66] [0, 0, 0, 0, 9, 9, 9, 9]) @ take 3 (packet_encoding sample_packet))\<rparr>"

lemma damaged_dir_holds:
  "dir_holds sample_hashes (\<lambda>_. True) [100] damaged_dir (stored_table (stored_key [65] [0, 0, 0, 0, 1, 2, 3, 4]))"
proof -
  have "slot_file [100] i \<noteq> [100, 47] @ damaged_name" for i
    using slot_file_length [of i] by (auto simp: damaged_name_def)
  then show ?thesis
    using stored_dir_holds [of "\<lambda>_. True" "stored_key [65] [0, 0, 0, 0, 1, 2, 3, 4]"]
    by (simp add: dir_holds_def damaged_dir_def stored_key_storable)
qed

theorem file_iterate_keys_damaged_file_witness:
  "file_iterate_keys (\<lambda>_. True) [100] damaged_dir (Some [damaged_name, slot_name 0x01020304]) (\<lambda>c keys. c @ [keys]) [] =
   Some (2, [[stored_key [66] [0, 0, 0, 0, 9, 9, 9, 9], stored_key [65] [0, 0, 0, 0, 1, 2, 3, 4]]])"
proof -
  let ?a = "stored_key [65] [0, 0, 0, 0, 1, 2, 3, 4]" and ?b = "stored_key [66] [0, 0, 0, 0, 9, 9, 9, 9]"
  have a: "stored_table ?a 0x01020304 = Some ?a" by (simp add: stored_table_def stored_key_slot(2))
  have path: "take 1022 ([100] @ [47] @ damaged_name) = [100, 47] @ damaged_name" by (simp add: damaged_name_def)
  have p: "packet_writable sample_packet" "(3::nat) < length (packet_encoding sample_packet)"
    using sample_packet_wf by (simp_all add: packet_wf_def packet_encoding_def length_octets_def sample_packet_def plength_def)
  have "\<not> cannot_open damaged_dir (take 1022 ([100] @ [47] @ damaged_name))"
    "files damaged_dir (take 1022 ([100] @ [47] @ damaged_name)) =
       Some (key_file ?b @ take 3 (packet_encoding sample_packet))"
    unfolding path by (simp_all add: damaged_dir_def stored_dir_def empty_dir_def)
  note file_iterate_keys_damaged_file [OF damaged_dir_holds a _ this _ p(1) _ p(2), where iterfunc = "\<lambda>c keys. c @ [keys]" and ctx = "[]"]
  moreover have "take 2 damaged_name = [48, 120]" by (simp add: damaged_name_def)
  ultimately show ?thesis by (simp add: stored_key_storable)
qed

section \<open>Deleting\<close>

lemma file_delete_key_removes:
  assumes "dir_holds H mal db_dir fs V" and "version_known H k"
  shows "\<exists>fs'. file_delete_key db_dir fs (key_fp H k) intrans =
      Some (if V (fp_slot (key_fp H k)) = None then -1 else 0, fs') \<and>
    dir_holds H mal db_dir fs' (V(fp_slot (key_fp H k) := None))"
proof -
  have h: "hash_funs_ok H" using assms(1) by (simp add: dir_holds_def)
  let ?i = "fp_slot (key_fp H k)"
  have i: "fingerprint2keyid (key_fp H k) = Some (key_id H k)" "keyfile db_dir (key_id H k) = slot_file db_dir ?i"
    using key_keyid(2) [OF h assms(2)] fp_slot_key [OF h assms(2)] by (simp_all add: keyfile_slot)
  have f: "files fs (slot_file db_dir ?i) = map_option key_file (V ?i)" using assms(1) by (simp add: dir_holds_def)
  show ?thesis
  proof (cases "V ?i")
    case None
    then have "V(?i := None) = V" by (simp add: fun_upd_idem)
    then show ?thesis using None assms(1) f by (simp add: file_delete_key_def i)
  next
    case (Some k')
    have "dir_holds H mal db_dir (fs\<lparr>files := (files fs)(slot_file db_dir ?i := None)\<rparr>) (V(?i := None))"
      using assms(1) slot_file_inj [of db_dir] by (auto simp: dir_holds_def)
    then show ?thesis using Some f by (simp add: file_delete_key_def i)
  qed
qed

end
