(* ===== verification/Key_Db_Keyring.thy ===== *)
theory Key_Db_Keyring
  imports Key_Db_File
begin

text \<open>
  The read-only back end over a keyring file (\<open>keydb/keydb_keyring.c\<close>). The file is mapped into memory; an index of
  the keys in it is made when the database is opened.

  The index refers to a key by its offset and length in the file. A read outside the file is undefined.
  \<open>keyring_parse_keys\<close> passes a pointer to keys, which the functions it calls read, before
  anything was stored in it: the model takes the value found there as a parameter, \<open>None\<close>
  for one that is no list of keys.
\<close>

section \<open>Operations\<close>

record keyring_key =
  kr_fp :: openpgp_fingerprint
  kr_start :: nat
  kr_len :: nat

text \<open>\<open>onak_keyring_dbctx\<close>; \<open>count\<close> is the length of the list of keys, \<open>space\<close> that of the array.\<close>

record keyring =
  kr_file :: bytes
  kr_space :: nat
  kr_keys :: "keyring_key list"

definition keyring_starttrans :: "keyring \<Rightarrow> bool" where
  "keyring_starttrans ring = True"

definition keyring_endtrans :: "keyring \<Rightarrow> keyring" where
  "keyring_endtrans ring = ring"

definition keyring_fetch_key_idx :: "(nat \<Rightarrow> bool) \<Rightarrow> keyring \<Rightarrow> nat \<Rightarrow> publickeys \<Rightarrow> (int \<times> publickeys) option" where
  "keyring_fetch_key_idx mal ring index keys =
     (if length (kr_keys ring) < index then Some (0, keys)
      else if index < length (kr_keys ring) then
        do { buf \<leftarrow> rds (kr_file ring) (kr_start (kr_keys ring ! index)) (kr_len (kr_keys ring ! index));
             (_, packets, _) \<leftarrow> read_openpgp_stream mal buffer_fetchchar (init_buffer buf) [] 0;
             (_, keys) \<leftarrow> parse_keys packets keys;
             Some (1, keys) }
      else None)"

fun fp_index :: "openpgp_fingerprint \<Rightarrow> keyring_key list \<Rightarrow> nat" where
  "fp_index f [] = 0"
| "fp_index f (e # es) = (if fingerprint_cmp f (kr_fp e) = 0 then 0 else Suc (fp_index f es))"

definition keyring_fetch_key :: "(nat \<Rightarrow> bool) \<Rightarrow> keyring \<Rightarrow> openpgp_fingerprint \<Rightarrow> publickeys \<Rightarrow> bool \<Rightarrow> (int \<times> publickeys) option" where
  "keyring_fetch_key mal ring f keys intrans =
     (let i = fp_index f (kr_keys ring)
      in if i < length (kr_keys ring) then keyring_fetch_key_idx mal ring i keys else Some (0, keys))"

fun fetch_id_loop :: "(nat \<Rightarrow> bool) \<Rightarrow> keyring \<Rightarrow> u64 \<Rightarrow> nat list \<Rightarrow> int \<Rightarrow> publickeys \<Rightarrow> (int \<times> publickeys) option" where
  "fetch_id_loop mal ring keyid [] n keys = Some (n, keys)"
| "fetch_id_loop mal ring keyid (i # js) n keys =
     do { k \<leftarrow> fingerprint2keyid (kr_fp (kr_keys ring ! i));
          if k = keyid then
            do { (found, keys) \<leftarrow> keyring_fetch_key_idx mal ring i keys;
                 fetch_id_loop mal ring keyid js (if found \<noteq> 0 then n + 1 else n) keys }
          else fetch_id_loop mal ring keyid js n keys }"

definition keyring_fetch_key_id :: "(nat \<Rightarrow> bool) \<Rightarrow> keyring \<Rightarrow> u64 \<Rightarrow> publickeys \<Rightarrow> bool \<Rightarrow> (int \<times> publickeys) option" where
  "keyring_fetch_key_id mal ring keyid keys intrans = fetch_id_loop mal ring keyid [0..<length (kr_keys ring)] 0 keys"

definition keyring_store_key :: "keyring \<Rightarrow> publickeys \<Rightarrow> bool \<Rightarrow> bool \<Rightarrow> (int \<times> keyring) option" where
  "keyring_store_key ring keys intrans update = Some (0, ring)"

definition keyring_delete_key :: "keyring \<Rightarrow> openpgp_fingerprint \<Rightarrow> bool \<Rightarrow> int \<times> keyring" where
  "keyring_delete_key ring f intrans = (1, ring)"

definition keyring_fetch_key_text :: "keyring \<Rightarrow> bytes \<Rightarrow> publickeys \<Rightarrow> int \<times> publickeys" where
  "keyring_fetch_key_text ring search keys = (0, keys)"

fun iterate_ring :: "(nat \<Rightarrow> bool) \<Rightarrow> keyring \<Rightarrow> ('c \<Rightarrow> publickeys \<Rightarrow> 'c) \<Rightarrow> nat list \<Rightarrow> int \<Rightarrow> 'c \<Rightarrow> (int \<times> 'c) option" where
  "iterate_ring mal ring iterfunc [] n ctx = Some (n, ctx)"
| "iterate_ring mal ring iterfunc (i # js) n ctx =
     do { (found, key) \<leftarrow> keyring_fetch_key_idx mal ring i [];
          if found \<noteq> 0 then iterate_ring mal ring iterfunc js (n + 1) (iterfunc ctx key)
          else iterate_ring mal ring iterfunc js n ctx }"

definition keyring_iterate_keys :: "(nat \<Rightarrow> bool) \<Rightarrow> keyring \<Rightarrow> ('c \<Rightarrow> publickeys \<Rightarrow> 'c) \<Rightarrow> 'c \<Rightarrow> (int \<times> 'c) option" where
  "keyring_iterate_keys mal ring iterfunc ctx = iterate_ring mal ring iterfunc [0..<length (kr_keys ring)] 0 ctx"

definition keyring_update_keys :: "keyring \<Rightarrow> publickeys \<Rightarrow> int \<times> keyring" where
  "keyring_update_keys ring keys = (0, ring)"

section \<open>Indexing the file\<close>

text \<open>
  The tag and the length with its header of the packet at \<open>pos\<close>. \<open>len\<close> is the length of the packet before, which the
  length type 3 of the old format leaves in place; partial lengths of the new format are taken for short ones.
\<close>

definition packet_span :: "bytes \<Rightarrow> nat \<Rightarrow> nat \<Rightarrow> (nat \<times> nat) option" where
  "packet_span file pos len =
     do { c \<leftarrow> rd file pos;
          if c AND 0x40 \<noteq> 0 then
            do { b \<leftarrow> rd file (pos + 1);
                 let n = unat b;
                 len \<leftarrow> (if 191 < n \<and> n < 224 then do { d \<leftarrow> rd file (pos + 2); Some ((n - 192) * 256 + unat d + 192 + 1) }
                        else if 223 < n \<and> n < 255 then Some n
                        else if n = 255 then do { ds \<leftarrow> rds file (pos + 2) 4; Some (be_nat ds + 4) }
                        else Some n);
                 Some (unat (c AND 0x3F), len + 2) }
          else
            do { len \<leftarrow> (if c AND 3 = 0 then do { ds \<leftarrow> rds file (pos + 1) 1; Some (be_nat ds + 2) }
                        else if c AND 3 = 1 then do { ds \<leftarrow> rds file (pos + 1) 2; Some (be_nat ds + 3) }
                        else if c AND 3 = 2 then do { ds \<leftarrow> rds file (pos + 1) 4; Some (be_nat ds + 5) }
                        else Some len);
                 Some (unat (drop_bit 2 (c AND 0x3C)), len) } }"

text \<open>
  A key is entered when the public key packet behind it is found. The key is then read to
  compute its fingerprint, which reads through a null pointer if there is no key.
\<close>

definition keyring_add :: "hash_funs \<Rightarrow> (nat \<Rightarrow> bool) \<Rightarrow> nat \<Rightarrow> nat \<Rightarrow> keyring \<Rightarrow> publickeys option \<Rightarrow> keyring option" where
  "keyring_add H mal start totlen ring key =
     (let new = ring\<lparr>kr_space := (if length (kr_keys ring) = kr_space ring then 2 * kr_space ring else kr_space ring),
            kr_keys := kr_keys ring @ [\<lparr>kr_fp = \<lparr>fp_length = 0, fp = []\<rparr>, kr_start = start, kr_len = totlen\<rparr>]\<rparr>
      in do { keys \<leftarrow> key;
              (_, keys) \<leftarrow> keyring_fetch_key_idx mal new (length (kr_keys ring)) keys;
              (case keys of
                 [] \<Rightarrow> None
               | k # _ \<Rightarrow>
                   do { (_, f) \<leftarrow> get_fingerprint H (publickey k);
                        Some (new\<lparr>kr_keys := kr_keys ring @ [\<lparr>kr_fp = f, kr_start = start, kr_len = totlen\<rparr>]\<rparr>) }) })"

text \<open>The loop; \<open>length - pos\<close> is computed in \<open>size_t\<close>.\<close>

partial_function (option) keyring_walk :: "hash_funs \<Rightarrow> (nat \<Rightarrow> bool) \<Rightarrow> nat \<Rightarrow> nat \<Rightarrow> nat \<Rightarrow> nat \<Rightarrow> keyring \<Rightarrow>
    publickeys option \<Rightarrow> keyring option" where
  "keyring_walk H mal pos start totlen len ring key =
     (if 5 < (length (kr_file ring) + 2 ^ 64 - pos) mod 2 ^ 64 then
        do { c \<leftarrow> rd (kr_file ring) pos;
             if c AND 0x80 = 0 then Some ring
             else do { (t, len) \<leftarrow> packet_span (kr_file ring) pos len;
                       if t = OPENPGP_PACKET_PUBLICKEY then
                         if 0 < totlen then
                           do { ring \<leftarrow> keyring_add H mal start totlen ring key;
                                keyring_walk H mal (pos + len) pos len len ring (Some []) }
                         else keyring_walk H mal (pos + len) pos len len ring key
                       else keyring_walk H mal (pos + len) start (totlen + len) len ring key } }
      else Some ring)"

definition keyring_parse_keys :: "hash_funs \<Rightarrow> (nat \<Rightarrow> bool) \<Rightarrow> keyring \<Rightarrow> publickeys option \<Rightarrow> keyring option" where
  "keyring_parse_keys H mal ring key = keyring_walk H mal 0 0 0 0 ring key"

text \<open>The result is \<open>Some None\<close> where the code returns a null pointer; an empty file cannot be mapped.\<close>

definition keydb_keyring_init :: "hash_funs \<Rightarrow> (nat \<Rightarrow> bool) \<Rightarrow> file_system \<Rightarrow> bytes \<Rightarrow> publickeys option \<Rightarrow> keyring option option" where
  "keydb_keyring_init H mal fs location key =
     (if cannot_open fs location then Some None
      else case files fs location of
        None \<Rightarrow> Some None
      | Some bs \<Rightarrow>
          if bs = [] then Some None
          else do { ring \<leftarrow> keyring_parse_keys H mal \<lparr>kr_file = bs, kr_space = 16, kr_keys = []\<rparr> key;
                    Some (if kr_keys ring = [] then None else Some ring) })"

declare keyring_walk.simps [code]

section \<open>Walking over packets\<close>

lemma packet_span_encoding:
  assumes "packet_writable p" and "file = pre @ packet_encoding p @ rest"
  shows "packet_span file (length pre) len = Some (tag p, length (packet_encoding p))"
    and "rd file (length pre) = Some (header_octet p)"
proof -
  have f: "file = pre @ header_octet p # length_octets p @ data p @ rest" using assms(2) by (simp add: packet_encoding_def)
  then show c: "rd file (length pre) = Some (header_octet p)" by (simp add: rd_def)
  have at: "rds file (length pre + Suc k) n = rds (length_octets p @ data p @ rest) k n"
    "rd file (length pre + Suc k) = rd (length_octets p @ data p @ rest) k" for k n
    by (simp_all add: f rds_def rd_def nth_append)
  note at0 = at [of 0, simplified] and at1 = at [of 1, simplified]
  have len: "length (packet_encoding p) = Suc (length (length_octets p) + plength p)"
    by (simp add: packet_encoding_def plength_def)
  show "packet_span file (length pre) len = Some (tag p, length (packet_encoding p))"
  proof (cases "newformat p")
    case True
    then have t: "tag p < 64" "plength p < 0xFFFFFFFF" "header_octet p = 0x80 OR 0x40 OR word_of_nat (tag p)"
      using assms(1) by (simp_all add: packet_writable_def header_octet_def)
    note h = new_header_bits [OF t(1), folded t(3)]
    consider "plength p < 192" | "192 \<le> plength p" "plength p < 8383" | "8383 \<le> plength p" by linarith
    then show ?thesis
    proof cases
      case 1
      then have l: "length_octets p = [word_of_nat (plength p)]" using True by (simp add: length_octets_def be_bytes_div)
      have "unat (word_of_nat (plength p) :: u8) = plength p" unfolding unat_word_of_nat_u8 using 1 by simp
      then show ?thesis using c h 1 at0(2) unfolding len l by (simp add: packet_span_def)
    next
      case 2
      let ?n = "plength p - 192"
      define a b :: u8 where "a = word_of_nat (?n div 256 + 192)" and "b = word_of_nat ?n"
      have l: "length_octets p = [a, b]" using True 2 by (simp add: length_octets_def a_def b_def)
      have "?n div 256 < 32" using 2 by simp
      moreover from this have "unat a = ?n div 256 + 192" unfolding a_def unat_word_of_nat_u8 by simp
      moreover have "unat b = ?n mod 256" unfolding b_def unat_word_of_nat_u8 by simp
      moreover have "192 + (?n div 256 * 256 + ?n mod 256) = plength p" using 2 by simp
      ultimately show ?thesis using c h at0(2) at1(2) unfolding len l by (simp add: packet_span_def del: div_mult_mod_eq mod_div_mult_eq)
    next
      case 3
      then have l: "length_octets p = 255 # be_bytes 4 (plength p)" using True by (simp add: length_octets_def)
      have "be_nat (be_bytes 4 (plength p)) = plength p" using t(2) by (simp add: be_nat_be_bytes)
      then show ?thesis using c h at0(2) at1(1) [of 4] unfolding len l by (simp add: packet_span_def rds_def)
    qed
  next
    case False
    let ?l = "if plength p < 256 then 0 else if plength p < 0x10000 then 1 else 2 :: u8"
    have t: "tag p < 16" "plength p < 2 ^ 32" "header_octet p = 0x80 OR word_of_nat (tag p * 4) OR ?l"
      using assms(1) False by (simp_all add: packet_writable_def header_octet_def)
    have "?l \<in> {0, 1, 2}" by simp
    note h = old_header_bits [OF t(1) this, folded t(3)]
    obtain n where n: "length_octets p = be_bytes n (plength p)" "n = (if plength p < 256 then 1 else if plength p < 0x10000 then 2 else 4)"
      using False by (simp add: length_octets_def)
    have "be_nat (be_bytes n (plength p)) = plength p" using t(2) n(2) by (simp add: be_nat_be_bytes)
    moreover have "rds file (length pre + 1) n = Some (be_bytes n (plength p))" using at0(1) [of n] n(1) by (simp add: rds_def)
    ultimately show ?thesis
      using c h n(2) unfolding len n(1) by (simp add: packet_span_def split: if_splits)
  qed
qed

lemma size_t_rest: "(pos :: nat) \<le> n \<Longrightarrow> n < 2 ^ 64 \<Longrightarrow> (n + 2 ^ 64 - pos) mod 2 ^ 64 = n - pos"
  by (rule unsigned_diff)

lemma walk_packet:
  assumes "packet_writable p" and f: "kr_file ring = pre @ packet_encoding p @ rest"
    and "5 < length (packet_encoding p @ rest)" and "length (kr_file ring) < 2 ^ 64"
  shows "keyring_walk H mal (length pre) start totlen len ring key =
    (if tag p = OPENPGP_PACKET_PUBLICKEY then
       if 0 < totlen then
         do { ring \<leftarrow> keyring_add H mal start totlen ring key;
              keyring_walk H mal (length (pre @ packet_encoding p)) (length pre) (length (packet_encoding p))
                (length (packet_encoding p)) ring (Some []) }
       else keyring_walk H mal (length (pre @ packet_encoding p)) (length pre) (length (packet_encoding p))
              (length (packet_encoding p)) ring key
     else keyring_walk H mal (length (pre @ packet_encoding p)) start (totlen + length (packet_encoding p))
            (length (packet_encoding p)) ring key)"
proof -
  have "(length (kr_file ring) + 2 ^ 64 - length pre) mod 2 ^ 64 = length (packet_encoding p @ rest)"
    using size_t_rest [of "length pre" "length (kr_file ring)"] assms(4) f by simp
  then show ?thesis
    using packet_span_encoding [OF assms(1) f] header_octet_high [OF assms(1)] assms(3)
    by (subst keyring_walk.simps) (simp del: length_append add: length_append [of pre "packet_encoding p"])
qed

text \<open>Packets that do not start a key.\<close>

lemma walk_packets:
  assumes "\<forall>p \<in> set ps. packet_writable p \<and> tag p \<noteq> OPENPGP_PACKET_PUBLICKEY"
    and "kr_file ring = pre @ stream_encoding ps @ rest" and "5 < length rest" and "length (kr_file ring) < 2 ^ 64"
  shows "\<exists>len'. keyring_walk H mal (length pre) start totlen len ring key =
    keyring_walk H mal (length (pre @ stream_encoding ps)) start (totlen + length (stream_encoding ps)) len' ring key"
  using assms(1,2)
proof (induction ps arbitrary: pre totlen len)
  case Nil
  then show ?case by auto
next
  case (Cons p ps)
  have f: "kr_file ring = pre @ packet_encoding p @ stream_encoding ps @ rest" using Cons.prems(2) by simp
  have p: "packet_writable p" "tag p \<noteq> OPENPGP_PACKET_PUBLICKEY" using Cons.prems(1) by simp_all
  obtain len' where "keyring_walk H mal (length (pre @ packet_encoding p)) start (totlen + length (packet_encoding p))
      (length (packet_encoding p)) ring key =
    keyring_walk H mal (length ((pre @ packet_encoding p) @ stream_encoding ps)) start
      (totlen + length (packet_encoding p) + length (stream_encoding ps)) len' ring key"
    using Cons.IH [of "pre @ packet_encoding p" "totlen + length (packet_encoding p)"] Cons.prems(1) f by fastforce
  then show ?case using walk_packet [OF p(1) f _ assms(4)] p(2) assms(3) by (auto simp: add.assoc)
qed

lemma walk_end:
  assumes "\<forall>p \<in> set ps. packet_writable p \<and> tag p \<noteq> OPENPGP_PACKET_PUBLICKEY"
    and "kr_file ring = pre @ stream_encoding ps" and "length (kr_file ring) < 2 ^ 64"
  shows "keyring_walk H mal (length pre) start totlen len ring key = Some ring"
  using assms(1,2)
proof (induction ps arbitrary: pre totlen len)
  case Nil
  then show ?case using size_t_rest [of "length pre" "length pre"] assms(3) by (subst keyring_walk.simps) simp
next
  case (Cons p ps)
  have f: "kr_file ring = pre @ packet_encoding p @ stream_encoding ps" using Cons.prems(2) by simp
  have p: "packet_writable p" "tag p \<noteq> OPENPGP_PACKET_PUBLICKEY" using Cons.prems(1) by simp_all
  show ?case
  proof (cases "5 < length (packet_encoding p @ stream_encoding ps)")
    case True
    then show ?thesis
      using walk_packet [OF p(1) f _ assms(3)] p(2) Cons.IH [of "pre @ packet_encoding p"] Cons.prems(1) f by simp
  next
    case False
    have "(length (kr_file ring) + 2 ^ 64 - length pre) mod 2 ^ 64 = length (packet_encoding p @ stream_encoding ps)"
      using size_t_rest [of "length pre" "length (kr_file ring)"] assms(3) f by simp
    then show ?thesis using False by (subst keyring_walk.simps) simp
  qed
qed

section \<open>The index of a keyring\<close>

text \<open>The entries of the index are the given keys.\<close>

definition ring_holds :: "hash_funs \<Rightarrow> (nat \<Rightarrow> bool) \<Rightarrow> keyring \<Rightarrow> publickeys \<Rightarrow> bool" where
  "ring_holds H mal ring ks \<longleftrightarrow> length (kr_file ring) < 2 ^ 64 \<and>
     list_all2 (\<lambda>e k. key_storable H mal k \<and> kr_fp e = key_fp H k \<and>
       rds (kr_file ring) (kr_start e) (kr_len e) = Some (key_file k)) (kr_keys ring) ks"

lemma fetch_entry:
  assumes "length (kr_file ring) < 2 ^ 64" and "i < length (kr_keys ring)" and "key_storable H mal k"
    and "rds (kr_file ring) (kr_start (kr_keys ring ! i)) (kr_len (kr_keys ring ! i)) = Some (key_file k)"
  shows "keyring_fetch_key_idx mal ring i keys = Some (1, keys @ [k])"
proof -
  have "length (key_file k) \<le> length (kr_file ring)"
    using assms(4) unfolding rds_eq_Some by (metis length_drop length_take diff_le_self le_trans min.cobounded1 min.commute)
  then have "length (key_file k) < 2 ^ 64" using assms(1) by simp
  then have "buffer_delivers (init_buffer (key_file k)) (stream_encoding (key_packets k))"
    using init_buffer_delivers by (simp add: key_file_def)
  moreover have "\<forall>p \<in> set (key_packets k). packet_wf p \<and> mal (plength p)" using assms(3) by (simp add: key_storable_def)
  ultimately obtain s' where r: "read_openpgp_stream mal buffer_fetchchar (init_buffer (key_file k)) [] 0 =
      Some (ONAK_E_OK, key_packets k, s')"
    using buf_source.read_stream_full [of _ "key_packets k" mal "[]"] by auto
  have "parse_keys (key_packets k) keys = Some (1, keys @ [k])"
    using parse_all_keys [of "[k]" keys 0] assms(3) by (simp add: parse_keys_def key_storable_def)
  then show ?thesis using r assms(2,4) by (simp add: keyring_fetch_key_idx_def)
qed

lemma ring_add:
  assumes "ring_holds H mal ring ks" and "hash_funs_ok H" and "key_storable H mal k"
    and "rds (kr_file ring) start totlen = Some (key_file k)"
  shows "\<exists>ring'. keyring_add H mal start totlen ring (Some []) = Some ring' \<and> ring_holds H mal ring' (ks @ [k]) \<and>
    kr_file ring' = kr_file ring"
proof -
  let ?new = "ring\<lparr>kr_space := (if length (kr_keys ring) = kr_space ring then 2 * kr_space ring else kr_space ring),
      kr_keys := kr_keys ring @ [\<lparr>kr_fp = \<lparr>fp_length = 0, fp = []\<rparr>, kr_start = start, kr_len = totlen\<rparr>]\<rparr>"
  have "keyring_fetch_key_idx mal ?new (length (kr_keys ring)) [] = Some (1, [] @ [k])"
    using assms(1,3,4) by (intro fetch_entry) (simp_all add: ring_holds_def)
  moreover have "get_fingerprint H (publickey k) = Some (ONAK_E_OK, key_fp H k)"
    using key_fingerprint(1) [OF assms(2)] assms(3) by (simp add: key_storable_def)
  ultimately show ?thesis
    using assms by (simp add: keyring_add_def Let_def ring_holds_def list_all2_appendI)
qed

definition in_keyring :: "hash_funs \<Rightarrow> (nat \<Rightarrow> bool) \<Rightarrow> openpgp_publickey \<Rightarrow> bool" where
  "in_keyring H mal k \<longleftrightarrow> key_storable H mal k \<and> 4 \<le> plength (publickey k)"

lemma in_keyringD:
  assumes "in_keyring H mal k"
  shows "key_storable H mal k" and "packet_writable (publickey k)" and "tag (publickey k) = OPENPGP_PACKET_PUBLICKEY"
    and "\<forall>p \<in> set (tl (key_packets k)). packet_writable p \<and> tag p \<noteq> OPENPGP_PACKET_PUBLICKEY"
    and "key_file k = packet_encoding (publickey k) @ stream_encoding (tl (key_packets k))"
    and "5 < length (packet_encoding (publickey k))"
proof -
  show s: "key_storable H mal k" using assms by (simp add: in_keyring_def)
  then have w: "\<forall>p \<in> set (key_packets k). packet_writable p" and ok: "key_ok k" by (auto simp: key_storable_def packet_wf_def)
  show "packet_writable (publickey k)" using w by (simp add: key_packets_def)
  show "tag (publickey k) = OPENPGP_PACKET_PUBLICKEY" using ok by (simp add: key_ok_def)
  have "tag p \<noteq> OPENPGP_PACKET_PUBLICKEY" if "p \<in> set (tl (key_packets k))" for p
    using that ok by (auto simp: key_packets_def key_ok_def sig_list_ok_def signed_packets_def)
  then show "\<forall>p \<in> set (tl (key_packets k)). packet_writable p \<and> tag p \<noteq> OPENPGP_PACKET_PUBLICKEY"
    using w by (auto simp: key_packets_def)
  show "key_file k = packet_encoding (publickey k) @ stream_encoding (tl (key_packets k))"
    by (simp add: key_file_def key_packets_def)
  have "1 \<le> length (length_octets (publickey k))" by (simp add: length_octets_def be_bytes_div)
  then show "5 < length (packet_encoding (publickey k))"
    using assms unfolding packet_encoding_def in_keyring_def plength_def by (simp only: length_Cons length_append) linarith
qed

text \<open>The loop behind the public key packet of \<open>k\<close>: all keys are entered but the last one.\<close>

lemma walk_keys:
  assumes "\<forall>k \<in> set (k # ks). in_keyring H mal k" and "hash_funs_ok H" and "ring_holds H mal ring done"
    and "kr_file ring = pre @ key_file k @ concat (map key_file ks)"
    and "pk = packet_encoding (publickey k)"
  shows "\<exists>ring'. keyring_walk H mal (length (pre @ pk)) (length pre) (length pk) len ring (Some []) = Some ring' \<and>
    ring_holds H mal ring' (done @ butlast (k # ks)) \<and> kr_file ring' = kr_file ring"
  using assms
proof (induction ks arbitrary: k pre ring "done" len pk)
  case Nil
  note k = in_keyringD [of H mal k]
  have f: "kr_file ring = (pre @ pk) @ stream_encoding (tl (key_packets k))" using Nil k(5) by simp
  have "length (kr_file ring) < 2 ^ 64" using Nil.prems(3) by (simp add: ring_holds_def)
  from walk_end [OF k(4) f this] show ?case using Nil by simp
next
  case (Cons k' ks)
  have in_k: "in_keyring H mal k" "in_keyring H mal k'" using Cons.prems(1) by simp_all
  note k = in_keyringD [OF in_k(1)] and k' = in_keyringD [OF in_k(2)]
  let ?rest = "stream_encoding (tl (key_packets k'))  @ concat (map key_file ks)" and ?pk = "packet_encoding (publickey k')"
  have len: "length (kr_file ring) < 2 ^ 64" using Cons.prems(3) by (simp add: ring_holds_def)
  have f: "kr_file ring = (pre @ pk) @ stream_encoding (tl (key_packets k)) @ ?pk @ ?rest"
    using Cons.prems(4,5) k(5) k'(5) by simp
  obtain len' where w: "keyring_walk H mal (length (pre @ pk)) (length pre) (length pk) len ring (Some []) =
      keyring_walk H mal (length (pre @ key_file k)) (length pre) (length (key_file k)) len' ring (Some [])"
    using walk_packets [OF k(4) f _ len] k'(6) k(5) Cons.prems(5) by (fastforce simp: add.assoc)
  have f': "kr_file ring = (pre @ key_file k) @ ?pk @ ?rest" using Cons.prems(4) k'(5) by simp
  have "rds (kr_file ring) (length pre) (length (key_file k)) = Some (key_file k)" using f' by (simp add: rds_def)
  from ring_add [OF Cons.prems(3) Cons.prems(2) k(1) this] obtain ring1 where
    r1: "keyring_add H mal (length pre) (length (key_file k)) ring (Some []) = Some ring1"
      "ring_holds H mal ring1 (done @ [k])" "kr_file ring1 = kr_file ring" by blast
  have pos: "0 < length (key_file k)" using k(5,6) by simp
  have step: "keyring_walk H mal (length (pre @ key_file k)) (length pre) (length (key_file k)) len' ring (Some []) =
      keyring_walk H mal (length ((pre @ key_file k) @ ?pk)) (length (pre @ key_file k)) (length ?pk) (length ?pk) ring1 (Some [])"
    using walk_packet [OF k'(2) f' _ len] k'(3,6) r1(1) pos by simp
  have "kr_file ring1 = (pre @ key_file k) @ key_file k' @ concat (map key_file ks)" using r1(3) Cons.prems(4) by simp
  from Cons.IH [OF _ Cons.prems(2) r1(2) this refl] Cons.prems(1) w step r1(3) show ?case by auto
qed

section \<open>Lookups\<close>

lemma ring_fetch_idx:
  assumes "ring_holds H mal ring ks" and "i < length ks"
  shows "keyring_fetch_key_idx mal ring i keys = Some (1, keys @ [ks ! i])" and "kr_fp (kr_keys ring ! i) = key_fp H (ks ! i)"
    and "key_storable H mal (ks ! i)" and "length (kr_keys ring) = length ks"
proof -
  show l: "length (kr_keys ring) = length ks" using assms(1) by (auto simp: ring_holds_def list_all2_lengthD)
  have e: "key_storable H mal (ks ! i) \<and> kr_fp (kr_keys ring ! i) = key_fp H (ks ! i) \<and>
      rds (kr_file ring) (kr_start (kr_keys ring ! i)) (kr_len (kr_keys ring ! i)) = Some (key_file (ks ! i))"
    using assms unfolding ring_holds_def by (elim conjE) (drule list_all2_nthD2, simp_all)
  then show "key_storable H mal (ks ! i)" "kr_fp (kr_keys ring ! i) = key_fp H (ks ! i)" by blast+
  show "keyring_fetch_key_idx mal ring i keys = Some (1, keys @ [ks ! i])"
    using assms l e by (intro fetch_entry) (auto simp: ring_holds_def)
qed

lemma ring_fp_index:
  assumes "list_all2 (\<lambda>e k. version_known H k \<and> kr_fp e = key_fp H k) es ks" and "hash_funs_ok H" and "fingerprint_ok f"
  shows "(case find (\<lambda>k. key_fp H k = f) ks of
     None \<Rightarrow> fp_index f es = length ks
   | Some k \<Rightarrow> fp_index f es < length ks \<and> ks ! fp_index f es = k)"
  using assms(1)
proof (induction es ks rule: list_all2_induct)
  case (Cons e es k ks)
  have "fingerprint_cmp f (kr_fp e) = 0 \<longleftrightarrow> f = key_fp H k"
    using fingerprint_order.cmp_zero [OF assms(3) key_fingerprint(2) [OF assms(2)], of k] Cons.hyps(1) by simp
  then show ?case using Cons.IH by (auto split: option.splits)
qed simp

lemma ring_fetch_key:
  assumes "ring_holds H mal ring ks" and "hash_funs_ok H" and "fingerprint_ok f"
  shows "keyring_fetch_key mal ring f keys intrans =
    Some (case find (\<lambda>k. key_fp H k = f) ks of None \<Rightarrow> (0, keys) | Some k \<Rightarrow> (1, keys @ [k]))"
proof -
  have "list_all2 (\<lambda>e k. version_known H k \<and> kr_fp e = key_fp H k) (kr_keys ring) ks"
    using assms(1) unfolding ring_holds_def by (auto elim: list_all2_mono simp: key_storable_def)
  from ring_fp_index [OF this assms(2,3)] show ?thesis
    using ring_fetch_idx(1) [OF assms(1), of "fp_index f (kr_keys ring)" keys] assms(1)
    by (auto simp: keyring_fetch_key_def Let_def ring_holds_def list_all2_lengthD split: option.splits)
qed

lemma ring_fetch_id_loop:
  assumes "ring_holds H mal ring ks" and "hash_funs_ok H" and "\<forall>i \<in> set is. i < length ks"
  shows "fetch_id_loop mal ring keyid is n keys =
    (let l = filter (\<lambda>k. key_id H k = keyid) (map (\<lambda>i. ks ! i) is) in Some (n + int (length l), keys @ l))"
  using assms(3)
proof (induction "is" arbitrary: n keys)
  case (Cons i js)
  note e = ring_fetch_idx [OF assms(1), of i]
  have "fingerprint2keyid (kr_fp (kr_keys ring ! i)) = Some (key_id H (ks ! i))"
    using e(2,3) key_keyid(2) [OF assms(2)] Cons.prems by (simp add: key_storable_def)
  then show ?case using Cons e(1) by (simp add: Let_def)
qed simp

lemma ring_iterate:
  assumes "ring_holds H mal ring ks" and "\<forall>i \<in> set is. i < length ks"
  shows "iterate_ring mal ring iterfunc is n ctx =
    Some (n + int (length is), foldl (\<lambda>c i. iterfunc c [ks ! i]) ctx is)"
  using assms(2)
proof (induction "is" arbitrary: n ctx)
  case (Cons i js)
  then show ?case using ring_fetch_idx(1) [OF assms(1), of i "[]"] by simp
qed simp

lemma foldl_nth: "foldl (\<lambda>c i. f c (xs ! i)) a [0..<length xs] = foldl f a xs"
  using foldl_map [of f a "\<lambda>i. xs ! i" "[0..<length xs]"] by (simp add: map_nth)

section \<open>Properties\<close>

lemma keyring_index:
  assumes "\<forall>k \<in> set (k # ks). in_keyring H mal k" and "hash_funs_ok H"
    and "length (concat (map key_file (k # ks))) < 2 ^ 64"
  shows "\<exists>ring. keyring_parse_keys H mal \<lparr>kr_file = concat (map key_file (k # ks)), kr_space = 16, kr_keys = []\<rparr> (Some []) = Some ring \<and>
    ring_holds H mal ring (butlast (k # ks))"
proof -
  let ?ring = "\<lparr>kr_file = concat (map key_file (k # ks)), kr_space = 16, kr_keys = []\<rparr>" and ?pk = "packet_encoding (publickey k)"
  note k = in_keyringD [of H mal k]
  have "in_keyring H mal k" using assms(1) by simp
  note k = in_keyringD [OF this]
  let ?rest = "stream_encoding (tl (key_packets k)) @ concat (map key_file ks)"
  have f: "kr_file ?ring = [] @ ?pk @ ?rest" using k(5) by simp
  have "keyring_parse_keys H mal ?ring (Some []) = keyring_walk H mal (length ([] @ ?pk)) (length []) (length ?pk) (length ?pk) ?ring (Some [])"
    using walk_packet [OF k(2) f, of H mal 0 0 0 "Some []"] k(3,6) assms(3) by (simp add: keyring_parse_keys_def)
  moreover have "ring_holds H mal ?ring []" using assms(3) by (simp add: ring_holds_def)
  ultimately show ?thesis
    using walk_keys [OF assms(1,2), of ?ring "[]" "[]", OF _ _ refl] by fastforce
qed



text \<open>A file of one key is refused.\<close>

lemma keyring_single_key:
  assumes "in_keyring H mal k" and "hash_funs_ok H" and "length (key_file k) < 2 ^ 64"
    and "\<not> cannot_open fs location" and "files fs location = Some (key_file k)"
  shows "keydb_keyring_init H mal fs location (Some []) = Some None"
proof -
  obtain ring where r: "keyring_parse_keys H mal \<lparr>kr_file = key_file k, kr_space = 16, kr_keys = []\<rparr> (Some []) = Some ring"
      "ring_holds H mal ring []"
    using keyring_index [of k "[]" H mal] assms(1-3) by auto
  have "key_file k \<noteq> []" by (simp add: key_file_def key_packets_def)
  then show ?thesis using assms(4,5) r by (auto simp: keydb_keyring_init_def ring_holds_def)
qed

text \<open>If the uninitialised pointer is no list of keys, opening a file of two or more keys is undefined.\<close>

lemma keyring_uninitialised:
  assumes "in_keyring H mal k" and "in_keyring H mal k'" and "length (key_file k @ key_file k' @ bs) < 2 ^ 64"
  shows "keyring_parse_keys H mal \<lparr>kr_file = key_file k @ key_file k' @ bs, kr_space = 16, kr_keys = []\<rparr> None = None"
proof -
  note k = in_keyringD [OF assms(1)] and k' = in_keyringD [OF assms(2)]
  let ?ring = "\<lparr>kr_file = key_file k @ key_file k' @ bs, kr_space = 16, kr_keys = []\<rparr>"
    and ?pk = "packet_encoding (publickey k)" and ?pk' = "packet_encoding (publickey k')"
  let ?rest = "stream_encoding (tl (key_packets k')) @ bs"
  have f: "kr_file ?ring = [] @ ?pk @ stream_encoding (tl (key_packets k)) @ ?pk' @ ?rest" using k(5) k'(5) by simp
  then have f1: "kr_file ?ring = ?pk @ stream_encoding (tl (key_packets k)) @ ?pk' @ ?rest"
    and f2: "kr_file ?ring = key_file k @ ?pk' @ ?rest" using k(5) by simp_all
  have len: "length (kr_file ?ring) < 2 ^ 64" using assms(3) by simp
  have "keyring_parse_keys H mal ?ring None = keyring_walk H mal (length ?pk) 0 (length ?pk) (length ?pk) ?ring None"
    using walk_packet [OF k(2) f _ len, of H mal 0 0 0 None] k(3,6) by (simp add: keyring_parse_keys_def)
  moreover obtain len' where "keyring_walk H mal (length ?pk) 0 (length ?pk) (length ?pk) ?ring None =
      keyring_walk H mal (length (key_file k)) 0 (length (key_file k)) len' ?ring None"
    using walk_packets [OF k(4) f1 _ len] k'(6) k(5) by fastforce
  moreover have "keyring_walk H mal (length (key_file k)) 0 (length (key_file k)) len' ?ring None = None"
    using walk_packet [OF k'(2) f2 _ len] k'(3,6) k(5,6) by (simp add: keyring_add_def)
  ultimately show ?thesis by simp
qed

text \<open>
  Opening a file that ends inside a packet is undefined: the length left over wraps around, and the
  loop reads behind the end of the mapping.
\<close>

lemma keyring_truncated_undefined:
  "keyring_parse_keys H mal \<lparr>kr_file = [0x99, 1, 0, 4, 0, 0, 0], kr_space = 16, kr_keys = []\<rparr> key = None"
proof -
  have "packet_span [0x99, 1, 0, 4, 0, 0, 0] 0 0 = Some (6, 259)" by code_simp
  moreover have "(0x99 AND 0x80 :: u8) \<noteq> 0" by simp
  moreover have "keyring_walk H mal 259 0 259 259 \<lparr>kr_file = [0x99, 1, 0, 4, 0, 0, 0], kr_space = 16, kr_keys = []\<rparr> key = None"
    by (subst keyring_walk.simps) simp
  ultimately show ?thesis unfolding keyring_parse_keys_def by (subst keyring_walk.simps) simp
qed

text \<open>
  A packet of length type 3 in the old format at the start of the file has length 0 in the loop, which then
  does not end.
\<close>

lemma keyring_walk_stuck:
  assumes "keyring_walk H mal pos start totlen len ring key = Some r"
  shows "\<not> (pos = 0 \<and> len = 0 \<and> totlen = 0 \<and> (\<exists>bs. kr_file ring = 0x9B # bs) \<and>
    5 < length (kr_file ring) \<and> length (kr_file ring) < 2 ^ 64)" (is "\<not> ?stuck pos totlen len ring")
proof (rule keyring_walk.raw_induct [where P = "\<lambda>H mal pos start totlen len ring key r. \<not> ?stuck pos totlen len ring", OF _ assms], rule notI)
  fix walk H mal pos start totlen len ring key r
  assume IH: "\<And>H mal pos start totlen len ring key r. walk H mal pos start totlen len ring key = Some r \<Longrightarrow>
      \<not> ?stuck pos totlen len ring"
    and run: "(if 5 < (length (kr_file ring) + 2 ^ 64 - pos) mod 2 ^ 64 then
        do { c \<leftarrow> rd (kr_file ring) pos;
             if c AND 0x80 = 0 then Some ring
             else do { (t, len) \<leftarrow> packet_span (kr_file ring) pos len;
                       if t = OPENPGP_PACKET_PUBLICKEY then
                         if 0 < totlen then
                           do { ring \<leftarrow> keyring_add H mal start totlen ring key;
                                walk H mal (pos + len) pos len len ring (Some []) }
                         else walk H mal (pos + len) pos len len ring key
                       else walk H mal (pos + len) start (totlen + len) len ring key } }
      else Some ring) = Some r"
    and stuck: "?stuck pos totlen len ring"
  have c: "rd (kr_file ring) 0 = Some 0x9B" using stuck by auto
  have "(0x9B AND 0x80 :: u8) \<noteq> 0" "(0x9B AND 0x40 :: u8) = 0" "(0x9B AND 3 :: u8) = 3" "unat (drop_bit 2 (0x9B AND 0x3C) :: u8) = 6"
    by code_simp+
  then have "packet_span (kr_file ring) 0 0 = Some (6, 0)" using c by (simp add: packet_span_def)
  then have "walk H mal 0 0 0 0 ring key = Some r"
    using run stuck c size_t_rest [of 0 "length (kr_file ring)"] \<open>(0x9B AND 0x80 :: u8) \<noteq> 0\<close> by simp
  from IH [OF this] show False using stuck by simp
qed

lemma keyring_endless:
  assumes "5 < length bs" and "length bs < 2 ^ 63"
  shows "keyring_parse_keys H mal \<lparr>kr_file = 0x9B # bs, kr_space = 16, kr_keys = []\<rparr> key = None"
  using keyring_walk_stuck [of H mal 0 0 0 0 "\<lparr>kr_file = 0x9B # bs, kr_space = 16, kr_keys = []\<rparr>" key] assms
  by (cases "keyring_parse_keys H mal \<lparr>kr_file = 0x9B # bs, kr_space = 16, kr_keys = []\<rparr> key") (auto simp: keyring_parse_keys_def)

end
