(* ===== verification/Sockets.thy ===== *)
theory Sockets
  imports Onak_Prelude
begin

text \<open>
  Two processes that talk over a connected stream socket, as \<open>keyd.c\<close> and \<open>keydb/keydb_keyd.c\<close> do. A
  process is the tree of its calls of \<open>write\<close> and \<open>read\<close>; \<open>Undef\<close> is undefined behaviour. The result
  of \<open>write\<close> is the number of octets or -1, that of \<open>read\<close> is what was read, \<open>Some []\<close> at the end
  of the stream, or \<open>None\<close> for -1. The loop that reads until it has all octets goes on for ever at the end
  of the stream, so the type is coinductive.

  The two run in any interleaving. What is on its way to a process is a queue of pieces. A write of at most \<open>atom\<close> octets
  is one piece, a longer one may come in several; \<open>read\<close> returns at least as much of the first piece as it has room for,
  and waits while there is none. Calls do not fail on the connection. The end of the stream is seen once the peer has ended and everything
  has been read.
\<close>

section \<open>Processes\<close>

codatatype 'r proc =
    ended: Done (proc_result: 'r)
  | is_Undef: Undef
  | is_Write: Write (written: bytes) (after_write: "int \<Rightarrow> 'r proc")
  | is_Read: Read (room: nat) (after_read: "bytes option \<Rightarrow> 'r proc")

lemma endedE [elim!]: "ended p \<Longrightarrow> (\<And>r. p = Done r \<Longrightarrow> P) \<Longrightarrow> P"
  by (cases p) auto

text \<open>
  \<open>while (bytes >= 0 && count < size) \<dots>\<close>: the continuation is told whether the loop has ended without an error,
  and what was read.
\<close>

primcorec read_loop :: "nat \<Rightarrow> bytes \<Rightarrow> (bool \<Rightarrow> bytes \<Rightarrow> 'r proc) \<Rightarrow> 'r proc" where
  "read_loop want acc k =
     (if length acc < want
      then Read (want - length acc) (\<lambda>r. case r of None \<Rightarrow> k False acc | Some bs \<Rightarrow> read_loop want (acc @ bs) k)
      else k True acc)"

lemma read_loop_step:
  "length acc < want \<Longrightarrow> read_loop want acc k =
     Read (want - length acc) (\<lambda>r. case r of None \<Rightarrow> k False acc | Some bs \<Rightarrow> read_loop want (acc @ bs) k)"
  by (subst read_loop.code) simp

lemma read_loop_end: "want \<le> length acc \<Longrightarrow> read_loop want acc k = k True acc"
  by (subst read_loop.code) simp

section \<open>The connection\<close>

definition splits :: "nat \<Rightarrow> bytes \<Rightarrow> bytes list \<Rightarrow> bool" where
  "splits atom bs cs \<longleftrightarrow> concat cs = bs \<and> [] \<notin> set cs \<and> (length bs \<le> atom \<longrightarrow> length cs \<le> 1)"

text \<open>The queue after \<open>m\<close> octets have been read.\<close>

fun unread :: "nat \<Rightarrow> bytes list \<Rightarrow> bytes list" where
  "unread m [] = []"
| "unread m (c # q) = (if m < length c then drop m c # q else unread (m - length c) q)"

text \<open>One call of a process with the queue \<open>q\<close>; the list \<open>cs\<close> is what it sends.\<close>

inductive io_call :: "nat \<Rightarrow> bool \<Rightarrow> 'r proc \<Rightarrow> bytes list \<Rightarrow> bytes list \<Rightarrow> 'r proc \<Rightarrow> bytes list \<Rightarrow> bool" for atom eof where
  act_write: "splits atom bs cs \<Longrightarrow> io_call atom eof (Write bs k) q cs (k (int (length bs))) q"
| act_read: "q \<noteq> [] \<Longrightarrow> 0 < n \<Longrightarrow> min n (length (hd q)) \<le> m \<Longrightarrow> m \<le> n \<Longrightarrow> m \<le> length (concat q) \<Longrightarrow>
    io_call atom eof (Read n k) q [] (k (Some (take m (concat q)))) (unread m q)"
| act_read_nothing: "io_call atom eof (Read 0 k) q [] (k (Some [])) q"
| act_eof: "eof \<Longrightarrow> 0 < n \<Longrightarrow> io_call atom eof (Read n k) [] [] (k (Some [])) []"

inductive_simps act_simps [simp]:
  "io_call atom eof (Done r) q cs p q'" "io_call atom eof Undef q cs p q'"
  "io_call atom eof (Write bs k) q cs p q'"

inductive_cases act_readE: "io_call atom eof (Read n k) q cs p q'"

type_synonym ('a, 'b) conn = "'a proc \<times> bytes list \<times> 'b proc \<times> bytes list"

inductive conn_step :: "nat \<Rightarrow> ('a, 'b) conn \<Rightarrow> ('a, 'b) conn \<Rightarrow> bool" for atom where
  left: "io_call atom (ended s) c qc cs c' qc' \<Longrightarrow> conn_step atom (c, qc, s, qs) (c', qc', s, qs @ cs)"
| right: "io_call atom (ended c) s qs cs s' qs' \<Longrightarrow> conn_step atom (c, qc, s, qs) (c, qc @ cs, s', qs')"

inductive_cases conn_stepE: "conn_step atom (c, qc, s, qs) x"

text \<open>Every run reaches a state with \<open>Q\<close>: none gets stuck before, and none goes on for ever without it.\<close>

inductive inevitable :: "nat \<Rightarrow> (('a, 'b) conn \<Rightarrow> bool) \<Rightarrow> ('a, 'b) conn \<Rightarrow> bool" for atom Q where
  now: "Q x \<Longrightarrow> inevitable atom Q x"
| later: "conn_step atom x y \<Longrightarrow> (\<And>y. conn_step atom x y \<Longrightarrow> inevitable atom Q y) \<Longrightarrow> inevitable atom Q x"

inductive_cases inevitableE: "inevitable atom Q x"

text \<open>The goal of a conversation: both have ended and nothing is left over.\<close>

definition both_done :: "('a \<Rightarrow> 'b \<Rightarrow> bool) \<Rightarrow> ('a, 'b) conn \<Rightarrow> bool" where
  "both_done R x \<longleftrightarrow> (\<exists>a b. x = (Done a, [], Done b, []) \<and> R a b)"

section \<open>The order of independent calls does not matter\<close>

lemma splits_exists: "\<exists>cs. splits atom bs cs"
  by (rule exI [of _ "if bs = [] then [] else [bs]"]) (simp add: splits_def)

lemma splits_small: "length bs \<le> atom \<Longrightarrow> bs \<noteq> [] \<Longrightarrow> splits atom bs cs \<longleftrightarrow> cs = [bs]"
  by (cases cs; cases "tl cs") (auto simp: splits_def)

lemma unread_append: "m \<le> length (concat q) \<Longrightarrow> [] \<notin> set ds \<Longrightarrow> unread m (q @ ds) = unread m q @ ds"
proof (induction m q rule: unread.induct)
  case (1 m)
  then show ?case by (cases ds) auto
qed auto

lemma concat_unread: "concat (unread m q) = drop m (concat q)"
  by (induction m q rule: unread.induct) auto

lemma unread_no_Nil: "[] \<notin> set q \<Longrightarrow> [] \<notin> set (unread m q)"
  by (induction m q rule: unread.induct) auto

lemma act_more:
  assumes "io_call atom False p q cs p' q'" and "[] \<notin> set ds"
  shows "io_call atom e p (q @ ds) cs p' (q' @ ds)"
  using assms
proof cases
  case (act_read n m k)
  have "take m (concat q) = take m (concat (q @ ds))" "unread m q @ ds = unread m (q @ ds)"
    using act_read assms(2) by (simp_all add: unread_append)
  then show ?thesis using act_read io_call.act_read [of "q @ ds" n m atom e k] by simp
qed (auto intro: io_call.intros)

lemma act_sends_no_Nil: "io_call atom e p q cs p' q' \<Longrightarrow> [] \<notin> set cs"
  by (auto elim!: io_call.cases simp: splits_def)

text \<open>A process whose next call can be made now and would have the same results later.\<close>

definition steady :: "nat \<Rightarrow> 'r proc \<Rightarrow> bytes list \<Rightarrow> bool" where
  "steady atom p q \<longleftrightarrow> \<not> ended p \<and> (\<exists>cs p' q'. io_call atom False p q cs p' q') \<and>
     (\<forall>ds e cs p' q'. [] \<notin> set ds \<longrightarrow> io_call atom e p (q @ ds) cs p' q' \<longrightarrow>
        (\<exists>q''. q' = q'' @ ds \<and> io_call atom False p q cs p' q''))"

lemma steadyD:
  assumes "steady atom p q" and "[] \<notin> set ds" and "io_call atom e p (q @ ds) cs p' q'"
  obtains q'' where "q' = q'' @ ds" and "io_call atom False p q cs p' q''"
  using assms unfolding steady_def by blast

lemma steady_more:
  assumes "steady atom c qc" and "io_call atom False c qc cs0 c0 q0" and "[] \<notin> set ds"
    and "inevitable atom (both_done R) (c0, q0 @ ds, s, qs @ cs0)"
    and "\<And>cs c' qc'. io_call atom False c qc cs c' qc' \<Longrightarrow> inevitable atom (both_done R) (c', qc' @ ds, s, qs @ cs)"
  shows "inevitable atom (both_done R) (c, qc @ ds, s, qs)"
  using assms(4,3,5)
proof (induction "(c0, q0 @ ds, s, qs @ cs0)" arbitrary: ds s qs rule: inevitable.induct)
  case now
  have ne: "conn_step atom (c, qc @ ds, s, qs) (c0, q0 @ ds, s, qs @ cs0)"
    using act_more [OF assms(2) now(2)] by (rule conn_step.left)
  have "ended s" using now(1) by (auto simp: both_done_def)
  then show ?case
    using now(2,3) assms(1) by (intro inevitable.later [OF ne]) (fastforce elim!: conn_stepE simp: steady_def)
next
  case (later y)
  have ne: "conn_step atom (c, qc @ ds, s, qs) (c0, q0 @ ds, s, qs @ cs0)"
    using act_more [OF assms(2) later(4)] by (rule conn_step.left)
  show ?case
  proof (rule inevitable.later [OF ne])
    fix z assume "conn_step atom (c, qc @ ds, s, qs) z"
    then show "inevitable atom (both_done R) z"
    proof (rule conn_stepE)
      fix cs c' qc' assume "z = (c', qc', s, qs @ cs)" "io_call atom (ended s) c (qc @ ds) cs c' qc'"
      then show ?thesis using steadyD [OF assms(1) later(4)] later(5) by metis
    next
      fix cs s' qs' assume z: "z = (c, (qc @ ds) @ cs, s', qs')" and "io_call atom (ended c) s qs cs s' qs'"
      then have a: "io_call atom False s qs cs s' qs'" using assms(1) by (simp add: steady_def)
      note no_Nil = act_sends_no_Nil [OF a] later(4)
      have s: "conn_step atom (c', qc' @ ds, s, qs @ cs') (c', qc' @ ds @ cs, s', qs' @ cs')"
        if "io_call atom False c qc cs' c' qc'" for c' qc' cs'
        using conn_step.right [OF act_more [OF a act_sends_no_Nil [OF that]], where qc = "qc' @ ds"] by simp
      have "inevitable atom (both_done R) (c', qc' @ ds @ cs, s', qs' @ cs')"
        if "io_call atom False c qc cs' c' qc'" for c' qc' cs'
        using later(5) [OF that]
      proof (rule inevitableE)
        assume "both_done R (c', qc' @ ds, s, qs @ cs')"
        then show ?thesis using a by (auto simp: both_done_def)
      qed (use s [OF that] in auto)
      with later(3) [of "ds @ cs" s' qs'] s [OF assms(2)] no_Nil show ?thesis by (simp add: z)
    qed
  qed
qed

lemma inevitable_left:
  assumes "steady atom c qc"
    and "\<And>cs c' qc'. io_call atom False c qc cs c' qc' \<Longrightarrow> inevitable atom (both_done R) (c', qc', s, qs @ cs)"
  shows "inevitable atom (both_done R) (c, qc, s, qs)"
proof -
  obtain cs c' qc' where "io_call atom False c qc cs c' qc'" using assms(1) by (auto simp: steady_def)
  from steady_more [OF assms(1) this, of "[]" R s qs] assms(2) [OF this] assms(2) show ?thesis by simp
qed

text \<open>The two sides are alike.\<close>

definition swap_sides :: "('a, 'b) conn \<Rightarrow> ('b, 'a) conn" where
  "swap_sides = (\<lambda>(c, qc, s, qs). (s, qs, c, qc))"

lemma conn_step_swap: "conn_step atom x y \<Longrightarrow> conn_step atom (swap_sides x) (swap_sides y)"
  by (erule conn_step.cases) (auto simp: swap_sides_def intro: conn_step.intros)

lemma swap_swap [simp]: "swap_sides (swap_sides x) = x"
  by (cases x) (simp add: swap_sides_def)

lemma inevitable_swap: "inevitable atom (both_done R) x \<Longrightarrow> inevitable atom (both_done (\<lambda>b a. R a b)) (swap_sides x)"
proof (induction rule: inevitable.induct)
  case (now x)
  then show ?case by (intro inevitable.now) (auto simp: both_done_def swap_sides_def)
next
  case (later x y)
  show ?case
  proof (rule inevitable.later [OF conn_step_swap [OF later(1)]])
    fix z assume "conn_step atom (swap_sides x) z"
    from later(3) [OF conn_step_swap [OF this, simplified]]
    show "inevitable atom (both_done (\<lambda>b a. R a b)) z" by simp
  qed
qed

lemma inevitable_right:
  assumes "steady atom s qs"
    and "\<And>cs s' qs'. io_call atom False s qs cs s' qs' \<Longrightarrow> inevitable atom (both_done R) (c, qc @ cs, s', qs')"
  shows "inevitable atom (both_done R) (c, qc, s, qs)"
proof -
  have "inevitable atom (both_done (\<lambda>b a. R a b)) (s, qs, c, qc)"
  proof (rule inevitable_left [OF assms(1)])
    fix cs s' qs' assume "io_call atom False s qs cs s' qs'"
    from inevitable_swap [OF assms(2) [OF this]]
    show "inevitable atom (both_done (\<lambda>b a. R a b)) (s', qs', c, qc @ cs)" by (simp add: swap_sides_def)
  qed
  from inevitable_swap [OF this] show ?thesis by (simp add: swap_sides_def)
qed

section \<open>Rules for each call\<close>

lemma steady_write: "steady atom (Write bs k) q"
  using splits_exists [of atom bs] by (auto simp: steady_def)

lemma left_write:
  assumes "\<And>cs. splits atom bs cs \<Longrightarrow> inevitable atom (both_done R) (k (int (length bs)), qc, s, qs @ cs)"
  shows "inevitable atom (both_done R) (Write bs k, qc, s, qs)"
  by (rule inevitable_left [OF steady_write]) (auto intro: assms)

lemma right_write:
  assumes "\<And>cs. splits atom bs cs \<Longrightarrow> inevitable atom (both_done R) (c, qc @ cs, k (int (length bs)), qs)"
  shows "inevitable atom (both_done R) (c, qc, Write bs k, qs)"
  by (rule inevitable_right [OF steady_write]) (auto intro: assms)

lemma left_write_small:
  assumes "length bs \<le> atom" and "bs \<noteq> []"
    and "inevitable atom (both_done R) (k (int (length bs)), qc, s, qs @ [bs])"
  shows "inevitable atom (both_done R) (Write bs k, qc, s, qs)"
  by (rule left_write) (use assms in \<open>auto simp: splits_small\<close>)

lemma right_write_small:
  assumes "length bs \<le> atom" and "bs \<noteq> []"
    and "inevitable atom (both_done R) (c, qc @ [bs], k (int (length bs)), qs)"
  shows "inevitable atom (both_done R) (c, qc, Write bs k, qs)"
  by (rule right_write) (use assms in \<open>auto simp: splits_small\<close>)

lemma steady_read:
  assumes "0 < n" and "n \<le> length (concat q)"
  shows "steady atom (Read n k) q"
proof -
  have q: "q \<noteq> []" using assms by auto
  have "io_call atom False (Read n k) q [] (k (Some (take n (concat q)))) (unread n q)"
    using assms q by (intro io_call.act_read) auto
  moreover have "\<exists>q''. q' = q'' @ ds \<and> io_call atom False (Read n k) q cs p' q''"
    if "io_call atom e (Read n k) (q @ ds) cs p' q'" "[] \<notin> set ds" for ds e cs p' q'
    using that(1)
  proof (rule act_readE)
    fix m assume m: "cs = []" "p' = k (Some (take m (concat (q @ ds))))" "q' = unread m (q @ ds)"
      "min n (length (hd (q @ ds))) \<le> m" "m \<le> n"
    then have "io_call atom False (Read n k) q [] (k (Some (take m (concat q)))) (unread m q)"
      using assms q by (intro io_call.act_read) auto
    moreover have t: "take m (concat (q @ ds)) = take m (concat q)" and u: "unread m (q @ ds) = unread m q @ ds"
      using m(5) assms(2) that(2) by (simp_all add: unread_append)
    ultimately show ?thesis unfolding m(1,2,3) t u by blast
  qed (use assms q in auto)
  ultimately show ?thesis unfolding steady_def by auto
qed

lemma act_read_full:
  assumes "io_call atom e (Read n k) q cs p' q'" and "0 < n" and "q \<noteq> []"
  obtains m where "cs = []" and "p' = k (Some (take m (concat q)))" and "q' = unread m q"
    and "min n (length (hd q)) \<le> m" and "m \<le> n"
  using assms by (auto elim: act_readE)

lemma read_whole_piece:
  assumes "io_call atom e (Read n k) (bs # q) cs p' q'" and "length bs = n" and "0 < n" and "[] \<notin> set q"
  shows "cs = [] \<and> p' = k (Some bs) \<and> q' = q"
proof (rule act_read_full [OF assms(1,3) list.distinct(2)])
  fix m assume m: "cs = []" "p' = k (Some (take m (concat (bs # q))))" "q' = unread m (bs # q)"
    "min n (length (hd (bs # q))) \<le> m" "m \<le> n"
  moreover have "unread 0 q = q" using assms(4) by (cases q) auto
  ultimately show ?thesis using assms(2) by (simp add: le_antisym)
qed

lemma left_read_piece:
  assumes "length bs = n" and "0 < n" and "[] \<notin> set q"
    and "inevitable atom (both_done R) (k (Some bs), q, s, qs)"
  shows "inevitable atom (both_done R) (Read n k, bs # q, s, qs)"
  using assms by (intro inevitable_left [OF steady_read]) (auto dest!: read_whole_piece)

lemma right_read_piece:
  assumes "length bs = n" and "0 < n" and "[] \<notin> set q"
    and "inevitable atom (both_done R) (c, qc, k (Some bs), q)"
  shows "inevitable atom (both_done R) (c, qc, Read n k, bs # q)"
  using assms by (intro inevitable_right [OF steady_read]) (auto dest!: read_whole_piece)

lemma read_some:
  assumes "io_call atom False (Read n k) q cs p' q'" and "n = length (concat q)" and "0 < n" and "[] \<notin> set q"
  obtains m where "cs = []" and "0 < m" and "m \<le> n" and "p' = k (Some (take m (concat q)))"
    and "concat q' = drop m (concat q)" and "[] \<notin> set q'"
proof -
  have q: "q \<noteq> []" using assms(2,3) by auto
  then have "hd q \<noteq> []" using assms(4) by (cases q) auto
  moreover obtain m where m: "cs = []" "p' = k (Some (take m (concat q)))" "q' = unread m q" "min n (length (hd q)) \<le> m" "m \<le> n"
    using act_read_full [OF assms(1,3) q] by blast
  ultimately have "0 < m" using assms(3) by (simp add: min_le_iff_disj) (metis length_greater_0_conv not_gr_zero le_zero_eq)
  with m show ?thesis using assms(4) that by (simp add: concat_unread unread_no_Nil)
qed

lemma read_loop_done:
  assumes "\<And>q acc. concat q = drop (length acc) bs \<Longrightarrow> [] \<notin> set q \<Longrightarrow> take (length acc) bs = acc \<Longrightarrow>
      length acc < length bs \<Longrightarrow>
      (\<And>acc' q'. length acc < length acc' \<Longrightarrow> take (length acc') bs = acc' \<Longrightarrow> concat q' = drop (length acc') bs \<Longrightarrow>
         [] \<notin> set q' \<Longrightarrow> P (read_loop (length bs) acc' k) q') \<Longrightarrow>
      P (read_loop (length bs) acc k) q"
    and "P (k True bs) []" and "concat q = bs" and "[] \<notin> set q"
  shows "P (read_loop (length bs) [] k) q"
proof -
  have "P (read_loop (length bs) acc k) q"
    if "concat q = drop (length acc) bs" "[] \<notin> set q" "take (length acc) bs = acc" for acc q
    using that
  proof (induction "length bs - length acc" arbitrary: acc q rule: less_induct)
    case less
    show ?case
    proof (cases "length acc < length bs")
      case True
      show ?thesis
      proof (rule assms(1) [OF less(2,3,4) True])
        fix acc' :: bytes and q' assume "length acc < length acc'" "take (length acc') bs = acc'" "concat q' = drop (length acc') bs" "[] \<notin> set q'"
        then show "P (read_loop (length bs) acc' k) q'" using True by (intro less(1)) auto
      qed
    next
      case False
      then have "acc = bs" using less(4) by simp
      moreover from this less(2,3) have "q = []" by (cases q) auto
      ultimately show ?thesis using assms(2) by (simp add: read_loop_end)
    qed
  qed
  from this [of q "[]"] assms(3,4) show ?thesis by simp
qed

lemma read_loop_piece:
  assumes "io_call atom False (read_loop (length bs) acc k) q cs p' q'" and "concat q = drop (length acc) bs" and "[] \<notin> set q"
    and "take (length acc) bs = acc" and "length acc < length bs"
  obtains acc' where "cs = []" and "length acc < length acc'" and "take (length acc') bs = acc'"
    and "p' = read_loop (length bs) acc' k" and "concat q' = drop (length acc') bs" and "[] \<notin> set q'"
proof -
  from assms(1,5) have "io_call atom False (Read (length bs - length acc)
      (\<lambda>r. case r of None \<Rightarrow> k False acc | Some cs \<Rightarrow> read_loop (length bs) (acc @ cs) k)) q cs p' q'"
    by (simp add: read_loop_step)
  then show ?thesis
  proof (rule read_some)
    fix m assume m: "cs = []" "0 < m" "m \<le> length bs - length acc" "concat q' = drop m (concat q)" "[] \<notin> set q'"
      "p' = (case Some (take m (concat q)) of None \<Rightarrow> k False acc | Some cs \<Rightarrow> read_loop (length bs) (acc @ cs) k)"
    let ?acc = "take (length acc + m) bs"
    have "acc @ take m (concat q) = take (length acc) bs @ take m (drop (length acc) bs)"
      using assms(4) unfolding assms(2) by simp
    also have "\<dots> = ?acc" by (rule take_add [symmetric])
    finally have "acc @ take m (concat q) = ?acc" .
    then show ?thesis using that [of ?acc] m assms(2) by (simp add: min_absorb1 add.commute)
  qed (use assms in auto)
qed

lemma steady_read_loop:
  "concat q = drop (length acc) bs \<Longrightarrow> length acc < length bs \<Longrightarrow> steady atom (read_loop (length bs) acc k) q"
  by (simp add: read_loop_step steady_read)

lemma left_read_loop:
  assumes "concat q = bs" and "[] \<notin> set q" and "inevitable atom (both_done R) (k True bs, [], s, qs)"
  shows "inevitable atom (both_done R) (read_loop (length bs) [] k, q, s, qs)"
  using _ assms(3,1,2)
proof (rule read_loop_done)
  fix q acc
  assume h: "concat q = drop (length acc) bs" "[] \<notin> set q" "take (length acc) bs = acc" "length acc < length bs"
    and next_piece: "\<And>acc' q'. length acc < length acc' \<Longrightarrow> take (length acc') bs = acc' \<Longrightarrow>
      concat q' = drop (length acc') bs \<Longrightarrow> [] \<notin> set q' \<Longrightarrow>
      inevitable atom (both_done R) (read_loop (length bs) acc' k, q', s, qs)"
  show "inevitable atom (both_done R) (read_loop (length bs) acc k, q, s, qs)"
  proof (rule inevitable_left [OF steady_read_loop [OF h(1,4)]])
    fix cs c' qc' assume "io_call atom False (read_loop (length bs) acc k) q cs c' qc'"
    then show "inevitable atom (both_done R) (c', qc', s, qs @ cs)"
      by (rule read_loop_piece [OF _ h]) (simp add: next_piece)
  qed
qed

lemma right_read_loop:
  assumes "concat q = bs" and "[] \<notin> set q" and "inevitable atom (both_done R) (c, qc, k True bs, [])"
  shows "inevitable atom (both_done R) (c, qc, read_loop (length bs) [] k, q)"
  using _ assms(3,1,2)
proof (rule read_loop_done)
  fix q acc
  assume h: "concat q = drop (length acc) bs" "[] \<notin> set q" "take (length acc) bs = acc" "length acc < length bs"
    and next_piece: "\<And>acc' q'. length acc < length acc' \<Longrightarrow> take (length acc') bs = acc' \<Longrightarrow>
      concat q' = drop (length acc') bs \<Longrightarrow> [] \<notin> set q' \<Longrightarrow>
      inevitable atom (both_done R) (c, qc, read_loop (length bs) acc' k, q')"
  show "inevitable atom (both_done R) (c, qc, read_loop (length bs) acc k, q)"
  proof (rule inevitable_right [OF steady_read_loop [OF h(1,4)]])
    fix cs c' qc' assume "io_call atom False (read_loop (length bs) acc k) q cs c' qc'"
    then show "inevitable atom (both_done R) (c, qc @ cs, c', qc')"
      by (rule read_loop_piece [OF _ h]) (simp add: next_piece)
  qed
qed

section \<open>A peer that ends too early\<close>

text \<open>The loop has not got all, there is less on its way than it waits for, and the peer has ended.\<close>

definition starved :: "nat \<Rightarrow> (bool \<Rightarrow> bytes \<Rightarrow> 'a proc) \<Rightarrow> ('a, 'b) conn \<Rightarrow> bool" where
  "starved want k x \<longleftrightarrow> (\<exists>acc q r qs. x = (read_loop want acc k, q, Done r, qs) \<and> length acc + length (concat q) < want)"

lemma starved_step:
  assumes "starved want k x" and "conn_step atom x y"
  shows "starved want k y"
proof -
  obtain acc q r qs where x: "x = (read_loop want acc k, q, Done r, qs)" and few: "length acc + length (concat q) < want"
    using assms(1) by (auto simp: starved_def)
  have more: "starved want k (read_loop want acc' k, q', Done r, qs')"
    if "length acc' + length (concat q') < want" for acc' q' qs'
    using that unfolding starved_def by auto
  let ?k = "\<lambda>r. case r of None \<Rightarrow> k False acc | Some bs \<Rightarrow> read_loop want (acc @ bs) k"
  have "read_loop want acc k = Read (want - length acc) ?k" using few by (intro read_loop_step) simp
  with assms(2) x have "conn_step atom (Read (want - length acc) ?k, q, Done r, qs) y" by simp
  then show ?thesis
    using few by (auto elim!: conn_stepE act_readE simp: concat_unread intro!: more)
qed

lemma starved_goes_on:
  assumes "starved want k x"
  shows "\<exists>y. conn_step atom x y"
proof -
  obtain acc q r qs where x: "x = (read_loop want acc k, q, Done r, qs)" and few: "length acc + length (concat q) < want"
    using assms by (auto simp: starved_def)
  let ?k = "\<lambda>r. case r of None \<Rightarrow> k False acc | Some bs \<Rightarrow> read_loop want (acc @ bs) k"
  have p: "read_loop want acc k = Read (want - length acc) ?k" using few by (intro read_loop_step) simp
  show ?thesis
  proof (cases q)
    case Nil
    have "io_call atom (ended (Done r)) (Read (want - length acc) ?k) [] [] (?k (Some [])) []"
      using few by (intro io_call.act_eof) auto
    from conn_step.left [OF this] show ?thesis unfolding x p Nil by blast
  next
    case (Cons c q')
    have "io_call atom (ended (Done r)) (Read (want - length acc) ?k) q [] (?k (Some (take (length (concat q)) (concat q)))) (unread (length (concat q)) q)"
      using few Cons by (intro io_call.act_read) auto
    from conn_step.left [OF this] show ?thesis unfolding x p by blast
  qed
qed

lemma starved_for_ever:
  assumes "(conn_step atom)\<^sup>*\<^sup>* x y" and "starved want k x"
  shows "starved want k y"
  using assms by (induction rule: rtranclp_induct) (auto dest: starved_step)

lemma starved_not_ended: "starved want k x \<Longrightarrow> is_Read (fst x)"
  by (auto simp: starved_def read_loop_step)

end
