(* ===== verification/Key_Db_Stacked.thy ===== *)
theory Key_Db_Stacked
  imports Clean_Key Key_Cache Key_Db_File
begin

text \<open>
  The back end that puts several back ends on top of each other (\<open>keydb/keydb_stacked.c\<close>). A lookup asks one after the
  other; what a lower one finds is stored in the first.

  A \<open>backend\<close> has the function pointers of \<open>struct onak_dbctx\<close> that the stack calls, and its state. The lookups
  that \<open>cleankeys\<close> makes are defined. The key list of the caller is \<open>None\<close> where his pointer
  is left pointing to a key that has been freed.
\<close>

section \<open>Operations\<close>

record 'd backend =
  be_ops :: "'d keydb_ops"
  be_fetch_key :: "'d \<Rightarrow> openpgp_fingerprint \<Rightarrow> publickeys \<Rightarrow> bool \<Rightarrow> (int \<times> publickeys) option"
  be_fetch_key_text :: "'d \<Rightarrow> bytes \<Rightarrow> publickeys \<Rightarrow> (int \<times> publickeys) option"
  be_fetch_key_skshash :: "'d \<Rightarrow> bytes \<Rightarrow> publickeys \<Rightarrow> (int \<times> publickeys) option"
  be_delete_key :: "'d \<Rightarrow> openpgp_fingerprint \<Rightarrow> bool \<Rightarrow> (int \<times> 'd) option"
  be_update_keys :: "'d \<Rightarrow> publickeys \<Rightarrow> keyarray option \<Rightarrow> bool \<Rightarrow> bool \<Rightarrow> ((int \<times> publickeys) \<times> 'd) option"
  be_getkeysigs :: "'d \<Rightarrow> u64 \<Rightarrow> bool \<Rightarrow> hash_state \<Rightarrow> (u64 list \<times> bool \<times> hash_state) option"
  be_keyid2uid :: "'d \<Rightarrow> u64 \<Rightarrow> bytes option option"
  be_state :: 'd

record 'd stacked =
  backends :: "'d backend list"
  stores_on_fallback :: bool

text \<open>Functions that only apply to the first back end; there is undefined behaviour if there is none.\<close>

definition on_first :: "('d backend \<Rightarrow> 'd \<Rightarrow> ('r \<times> 'd) option) \<Rightarrow> 'd stacked \<Rightarrow> ('r \<times> 'd stacked) option" where
  "on_first f st =
     (case backends st of
        [] \<Rightarrow> None
      | b # bs \<Rightarrow> do { (r, d) \<leftarrow> f b (be_state b); Some (r, st\<lparr>backends := b\<lparr>be_state := d\<rparr> # bs\<rparr>) })"

definition stacked_starttrans :: "'d stacked \<Rightarrow> (bool \<times> 'd stacked) option" where
  "stacked_starttrans = on_first (\<lambda>b d. Some (db_starttrans (be_ops b) d))"

definition stacked_endtrans :: "'d stacked \<Rightarrow> (unit \<times> 'd stacked) option" where
  "stacked_endtrans = on_first (\<lambda>b d. Some ((), db_endtrans (be_ops b) d))"

definition stacked_store_key :: "publickeys \<Rightarrow> bool \<Rightarrow> bool \<Rightarrow> 'd stacked \<Rightarrow> (int \<times> 'd stacked) option" where
  "stacked_store_key keys intrans update = on_first (\<lambda>b d. db_store_key (be_ops b) d keys intrans update)"

definition stacked_delete_key :: "openpgp_fingerprint \<Rightarrow> bool \<Rightarrow> 'd stacked \<Rightarrow> (int \<times> 'd stacked) option" where
  "stacked_delete_key f intrans = on_first (\<lambda>b d. be_delete_key b d f intrans)"

definition stacked_update_keys :: "publickeys \<Rightarrow> keyarray option \<Rightarrow> bool \<Rightarrow> bool \<Rightarrow> 'd stacked \<Rightarrow>
    ((int \<times> publickeys) \<times> 'd stacked) option" where
  "stacked_update_keys keys blacklist updateonly sendsync =
     on_first (\<lambda>b d. be_update_keys b d keys blacklist updateonly sendsync)"

text \<open>What the cleaning sees of a back end.\<close>

definition backend_dbctx :: "'d backend \<Rightarrow> onak_dbctx" where
  "backend_dbctx b =
     \<lparr>fetch_key = \<lambda>f. (case be_fetch_key b (be_state b) f [] False of Some (n, _) \<Rightarrow> nat n | None \<Rightarrow> 0),
      fetch_key_id = \<lambda>i. (case db_fetch_key_id (be_ops b) (be_state b) i [] False of Some (_, keys) \<Rightarrow> keys | None \<Rightarrow> [])\<rparr>"

record clean_setup =
  cl_hashes :: hash_funs
  cl_crypto :: crypto
  cl_config :: onak_config
  cl_policies :: u64

definition clean_for :: "clean_setup \<Rightarrow> 'd backend \<Rightarrow> publickeys \<Rightarrow> publickeys option" where
  "clean_for cl b keys =
     do { (keys, _) \<leftarrow> cleankeys (cl_hashes cl) (cl_crypto cl) (backend_dbctx b) (cl_config cl) (Some keys) (cl_policies cl); keys }"

fun store_each :: "'d keydb_ops \<Rightarrow> publickeys \<Rightarrow> bool \<Rightarrow> 'd \<Rightarrow> 'd option" where
  "store_each ops [] intrans d = Some d"
| "store_each ops (curkey # keys) intrans d =
     do { (_, d) \<leftarrow> db_store_key ops d (curkey # keys) intrans False; store_each ops keys intrans d }"

text \<open>
  \<open>cleankeys\<close> is given the address of a copy of the caller's pointer. It frees a key that it drops; so if it drops the first one,
  the caller's pointer is left dangling. Otherwise the caller sees the cleaned keys.
\<close>

definition store_on_fallback :: "clean_setup \<Rightarrow> publickeys \<Rightarrow> bool \<Rightarrow> 'd stacked \<Rightarrow> (publickeys option \<times> 'd stacked) option" where
  "store_on_fallback cl keys intrans st =
     on_first (\<lambda>b d. do { cleaned \<leftarrow> clean_for cl b keys;
                          d \<leftarrow> store_each (be_ops b) cleaned intrans d;
                          view \<leftarrow> (case keys of
                                     [] \<Rightarrow> Some (Some [])
                                   | k # _ \<Rightarrow> do { l \<leftarrow> clean_for cl b [k]; Some (if l = [] then None else Some cleaned) });
                          Some (view, d) }) st"

text \<open>The loop over the back ends; the last result is how many the variable \<open>cur\<close> has gone past.\<close>

fun walk_stack :: "('d backend \<Rightarrow> publickeys \<Rightarrow> (int \<times> publickeys) option) \<Rightarrow> 'd backend list \<Rightarrow> int \<Rightarrow> publickeys \<Rightarrow> nat \<Rightarrow>
    (int \<times> publickeys \<times> nat) option" where
  "walk_stack fetch [] res keys cur = Some (res, keys, cur)"
| "walk_stack fetch (b # bs) res keys cur =
     (if res = 0 then do { (res, keys) \<leftarrow> fetch b keys; walk_stack fetch bs res keys (cur + 1) }
      else Some (res, keys, cur))"

definition stacked_fetch :: "clean_setup \<Rightarrow> ('d backend \<Rightarrow> publickeys \<Rightarrow> (int \<times> publickeys) option) \<Rightarrow> publickeys \<Rightarrow> bool \<Rightarrow>
    'd stacked \<Rightarrow> (int \<times> publickeys option \<times> 'd stacked) option" where
  "stacked_fetch cl fetch keys intrans st =
     do { (res, keys, cur) \<leftarrow> walk_stack fetch (backends st) 0 keys 0;
          if stores_on_fallback st \<and> cur \<noteq> 0
          then do { (view, st) \<leftarrow> store_on_fallback cl keys intrans st; Some (res, view, st) }
          else Some (res, Some keys, st) }"

definition stacked_fetch_key :: "clean_setup \<Rightarrow> openpgp_fingerprint \<Rightarrow> publickeys \<Rightarrow> bool \<Rightarrow> 'd stacked \<Rightarrow>
    (int \<times> publickeys option \<times> 'd stacked) option" where
  "stacked_fetch_key cl f keys intrans = stacked_fetch cl (\<lambda>b keys. be_fetch_key b (be_state b) f keys intrans) keys intrans"

definition stacked_fetch_key_fp :: "clean_setup \<Rightarrow> openpgp_fingerprint \<Rightarrow> publickeys \<Rightarrow> bool \<Rightarrow> 'd stacked \<Rightarrow>
    (int \<times> publickeys option \<times> 'd stacked) option" where
  "stacked_fetch_key_fp cl f keys intrans =
     stacked_fetch cl (\<lambda>b keys. db_fetch_key_fp (be_ops b) (be_state b) f keys intrans) keys intrans"

definition stacked_fetch_key_id :: "clean_setup \<Rightarrow> u64 \<Rightarrow> publickeys \<Rightarrow> bool \<Rightarrow> 'd stacked \<Rightarrow>
    (int \<times> publickeys option \<times> 'd stacked) option" where
  "stacked_fetch_key_id cl i keys intrans =
     stacked_fetch cl (\<lambda>b keys. db_fetch_key_id (be_ops b) (be_state b) i keys intrans) keys intrans"

definition stacked_fetch_key_text :: "clean_setup \<Rightarrow> bytes \<Rightarrow> publickeys \<Rightarrow> 'd stacked \<Rightarrow>
    (int \<times> publickeys option \<times> 'd stacked) option" where
  "stacked_fetch_key_text cl search keys = stacked_fetch cl (\<lambda>b keys. be_fetch_key_text b (be_state b) search keys) keys False"

definition stacked_fetch_key_skshash :: "clean_setup \<Rightarrow> bytes \<Rightarrow> publickeys \<Rightarrow> 'd stacked \<Rightarrow>
    (int \<times> publickeys option \<times> 'd stacked) option" where
  "stacked_fetch_key_skshash cl hash keys = stacked_fetch cl (\<lambda>b keys. be_fetch_key_skshash b (be_state b) hash keys) keys False"

text \<open>The generic functions call \<open>fetch_key_id\<close> of the stack, once; this table gives them its result.\<close>

definition fetched_ops :: "int \<Rightarrow> publickeys \<Rightarrow> unit keydb_ops" where
  "fetched_ops n fetched =
     \<lparr>db_starttrans = \<lambda>d. (True, d), db_endtrans = \<lambda>d. d, db_fetch_key_id = \<lambda>d i keys intrans. Some (n, keys @ fetched),
      db_fetch_key_fp = \<lambda>d f keys intrans. None, db_store_key = \<lambda>d keys intrans update. None\<rparr>"

definition stacked_getkeysigs :: "clean_setup \<Rightarrow> u64 \<Rightarrow> bool \<Rightarrow> 'd stacked \<Rightarrow> hash_state \<Rightarrow>
    (u64 list \<times> bool \<times> 'd stacked \<times> hash_state) option" where
  "stacked_getkeysigs cl keyid revd st hash =
     (case backends st of
        [] \<Rightarrow> None
      | b # _ \<Rightarrow>
          do { (l, revd, hash) \<leftarrow> be_getkeysigs b (be_state b) keyid revd hash;
               if l \<noteq> [] then Some (l, revd, st, hash)
               else do { (n, view, st) \<leftarrow> stacked_fetch_key_id cl keyid [] False st;
                         keys \<leftarrow> view;
                         (l, revd, hash) \<leftarrow> generic_getkeysigs (fetched_ops n keys) () keyid revd hash;
                         Some (l, revd, st, hash) } })"

definition stacked_keyid2uid :: "clean_setup \<Rightarrow> u64 \<Rightarrow> 'd stacked \<Rightarrow> (bytes option \<times> 'd stacked) option" where
  "stacked_keyid2uid cl keyid st =
     (case backends st of
        [] \<Rightarrow> None
      | b # _ \<Rightarrow>
          do { r \<leftarrow> be_keyid2uid b (be_state b) keyid;
               if r \<noteq> None then Some (r, st)
               else do { (n, view, st) \<leftarrow> stacked_fetch_key_id cl keyid [] False st;
                         keys \<leftarrow> view;
                         r \<leftarrow> generic_keyid2uid (fetched_ops n keys) () keyid;
                         Some (r, st) } })"

text \<open>
  \<open>strtok_r\<close> with the delimiter ':': the parts of the location that are not empty. \<open>find_config\<close> is \<open>find_db_backend_config\<close>,
  \<open>dbinit\<close> the function \<open>config.dbinit\<close>, which is taken to succeed; the result is \<open>None\<close> for a null pointer.
\<close>

function backend_names :: "bytes \<Rightarrow> bytes list" where
  "backend_names location =
     (let rest = dropWhile (\<lambda>c. c = 58) location
      in if rest = [] then []
         else takeWhile (\<lambda>c. c \<noteq> 58) rest # backend_names (drop 1 (dropWhile (\<lambda>c. c \<noteq> 58) rest)))"
  by pat_completeness auto

termination backend_names
proof (relation "measure length")
  fix location rest :: bytes
  assume r: "rest = dropWhile (\<lambda>c. c = 58) location" "rest \<noteq> []"
  have "0 < length rest" using r(2) by simp
  moreover have "length rest \<le> length location" unfolding r(1) by (rule length_dropWhile_le)
  moreover have "length (dropWhile (\<lambda>c. c \<noteq> 58) rest) \<le> length rest" by (rule length_dropWhile_le)
  ultimately show "(drop 1 (dropWhile (\<lambda>c. c \<noteq> 58) rest), location) \<in> measure length"
    unfolding in_measure length_drop by linarith
qed simp

fun load_backends :: "(bytes \<Rightarrow> 'c option) \<Rightarrow> ('c \<Rightarrow> 'd backend) \<Rightarrow> bytes list \<Rightarrow> 'd backend list \<Rightarrow> 'd backend list option" where
  "load_backends find_config dbinit [] bs = Some bs"
| "load_backends find_config dbinit (name # names) bs =
     (case find_config name of
        None \<Rightarrow> None
      | Some cfg \<Rightarrow> load_backends find_config dbinit names (lladdend bs (dbinit cfg)))"

definition keydb_stacked_init :: "(bytes \<Rightarrow> 'c option) \<Rightarrow> ('c \<Rightarrow> 'd backend) \<Rightarrow> bytes option \<Rightarrow> 'd stacked option" where
  "keydb_stacked_init find_config dbinit location =
     (case location of
        None \<Rightarrow> None
      | Some l \<Rightarrow>
          map_option (\<lambda>bs. \<lparr>backends = bs, stores_on_fallback = True\<rparr>) (load_backends find_config dbinit (backend_names l) []))"

section \<open>Properties\<close>

lemma load_backends_map:
  "load_backends find_config dbinit names bs =
    (if list_all (\<lambda>n. find_config n \<noteq> None) names then Some (bs @ map (\<lambda>n. dbinit (the (find_config n))) names) else None)"
  by (induction names arbitrary: bs) (auto split: option.splits)

lemma walk_stack_two:
  assumes "fetch b1 keys = Some (0, keys)" and "fetch b2 keys = Some (1, l)"
  shows "walk_stack fetch (b1 # b2 # bs) 0 keys 0 = Some (1, l, 2)"
  using assms by (cases bs) (simp_all add: numeral_2_eq_2)

lemma walk_stack_first:
  assumes "fetch b keys = Some (n, l)" and "n \<noteq> 0"
  shows "walk_stack fetch (b # bs) 0 keys 0 = Some (n, l, 1)"
  using assms by (cases bs) simp_all

context key_backend
begin

text \<open>A key that a lookup brings up is cleaned and stored in the first back end.\<close>

lemma fallback_stores:
  assumes "backends st = b # bs" and "be_ops b = ops" and "represents (be_state b) V"
    and "clean_for cl b [k] = Some [k']" and "key_storable H mal k'"
  shows "\<exists>d. store_on_fallback cl [k] intrans st = Some (Some [k'], st\<lparr>backends := b\<lparr>be_state := d\<rparr> # bs\<rparr>) \<and>
    represents d (V(slot_of (key_fp H k') \<mapsto> k'))"
proof -
  obtain n d where "db_store_key ops (be_state b) [k'] intrans False = Some (n, d)"
      "represents d (V(slot_of (key_fp H k') \<mapsto> k'))"
    using store_law [OF assms(3,5), of "[]" intrans False] by auto
  then show ?thesis using assms(1,2,4) by (intro exI [of _ d]) (simp add: store_on_fallback_def on_first_def)
qed

lemma stack_fetch_stores:
  assumes "st = \<lparr>backends = b # low # bs, stores_on_fallback = True\<rparr>" and "be_ops b = ops" and "represents (be_state b) V"
    and "version_known H k" and "key = (case V (slot_of (key_fp H k)) of None \<Rightarrow> k | Some old \<Rightarrow> old)"
    and "db_fetch_key_fp (be_ops low) (be_state low) (key_fp H k) [] intrans = Some (1, [k])"
    and "clean_for cl b [key] = Some [key']" and "key_storable H mal key'"
  shows "\<exists>d. stacked_fetch_key_fp cl (key_fp H k) [] intrans st =
      Some (1, Some [key'], st\<lparr>backends := b\<lparr>be_state := d\<rparr> # low # bs\<rparr>) \<and>
    represents d (V(slot_of (key_fp H key') \<mapsto> key'))"
proof -
  let ?fetch = "\<lambda>b keys. db_fetch_key_fp (be_ops b) (be_state b) (key_fp H k) keys intrans"
  have "\<exists>cur. walk_stack ?fetch (b # low # bs) 0 [] 0 = Some (1, [key], cur) \<and> cur \<noteq> 0"
  proof (cases "V (slot_of (key_fp H k))")
    case None
    then have "?fetch b [] = Some (0, [])" using fetch_law [OF assms(3,4)] assms(2) by simp
    from walk_stack_two [of ?fetch, OF this assms(6)] show ?thesis using None assms(5)
      by (intro exI [of _ 2]) (simp del: walk_stack.simps)
  next
    case (Some old)
    then have "?fetch b [] = Some (1, [old])" using fetch_law [OF assms(3,4)] assms(2) by simp
    from walk_stack_first [of ?fetch, OF this] show ?thesis using Some assms(5)
      by (intro exI [of _ 1]) (simp del: walk_stack.simps)
  qed
  then obtain cur where w: "walk_stack ?fetch (backends st) 0 [] 0 = Some (1, [key], cur)" "cur \<noteq> 0" using assms(1) by auto
  have "backends st = b # low # bs" using assms(1) by simp
  from fallback_stores [OF this assms(2,3,7,8), of intrans] w assms(1)
  show ?thesis by (auto simp: stacked_fetch_key_fp_def stacked_fetch_def)
qed

end


text \<open>The file back end as one of a stack.\<close>

definition file_backend :: "hash_funs \<Rightarrow> (nat \<Rightarrow> bool) \<Rightarrow> bytes \<Rightarrow> file_system \<Rightarrow> file_system backend" where
  "file_backend H mal db_dir fs =
     (let ops = keydb_file_init H mal db_dir in
      \<lparr>be_ops = ops, be_fetch_key = db_fetch_key_fp ops,
       be_fetch_key_text = \<lambda>fs search keys. Some (file_fetch_key_text fs search keys),
       be_fetch_key_skshash = \<lambda>fs hash keys. None, be_delete_key = file_delete_key db_dir,
       be_update_keys = \<lambda>fs keys blacklist updateonly sendsync.
         map_option (\<lambda>(n, keys, _, fs). ((n, keys), fs)) (generic_update_keys H ops blacklist updateonly sendsync keys fs),
       be_getkeysigs = generic_getkeysigs ops, be_keyid2uid = generic_keyid2uid ops, be_state = fs\<rparr>)"


definition sample_setup :: clean_setup where
  "sample_setup = \<lparr>cl_hashes = sample_hashes, cl_crypto = sample_crypto, cl_config = \<lparr>max_sigs_per_uid = 0, max_sigs_per_uat = 0\<rparr>,
     cl_policies = 0\<rparr>"

lemma clean_stored_key: "clean_for sample_setup b [stored_key [65] []] = Some [stored_key [65] []]"
  by code_simp


text \<open>
  A lookup that finds an old key returns a dangling pointer. If the first back end does not have the key and the second one returns a key of
  a version before 4, \<open>cleankeys\<close> drops and frees it: the lookup reports success, and the caller's pointer is left pointing to the
  freed key; nothing is stored.
\<close>

theorem stacked_fetch_old_key_dangling:
  assumes "st = \<lparr>backends = b # low # bs, stores_on_fallback = True\<rparr>"
    and "db_fetch_key_id (be_ops b) (be_state b) i [] intrans = Some (0, [])"
    and "db_fetch_key_id (be_ops low) (be_state low) i [] intrans = Some (1, [k])"
    and "data (publickey k) = v # rest" and "v < 4"
  shows "stacked_fetch_key_id cl i [] intrans st = Some (1, None, st)"
proof -
  have "clean_for cl b [k] = Some []" using assms(4,5) by (simp add: clean_for_def cleankeys_def)
  then have "store_on_fallback cl [k] intrans st = Some (None, st)"
    using assms(1) by (simp add: store_on_fallback_def on_first_def)
  moreover have "walk_stack (\<lambda>b keys. db_fetch_key_id (be_ops b) (be_state b) i keys intrans) (b # low # bs) 0 [] 0 = Some (1, [k], 2)"
    using walk_stack_two [of "\<lambda>b keys. db_fetch_key_id (be_ops b) (be_state b) i keys intrans"] assms(2,3) by blast
  ultimately show ?thesis
    using assms(1) by (simp add: stacked_fetch_key_id_def stacked_fetch_def del: walk_stack.simps)
qed

declare read_packets.simps [code]

definition old_key :: openpgp_publickey where
  "old_key = \<lparr>publickey = \<lparr>tag = 6, newformat = False, data = [3, 0, 0, 0, 1, 0, 0, 1]\<rparr>, revoked = False, sigs = [], uids = [], subkeys = []\<rparr>"

definition old_key_dir :: file_system where
  "old_key_dir = empty_dir\<lparr>files := [keyfile [100] 5 \<mapsto> key_file old_key]\<rparr>"

theorem stacked_fetch_old_key_dangling_witness:
  "stacked_fetch_key_id sample_setup 5 [] False
      \<lparr>backends = [file_backend sample_hashes (\<lambda>_. True) [100] empty_dir, file_backend sample_hashes (\<lambda>_. True) [100] old_key_dir],
        stores_on_fallback = True\<rparr> =
    Some (1, None, \<lparr>backends = [file_backend sample_hashes (\<lambda>_. True) [100] empty_dir, file_backend sample_hashes (\<lambda>_. True) [100] old_key_dir],
        stores_on_fallback = True\<rparr>)"
proof (rule stacked_fetch_old_key_dangling [where k = old_key, OF refl])
  have "file_fetch_key_id (\<lambda>_. True) [100] empty_dir 5 [] False = Some (0, [])" by code_simp
  then show "db_fetch_key_id (be_ops (file_backend sample_hashes (\<lambda>_. True) [100] empty_dir))
      (be_state (file_backend sample_hashes (\<lambda>_. True) [100] empty_dir)) 5 [] False = Some (0, [])"
    by (simp add: file_backend_def Let_def keydb_file_init_def)
  have "file_fetch_key_id (\<lambda>_. True) [100] old_key_dir 5 [] False = Some (1, [old_key])" by code_simp
  then show "db_fetch_key_id (be_ops (file_backend sample_hashes (\<lambda>_. True) [100] old_key_dir))
      (be_state (file_backend sample_hashes (\<lambda>_. True) [100] old_key_dir)) 5 [] False = Some (1, [old_key])"
    by (simp add: file_backend_def Let_def keydb_file_init_def)
  show "data (publickey old_key) = 3 # [0, 0, 0, 1, 0, 0, 1]" "(3 :: u8) < 4" by (simp_all add: old_key_def)
qed

end
