(* ===== verification/Keyd.thy ===== *)
theory Keyd
  imports Sockets Key_Db_Stacked
begin

text \<open>
  The key daemon (\<open>keydb/keyd.c\<close>, \<open>keyd.h\<close>): the protocol it speaks on its socket and its table of
  clients. Each function is a process that continues with \<open>k\<close>. Numbers are sent as they lie in memory, lowest octet first.

  The state has the database (\<open>dbctx\<close>, with the keys that \<open>iterate_keys\<close> would visit, in order), the statistics and
  the flag of \<open>cleanup.c\<close>.
\<close>

section \<open>The protocol\<close>

abbreviation (input) KEYD_CMD_UNKNOWN :: nat where "KEYD_CMD_UNKNOWN \<equiv> 0"
abbreviation (input) KEYD_CMD_VERSION :: nat where "KEYD_CMD_VERSION \<equiv> 1"
abbreviation (input) KEYD_CMD_GET_ID :: nat where "KEYD_CMD_GET_ID \<equiv> 2"
abbreviation (input) KEYD_CMD_STORE :: nat where "KEYD_CMD_STORE \<equiv> 3"
abbreviation (input) KEYD_CMD_DELETE :: nat where "KEYD_CMD_DELETE \<equiv> 4"
abbreviation (input) KEYD_CMD_GET_TEXT :: nat where "KEYD_CMD_GET_TEXT \<equiv> 5"
abbreviation (input) KEYD_CMD_KEYITER :: nat where "KEYD_CMD_KEYITER \<equiv> 7"
abbreviation (input) KEYD_CMD_CLOSE :: nat where "KEYD_CMD_CLOSE \<equiv> 8"
abbreviation (input) KEYD_CMD_QUIT :: nat where "KEYD_CMD_QUIT \<equiv> 9"
abbreviation (input) KEYD_CMD_STATS :: nat where "KEYD_CMD_STATS \<equiv> 10"
abbreviation (input) KEYD_CMD_GET_SKSHASH :: nat where "KEYD_CMD_GET_SKSHASH \<equiv> 11"
abbreviation (input) KEYD_CMD_GET_FP :: nat where "KEYD_CMD_GET_FP \<equiv> 12"
abbreviation (input) KEYD_CMD_UPDATE :: nat where "KEYD_CMD_UPDATE \<equiv> 13"
abbreviation (input) KEYD_CMD_GET :: nat where "KEYD_CMD_GET \<equiv> 14"
abbreviation (input) KEYD_CMD_LAST :: nat where "KEYD_CMD_LAST \<equiv> 15"
abbreviation (input) KEYD_REPLY_OK :: nat where "KEYD_REPLY_OK \<equiv> 0"
abbreviation (input) KEYD_REPLY_UNKNOWN_CMD :: nat where "KEYD_REPLY_UNKNOWN_CMD \<equiv> 1"
abbreviation (input) keyd_version :: nat where "keyd_version \<equiv> 5"

definition le_bytes :: "nat \<Rightarrow> nat \<Rightarrow> bytes" where
  "le_bytes n v = rev (be_bytes n v)"

definition le_nat :: "bytes \<Rightarrow> nat" where
  "le_nat bs = be_nat (rev bs)"

record keyd_stats =
  started :: u64
  connects :: u32
  command_stats :: "u32 list"

record 'd keyd =
  kd_dbctx :: "'d backend"
  db_iterate_keys :: "'d \<Rightarrow> publickeys list option"
  stats :: keyd_stats
  should_cleanup :: bool

definition db_state :: "'d keyd \<Rightarrow> 'd" where
  "db_state st = be_state (kd_dbctx st)"

definition set_db_state :: "'d \<Rightarrow> 'd keyd \<Rightarrow> 'd keyd" where
  "set_db_state d st = st\<lparr>kd_dbctx := (kd_dbctx st)\<lparr>be_state := d\<rparr>\<rparr>"

section \<open>Sending\<close>

text \<open>Memory from \<open>malloc\<close>.\<close>

definition malloc_buffer :: "nat \<Rightarrow> buffer_ctx" where
  "malloc_buffer n = \<lparr>buf_data = replicate n None, buf_offset = 0, buf_size = n\<rparr>"

definition written_keys :: "publickeys \<Rightarrow> bytes option" where
  "written_keys keys =
     do { (_, buf) \<leftarrow> write_openpgp_stream buffer_putchar (malloc_buffer 8192) (flatten_publickey keys []);
          buffer_read (buf_data buf) 0 (buf_offset buf) }"

definition keyd_write_key :: "publickeys \<Rightarrow> (bool \<Rightarrow> 'r proc) \<Rightarrow> 'r proc" where
  "keyd_write_key key k =
     (case written_keys key of
        None \<Rightarrow> Undef
      | Some bs \<Rightarrow>
          Write (le_bytes 8 (length bs)) (\<lambda>written.
            if written = 0 then k False
            else Write bs (\<lambda>written. k (written = int (length bs)))))"

definition keyd_write_reply :: "nat \<Rightarrow> (bool \<Rightarrow> 'r proc) \<Rightarrow> 'r proc" where
  "keyd_write_reply reply k = Write (le_bytes 4 reply) (\<lambda>written. k (written = 4))"

definition keyd_write_size :: "nat \<Rightarrow> (bool \<Rightarrow> 'r proc) \<Rightarrow> 'r proc" where
  "keyd_write_size sz k = Write (le_bytes 8 sz) (\<lambda>written. k (written = 8))"

definition iteratefunc :: "hash_funs \<Rightarrow> publickeys \<Rightarrow> 'r proc \<Rightarrow> 'r proc" where
  "iteratefunc H key k =
     (case key of
        [] \<Rightarrow> k
      | key1 # _ \<Rightarrow> if get_keyid H key1 = None then Undef else keyd_write_key key (\<lambda>_. k))"

section \<open>The commands\<close>

text \<open>A \<open>read\<close> after which the size is checked.\<close>

definition read_exactly :: "nat \<Rightarrow> 'r proc \<Rightarrow> (bytes \<Rightarrow> 'r proc) \<Rightarrow> 'r proc" where
  "read_exactly n fail k = Read n (\<lambda>r. case r of None \<Rightarrow> fail | Some bs \<Rightarrow> if length bs = n then k bs else fail)"

definition reply_ok :: "(int \<Rightarrow> 'd keyd \<Rightarrow> 'r proc) \<Rightarrow> 'd keyd \<Rightarrow> 'r proc \<Rightarrow> 'r proc" where
  "reply_ok k st p = keyd_write_reply KEYD_REPLY_OK (\<lambda>ok. if ok then p else k 1 st)"

text \<open>What follows a lookup; \<open>None\<close> is undefined behaviour of the back end.\<close>

definition sock_send_keys :: "(int \<times> publickeys) option \<Rightarrow> 'd keyd \<Rightarrow> (int \<Rightarrow> 'd keyd \<Rightarrow> 'r proc) \<Rightarrow> 'r proc" where
  "sock_send_keys r st k =
     (case r of
        None \<Rightarrow> Undef
      | Some (_, key) \<Rightarrow>
          if key \<noteq> [] then keyd_write_key key (\<lambda>_. k 0 st)
          else keyd_write_size 0 (\<lambda>ok. k (if ok then 0 else 1) st))"

definition sock_version :: "'d keyd \<Rightarrow> (int \<Rightarrow> 'd keyd \<Rightarrow> 'r proc) \<Rightarrow> 'r proc" where
  "sock_version st k =
     reply_ok k st
       (Write (le_bytes 4 4) (\<lambda>bytes. if bytes \<noteq> 4 then k 1 st
        else Write (le_bytes 4 keyd_version) (\<lambda>bytes. k (if bytes \<noteq> 4 then 1 else 0) st)))"

text \<open>One octet is read into the lowest octet of \<open>bytes\<close>, whose others are 0 after the command was read.\<close>

definition sock_get :: "('d \<Rightarrow> openpgp_fingerprint \<Rightarrow> publickeys \<Rightarrow> bool \<Rightarrow> (int \<times> publickeys) option) \<Rightarrow>
    'd keyd \<Rightarrow> (int \<Rightarrow> 'd keyd \<Rightarrow> 'r proc) \<Rightarrow> 'r proc" where
  "sock_get fetch st k =
     reply_ok k st
       (read_exactly 1 (k 1 st) (\<lambda>bytes.
          if le_nat bytes > MAX_FINGERPRINT_LEN then k 1 st
          else read_exactly (le_nat bytes) (k 1 st) (\<lambda>fpr.
            sock_send_keys (fetch (db_state st) \<lparr>fp_length = le_nat bytes, fp = fpr\<rparr> [] False) st k)))"

definition sock_get_id :: "'d keyd \<Rightarrow> (int \<Rightarrow> 'd keyd \<Rightarrow> 'r proc) \<Rightarrow> 'r proc" where
  "sock_get_id st k =
     reply_ok k st
       (read_exactly 8 (k 1 st) (\<lambda>keyid.
          sock_send_keys (db_fetch_key_id (be_ops (kd_dbctx st)) (db_state st) (word_of_nat (le_nat keyid)) [] False) st k))"

text \<open>
  \<open>count\<close> is signed. With \<open>count = -1\<close> one octet is written in front of an allocation; what \<open>read\<close> does with a size that is
  not a \<open>ssize_t\<close> is up to the system. If \<open>malloc\<close> fails so does \<open>read\<close>.
\<close>

definition sock_get_text :: "(nat \<Rightarrow> bool) \<Rightarrow> 'd keyd \<Rightarrow> (int \<Rightarrow> 'd keyd \<Rightarrow> 'r proc) \<Rightarrow> 'r proc" where
  "sock_get_text mal st k =
     reply_ok k st
       (read_exactly 8 (k 1 st) (\<lambda>c.
          let count = le_nat c in
          if count \<ge> 2 ^ 63 then Undef
          else if \<not> mal (count + 1) then k 1 st
          else read_exactly count (k 1 st) (\<lambda>search.
            sock_send_keys (be_fetch_key_text (kd_dbctx st) (db_state st) (takeWhile (\<lambda>c. c \<noteq> 0) search) []) st k)))"

definition stored_keys :: "(nat \<Rightarrow> bool) \<Rightarrow> u8 option list \<Rightarrow> publickeys \<Rightarrow> publickeys option" where
  "stored_keys mal buf keys =
     do { (_, packets, _) \<leftarrow> read_openpgp_stream mal buffer_fetchchar \<lparr>buf_data = buf, buf_offset = 0, buf_size = length buf\<rparr> [] 0;
          (_, keys) \<leftarrow> parse_keys packets keys;
          Some keys }"

definition sock_store :: "(nat \<Rightarrow> bool) \<Rightarrow> bool \<Rightarrow> 'd keyd \<Rightarrow> (int \<Rightarrow> 'd keyd \<Rightarrow> 'r proc) \<Rightarrow> 'r proc" where
  "sock_store mal update st k =
     reply_ok k st
       (read_exactly 8 (k 1 st) (\<lambda>c.
          let size = le_nat c in
          if size = 0 then k 0 st
          else if \<not> mal size then k 1 st
          else read_loop size [] (\<lambda>ok buf.
            if \<not> ok then k 1 st
            else case do { key \<leftarrow> stored_keys mal (map Some buf) []; db_store_key (be_ops (kd_dbctx st)) (db_state st) key False update } of
                   None \<Rightarrow> Undef
                 | Some (_, d) \<Rightarrow> k 0 (set_db_state d st))))"

text \<open>The whole structure is sent: its length in eight octets and the 32 of the array.\<close>

definition sock_delete :: "'d keyd \<Rightarrow> (int \<Rightarrow> 'd keyd \<Rightarrow> 'r proc) \<Rightarrow> 'r proc" where
  "sock_delete st k =
     reply_ok k st
       (read_exactly 40 (k 1 st) (\<lambda>f.
          let n = le_nat (take 8 f) in
          case be_delete_key (kd_dbctx st) (db_state st) \<lparr>fp_length = n, fp = take n (drop 8 f)\<rparr> False of
            None \<Rightarrow> Undef
          | Some (_, d) \<Rightarrow> k 0 (set_db_state d st)))"

fun iterate_over :: "hash_funs \<Rightarrow> publickeys list \<Rightarrow> 'r proc \<Rightarrow> 'r proc" where
  "iterate_over H [] k = k"
| "iterate_over H (key # keys) k = iteratefunc H key (iterate_over H keys k)"

definition sock_keyiter :: "hash_funs \<Rightarrow> 'd keyd \<Rightarrow> (int \<Rightarrow> 'd keyd \<Rightarrow> 'r proc) \<Rightarrow> 'r proc" where
  "sock_keyiter H st k =
     reply_ok k st
       (case db_iterate_keys st (db_state st) of
          None \<Rightarrow> Undef
        | Some keys \<Rightarrow> iterate_over H keys (keyd_write_size 0 (\<lambda>ok. k (if ok then 0 else 1) st)))"

definition stats_octets :: "keyd_stats \<Rightarrow> bytes" where
  "stats_octets s =
     le_bytes 8 (unat (started s)) @ le_bytes 4 (unat (connects s)) @ concat (map (\<lambda>n. le_bytes 4 (unat n)) (command_stats s))"

definition sock_stats :: "'d keyd \<Rightarrow> (int \<Rightarrow> 'd keyd \<Rightarrow> 'r proc) \<Rightarrow> 'r proc" where
  "sock_stats st k =
     reply_ok k st
       (Write (le_bytes 4 72) (\<lambda>bytes. if bytes \<noteq> 4 then k 1 st
        else Write (stats_octets (stats st)) (\<lambda>bytes. k (if bytes \<noteq> 72 then 1 else 0) st)))"

definition sock_get_skshash :: "'d keyd \<Rightarrow> (int \<Rightarrow> 'd keyd \<Rightarrow> 'r proc) \<Rightarrow> 'r proc" where
  "sock_get_skshash st k =
     reply_ok k st
       (read_exactly 16 (k 1 st) (\<lambda>hash. sock_send_keys (be_fetch_key_skshash (kd_dbctx st) (db_state st) hash []) st k))"

definition count_command :: "nat \<Rightarrow> 'd keyd \<Rightarrow> 'd keyd" where
  "count_command cmd st =
     (let i = (if cmd < KEYD_CMD_LAST then cmd else KEYD_CMD_UNKNOWN); s = stats st
      in st\<lparr>stats := s\<lparr>command_stats := (command_stats s)[i := command_stats s ! i + 1]\<rparr>\<rparr>)"

definition sock_switch :: "hash_funs \<Rightarrow> (nat \<Rightarrow> bool) \<Rightarrow> nat \<Rightarrow> 'd keyd \<Rightarrow> (int \<Rightarrow> 'd keyd \<Rightarrow> 'r proc) \<Rightarrow> 'r proc" where
  "sock_switch H mal cmd st k =
     (if cmd = KEYD_CMD_VERSION then sock_version st k
      else if cmd = KEYD_CMD_GET then sock_get (be_fetch_key (kd_dbctx st)) st k
      else if cmd = KEYD_CMD_GET_ID then sock_get_id st k
      else if cmd = KEYD_CMD_GET_FP then sock_get (db_fetch_key_fp (be_ops (kd_dbctx st))) st k
      else if cmd = KEYD_CMD_GET_TEXT then sock_get_text mal st k
      else if cmd = KEYD_CMD_STORE \<or> cmd = KEYD_CMD_UPDATE then sock_store mal (cmd = KEYD_CMD_UPDATE) st k
      else if cmd = KEYD_CMD_DELETE then sock_delete st k
      else if cmd = KEYD_CMD_KEYITER then sock_keyiter H st k
      else if cmd = KEYD_CMD_CLOSE then keyd_write_reply KEYD_REPLY_OK (\<lambda>_. k 1 st)
      else if cmd = KEYD_CMD_QUIT then keyd_write_reply KEYD_REPLY_OK (\<lambda>_. k 1 (st\<lparr>should_cleanup := True\<rparr>))
      else if cmd = KEYD_CMD_STATS then sock_stats st k
      else if cmd = KEYD_CMD_GET_SKSHASH then sock_get_skshash st k
      else keyd_write_reply KEYD_REPLY_UNKNOWN_CMD (\<lambda>ok. k (if ok then 0 else 1) st))"

definition sock_do :: "hash_funs \<Rightarrow> (nat \<Rightarrow> bool) \<Rightarrow> 'd keyd \<Rightarrow> (int \<Rightarrow> 'd keyd \<Rightarrow> 'r proc) \<Rightarrow> 'r proc" where
  "sock_do H mal st k =
     read_exactly 4 (k 1 st) (\<lambda>c. let cmd = le_nat c in sock_switch H mal cmd (count_command cmd st) k)"

text \<open>The server's side of one connection, for at most \<open>n\<close> commands: it ends when \<open>sock_do\<close> says so. If
  there are more, nothing is known.\<close>

fun serve :: "nat \<Rightarrow> hash_funs \<Rightarrow> (nat \<Rightarrow> bool) \<Rightarrow> 'd keyd \<Rightarrow> 'd keyd proc" where
  "serve 0 H mal st = Undef"
| "serve (Suc n) H mal st = sock_do H mal st (\<lambda>ret st. if ret \<noteq> 0 then Done st else serve n H mal st)"

section \<open>Lemmas on what is sent\<close>

lemma length_le_bytes [simp]: "length (le_bytes n v) = n"
  by (simp add: le_bytes_def)

lemma le_bytes_Nil [simp]: "le_bytes n v = [] \<longleftrightarrow> n = 0"
  by (metis length_0_conv length_le_bytes)

lemma le_nat_le_bytes: "v < 256 ^ n \<Longrightarrow> le_nat (le_bytes n v) = v"
  by (simp add: le_nat_def le_bytes_def be_nat_be_bytes)

lemma le_nat_octet [simp]: "le_nat [b] = unat b"
  by (simp add: le_nat_def be_nat_def)

definition keys_octets :: "publickeys \<Rightarrow> bytes" where
  "keys_octets keys = stream_encoding (flatten_publickey keys [])"

text \<open>Keys that arrive as they were sent, for which there is memory.\<close>

definition sendable :: "(nat \<Rightarrow> bool) \<Rightarrow> publickeys \<Rightarrow> bool" where
  "sendable mal keys \<longleftrightarrow> (\<forall>k \<in> set keys. key_ok k) \<and> (\<forall>p \<in> set (flatten_publickey keys []). packet_wf p \<and> mal (plength p)) \<and>
     length (keys_octets keys) < 2 ^ 62 \<and> (keys \<noteq> [] \<longrightarrow> mal (length (keys_octets keys)))"

lemma sendable_Nil [simp]: "sendable mal []"
  by (simp add: sendable_def keys_octets_def)

lemma malloc_buffer_holds: "0 < n \<Longrightarrow> n < 2 ^ 64 \<Longrightarrow> buffer_holds (malloc_buffer n) []"
  by (simp add: buffer_holds_def malloc_buffer_def buffer_ok_def)

lemma written_keys_eq:
  assumes "sendable mal keys"
  shows "written_keys keys = Some (keys_octets keys)"
proof -
  let ?ps = "flatten_publickey keys []" let ?bs = "stream_encoding ?ps"
  have len: "length ?bs < 2 ^ 62" using assms by (simp add: sendable_def keys_octets_def)
  have "\<forall>p \<in> set ?ps. newformat p \<longrightarrow> plength p < 0xFFFFFFFF"
    using assms by (auto simp: sendable_def packet_wf_def packet_writable_def)
  then obtain buf where buf: "write_openpgp_stream buffer_putchar (malloc_buffer 8192) ?ps = Some (ONAK_E_OK, buf)"
      "buffer_holds buf ?bs"
    using buf_sink.write_stream_holds [of "malloc_buffer 8192" "[]" ?ps] len malloc_buffer_holds [of 8192] by auto
  have t: "take (buf_offset buf) (buf_data buf) = map Some ?bs" "buf_offset buf \<le> length (buf_data buf)"
    using buf(2) by (simp_all add: buffer_holds_def buffer_ok_def)
  then have "buffer_read (buf_data buf) 0 (buf_offset buf) = Some ?bs" by (simp add: buffer_read_def comp_def)
  with buf(1) show ?thesis by (simp add: written_keys_def keys_octets_def)
qed

lemma stored_keys_eq:
  assumes "sendable mal keys"
  shows "stored_keys mal (map Some (keys_octets keys)) acc = Some (acc @ keys)"
proof -
  let ?ps = "flatten_publickey keys []"
  have ok: "\<forall>p \<in> set ?ps. packet_wf p \<and> mal (plength p)" and len: "length (keys_octets keys) < 2 ^ 62"
    using assms by (simp_all add: sendable_def)
  obtain s' where "read_openpgp_stream mal buffer_fetchchar (init_buffer (keys_octets keys)) [] 0 = Some (ONAK_E_OK, ?ps, s')"
    using buf_source.read_stream_full [OF init_buffer_delivers ok, of "[]"] len by (auto simp: keys_octets_def)
  moreover have "parse_keys ?ps acc = Some (int (length keys), acc @ keys)"
    using parse_all_keys [of keys acc 0] assms by (simp add: parse_keys_def flatten_publickey_eq sendable_def)
  ultimately show ?thesis by (simp add: stored_keys_def init_buffer_def)
qed

lemma keys_octets_Nil [simp]: "keys_octets keys = [] \<longleftrightarrow> keys = []"
  by (cases keys) (auto simp: keys_octets_def flatten_publickey_eq key_packets_def)

lemma count_command_dbctx [simp]:
  "kd_dbctx (count_command cmd st) = kd_dbctx st" "db_iterate_keys (count_command cmd st) = db_iterate_keys st"
  "db_state (count_command cmd st) = db_state st" "should_cleanup (count_command cmd st) = should_cleanup st"
  by (simp_all add: count_command_def db_state_def Let_def)

section \<open>The table of clients\<close>

abbreviation (input) MAX_CLIENTS :: nat where "MAX_CLIENTS \<equiv> 16"

text \<open>
  One round of the loop of \<open>main\<close>. \<open>clients\<close> has the sockets, -1 where there is none; \<open>revents\<close> says for each entry of
  \<open>rfds\<close> whether there is something to read. \<open>sock r\<close> is the result of \<open>sock_do\<close> on the socket, \<open>newfd\<close> that of \<open>sock_accept\<close>. Both
  \<open>rfds\<close> and \<open>clients\<close> have \<open>MAX_CLIENTS\<close> entries.
\<close>

fun poll_clients :: "(int \<Rightarrow> int) \<Rightarrow> bool list \<Rightarrow> int list \<Rightarrow> nat \<Rightarrow> int list option" where
  "poll_clients sock revents [] curfd = Some []"
| "poll_clients sock revents (c # clients) curfd =
     (if c \<noteq> -1 then
        if curfd + 1 < length revents then
          map_option ((#) (if revents ! (curfd + 1) \<and> sock c \<noteq> 0 then -1 else c)) (poll_clients sock revents clients (curfd + 1))
        else None
      else map_option ((#) c) (poll_clients sock revents clients curfd))"

fun accept_client :: "int \<Rightarrow> int list \<Rightarrow> int list" where
  "accept_client newfd [] = []"
| "accept_client newfd (c # clients) = (if c = -1 then newfd # clients else c # accept_client newfd clients)"

text \<open>The result of \<open>accept\<close> and of \<open>fcntl\<close>.\<close>

definition sock_accept :: "int \<Rightarrow> int \<Rightarrow> 'd keyd \<Rightarrow> int \<times> 'd keyd" where
  "sock_accept srv ret st =
     (let s = stats st in
      (srv, if srv \<noteq> -1 \<and> ret \<noteq> -1 then st\<lparr>stats := s\<lparr>connects := connects s + 1\<rparr>\<rparr> else st))"

fun fill_rfds :: "int list \<Rightarrow> int list \<Rightarrow> nat \<Rightarrow> (int list \<times> nat) option" where
  "fill_rfds [] rfds fdcount = Some (rfds, fdcount)"
| "fill_rfds (c # clients) rfds fdcount =
     (if c \<noteq> -1 then
        if fdcount < length rfds then fill_rfds clients (rfds[fdcount := c]) (fdcount + 1) else None
      else fill_rfds clients rfds fdcount)"

definition poll_round :: "int \<Rightarrow> (int \<Rightarrow> int) \<Rightarrow> bool list \<Rightarrow> int \<Rightarrow> int list \<Rightarrow> (int list \<times> int list \<times> nat) option" where
  "poll_round fd sock revents newfd clients =
     do { clients \<leftarrow> poll_clients sock revents clients 0;
          let clients = (if revents ! 0 then accept_client newfd clients else clients);
          (rfds, fdcount) \<leftarrow> fill_rfds clients ((replicate MAX_CLIENTS 0)[0 := fd]) 1;
          Some (clients, rfds, fdcount) }"

definition connected :: "int list \<Rightarrow> int list" where
  "connected clients = filter (\<lambda>c. c \<noteq> -1) clients"

text \<open>The clients after \<open>sock_do\<close> has been called where there was something to read.\<close>

fun after_poll :: "(int \<Rightarrow> int) \<Rightarrow> bool list \<Rightarrow> int list \<Rightarrow> int list" where
  "after_poll sock revents [] = []"
| "after_poll sock revents (c # clients) =
     (if c \<noteq> -1 then (if revents ! 0 \<and> sock c \<noteq> 0 then -1 else c) # after_poll sock (drop 1 revents) clients
      else c # after_poll sock revents clients)"

lemma fill_rfds_eq:
  "fdcount \<le> length rfds \<Longrightarrow> fill_rfds clients rfds fdcount =
     (let l = connected clients; n = fdcount + length l
      in if n \<le> length rfds then Some (take fdcount rfds @ l @ drop n rfds, n) else None)"
  by (induction clients rfds fdcount rule: fill_rfds.induct)
    (auto simp: connected_def Let_def take_Suc_conv_app_nth)

lemma poll_clients_eq:
  "curfd < length revents \<Longrightarrow> poll_clients sock revents clients curfd =
     (if curfd + length (connected clients) < length revents then Some (after_poll sock (drop (curfd + 1) revents) clients) else None)"
  by (induction sock revents clients curfd rule: poll_clients.induct) (auto simp: connected_def)

lemma poll_round_eq:
  assumes "length revents = MAX_CLIENTS" and "length (connected clients) < MAX_CLIENTS"
    and "after = (let cs = after_poll sock (drop 1 revents) clients in if revents ! 0 then accept_client newfd cs else cs)"
  shows "poll_round fd sock revents newfd clients =
    (let l = connected after
     in if length l < MAX_CLIENTS then Some (after, (fd # l) @ replicate (15 - length l) 0, Suc (length l)) else None)"
proof -
  have p: "poll_clients sock revents clients 0 = Some (after_poll sock (drop 1 revents) clients)"
    using assms(1,2) by (simp add: poll_clients_eq)
  have "(replicate 16 0)[0 := fd] = fd # replicate 15 0" by (simp add: numeral_eq_Suc)
  then have "fill_rfds after ((replicate 16 0)[0 := fd]) 1 =
      (let l = connected after in if length l < 16 then Some ((fd # l) @ replicate (15 - length l) 0, Suc (length l)) else None)"
    by (simp add: fill_rfds_eq Let_def less_Suc_eq_le)
  then show ?thesis by (simp add: poll_round_def p assms(3) Let_def)
qed

lemma accept_connected:
  "newfd \<noteq> -1 \<Longrightarrow> -1 \<in> set clients \<Longrightarrow> length (connected (accept_client newfd clients)) = Suc (length (connected clients))"
  by (induction clients) (auto simp: connected_def)

lemma after_poll_quiet: "list_all Not (take (length (connected clients)) revents) \<Longrightarrow> length (connected clients) \<le> length revents \<Longrightarrow>
    after_poll sock revents clients = clients"
proof (induction clients arbitrary: revents)
  case (Cons c clients)
  then show ?case by (cases revents; cases "c = -1") (auto simp: connected_def)
qed simp

lemma free_slot: "length (connected clients) < length clients \<Longrightarrow> -1 \<in> set clients"
  using filter_id_conv [of "\<lambda>c. c \<noteq> -1" clients] by (fastforce simp: connected_def)

lemma length_accept_client [simp]: "length (accept_client newfd clients) = length clients"
  by (induction clients) auto

text \<open>One connection after the other, while the clients that are there say nothing.\<close>

fun accept_rounds :: "int \<Rightarrow> (int \<Rightarrow> int) \<Rightarrow> int list \<Rightarrow> int list \<Rightarrow> int list option" where
  "accept_rounds fd sock [] clients = Some clients"
| "accept_rounds fd sock (newfd # newfds) clients =
     do { (clients, _, _) \<leftarrow> poll_round fd sock (True # replicate 15 False) newfd clients; accept_rounds fd sock newfds clients }"

lemma quiet_round:
  assumes "newfd \<noteq> -1" and "length clients = 16" and "length (connected clients) < 16"
  shows "poll_round fd sock (True # replicate 15 False) newfd clients =
    (if length (connected clients) < 15
     then Some (accept_client newfd clients, (fd # connected (accept_client newfd clients)) @ replicate (14 - length (connected clients)) 0,
                length (connected clients) + 2)
     else None)"
proof -
  have "after_poll sock (replicate 15 False) clients = clients"
    using assms(3) by (intro after_poll_quiet) (auto simp: list_all_iff)
  then show ?thesis
    using poll_round_eq [of "True # replicate 15 False" clients "accept_client newfd clients" sock newfd fd] assms
      accept_connected [of newfd clients] free_slot [of clients]
    by (simp add: Let_def numeral_eq_Suc)
qed

lemma accept_rounds_defined:
  assumes "-1 \<notin> set newfds" and "length clients = 16" and "length (connected clients) + length newfds \<le> 16"
  shows "accept_rounds fd sock newfds clients = None \<longleftrightarrow> newfds \<noteq> [] \<and> length (connected clients) + length newfds = 16"
  using assms
proof (induction newfds arbitrary: clients)
  case (Cons newfd newfds)
  have n: "newfd \<noteq> -1" "length (connected clients) < 16" using Cons.prems by auto
  show ?case
  proof (cases "length (connected clients) < 15")
    case True
    let ?cs = "accept_client newfd clients"
    have c: "length (connected ?cs) = Suc (length (connected clients))"
      using accept_connected [OF n(1)] free_slot [of clients] n(2) Cons.prems(2) by simp
    have "accept_rounds fd sock (newfd # newfds) clients = accept_rounds fd sock newfds ?cs"
      using quiet_round [OF n(1) Cons.prems(2) n(2)] True by simp
    also have "\<dots> = None \<longleftrightarrow> newfds \<noteq> [] \<and> length (connected ?cs) + length newfds = 16"
      using Cons.prems c by (intro Cons.IH) auto
    finally show ?thesis using c True by (cases newfds) auto
  next
    case False
    then show ?thesis using quiet_round [OF n(1) Cons.prems(2) n(2)] Cons.prems(3) by auto
  qed
qed simp



end
