(* ===== verification/Key_Db_Keyd.thy ===== *)
theory Key_Db_Keyd
  imports Keyd
begin

text \<open>
  The back end that asks the daemon (\<open>keydb/keydb_keyd.c\<close>). Its functions are processes on the other end of the socket; the context's
  private pointer is the socket. The last section puts both ends together.
\<close>

section \<open>Operations\<close>

definition keyd_send_cmd :: "nat \<Rightarrow> (bool \<Rightarrow> 'r proc) \<Rightarrow> 'r proc" where
  "keyd_send_cmd cmd k =
     Write (le_bytes 4 cmd) (\<lambda>bytes. if bytes \<noteq> 4 then k False
       else read_exactly 4 (k False) (\<lambda>reply. k (le_nat reply = KEYD_REPLY_OK)))"

text \<open>
  The result of the first \<open>read\<close> is not checked: \<open>size\<close> is not initialised unless all of it is read. If \<open>malloc\<close> fails, the null pointer is
  read from later; after an error so is the part of the buffer that has not been filled.
\<close>

definition fetched_keys :: "(nat \<Rightarrow> bool) \<Rightarrow> nat \<Rightarrow> bytes \<Rightarrow> publickeys \<Rightarrow> publickeys option" where
  "fetched_keys mal n buf keys = stored_keys mal (map Some buf @ replicate (n - length buf) None) keys"

definition receive_keys :: "(nat \<Rightarrow> bool) \<Rightarrow> publickeys \<Rightarrow> (int \<Rightarrow> publickeys \<Rightarrow> 'r proc) \<Rightarrow> 'r proc" where
  "receive_keys mal keys k =
     read_exactly 8 Undef (\<lambda>c.
       let n = le_nat c in
       if n = 0 then k 0 keys
       else if \<not> mal n then Undef
       else read_loop n [] (\<lambda>ok buf.
         case fetched_keys mal n buf keys of
           None \<Rightarrow> Undef
         | Some keys \<Rightarrow> k (if 0 < int (length buf) - (if ok then 0 else 1) then 1 else 0) keys))"

definition fetch_by_fingerprint :: "(nat \<Rightarrow> bool) \<Rightarrow> nat \<Rightarrow> openpgp_fingerprint \<Rightarrow> publickeys \<Rightarrow>
    (int \<Rightarrow> publickeys \<Rightarrow> 'r proc) \<Rightarrow> 'r proc" where
  "fetch_by_fingerprint mal cmd f keys k =
     (if fp_length f > MAX_FINGERPRINT_LEN then k 0 keys
      else keyd_send_cmd cmd (\<lambda>ok.
        if ok then Write [word_of_nat (fp_length f)] (\<lambda>_.
          case rds (fp f) 0 (fp_length f) of
            None \<Rightarrow> Undef
          | Some bs \<Rightarrow> Write bs (\<lambda>_. receive_keys mal keys k))
        else k 0 keys))"

definition keyd_fetch_key :: "(nat \<Rightarrow> bool) \<Rightarrow> openpgp_fingerprint \<Rightarrow> publickeys \<Rightarrow> (int \<Rightarrow> publickeys \<Rightarrow> 'r proc) \<Rightarrow> 'r proc" where
  "keyd_fetch_key mal = fetch_by_fingerprint mal KEYD_CMD_GET"

definition keyd_fetch_key_fp :: "(nat \<Rightarrow> bool) \<Rightarrow> openpgp_fingerprint \<Rightarrow> publickeys \<Rightarrow> (int \<Rightarrow> publickeys \<Rightarrow> 'r proc) \<Rightarrow> 'r proc" where
  "keyd_fetch_key_fp mal = fetch_by_fingerprint mal KEYD_CMD_GET_FP"

definition keyd_fetch_key_id :: "(nat \<Rightarrow> bool) \<Rightarrow> u64 \<Rightarrow> publickeys \<Rightarrow> (int \<Rightarrow> publickeys \<Rightarrow> 'r proc) \<Rightarrow> 'r proc" where
  "keyd_fetch_key_id mal keyid keys k =
     keyd_send_cmd KEYD_CMD_GET_ID (\<lambda>ok.
       if ok then Write (le_bytes 8 (unat keyid)) (\<lambda>_. receive_keys mal keys k) else k 0 keys)"

definition keyd_fetch_key_text :: "(nat \<Rightarrow> bool) \<Rightarrow> bytes \<Rightarrow> publickeys \<Rightarrow> (int \<Rightarrow> publickeys \<Rightarrow> 'r proc) \<Rightarrow> 'r proc" where
  "keyd_fetch_key_text mal search keys k =
     keyd_send_cmd KEYD_CMD_GET_TEXT (\<lambda>ok.
       if ok then Write (le_bytes 8 (length search)) (\<lambda>_. Write search (\<lambda>_. receive_keys mal keys k)) else k 0 keys)"

definition keyd_fetch_key_skshash :: "(nat \<Rightarrow> bool) \<Rightarrow> bytes \<Rightarrow> publickeys \<Rightarrow> (int \<Rightarrow> publickeys \<Rightarrow> 'r proc) \<Rightarrow> 'r proc" where
  "keyd_fetch_key_skshash mal hash keys k =
     keyd_send_cmd KEYD_CMD_GET_SKSHASH (\<lambda>ok.
       if ok then Write (take 16 hash) (\<lambda>_. receive_keys mal keys k) else k 0 keys)"

text \<open>The structure is written as it is; \<open>rest\<close> is what lies in the array behind the fingerprint.\<close>

definition keyd_delete_key :: "openpgp_fingerprint \<Rightarrow> bytes \<Rightarrow> (int \<Rightarrow> 'r proc) \<Rightarrow> 'r proc" where
  "keyd_delete_key f rest k =
     keyd_send_cmd KEYD_CMD_DELETE (\<lambda>ok.
       if ok then Write (le_bytes 8 (fp_length f) @ fp f @ rest) (\<lambda>_. k 0) else k 0)"

definition keyd_store_key :: "hash_funs \<Rightarrow> publickeys \<Rightarrow> bool \<Rightarrow> (int \<Rightarrow> 'r proc) \<Rightarrow> 'r proc" where
  "keyd_store_key H keys update k =
     (case keys of
        [] \<Rightarrow> Undef
      | key # _ \<Rightarrow>
          case get_keyid H key of
            None \<Rightarrow> Undef
          | Some (rc, _) \<Rightarrow>
              if rc \<noteq> ONAK_E_OK then k 0
              else keyd_send_cmd (if update then KEYD_CMD_UPDATE else KEYD_CMD_STORE) (\<lambda>ok.
                if ok then
                  (case written_keys [key] of
                     None \<Rightarrow> Undef
                   | Some bs \<Rightarrow> Write (le_bytes 8 (length bs)) (\<lambda>_. Write bs (\<lambda>_. k 0)))
                else k 0))"

text \<open>
  The loop over the keys. \<open>mode\<close> is \<open>None\<close> where the next size is read, and otherwise that size with what has been read of
  the key. Each size but the first is read into a variable that is 0.
\<close>

definition visit_key :: "(nat \<Rightarrow> bool) \<Rightarrow> ('c \<Rightarrow> publickeys \<Rightarrow> 'c) \<Rightarrow> nat \<Rightarrow> bytes \<Rightarrow> 'c \<Rightarrow> 'c option" where
  "visit_key mal iterfunc n buf ctx =
     map_option (\<lambda>key. if key \<noteq> [] then iterfunc ctx key else ctx) (fetched_keys mal n buf [])"

primcorec iterate_loop :: "(nat \<Rightarrow> bool) \<Rightarrow> ('c \<Rightarrow> publickeys \<Rightarrow> 'c) \<Rightarrow> (nat \<times> bytes) option \<Rightarrow> 'c \<Rightarrow> int \<Rightarrow>
    (int \<Rightarrow> 'c \<Rightarrow> 'r proc) \<Rightarrow> 'r proc" where
  "iterate_loop mal iterfunc mode ctx numkeys k =
     (case mode of
        None \<Rightarrow>
          Read 8 (\<lambda>r. let n = (case r of None \<Rightarrow> 0 | Some c \<Rightarrow> le_nat c) in
            if n = 0 then k numkeys ctx
            else if \<not> mal n then Undef
            else iterate_loop mal iterfunc (Some (n, [])) ctx numkeys k)
      | Some (n, buf) \<Rightarrow>
          Read (n - length buf) (\<lambda>r. let (ok, buf) = (case r of None \<Rightarrow> (False, buf) | Some bs \<Rightarrow> (True, buf @ bs)) in
            if ok \<and> length buf < n then iterate_loop mal iterfunc (Some (n, buf)) ctx numkeys k
            else case visit_key mal iterfunc n buf ctx of
                   None \<Rightarrow> Undef
                 | Some ctx \<Rightarrow> iterate_loop mal iterfunc None ctx (numkeys + 1) k))"

definition keyd_iterate_keys :: "(nat \<Rightarrow> bool) \<Rightarrow> ('c \<Rightarrow> publickeys \<Rightarrow> 'c) \<Rightarrow> 'c \<Rightarrow> (int \<Rightarrow> 'c \<Rightarrow> 'r proc) \<Rightarrow> 'r proc" where
  "keyd_iterate_keys mal iterfunc ctx k =
     keyd_send_cmd KEYD_CMD_KEYITER (\<lambda>ok.
       if \<not> ok then k 0 ctx
       else read_exactly 8 Undef (\<lambda>c.
         let n = le_nat c in
         if n = 0 then k 0 ctx
         else if \<not> mal n then Undef
         else iterate_loop mal iterfunc (Some (n, [])) ctx 0 k))"

definition keyd_cleanupdb :: "'r proc \<Rightarrow> 'r proc" where
  "keyd_cleanupdb k = Write (le_bytes 4 KEYD_CMD_CLOSE) (\<lambda>_. Read 4 (\<lambda>_. k))"

text \<open>
  The talk of \<open>keydb_keyd_init\<close> after the connection is there: \<open>k True\<close> where the function returns, \<open>k False\<close> where the
  program exits.
\<close>

definition keydb_keyd_init :: "(bool \<Rightarrow> 'r proc) \<Rightarrow> 'r proc" where
  "keydb_keyd_init k =
     Write (le_bytes 4 KEYD_CMD_VERSION) (\<lambda>bytes.
       if bytes \<noteq> 4 then k True
       else Read 4 (\<lambda>r. case r of
           Some reply \<Rightarrow>
             if length reply = 4 \<and> le_nat reply = KEYD_REPLY_OK
             then read_exactly 4 (k False) (\<lambda>reply.
                    if le_nat reply \<noteq> 4 then k False
                    else read_exactly 4 (k False) (\<lambda>_. k True))
             else k True
         | None \<Rightarrow> k True))"

section \<open>Both ends together\<close>

text \<open>
  In the lemmas the client is on the left, the server on the right, and both queues are empty. Each says what a call comes
  down to: if from the state after it every run reaches the goal, so does every run from the state before.
\<close>

lemma left_read_exactly:
  "length bs = n \<Longrightarrow> 0 < n \<Longrightarrow> [] \<notin> set q \<Longrightarrow> inevitable atom (both_done R) (k bs, q, s, qs) \<Longrightarrow>
   inevitable atom (both_done R) (read_exactly n fail k, bs # q, s, qs)"
  unfolding read_exactly_def by (rule left_read_piece) auto

lemma right_read_exactly:
  "length bs = n \<Longrightarrow> 0 < n \<Longrightarrow> [] \<notin> set q \<Longrightarrow> inevitable atom (both_done R) (c, qc, k bs, q) \<Longrightarrow>
   inevitable atom (both_done R) (c, qc, read_exactly n fail k, bs # q)"
  unfolding read_exactly_def by (rule right_read_piece) auto

lemma right_reply_ok:
  assumes "4 \<le> atom" and "inevitable atom (both_done R) (c, qc @ [le_bytes 4 KEYD_REPLY_OK], p, qs)"
  shows "inevitable atom (both_done R) (c, qc, reply_ok k st p, qs)"
  unfolding reply_ok_def keyd_write_reply_def using assms by (intro right_write_small) auto

text \<open>The client has sent a command and waits for the reply.\<close>

definition await_reply :: "(bool \<Rightarrow> 'r proc) \<Rightarrow> 'r proc" where
  "await_reply k = read_exactly 4 (k False) (\<lambda>reply. k (le_nat reply = KEYD_REPLY_OK))"

lemma command:
  assumes "4 \<le> atom" and "cmd < 2 ^ 32"
    and "inevitable atom (both_done R) (await_reply k, [], sock_switch H mal cmd (count_command cmd st) ks, [])"
  shows "inevitable atom (both_done R) (keyd_send_cmd cmd k, [], sock_do H mal st ks, [])"
proof -
  have c: "le_nat (le_bytes 4 cmd) = cmd" using assms(2) by (intro le_nat_le_bytes) simp
  show ?thesis
    unfolding keyd_send_cmd_def sock_do_def using assms c
    by (intro left_write_small) (auto simp: await_reply_def intro!: right_read_exactly)
qed

lemma answer:
  assumes "4 \<le> atom" and "inevitable atom (both_done R) (k True, [], p, [])"
  shows "inevitable atom (both_done R) (await_reply k, [], reply_ok ks st p, [])"
proof -
  have "le_nat (le_bytes 4 0) = 0" by (simp add: le_nat_le_bytes)
  with assms show ?thesis
    unfolding await_reply_def by (intro right_reply_ok) (auto intro!: left_read_exactly)
qed

lemma right_send_key:
  assumes "8 \<le> atom" and "sendable mal keys"
    and "\<And>cs. concat cs = keys_octets keys \<Longrightarrow> [] \<notin> set cs \<Longrightarrow>
      inevitable atom (both_done R) (c, le_bytes 8 (length (keys_octets keys)) # cs, p, [])"
  shows "inevitable atom (both_done R) (c, [], keyd_write_key keys (\<lambda>_. p), [])"
proof -
  have "inevitable atom (both_done R) (c, [le_bytes 8 (length (keys_octets keys))], Write (keys_octets keys) (\<lambda>_. p), [])"
    by (rule right_write) (use assms(3) in \<open>simp add: splits_def\<close>)
  then show ?thesis
    unfolding keyd_write_key_def written_keys_eq [OF assms(2)] option.case using assms(1)
    by (intro right_write_small) auto
qed

lemma sendable_size:
  assumes "sendable mal keys" and "keys \<noteq> []"
  shows "le_nat (le_bytes 8 (length (keys_octets keys))) = length (keys_octets keys)"
    and "mal (length (keys_octets keys))" and "0 < length (keys_octets keys)"
    and "fetched_keys mal (length (keys_octets keys)) (keys_octets keys) acc = Some (acc @ keys)"
  using assms(2) stored_keys_eq [OF assms(1), of acc] assms(1)
  by (auto simp: sendable_def fetched_keys_def intro!: le_nat_le_bytes)

lemma receive:
  assumes "8 \<le> atom" and "sendable mal keys"
    and "inevitable atom (both_done R) (k (if keys = [] then 0 else 1) (acc @ keys), [], ks 0 st, [])"
  shows "inevitable atom (both_done R) (receive_keys mal acc k, [], sock_send_keys (Some (n, keys)) st ks, [])"
proof (cases "keys = []")
  case True
  have "le_nat (le_bytes 8 0) = 0" by (simp add: le_nat_le_bytes)
  then show ?thesis
    unfolding receive_keys_def sock_send_keys_def keyd_write_size_def using assms True
    by (auto intro!: right_write_small left_read_exactly)
next
  case False
  note size = sendable_size [OF assms(2) False]
  have "inevitable atom (both_done R) (receive_keys mal acc k, le_bytes 8 (length (keys_octets keys)) # cs, ks 0 st, [])"
    if "concat cs = keys_octets keys" "[] \<notin> set cs" for cs
    unfolding receive_keys_def using assms(3) that size False
    by (intro left_read_exactly) (auto simp: Let_def intro!: left_read_loop)
  with False show ?thesis
    by (auto simp: sock_send_keys_def intro!: right_send_key [OF assms(1,2)])
qed

lemmas talk = command answer left_write_small right_read_exactly

lemma remote_fetch_fingerprint:
  assumes "40 \<le> atom" and "fingerprint_ok f" and "0 < fp_length f" and "cmd < 2 ^ 32"
    and "sock_switch H mal cmd (count_command cmd st) ks = sock_get fetch (count_command cmd st) ks"
    and "fetch (db_state st) f [] False = Some (n, keys)" and "sendable mal keys"
    and "inevitable atom (both_done R) (k (if keys = [] then 0 else 1) (acc @ keys), [], ks 0 (count_command cmd st), [])"
  shows "inevitable atom (both_done R) (fetch_by_fingerprint mal cmd f acc k, [], sock_do H mal st ks, [])"
proof -
  have f: "length (fp f) = fp_length f" "fp_length f \<le> 32" "rds (fp f) 0 (fp_length f) = Some (fp f)" "fp f \<noteq> []"
    using assms(2,3) by (auto simp: fingerprint_ok_def rds_def)
  have u: "unat (word_of_nat (fp_length f) :: u8) = fp_length f" using f(2) by (simp add: unat_of_nat)
  have eta: "\<lparr>fp_length = fp_length f, fp = fp f\<rparr> = f" by simp
  have r: "fetch (db_state st) \<lparr>fp_length = fp_length f, fp = fp f\<rparr> [] False = Some (n, keys)"
    unfolding eta by (rule assms(6))
  show ?thesis
    unfolding fetch_by_fingerprint_def
    using assms(1,3,4) f u r receive [of atom mal keys R k acc ks "count_command cmd st", OF _ assms(7,8)]
    by (auto simp: assms(5) sock_get_def intro!: talk)
qed

lemma remote_fetch_id:
  assumes "8 \<le> atom"
    and "db_fetch_key_id (be_ops (kd_dbctx st)) (db_state st) i [] False = Some (n, keys)" and "sendable mal keys"
    and "inevitable atom (both_done R) (k (if keys = [] then 0 else 1) (acc @ keys), [], ks 0 (count_command KEYD_CMD_GET_ID st), [])"
  shows "inevitable atom (both_done R) (keyd_fetch_key_id mal i acc k, [], sock_do H mal st ks, [])"
proof -
  have u: "le_nat (le_bytes 8 (unat i)) = unat i" using unsigned_less [of i] by (intro le_nat_le_bytes) simp
  show ?thesis
    unfolding keyd_fetch_key_id_def
    using assms(1,2) u receive [of atom mal keys R k acc ks "count_command KEYD_CMD_GET_ID st", OF _ assms(3,4)]
    by (auto simp: sock_switch_def sock_get_id_def intro!: talk)
qed

lemma remote_fetch_text:
  assumes "8 \<le> atom" and "length search \<le> atom" and "search \<noteq> []" and "0 \<notin> set search"
    and "length search < 2 ^ 63" and "mal (length search + 1)"
    and "be_fetch_key_text (kd_dbctx st) (db_state st) search [] = Some (n, keys)" and "sendable mal keys"
    and "inevitable atom (both_done R) (k (if keys = [] then 0 else 1) (acc @ keys), [], ks 0 (count_command KEYD_CMD_GET_TEXT st), [])"
  shows "inevitable atom (both_done R) (keyd_fetch_key_text mal search acc k, [], sock_do H mal st ks, [])"
proof -
  have u: "le_nat (le_bytes 8 (length search)) = length search" using assms(5) by (intro le_nat_le_bytes) simp
  have t: "takeWhile (\<lambda>c. c \<noteq> 0) search = search" using assms(4) by (auto simp: takeWhile_eq_all_conv)
  show ?thesis
    unfolding keyd_fetch_key_text_def
    using assms(1-7) u receive [of atom mal keys R k acc ks "count_command KEYD_CMD_GET_TEXT st", OF _ assms(8,9)]
    by (auto simp: sock_switch_def sock_get_text_def Let_def t intro!: talk)
qed

lemma remote_fetch_skshash:
  assumes "16 \<le> atom" and "length hash = 16"
    and "be_fetch_key_skshash (kd_dbctx st) (db_state st) hash [] = Some (n, keys)" and "sendable mal keys"
    and "inevitable atom (both_done R) (k (if keys = [] then 0 else 1) (acc @ keys), [], ks 0 (count_command KEYD_CMD_GET_SKSHASH st), [])"
  shows "inevitable atom (both_done R) (keyd_fetch_key_skshash mal hash acc k, [], sock_do H mal st ks, [])"
  unfolding keyd_fetch_key_skshash_def
  using assms receive [of atom mal keys R k acc ks "count_command KEYD_CMD_GET_SKSHASH st", OF _ assms(4,5)]
  by (auto simp: sock_switch_def sock_get_skshash_def intro!: talk)

lemma remote_delete:
  assumes "40 \<le> atom" and "fingerprint_ok f" and "length rest = 32 - fp_length f"
    and "be_delete_key (kd_dbctx st) (db_state st) f False = Some (n, d)"
    and "inevitable atom (both_done R) (k 0, [], ks 0 (set_db_state d (count_command KEYD_CMD_DELETE st)), [])"
  shows "inevitable atom (both_done R) (keyd_delete_key f rest k, [], sock_do H mal st ks, [])"
proof -
  have f: "length (fp f) = fp_length f" "fp_length f \<le> 32" using assms(2) by (auto simp: fingerprint_ok_def)
  have u: "le_nat (le_bytes 8 (fp_length f)) = fp_length f" using f(2) by (intro le_nat_le_bytes) simp
  have eta: "\<lparr>fp_length = fp_length f, fp = fp f\<rparr> = f" by simp
  have r: "be_delete_key (kd_dbctx st) (db_state st) \<lparr>fp_length = fp_length f, fp = fp f\<rparr> False = Some (n, d)"
    unfolding eta by (rule assms(4))
  show ?thesis
    unfolding keyd_delete_key_def using assms f u r
    by (auto simp: sock_switch_def sock_delete_def Let_def intro!: talk)
qed

lemma left_send_sized:
  assumes "8 \<le> atom" and "\<And>cs. concat cs = bs \<Longrightarrow> [] \<notin> set cs \<Longrightarrow> inevitable atom (both_done R) (k, [], s, le_bytes 8 (length bs) # cs)"
  shows "inevitable atom (both_done R) (Write (le_bytes 8 (length bs)) (\<lambda>_. Write bs (\<lambda>_. k)), [], s, [])"
proof (rule left_write_small)
  show "inevitable atom (both_done R) (Write bs (\<lambda>_. k), [], s, [] @ [le_bytes 8 (length bs)])"
    by (rule left_write) (use assms(2) in \<open>simp add: splits_def\<close>)
qed (use assms(1) in auto)

lemma remote_store:
  assumes "8 \<le> atom" and "get_keyid H key = Some (ONAK_E_OK, i)" and "sendable mal [key]"
    and "cmd = (if update then KEYD_CMD_UPDATE else KEYD_CMD_STORE)"
    and "db_store_key (be_ops (kd_dbctx st)) (db_state st) [key] False update = Some (n, d)"
    and "inevitable atom (both_done R) (k 0, [], ks 0 (set_db_state d (count_command cmd st)), [])"
  shows "inevitable atom (both_done R) (keyd_store_key H (key # keys) update k, [], sock_do H mal st ks, [])"
proof -
  let ?bs = "keys_octets [key]" and ?st = "count_command cmd st"
  have len: "le_nat (le_bytes 8 (length ?bs)) = length ?bs" "mal (length ?bs)"
    using assms(3) by (auto simp: sendable_def intro!: le_nat_le_bytes)
  have "inevitable atom (both_done R) (keyd_send_cmd cmd (\<lambda>ok.
      if ok then Write (le_bytes 8 (length ?bs)) (\<lambda>_. Write ?bs (\<lambda>_. k 0)) else k 0), [], sock_do H mal st ks, [])"
    using assms(1,4,5,6) len stored_keys_eq [OF assms(3), of "[]"]
    by (intro command) (auto simp: sock_switch_def sock_store_def Let_def intro!: answer left_send_sized right_read_exactly right_read_loop)
  then show ?thesis
    unfolding keyd_store_key_def assms(4) by (simp only: list.case option.case prod.case assms(2) written_keys_eq [OF assms(3)]) simp
qed

lemma remote_close:
  assumes "4 \<le> atom" and "inevitable atom (both_done R) (k, [], ks 1 (count_command KEYD_CMD_CLOSE st), [])"
  shows "inevitable atom (both_done R) (keyd_cleanupdb k, [], sock_do H mal st ks, [])"
proof -
  have c: "le_nat (le_bytes 4 8) = 8" by (simp add: le_nat_le_bytes)
  show ?thesis
    unfolding keyd_cleanupdb_def sock_do_def using assms c
    by (intro left_write_small)
       (auto simp: sock_switch_def keyd_write_reply_def intro!: right_read_exactly right_write_small left_read_piece)
qed

lemma Nil_le_bytes [simp]: "[] = le_bytes n v \<longleftrightarrow> n = 0"
  by (metis le_bytes_Nil)

lemma remote_init:
  assumes "4 \<le> atom" and "inevitable atom (both_done R) (k True, [], ks 0 (count_command KEYD_CMD_VERSION st), [])"
  shows "inevitable atom (both_done R) (keydb_keyd_init k, [], sock_do H mal st ks, [])"
proof -
  have c: "le_nat (le_bytes 4 1) = 1" "le_nat (le_bytes 4 4) = 4" "le_nat (le_bytes 4 0) = 0" by (simp_all add: le_nat_le_bytes)
  have i: "inevitable atom (both_done R) (read_exactly 4 (k False) (\<lambda>reply. if le_nat reply \<noteq> 4 then k False
        else read_exactly 4 (k False) (\<lambda>_. k True)), [le_bytes 4 4, le_bytes 4 5], ks 0 (count_command 1 st), [])"
    using assms c by (auto intro!: left_read_exactly)
  show ?thesis
    unfolding keydb_keyd_init_def sock_do_def using assms(1) c i
    by (intro left_write_small)
       (auto simp: sock_switch_def sock_version_def intro!: right_read_exactly right_reply_ok right_write_small left_read_piece)
qed

section \<open>Visiting the keys of the daemon\<close>

lemma iterate_size:
  "iterate_loop mal iterfunc None ctx numkeys k =
     Read 8 (\<lambda>r. let n = (case r of None \<Rightarrow> 0 | Some c \<Rightarrow> le_nat c) in
       if n = 0 then k numkeys ctx
       else if \<not> mal n then Undef
       else iterate_loop mal iterfunc (Some (n, [])) ctx numkeys k)"
  by (subst iterate_loop.code) simp

lemma iterate_data:
  "iterate_loop mal iterfunc (Some (n, buf)) ctx numkeys k =
     Read (n - length buf) (\<lambda>r. let (ok, buf) = (case r of None \<Rightarrow> (False, buf) | Some bs \<Rightarrow> (True, buf @ bs)) in
       if ok \<and> length buf < n then iterate_loop mal iterfunc (Some (n, buf)) ctx numkeys k
       else case visit_key mal iterfunc n buf ctx of
              None \<Rightarrow> Undef
            | Some ctx \<Rightarrow> iterate_loop mal iterfunc None ctx (numkeys + 1) k)"
  by (subst iterate_loop.code) simp

text \<open>The inner loop is the loop that the other functions have.\<close>

lemma iterate_data_loop:
  "length buf < n \<Longrightarrow> iterate_loop mal iterfunc (Some (n, buf)) ctx numkeys k =
     read_loop n buf (\<lambda>_ buf. case visit_key mal iterfunc n buf ctx of
       None \<Rightarrow> Undef
     | Some ctx \<Rightarrow> iterate_loop mal iterfunc None ctx (numkeys + 1) k)"
proof (coinduction arbitrary: buf rule: proc.coinduct_strong)
  case Eq_proc
  let ?k = "\<lambda>_ buf. case visit_key mal iterfunc n buf ctx of
       None \<Rightarrow> Undef
     | Some ctx \<Rightarrow> iterate_loop mal iterfunc None ctx (numkeys + 1) k"
  let ?f = "\<lambda>r. let (ok, buf) = (case r of None \<Rightarrow> (False, buf) | Some bs \<Rightarrow> (True, buf @ bs)) in
       if ok \<and> length buf < n then iterate_loop mal iterfunc (Some (n, buf)) ctx numkeys k else ?k ok buf"
  let ?g = "\<lambda>r. case r of None \<Rightarrow> ?k False buf | Some bs \<Rightarrow> read_loop n (buf @ bs) ?k"
  have p: "iterate_loop mal iterfunc (Some (n, buf)) ctx numkeys k = Read (n - length buf) ?f" by (rule iterate_data)
  have q: "read_loop n buf ?k = Read (n - length buf) ?g" using Eq_proc by (rule read_loop_step)
  have "?f r = ?g r \<or> (\<exists>buf. ?f r = iterate_loop mal iterfunc (Some (n, buf)) ctx numkeys k \<and> ?g r = read_loop n buf ?k \<and> length buf < n)" for r
  proof (cases r)
    case (Some bs)
    then show ?thesis
      by (cases "length (buf @ bs) < n") (auto simp: read_loop_end intro!: exI [of _ "buf @ bs"])
  qed simp
  then show ?case unfolding p q by (simp add: rel_fun_def) blast
qed

lemma iterate_one:
  assumes "sendable mal key" and "key \<noteq> []" and "concat cs = keys_octets key" and "[] \<notin> set cs"
    and "inevitable atom (both_done R) (iterate_loop mal iterfunc None (iterfunc ctx key) (numkeys + 1) k, [], s, qs)"
  shows "inevitable atom (both_done R) (iterate_loop mal iterfunc (Some (length (keys_octets key), [])) ctx numkeys k, cs, s, qs)"
proof -
  note size = sendable_size [OF assms(1,2)]
  have "visit_key mal iterfunc (length (keys_octets key)) (keys_octets key) ctx = Some (iterfunc ctx key)"
    using size(4) [of "[]"] assms(2) by (simp add: visit_key_def)
  then show ?thesis
    using assms size(3) by (simp only: iterate_data_loop list.size) (auto intro!: left_read_loop)
qed

lemma iterate_rest:
  assumes "8 \<le> atom" and "list_all (\<lambda>key. sendable mal key \<and> key \<noteq> [] \<and> get_keyid H (hd key) \<noteq> None) l"
    and "inevitable atom (both_done R) (k (numkeys + int (length l)) (foldl iterfunc ctx l), [], ks 0 st, [])"
  shows "inevitable atom (both_done R) (iterate_loop mal iterfunc None ctx numkeys k, [],
    iterate_over H l (keyd_write_size 0 (\<lambda>ok. ks (if ok then 0 else 1) st)), [])"
  using assms(2,3)
proof (induction l arbitrary: ctx numkeys)
  case Nil
  have "le_nat (le_bytes 8 0) = 0" by (simp add: le_nat_le_bytes)
  with Nil assms(1) show ?case
    by (auto simp: keyd_write_size_def iterate_size intro!: right_write_small left_read_piece)
next
  case (Cons key l)
  have key: "sendable mal key" "key \<noteq> []" "get_keyid H (hd key) \<noteq> None" using Cons.prems(1) by simp_all
  have rest: "inevitable atom (both_done R) (iterate_loop mal iterfunc None (iterfunc ctx key) (numkeys + 1) k, [],
      iterate_over H l (keyd_write_size 0 (\<lambda>ok. ks (if ok then 0 else 1) st)), [])"
    using Cons by (simp add: algebra_simps)
  have "inevitable atom (both_done R) (iterate_loop mal iterfunc None ctx numkeys k, le_bytes 8 (length (keys_octets key)) # cs,
      iterate_over H l (keyd_write_size 0 (\<lambda>ok. ks (if ok then 0 else 1) st)), [])"
    if cs: "concat cs = keys_octets key" "[] \<notin> set cs" for cs
    unfolding iterate_size using sendable_size [OF key(1,2)] cs iterate_one [OF key(1,2) cs rest]
    by (intro left_read_piece) (auto simp: Let_def)
  from right_send_key [OF assms(1) key(1) this] key(2,3) show ?case
    by (auto simp: iteratefunc_def neq_Nil_conv)
qed

lemma remote_iterate:
  assumes "8 \<le> atom" and "db_iterate_keys st (db_state st) = Some l"
    and "list_all (\<lambda>key. sendable mal key \<and> key \<noteq> [] \<and> get_keyid H (hd key) \<noteq> None) l"
    and "inevitable atom (both_done R) (k (int (length l)) (foldl iterfunc ctx l), [], ks 0 (count_command KEYD_CMD_KEYITER st), [])"
  shows "inevitable atom (both_done R) (keyd_iterate_keys mal iterfunc ctx k, [], sock_do H mal st ks, [])"
proof -
  let ?st = "count_command KEYD_CMD_KEYITER st"
  let ?c = "read_exactly 8 Undef (\<lambda>c. let n = le_nat c in if n = 0 then k 0 ctx else if \<not> mal n then Undef
         else iterate_loop mal iterfunc (Some (n, [])) ctx 0 k)"
  have "inevitable atom (both_done R) (?c, [], iterate_over H l (keyd_write_size 0 (\<lambda>ok. ks (if ok then 0 else 1) ?st)), [])"
  proof (cases l)
    case Nil
    have "le_nat (le_bytes 8 0) = 0" by (simp add: le_nat_le_bytes)
    with Nil assms(1,4) show ?thesis
      by (auto simp: keyd_write_size_def intro!: right_write_small left_read_exactly)
  next
    case (Cons key l')
    have key: "sendable mal key" "key \<noteq> []" "get_keyid H (hd key) \<noteq> None" using Cons assms(3) by simp_all
    have rest: "inevitable atom (both_done R) (iterate_loop mal iterfunc None (iterfunc ctx key) (0 + 1) k, [],
        iterate_over H l' (keyd_write_size 0 (\<lambda>ok. ks (if ok then 0 else 1) ?st)), [])"
      by (rule iterate_rest [OF assms(1)]) (use Cons assms(3,4) in \<open>simp_all add: add.commute\<close>)
    have "inevitable atom (both_done R) (?c, le_bytes 8 (length (keys_octets key)) # cs,
        iterate_over H l' (keyd_write_size 0 (\<lambda>ok. ks (if ok then 0 else 1) ?st)), [])"
      if cs: "concat cs = keys_octets key" "[] \<notin> set cs" for cs
      using sendable_size [OF key(1,2)] cs iterate_one [OF key(1,2) cs rest]
      by (intro left_read_exactly) (auto simp: Let_def)
    from right_send_key [OF assms(1) key(1) this] key(2,3) Cons show ?thesis
      by (auto simp: iteratefunc_def neq_Nil_conv)
  qed
  with assms(1,2) show ?thesis
    unfolding keyd_iterate_keys_def by (auto simp: sock_switch_def sock_keyiter_def intro!: command answer)
qed

section \<open>A session\<close>

datatype keyd_call =
    Fetch_Key openpgp_fingerprint
  | Fetch_Key_Fp openpgp_fingerprint
  | Fetch_Key_Id u64
  | Fetch_Key_Text bytes
  | Store_Key publickeys bool
  | Delete_Key openpgp_fingerprint bytes

text \<open>The client connects, makes the calls, keeps their results and disconnects.\<close>

fun client_call :: "hash_funs \<Rightarrow> (nat \<Rightarrow> bool) \<Rightarrow> keyd_call \<Rightarrow> (int \<times> publickeys \<Rightarrow> 'r proc) \<Rightarrow> 'r proc" where
  "client_call H mal (Fetch_Key f) k = keyd_fetch_key mal f [] (\<lambda>n keys. k (n, keys))"
| "client_call H mal (Fetch_Key_Fp f) k = keyd_fetch_key_fp mal f [] (\<lambda>n keys. k (n, keys))"
| "client_call H mal (Fetch_Key_Id i) k = keyd_fetch_key_id mal i [] (\<lambda>n keys. k (n, keys))"
| "client_call H mal (Fetch_Key_Text s) k = keyd_fetch_key_text mal s [] (\<lambda>n keys. k (n, keys))"
| "client_call H mal (Store_Key keys update) k = keyd_store_key H keys update (\<lambda>n. k (n, []))"
| "client_call H mal (Delete_Key f rest) k = keyd_delete_key f rest (\<lambda>n. k (n, []))"

fun client_calls :: "hash_funs \<Rightarrow> (nat \<Rightarrow> bool) \<Rightarrow> keyd_call list \<Rightarrow> (int \<times> publickeys) list \<Rightarrow> (int \<times> publickeys) list proc" where
  "client_calls H mal [] rs = keyd_cleanupdb (Done rs)"
| "client_calls H mal (c # cs) rs = client_call H mal c (\<lambda>r. client_calls H mal cs (rs @ [r]))"

definition client_session :: "hash_funs \<Rightarrow> (nat \<Rightarrow> bool) \<Rightarrow> keyd_call list \<Rightarrow> (int \<times> publickeys) list proc" where
  "client_session H mal cs = keydb_keyd_init (\<lambda>ok. if ok then client_calls H mal cs [] else Done [])"

text \<open>The same calls on a table of keys.\<close>

definition table_fetch :: "'i key_table \<Rightarrow> 'i \<Rightarrow> int \<times> publickeys" where
  "table_fetch V i = (case V i of None \<Rightarrow> (0, []) | Some k \<Rightarrow> (1, [k]))"

fun table_call :: "hash_funs \<Rightarrow> (openpgp_fingerprint \<Rightarrow> 'i) \<Rightarrow> (u64 \<Rightarrow> 'i) \<Rightarrow> (bytes \<Rightarrow> 'i key_table \<Rightarrow> publickeys) \<Rightarrow>
    keyd_call \<Rightarrow> 'i key_table \<Rightarrow> (int \<times> publickeys) \<times> 'i key_table" where
  "table_call H slot_of slot_of_id texts (Fetch_Key f) V = (table_fetch V (slot_of f), V)"
| "table_call H slot_of slot_of_id texts (Fetch_Key_Fp f) V = (table_fetch V (slot_of f), V)"
| "table_call H slot_of slot_of_id texts (Fetch_Key_Id i) V = (table_fetch V (slot_of_id i), V)"
| "table_call H slot_of slot_of_id texts (Fetch_Key_Text s) V = ((if texts s V = [] then 0 else 1, texts s V), V)"
| "table_call H slot_of slot_of_id texts (Store_Key keys update) V = ((0, []), V(slot_of (key_fp H (hd keys)) \<mapsto> hd keys))"
| "table_call H slot_of slot_of_id texts (Delete_Key f rest) V = ((0, []), V(slot_of f := None))"

fun table_calls :: "hash_funs \<Rightarrow> (openpgp_fingerprint \<Rightarrow> 'i) \<Rightarrow> (u64 \<Rightarrow> 'i) \<Rightarrow> (bytes \<Rightarrow> 'i key_table \<Rightarrow> publickeys) \<Rightarrow>
    keyd_call list \<Rightarrow> 'i key_table \<Rightarrow> (int \<times> publickeys) list \<times> 'i key_table" where
  "table_calls H slot_of slot_of_id texts [] V = ([], V)"
| "table_calls H slot_of slot_of_id texts (c # cs) V =
     (let (r, V) = table_call H slot_of slot_of_id texts c V; (rs, V) = table_calls H slot_of slot_of_id texts cs V in (r # rs, V))"

text \<open>
  Calls with fingerprints of version 4 or 5, keys that can be stored, and texts that are sent in one piece. The octets behind the
  fingerprint fill its array.
\<close>

definition fingerprint_known :: "openpgp_fingerprint \<Rightarrow> bool" where
  "fingerprint_known f \<longleftrightarrow> fingerprint_ok f \<and> fp_length f \<in> {20, 32}"

definition key_fits :: "(nat \<Rightarrow> bool) \<Rightarrow> openpgp_publickey \<Rightarrow> bool" where
  "key_fits mal k \<longleftrightarrow> length (key_file k) < 2 ^ 62 \<and> mal (length (key_file k))"

fun call_ok :: "hash_funs \<Rightarrow> (nat \<Rightarrow> bool) \<Rightarrow> nat \<Rightarrow> keyd_call \<Rightarrow> bool" where
  "call_ok H mal atom (Fetch_Key f) = fingerprint_known f"
| "call_ok H mal atom (Fetch_Key_Fp f) = fingerprint_known f"
| "call_ok H mal atom (Fetch_Key_Id i) = True"
| "call_ok H mal atom (Fetch_Key_Text s) =
     (s \<noteq> [] \<and> 0 \<notin> set s \<and> length s \<le> atom \<and> length s < 2 ^ 63 \<and> mal (length s + 1))"
| "call_ok H mal atom (Store_Key keys update) = (keys \<noteq> [] \<and> key_storable H mal (hd keys) \<and> key_fits mal (hd keys))"
| "call_ok H mal atom (Delete_Key f rest) = (fingerprint_known f \<and> length rest = 32 - fp_length f)"

lemma storable_sendable: "key_storable H mal k \<Longrightarrow> key_fits mal k \<Longrightarrow> sendable mal [k]"
  by (auto simp: key_storable_def key_fits_def sendable_def keys_octets_def key_file_def flatten_publickey_eq)

definition keeps :: "(nat \<Rightarrow> bool) \<Rightarrow> 'i key_table \<Rightarrow> bool" where
  "keeps mal V \<longleftrightarrow> (\<forall>k \<in> ran V. key_fits mal k)"

text \<open>What the daemon needs of its back end, beside what the generic functions need.\<close>

locale served_backend = key_backend H mal ops represents slot_of
  for H :: hash_funs and mal :: "nat \<Rightarrow> bool" and ops :: "'d keydb_ops" and represents :: "'d \<Rightarrow> 'i key_table \<Rightarrow> bool"
    and slot_of :: "openpgp_fingerprint \<Rightarrow> 'i" +
  fixes b :: "'d backend" and slot_of_id :: "u64 \<Rightarrow> 'i" and texts :: "bytes \<Rightarrow> 'i key_table \<Rightarrow> publickeys"
  assumes ops_law: "be_ops b = ops"
    and fetch_known_law: "represents d V \<Longrightarrow> fingerprint_known f \<Longrightarrow>
      be_fetch_key b d f [] False = Some (table_fetch V (slot_of f)) \<and>
      db_fetch_key_fp ops d f [] False = Some (table_fetch V (slot_of f))"
    and fetch_id_law: "represents d V \<Longrightarrow> db_fetch_key_id ops d i [] False = Some (table_fetch V (slot_of_id i))"
    and text_law: "represents d V \<Longrightarrow> keeps mal V \<Longrightarrow>
      sendable mal (texts s V) \<and> (\<exists>n. be_fetch_key_text b d s [] = Some (n, texts s V))"
    and delete_law: "represents d V \<Longrightarrow> fingerprint_known f \<Longrightarrow>
      \<exists>n d'. be_delete_key b d f False = Some (n, d') \<and> represents d' (V(slot_of f := None))"
begin

lemma fetched_sendable: "represents d V \<Longrightarrow> keeps mal V \<Longrightarrow> sendable mal (snd (table_fetch V i))"
  using stored_law [of d V i] by (auto simp: table_fetch_def keeps_def ran_def split: option.split intro!: storable_sendable)

lemma fetch_result: "fst (table_fetch V i) = (if snd (table_fetch V i) = [] then 0 else 1)"
  by (simp add: table_fetch_def split: option.split)

lemma call_refines:
  assumes "40 \<le> atom" and "call_ok H mal atom c" and "table_call H slot_of slot_of_id texts c V = (r, V')"
    and "kd_dbctx st = b\<lparr>be_state := d\<rparr>" and "represents d V" and "keeps mal V"
    and "\<And>d' st'. kd_dbctx st' = b\<lparr>be_state := d'\<rparr> \<Longrightarrow> represents d' V' \<Longrightarrow> keeps mal V' \<Longrightarrow>
      inevitable atom (both_done R) (k r, [], ks 0 st', [])"
  shows "inevitable atom (both_done R) (client_call H mal c k, [], sock_do H mal st ks, [])"
proof -
  have st: "db_state st = d" "be_ops (kd_dbctx st) = ops" "be_fetch_key (kd_dbctx st) = be_fetch_key b"
    "be_fetch_key_text (kd_dbctx st) = be_fetch_key_text b" "be_delete_key (kd_dbctx st) = be_delete_key b"
    using assms(4) by (simp_all add: db_state_def ops_law)
  have same: "inevitable atom (both_done R) (k r, [], ks 0 (count_command cmd st), [])" if "V' = V" for cmd
    using that assms(4-6) by (intro assms(7) [of _ d]) simp_all
  have changed: "inevitable atom (both_done R) (k r, [], ks 0 (set_db_state d' (count_command cmd st)), [])"
    if "represents d' V'" "keeps mal V'" for cmd d'
    using that assms(4) by (intro assms(7) [of _ d']) (simp_all add: set_db_state_def)
  note fetched = fetched_sendable [OF assms(5,6)] fetch_result
  have fpr: "inevitable atom (both_done R) (fetch_by_fingerprint mal cmd f [] (\<lambda>n keys. k (n, keys)), [], sock_do H mal st ks, [])"
    if "fingerprint_known f" "fetch d f [] False = Some (table_fetch V (slot_of f))" "cmd < 2 ^ 32" "r = table_fetch V (slot_of f)" "V' = V"
      "sock_switch H mal cmd (count_command cmd st) ks = sock_get fetch (count_command cmd st) ks" for f cmd fetch
  proof (rule remote_fetch_fingerprint [OF assms(1) _ _ that(3,6)])
    show "fetch (db_state st) f [] False = Some (fst r, snd r)" using that(2,4) st by simp
    show "sendable mal (snd r)" using fetched(1) that(4) by simp
    show "inevitable atom (both_done R) (k (if snd r = [] then 0 else 1, [] @ snd r), [], ks 0 (count_command cmd st), [])"
      using same that(4,5) by (simp flip: fetched(2))
  qed (use that(1) in \<open>auto simp: fingerprint_known_def\<close>)
  show ?thesis
  proof (cases c)
    case (Fetch_Key f)
    then show ?thesis
      using assms(2,3) fetch_known_law [OF assms(5), of f] st
      by (auto simp: keyd_fetch_key_def sock_switch_def intro!: fpr [of f "be_fetch_key b"])
  next
    case (Fetch_Key_Fp f)
    then show ?thesis
      using assms(2,3) fetch_known_law [OF assms(5), of f] st
      by (auto simp: keyd_fetch_key_fp_def sock_switch_def intro!: fpr [of f "db_fetch_key_fp ops"])
  next
    case (Fetch_Key_Id i)
    then have r: "r = table_fetch V (slot_of_id i)" "V' = V" using assms(3) by auto
    have "inevitable atom (both_done R) (keyd_fetch_key_id mal i [] (\<lambda>n keys. k (n, keys)), [], sock_do H mal st ks, [])"
    proof (rule remote_fetch_id)
      show "db_fetch_key_id (be_ops (kd_dbctx st)) (db_state st) i [] False = Some (fst r, snd r)"
        using fetch_id_law [OF assms(5)] st r by simp
      show "inevitable atom (both_done R) (k (if snd r = [] then 0 else 1, [] @ snd r), [], ks 0 (count_command 2 st), [])"
        using same r by (simp flip: fetched(2))
    qed (use assms(1) fetched(1) r in auto)
    with Fetch_Key_Id show ?thesis by simp
  next
    case (Fetch_Key_Text s)
    then show ?thesis
      using assms(1-3) text_law [OF assms(5,6), of s] st same
      by (auto intro!: remote_fetch_text)
  next
    case (Store_Key keys update)
    then obtain key rest where keys: "keys = key # rest" "key_storable H mal key" "key_fits mal key"
      and r: "r = (0, [])" "V' = V(slot_of (key_fp H key) \<mapsto> key)"
      using assms(2,3) by (cases keys) auto
    obtain n d' where d': "db_store_key ops d [key] False update = Some (n, d')" "represents d' V'"
      using store_law [OF assms(5) keys(2), of "[]" False update] r by auto
    have "keeps mal V'" using assms(6) keys(3) r(2) by (auto simp: keeps_def ran_def)
    from changed [OF d'(2) this] Store_Key keys(1) r(1) d'(1) st assms(1)
      key_keyid(1) [OF hashes_law [OF assms(5)], of key] keys(2) storable_sendable [OF keys(2,3)]
    show ?thesis by (auto simp: key_storable_def intro!: remote_store)
  next
    case (Delete_Key f rest)
    then have f: "fingerprint_known f" "length rest = 32 - fp_length f" and r: "r = (0, [])" "V' = V(slot_of f := None)"
      using assms(2,3) by auto
    obtain n d' where d': "be_delete_key b d f False = Some (n, d')" "represents d' V'"
      using delete_law [OF assms(5) f(1)] r(2) by auto
    have "keeps mal V'" using assms(6) r(2) by (auto simp: keeps_def ran_def split: if_splits)
    from changed [OF d'(2) this] Delete_Key f r(1) d'(1) st assms(1) show ?thesis
      by (auto simp: fingerprint_known_def intro!: remote_delete)
  qed
qed

lemma calls_refine:
  assumes "40 \<le> atom" and "list_all (call_ok H mal atom) cs" and "table_calls H slot_of slot_of_id texts cs V = (rs, V')"
    and "kd_dbctx st = b\<lparr>be_state := d\<rparr>" and "represents d V" and "keeps mal V" and "length cs < n"
  shows "inevitable atom (both_done (\<lambda>r st. r = rs0 @ rs \<and> represents (db_state st) V'))
    (client_calls H mal cs rs0, [], serve n H mal st, [])"
  using assms(2-7)
proof (induction cs arbitrary: V rs rs0 st d n)
  case Nil
  then obtain m where n: "n = Suc m" by (cases n) auto
  have "db_state (count_command 8 st) = d" using Nil by (simp add: db_state_def)
  with Nil have "both_done (\<lambda>r st. r = rs0 @ rs \<and> represents (db_state st) V') (Done rs0, [], Done (count_command 8 st), [])"
    by (simp add: both_done_def)
  from inevitable.now [of "both_done _", OF this] n assms(1) show ?case by (auto intro!: remote_close)
next
  case (Cons c cs)
  then obtain m where n: "n = Suc m" "length cs < m" by (cases n) auto
  obtain r V1 rs1 where one: "table_call H slot_of slot_of_id texts c V = (r, V1)"
    and rest: "table_calls H slot_of slot_of_id texts cs V1 = (rs1, V')" "rs = r # rs1"
    using Cons.prems(2) by (auto simp: Let_def split: prod.splits)
  show ?case
    unfolding n(1) serve.simps client_calls.simps
  proof (rule call_refines [OF assms(1) _ one Cons.prems(3-5)])
    fix d' and st' :: "'d keyd" assume "kd_dbctx st' = b\<lparr>be_state := d'\<rparr>" "represents d' V1" "keeps mal V1"
    from Cons.IH [OF _ rest(1) this n(2), of "rs0 @ [r]"] Cons.prems(1) rest(2)
    show "inevitable atom (both_done (\<lambda>r st. r = rs0 @ rs \<and> represents (db_state st) V'))
        (client_calls H mal cs (rs0 @ [r]), [], if (0::int) \<noteq> 0 then Done st' else serve m H mal st', [])" by simp
  qed (use Cons.prems(1) in simp)
qed

lemma session_refines:
  assumes "40 \<le> atom" and "list_all (call_ok H mal atom) cs" and "table_calls H slot_of slot_of_id texts cs V = (rs, V')"
    and "kd_dbctx st = b\<lparr>be_state := d\<rparr>" and "represents d V" and "keeps mal V"
  shows "inevitable atom (both_done (\<lambda>r st. r = rs \<and> represents (db_state st) V'))
    (client_session H mal cs, [], serve (length cs + 2) H mal st, [])"
  using calls_refine [OF assms(1-3), of "count_command 1 st" d "length cs + 1" "[]"] assms
  by (auto simp: client_session_def intro!: remote_init)

end

section \<open>The daemon on the files\<close>

lemma file_fetch_known:
  assumes "dir_holds H mal db_dir fs V" and "fingerprint_known f"
  shows "generic_fetch_key_fp (file_fetch_key_id mal db_dir) fs f [] intrans = Some (table_fetch V (fp_slot f))"
proof -
  have "\<exists>i. fingerprint2keyid f = Some i" and "generic_fetch_key_fp (file_fetch_key_id mal db_dir) fs f [] intrans =
      file_fetch_key_id mal db_dir fs (the (fingerprint2keyid f)) [] intrans"
    using assms(2) by (auto simp: fingerprint_known_def fingerprint_ok_def generic_fetch_key_fp_def fingerprint2keyid_def rds_def)
  with file_fetch_slot [OF assms(1)] show ?thesis by (auto simp: fp_slot_def table_fetch_def split: option.split)
qed

lemma file_delete_known:
  assumes "dir_holds H mal db_dir fs V" and "fingerprint_known f"
  shows "\<exists>n fs'. file_delete_key db_dir fs f intrans = Some (n, fs') \<and> dir_holds H mal db_dir fs' (V(fp_slot f := None))"
proof -
  obtain i where i: "fingerprint2keyid f = Some i" "fp_slot f = id_slot i"
    using assms(2) by (auto simp: fingerprint_known_def fingerprint_ok_def fingerprint2keyid_def rds_def fp_slot_def)
  have f: "files fs (slot_file db_dir (fp_slot f)) = map_option key_file (V (fp_slot f))"
    using assms(1) by (simp add: dir_holds_def)
  show ?thesis
  proof (cases "V (fp_slot f)")
    case None
    then have "V(fp_slot f := None) = V" by (simp add: fun_upd_idem)
    then show ?thesis using None assms(1) f i by (simp add: file_delete_key_def keyfile_slot)
  next
    case (Some k)
    have "dir_holds H mal db_dir (fs\<lparr>files := (files fs)(slot_file db_dir (fp_slot f) := None)\<rparr>) (V(fp_slot f := None))"
      using assms(1) slot_file_inj [of db_dir] by (auto simp: dir_holds_def)
    then show ?thesis using Some f i by (simp add: file_delete_key_def keyfile_slot)
  qed
qed

interpretation file_daemon: served_backend H mal "keydb_file_init H mal db_dir" "dir_holds H mal db_dir" fp_slot
  "file_backend H mal db_dir fs0" id_slot "\<lambda>s V. []"
  for H mal db_dir fs0
proof
  fix d V f i s
  assume d: "dir_holds H mal db_dir d V"
  show "db_fetch_key_id (keydb_file_init H mal db_dir) d i [] False = Some (table_fetch V (id_slot i))"
    using file_fetch_slot [OF d, of i "[]" False] by (simp add: keydb_file_init_def table_fetch_def split: option.split)
  show "sendable mal [] \<and> (\<exists>n. be_fetch_key_text (file_backend H mal db_dir fs0) d s [] = Some (n, []))"
    by (simp add: file_backend_def file_fetch_key_text_def Let_def)
  show "be_fetch_key (file_backend H mal db_dir fs0) d f [] False = Some (table_fetch V (fp_slot f)) \<and>
      db_fetch_key_fp (keydb_file_init H mal db_dir) d f [] False = Some (table_fetch V (fp_slot f))" if "fingerprint_known f"
    using file_fetch_known [OF d that] by (simp add: file_backend_def keydb_file_init_def Let_def)
  show "\<exists>n d'. be_delete_key (file_backend H mal db_dir fs0) d f False = Some (n, d') \<and> dir_holds H mal db_dir d' (V(fp_slot f := None))"
    if "fingerprint_known f"
    using file_delete_known [OF d that] by (simp add: file_backend_def Let_def)
qed (simp add: file_backend_def Let_def)

section \<open>Properties\<close>

text \<open>
  C32. A session with the daemon is a session with its table of keys. Let the daemon serve a directory that holds the table \<open>V\<close>. A client
  connects, makes any number of lookups, stores and deletions and disconnects. In every interleaving of the two programs, and however the
  socket cuts up what is sent, both come to their end; the client's results are those of the calls on the table, and the directory
  then holds the table as the calls leave it. A lookup returns 1 or 0; stores and deletions return 0.
\<close>

theorem keyd_session_refines:
  assumes "40 \<le> atom" and "list_all (call_ok H mal atom) cs" and "table_calls H fp_slot id_slot (\<lambda>s V. []) cs V = (rs, V')"
    and "kd_dbctx st = file_backend H mal db_dir fs" and "dir_holds H mal db_dir fs V" and "keeps mal V"
  shows "inevitable atom (both_done (\<lambda>r st. r = rs \<and> dir_holds H mal db_dir (db_state st) V'))
    (client_session H mal cs, [], serve (length cs + 2) H mal st, [])"
proof -
  have "kd_dbctx st = (file_backend H mal db_dir fs)\<lparr>be_state := fs\<rparr>" using assms(4) by (simp add: file_backend_def Let_def)
  from file_daemon.session_refines [OF assms(1-3) this assms(5,6)] show ?thesis .
qed

definition sample_daemon :: "file_system \<Rightarrow> publickeys list \<Rightarrow> file_system keyd" where
  "sample_daemon fs l = \<lparr>kd_dbctx = file_backend sample_hashes (\<lambda>_. True) [100] fs, db_iterate_keys = \<lambda>_. Some l,
     stats = \<lparr>started = 0, connects = 1, command_stats = replicate 15 0\<rparr>, should_cleanup = False\<rparr>"

lemma stored_key_fits: "length b < 200 \<Longrightarrow> key_fits (\<lambda>_. True) (stored_key [u] b)"
  by (simp add: key_fits_def key_file_def key_packets_def stored_key_def sample_uid_def packet_encoding_def length_octets_def plength_def
      signed_packets_def)

theorem keyd_session_refines_witness:
  "inevitable 4096 (both_done (\<lambda>r st. r = [(0, []), (1, [stored_key [65] []]), (0, [])] \<and>
       dir_holds sample_hashes (\<lambda>_. True) [100] (db_state st) (stored_table (stored_key [65] []))))
     (client_session sample_hashes (\<lambda>_. True)
        [Store_Key [stored_key [65] []] False, Fetch_Key (key_fp sample_hashes (stored_key [65] [])), Fetch_Key_Text [97]],
      [], serve 5 sample_hashes (\<lambda>_. True) (sample_daemon empty_dir []), [])"
proof -
  let ?k = "stored_key [65] []"
  have k: "key_storable sample_hashes (\<lambda>_. True) ?k" by (rule stored_key_storable) simp_all
  then have f: "fingerprint_known (key_fp sample_hashes ?k)"
    using key_fingerprint(2,3) [OF sample_hashes_ok, of ?k] by (simp add: fingerprint_known_def key_storable_def)
  have d: "dir_holds sample_hashes (\<lambda>_. True) [100] empty_dir (\<lambda>_. None)"
    using empty_dir_holds [OF sample_hashes_ok, of "[100]" "\<lambda>_. True"] by simp
  let ?cs = "[Store_Key [?k] False, Fetch_Key (key_fp sample_hashes ?k), Fetch_Key_Text [97]]"
  have t: "table_calls sample_hashes fp_slot id_slot (\<lambda>s V. []) ?cs (\<lambda>_. None) = ([(0, []), (1, [?k]), (0, [])], stored_table ?k)"
    by (auto simp: stored_table_def table_fetch_def)
  have "list_all (call_ok sample_hashes (\<lambda>_. True) 4096) ?cs" using k f stored_key_fits [of "[]" 65] by simp
  from keyd_session_refines [OF _ this t _ d, of "sample_daemon empty_dir []"] show ?thesis
    by (simp add: keeps_def sample_daemon_def numeral_eq_Suc)
qed

text \<open>
  C33. All keys are visited through the daemon. Where the daemon's back end would visit the keys of the slots \<open>slots\<close>, the client's function is called for
  each of these keys, in that order, and their number is returned; in every interleaving both sides come to the end of the call.
\<close>

theorem keyd_iterate_keys_visits:
  assumes "8 \<le> atom" and "dir_holds H mal db_dir (db_state st) V" and "keeps mal V" and "list_all (\<lambda>i. V i \<noteq> None) slots"
    and "filter (\<lambda>n. take 2 n = [48, 120]) names = map slot_name slots"
    and "db_iterate_keys st = (\<lambda>fs. map_option snd (file_iterate_keys mal db_dir fs (Some names) (\<lambda>l key. l @ [key]) []))"
  shows "inevitable atom (both_done (\<lambda>r st. r = (int (length slots), foldl (\<lambda>c i. iterfunc c [the (V i)]) ctx slots)))
    (keyd_iterate_keys mal iterfunc ctx (\<lambda>n c. Done (n, c)), [], sock_do H mal st (\<lambda>ret st. Done st), [])"
proof -
  let ?l = "map (\<lambda>i. [the (V i)]) slots"
  have fold: "foldl (\<lambda>l i. l @ [[the (V i)]]) l0 is = l0 @ map (\<lambda>i. [the (V i)]) is" for l0 "is"
    by (induction "is" arbitrary: l0) simp_all
  have l: "db_iterate_keys st (db_state st) = Some ?l"
    using iterate_files_all [OF assms(2,4,5), of "\<lambda>l key. l @ [key]" "[]" 0] fold [of "[]"]
    by (simp add: assms(6) file_iterate_keys_def)
  have "sendable mal [k] \<and> get_keyid H k \<noteq> None" if "V i = Some k" for i k
    using that assms(2,3) key_keyid(1) [of H k]
    by (auto simp: dir_holds_def keeps_def ran_def key_storable_def intro!: storable_sendable) (auto simp: key_storable_def)
  then have "list_all (\<lambda>key. sendable mal key \<and> key \<noteq> [] \<and> get_keyid H (hd key) \<noteq> None) ?l"
    using assms(4) by (auto simp: list_all_iff)
  then show ?thesis
    by (rule remote_iterate [OF assms(1) l _ inevitable.now]) (simp add: both_done_def foldl_map)
qed

theorem keyd_iterate_keys_visits_witness:
  "inevitable 4096 (both_done (\<lambda>r st. r = (1, [[stored_key [65] [0, 0, 0, 0, 1, 2, 3, 4]]])))
    (keyd_iterate_keys (\<lambda>_. True) (\<lambda>c keys. c @ [keys]) [] (\<lambda>n c. Done (n, c)), [],
     sock_do sample_hashes (\<lambda>_. True)
       ((sample_daemon (stored_dir (stored_key [65] [0, 0, 0, 0, 1, 2, 3, 4])) [])\<lparr>db_iterate_keys :=
          \<lambda>fs. map_option snd (file_iterate_keys (\<lambda>_. True) [100] fs (Some [[46], slot_name 0x01020304, [46, 46]])
                 (\<lambda>l key. l @ [key]) [])\<rparr>)
       (\<lambda>ret st. Done st), [])"
proof -
  let ?a = "stored_key [65] [0, 0, 0, 0, 1, 2, 3, 4]" and ?names = "[[46], slot_name 0x01020304, [46, 46]]"
  let ?st = "(sample_daemon (stored_dir ?a) [])\<lparr>db_iterate_keys :=
    \<lambda>fs. map_option snd (file_iterate_keys (\<lambda>_. True) [100] fs (Some ?names) (\<lambda>l key. l @ [key]) [])\<rparr>"
  have a: "key_storable sample_hashes (\<lambda>_. True) ?a" by (rule stored_key_storable) simp_all
  have d: "dir_holds sample_hashes (\<lambda>_. True) [100] (db_state ?st) (stored_table ?a)"
    using stored_dir_holds [OF a] by (simp add: sample_daemon_def db_state_def file_backend_def Let_def)
  have V: "stored_table ?a 0x01020304 = Some ?a" by (simp add: stored_table_def stored_key_slot(2))
  have "keeps (\<lambda>_. True) (stored_table ?a)" using stored_key_fits [of "[0, 0, 0, 0, 1, 2, 3, 4]" 65]
    by (auto simp: keeps_def stored_table_def ran_def split: if_splits)
  moreover have "filter (\<lambda>n. take 2 n = [48, 120]) ?names = map slot_name [0x01020304]" by (simp add: slot_name_def)
  ultimately show ?thesis
    using keyd_iterate_keys_visits [OF _ d _ _ _, of 4096 "[0x01020304]" ?names "\<lambda>c keys. c @ [keys]" "[]"] V by simp
qed

text \<open>
  C34. The client hangs if the daemon goes away. If the daemon ends after it has sent the size of a key and less than that of the
  key itself, the client never returns: from then on it calls \<open>read\<close>, which returns 0 at the end of the stream, again and again.
\<close>

theorem keyd_client_hangs:
  assumes "0 < n" and "n < 2 ^ 64" and "mal n" and "length (concat q) < n" and "[] \<notin> set q"
    and "(conn_step atom)\<^sup>*\<^sup>* (receive_keys mal keys k, le_bytes 8 n # q, Done r, qs) y"
  shows "is_Read (fst y) \<and> (\<exists>z. conn_step atom y z)"
proof -
  let ?k = "\<lambda>ok buf. case fetched_keys mal n buf keys of
      None \<Rightarrow> Undef | Some keys \<Rightarrow> k (if 0 < int (length buf) - (if ok then 0 else 1) then 1 else 0) keys"
  let ?x = "(receive_keys mal keys k, le_bytes 8 n # q, Done r, qs)"
  have c: "le_nat (le_bytes 8 n) = n" using assms(2) by (intro le_nat_le_bytes) simp
  obtain f where r: "receive_keys mal keys k = Read 8 f" and f: "f (Some (le_bytes 8 n)) = read_loop n [] ?k"
    using assms(1,3) c by (simp add: receive_keys_def read_exactly_def Let_def)
  have first: "starved n ?k z" if "conn_step atom ?x z" for z
    using that
  proof (rule conn_stepE)
    fix cs c' qc' assume z: "z = (c', qc', Done r, qs @ cs)" and
      "io_call atom (ended (Done r)) (receive_keys mal keys k) (le_bytes 8 n # q) cs c' qc'"
    then have "c' = read_loop n [] ?k \<and> qc' = q" using assms(5) f by (auto simp: r dest!: read_whole_piece)
    then show ?thesis using assms(4) by (auto simp: z starved_def)
  qed simp
  have "io_call atom (ended (Done r)) (Read 8 f) (le_bytes 8 n # q) [] (f (Some (take 8 (concat (le_bytes 8 n # q))))) (unread 8 (le_bytes 8 n # q))"
    by (intro io_call.act_read) auto
  from conn_step.left [OF this] have "is_Read (fst ?x) \<and> (\<exists>z. conn_step atom ?x z)"
    unfolding r by (auto simp del: split_paired_Ex)
  moreover have "is_Read (fst y) \<and> (\<exists>z. conn_step atom y z)" if "conn_step atom ?x z" "(conn_step atom)\<^sup>*\<^sup>* z y" for z
    using starved_for_ever [OF that(2) first [OF that(1)]] starved_goes_on starved_not_ended by blast
  ultimately show ?thesis using assms(6) by (metis converse_rtranclpE)
qed

definition half_a_key :: "(int \<times> publickeys, unit) conn" where
  "half_a_key = (receive_keys (\<lambda>_. True) [] (\<lambda>n keys. Done (n, keys)), [le_bytes 8 10, [152, 3]], Done (), [])"

theorem keyd_client_hangs_witness:
  "is_Read (fst half_a_key) \<and> (\<exists>z. conn_step 4096 half_a_key z)"
  unfolding half_a_key_def by (rule keyd_client_hangs [OF _ _ _ _ _ rtranclp.rtrancl_refl]) simp_all

end
