(* ===== verification/Key_Db_Fs.thy ===== *)
theory Key_Db_Fs
  imports Key_Db_File Word_List
begin

text \<open>
  The back end that keeps the keys in a tree of directories (\<open>keydb/keydb_fs.c\<close>). A key is a file named by its id; the words of its
  user ids, its subkeys and its hash are further names of that file, made by \<open>link\<close>. So names and contents are separate here: a name
  leads to the number of a file, and what is written to a file is seen under all its names.
\<close>

section \<open>Files with several names\<close>

text \<open>
  The directories and the names of files by their full paths, the files by their numbers; \<open>fs_locks\<close> are the results of the next
  attempts to lock the lock file, which then succeed.
\<close>

record fs_tree =
  fs_dirs :: "bytes list"
  fs_names :: "(bytes \<times> nat) list"
  fs_inodes :: "bytes list"
  fs_locks :: "bool list"

text \<open>
  What the code is given: the directory, \<open>PATH_MAX\<close>, \<open>config.maxkeys\<close>, whether the system can make a name, and in which order
  \<open>readdir\<close> returns the names of a directory.
\<close>

record fs_env =
  fs_location :: bytes
  path_max :: nat
  fs_maxkeys :: int
  fs_accepts :: "bytes \<Rightarrow> bool"
  fs_order :: "bytes list \<Rightarrow> bytes list"

abbreviation file_no :: "fs_tree \<Rightarrow> bytes \<Rightarrow> nat option" where
  "file_no t p \<equiv> map_of (fs_names t) p"

definition dirname :: "bytes \<Rightarrow> bytes" where
  "dirname p = rev (tl (dropWhile (\<lambda>c. c \<noteq> 47) (rev p)))"

definition can_make :: "fs_env \<Rightarrow> bytes \<Rightarrow> fs_tree \<Rightarrow> bool" where
  "can_make env p t \<longleftrightarrow> p \<notin> set (fs_dirs t) \<and> file_no t p = None \<and> dirname p \<in> set (fs_dirs t) \<and> fs_accepts env p"

definition mkdir :: "fs_env \<Rightarrow> bytes \<Rightarrow> fs_tree \<Rightarrow> fs_tree" where
  "mkdir env p t = (if can_make env p t then t\<lparr>fs_dirs := p # fs_dirs t\<rparr> else t)"

definition link :: "fs_env \<Rightarrow> bytes \<Rightarrow> bytes \<Rightarrow> fs_tree \<Rightarrow> fs_tree" where
  "link env p q t =
     (case file_no t p of
        None \<Rightarrow> t
      | Some n \<Rightarrow> if can_make env q t then t\<lparr>fs_names := (q, n) # fs_names t\<rparr> else t)"

definition unlink :: "bytes \<Rightarrow> fs_tree \<Rightarrow> fs_tree" where
  "unlink p t = t\<lparr>fs_names := filter (\<lambda>(q, _). q \<noteq> p) (fs_names t)\<rparr>"

text \<open>\<open>open(p, O_WRONLY | O_TRUNC)\<close> and \<open>open(p, O_WRONLY | O_CREAT)\<close>: the number of the file.\<close>

definition open_trunc :: "bytes \<Rightarrow> fs_tree \<Rightarrow> (nat \<times> fs_tree) option" where
  "open_trunc p t = map_option (\<lambda>n. (n, t\<lparr>fs_inodes := (fs_inodes t)[n := []]\<rparr>)) (file_no t p)"

definition open_creat :: "fs_env \<Rightarrow> bytes \<Rightarrow> fs_tree \<Rightarrow> (nat \<times> fs_tree) option" where
  "open_creat env p t =
     (case file_no t p of
        Some n \<Rightarrow> Some (n, t)
      | None \<Rightarrow>
          if can_make env p t
          then Some (length (fs_inodes t), t\<lparr>fs_names := (p, length (fs_inodes t)) # fs_names t, fs_inodes := fs_inodes t @ [[]]\<rparr>)
          else None)"

text \<open>The names in a directory, but for \<open>.\<close> and \<open>..\<close>; the directories that are read have no directories in them.\<close>

definition readdir :: "fs_env \<Rightarrow> bytes \<Rightarrow> fs_tree \<Rightarrow> bytes list option" where
  "readdir env dir t =
     (if dir \<in> set (fs_dirs t) then
        Some (fs_order env (filter (\<lambda>e. 47 \<notin> set e) (map (\<lambda>(p, _). drop (Suc (length dir)) p)
          (filter (\<lambda>(p, _). take (Suc (length dir)) p = dir @ [47]) (fs_names t)))))
      else None)"

definition tree_files :: "fs_tree \<Rightarrow> file_system" where
  "tree_files t = \<lparr>files = \<lambda>p. map_option (\<lambda>n. fs_inodes t ! n) (file_no t p), cannot_open = \<lambda>p. False\<rparr>"

section \<open>Names\<close>

text \<open>\<open>%02X\<close>, \<open>%08X\<close> and \<open>%016X\<close> of numbers of that width.\<close>

definition hex_fixed :: "nat \<Rightarrow> nat \<Rightarrow> bytes" where
  "hex_fixed w n = map (\<lambda>i. upper_digit (n div 16 ^ i mod 16)) (rev [0..<w])"

definition calchash :: "bytes \<Rightarrow> 32 word" where
  "calchash s = (let h = foldl (\<lambda>h c. (h * 16777619) XOR ucast c) 2166136261 s in if h \<noteq> 0 then h else 1)"

definition snprintf_path :: "fs_env \<Rightarrow> bytes \<Rightarrow> bytes" where
  "snprintf_path env s = take (path_max env - 1) s"

definition keypath :: "fs_env \<Rightarrow> u64 \<Rightarrow> bytes" where
  "keypath env i =
     (let keyid = push_bit 32 i
      in snprintf_path env (fs_location env @ ascii ''/key/'' @ hex_fixed 2 (unat (drop_bit 56 keyid AND 0xFF)) @ [47] @
           hex_fixed 2 (unat (drop_bit 48 keyid AND 0xFF)) @ [47] @ hex_fixed 8 (unat (drop_bit 32 keyid)) @ [47] @ hex_fixed 16 (unat i)))"

definition keydir :: "fs_env \<Rightarrow> u64 \<Rightarrow> bytes" where
  "keydir env i =
     (let keyid = push_bit 32 i
      in snprintf_path env (fs_location env @ ascii ''/key/'' @ hex_fixed 2 (unat (drop_bit 56 keyid AND 0xFF)) @ [47] @
           hex_fixed 2 (unat (drop_bit 48 keyid AND 0xFF)) @ [47] @ hex_fixed 8 (unat (drop_bit 32 keyid))))"

definition prove_path_to :: "fs_env \<Rightarrow> u64 \<Rightarrow> string \<Rightarrow> fs_tree \<Rightarrow> fs_tree" where
  "prove_path_to env keyid what t =
     (let base = fs_location env @ [47] @ ascii what;
          a = [47] @ hex_fixed 2 (unat (drop_bit 24 keyid AND 0xFF));
          b = [47] @ hex_fixed 2 (unat (drop_bit 16 keyid AND 0xFF));
          c = [47] @ hex_fixed 8 (unat (keyid AND 0xFFFFFFFF));
          t = mkdir env (snprintf_path env base) t;
          t = mkdir env (snprintf_path env (base @ a)) t;
          t = mkdir env (snprintf_path env (base @ a @ b)) t
      in mkdir env (snprintf_path env (base @ a @ b @ c)) t)"

definition wordpath :: "fs_env \<Rightarrow> bytes \<Rightarrow> 32 word \<Rightarrow> u64 \<Rightarrow> bytes" where
  "wordpath env word hash keyid =
     snprintf_path env (fs_location env @ ascii ''/words/'' @ hex_fixed 2 (unat (drop_bit 24 hash AND 0xFF)) @ [47] @
       hex_fixed 2 (unat (drop_bit 16 hash AND 0xFF)) @ [47] @ hex_fixed 8 (unat hash) @ [47] @ word @ [47] @ hex_fixed 16 (unat keyid))"

definition worddir :: "fs_env \<Rightarrow> bytes \<Rightarrow> 32 word \<Rightarrow> bytes" where
  "worddir env word hash =
     snprintf_path env (fs_location env @ ascii ''/words/'' @ hex_fixed 2 (unat (drop_bit 24 hash AND 0xFF)) @ [47] @
       hex_fixed 2 (unat (drop_bit 16 hash AND 0xFF)) @ [47] @ hex_fixed 8 (unat hash) @ [47] @ word)"

definition subkeypath :: "fs_env \<Rightarrow> u64 \<Rightarrow> bytes" where
  "subkeypath env subkey =
     snprintf_path env (fs_location env @ ascii ''/subkeys/'' @ hex_fixed 2 (unat (drop_bit 24 subkey AND 0xFF)) @ [47] @
       hex_fixed 2 (unat (drop_bit 16 subkey AND 0xFF)) @ [47] @ hex_fixed 8 (unat (subkey AND 0xFFFFFFFF)) @ [47] @
       hex_fixed 16 (unat subkey))"

definition subkeydir :: "fs_env \<Rightarrow> u64 \<Rightarrow> bytes" where
  "subkeydir env subkey =
     snprintf_path env (fs_location env @ ascii ''/subkeys/'' @ hex_fixed 2 (unat (drop_bit 24 subkey AND 0xFF)) @ [47] @
       hex_fixed 2 (unat (drop_bit 16 subkey AND 0xFF)) @ [47] @ hex_fixed 8 (unat (subkey AND 0xFFFFFFFF)))"

text \<open>A hash is a list of 16 octets.\<close>

definition hex_bytes :: "bytes \<Rightarrow> bytes" where
  "hex_bytes bs = concat (map (\<lambda>b. hex_fixed 2 (unat b)) bs)"

definition skshashpath :: "fs_env \<Rightarrow> bytes \<Rightarrow> bytes" where
  "skshashpath env hash =
     snprintf_path env (fs_location env @ ascii ''/skshash/'' @ hex_bytes (take 1 hash) @ [47] @ hex_bytes (take 1 (drop 1 hash)) @ [47] @
       hex_bytes (take 4 hash) @ [47] @ hex_bytes (take 12 (drop 4 hash)))"

text \<open>\<open>strtoull(s, NULL, 16)\<close>.\<close>

definition isxdigit :: "u8 \<Rightarrow> bool" where
  "isxdigit c \<longleftrightarrow> hex2bin c \<noteq> 255"

definition strtoull16 :: "bytes \<Rightarrow> u64" where
  "strtoull16 s =
     (let t = dropWhile isspace s;
          sign = take 1 t;
          t = (if sign = [43] \<or> sign = [45] then tl t else t);
          t = (if 3 \<le> length t \<and> t ! 0 = 48 \<and> (t ! 1 = 120 \<or> t ! 1 = 88) \<and> isxdigit (t ! 2) then drop 2 t else t);
          v = foldl (\<lambda>v c. 16 * v + unat (hex2bin c)) 0 (takeWhile isxdigit t)
      in if v \<ge> 2 ^ 64 then - 1 else if sign = [45] then - word_of_nat v else word_of_nat v)"

section \<open>Operations\<close>

fun lock_loop :: "nat \<Rightarrow> bool list \<Rightarrow> bool \<times> bool list" where
  "lock_loop remaining [] = (True, [])"
| "lock_loop remaining (ok # locks) =
     (if ok then (True, locks) else if remaining = 0 then (False, locks) else lock_loop (remaining - 1) locks)"

definition fs_starttrans :: "fs_tree \<Rightarrow> bool \<times> fs_tree" where
  "fs_starttrans t = (let (ok, locks) = lock_loop 20 (fs_locks t) in (ok, t\<lparr>fs_locks := locks\<rparr>))"

definition fs_endtrans :: "fs_tree \<Rightarrow> fs_tree" where
  "fs_endtrans t = t"

text \<open>The first name that does not start with a dot, as a number; 0 if there is none.\<close>

definition first_keyid :: "bytes list option \<Rightarrow> u64" where
  "first_keyid names =
     (case names of
        None \<Rightarrow> 0
      | Some es \<Rightarrow> (case dropWhile (\<lambda>e. take 1 e = [46]) es of [] \<Rightarrow> 0 | e # _ \<Rightarrow> strtoull16 e))"

definition fs_getfullkeyid :: "fs_env \<Rightarrow> fs_tree \<Rightarrow> u64 \<Rightarrow> u64" where
  "fs_getfullkeyid env t keyid =
     (let ret = first_keyid (readdir env (keydir env keyid) t)
      in if ret = 0 then first_keyid (readdir env (subkeydir env keyid) t) else ret)"

definition fs_fetch_key_id :: "fs_env \<Rightarrow> (nat \<Rightarrow> bool) \<Rightarrow> fs_tree \<Rightarrow> u64 \<Rightarrow> publickeys \<Rightarrow> bool \<Rightarrow> (int \<times> publickeys) option" where
  "fs_fetch_key_id env mal t keyid keys intrans =
     (let keyid = (if drop_bit 32 keyid = 0 then fs_getfullkeyid env t keyid else keyid)
      in do { (res, packets) \<leftarrow> onak_read_openpgp_file mal (tree_files t) (keypath env keyid) [];
              (res, packets) \<leftarrow>
                (if res = ONAK_E_NOT_FOUND then onak_read_openpgp_file mal (tree_files t) (subkeypath env keyid) packets
                 else Some (res, packets));
              if res = ONAK_E_OK then do { (_, keys) \<leftarrow> parse_keys packets keys; Some (1, keys) } else Some (0, keys) })"

text \<open>The names that lead to a stored key.\<close>

definition link_word :: "fs_env \<Rightarrow> bytes \<Rightarrow> u64 \<Rightarrow> bytes \<Rightarrow> fs_tree \<Rightarrow> fs_tree" where
  "link_word env buffer keyid w t =
     (let hash = calchash w;
          t = prove_path_to env (ucast hash) ''words'' t;
          t = mkdir env (worddir env w hash) t
      in link env buffer (wordpath env w hash keyid) t)"

definition link_subkey :: "fs_env \<Rightarrow> bytes \<Rightarrow> u64 \<Rightarrow> fs_tree \<Rightarrow> fs_tree" where
  "link_subkey env buffer keyid t =
     (let t = prove_path_to env keyid ''subkeys'' t;
          t = mkdir env (subkeydir env keyid) t
      in link env buffer (subkeypath env keyid) t)"

definition link_skshash :: "fs_env \<Rightarrow> bytes \<Rightarrow> bytes \<Rightarrow> fs_tree \<Rightarrow> fs_tree" where
  "link_skshash env buffer hash t = link env buffer (skshashpath env hash) (prove_path_to env (be_word (take 4 hash)) ''skshash'' t)"

text \<open>The loop over the subkeys ends at a fingerprint of length 0.\<close>

definition subkey_ids :: "hash_funs \<Rightarrow> openpgp_publickey \<Rightarrow> u64 list option" where
  "subkey_ids H key =
     do { fs \<leftarrow> keysubkeys H key;
          those (map fingerprint2keyid (case fs of None \<Rightarrow> [] | Some fs \<Rightarrow> takeWhile (\<lambda>f. fp_length f \<noteq> 0) fs)) }"

definition fs_store_key :: "fs_env \<Rightarrow> hash_funs \<Rightarrow> fs_tree \<Rightarrow> publickeys \<Rightarrow> bool \<Rightarrow> bool \<Rightarrow> (int \<times> fs_tree) option" where
  "fs_store_key env H t keys intrans update =
     (case keys of
        [] \<Rightarrow> None
      | key # _ \<Rightarrow>
          do { (rc, keyid) \<leftarrow> get_keyid H key;
               if rc \<noteq> ONAK_E_OK then Some (0, t)
               else do { keyid \<leftarrow> keyid;
                 let t = (if intrans then t else snd (fs_starttrans t));
                 let t = prove_path_to env keyid ''key'' t;
                 let buffer = keypath env keyid;
                 case (if update then open_trunc buffer t else open_creat env buffer t) of
                   None \<Rightarrow> Some (0, t)
                 | Some (n, t) \<Rightarrow>
                     do { (_, fd) \<leftarrow> write_openpgp_stream file_putchar (open_file (fs_inodes t ! n)) (flatten_publickey [key] []);
                          let t = t\<lparr>fs_inodes := (fs_inodes t)[n := fd_contents fd]\<rparr>;
                          let t = fold (link_word env buffer keyid) (makewordlistfromkey [] key) t;
                          ids \<leftarrow> subkey_ids H key;
                          let t = fold (link_subkey env buffer) ids t;
                          Some (1, link_skshash env buffer (get_skshash H key) t) } } })"

definition unlink_word :: "fs_env \<Rightarrow> u64 \<Rightarrow> bytes \<Rightarrow> fs_tree \<Rightarrow> fs_tree" where
  "unlink_word env keyid w t = (let hash = calchash w in unlink (wordpath env w hash keyid) (prove_path_to env (ucast hash) ''words'' t))"

definition unlink_subkey :: "fs_env \<Rightarrow> u64 \<Rightarrow> fs_tree \<Rightarrow> fs_tree" where
  "unlink_subkey env subkeyid t = unlink (subkeypath env subkeyid) (prove_path_to env subkeyid ''subkeys'' t)"

text \<open>\<open>get_skshash\<close> reads the key, so there must be one.\<close>

definition fs_delete_key :: "fs_env \<Rightarrow> hash_funs \<Rightarrow> (nat \<Rightarrow> bool) \<Rightarrow> fs_tree \<Rightarrow> openpgp_fingerprint \<Rightarrow> bool \<Rightarrow> (int \<times> fs_tree) option" where
  "fs_delete_key env H mal t f intrans =
     do { keyid \<leftarrow> fingerprint2keyid f;
          if keyid = 0 then Some (1, t)
          else do {
            let t = (if intrans then t else snd (fs_starttrans t));
            (ret, pk) \<leftarrow> fs_fetch_key_id env mal t keyid [] True;
            t \<leftarrow> (if ret \<noteq> 0 then
                   (case pk of
                      [] \<Rightarrow> None
                    | key # _ \<Rightarrow>
                        do { let t = fold (unlink_word env keyid) (makewordlistfromkey [] key) t;
                             ids \<leftarrow> subkey_ids H key;
                             let t = fold (unlink_subkey env) ids t;
                             Some (unlink (skshashpath env (get_skshash H key)) t) })
                 else Some t);
            Some (1, unlink (keypath env keyid) t) } }"

text \<open>The list \<open>mct\<close> is empty for a null pointer.\<close>

definition internal_get_key_by_word :: "fs_env \<Rightarrow> fs_tree \<Rightarrow> bytes \<Rightarrow> bytes list \<Rightarrow> bytes list" where
  "internal_get_key_by_word env t word mct =
     (case readdir env (worddir env word (calchash word)) t of
        None \<Rightarrow> []
      | Some es \<Rightarrow>
          foldl (\<lambda>keys e. if take 1 e \<noteq> [46] \<and> (mct = [] \<or> llfind mct e strcmp \<noteq> None) then lladd keys e else keys) [] es)"

fun narrow_words :: "fs_env \<Rightarrow> fs_tree \<Rightarrow> bytes list \<Rightarrow> bytes list \<Rightarrow> bytes list" where
  "narrow_words env t keylist [] = keylist"
| "narrow_words env t keylist (w # ws) =
     (let nkl = internal_get_key_by_word env t w keylist in if nkl = [] then [] else narrow_words env t nkl ws)"

fun fetch_named :: "fs_env \<Rightarrow> (nat \<Rightarrow> bool) \<Rightarrow> fs_tree \<Rightarrow> bytes list \<Rightarrow> int \<Rightarrow> publickeys \<Rightarrow> (int \<times> publickeys) option" where
  "fetch_named env mal t [] addedkeys keys = Some (addedkeys, keys)"
| "fetch_named env mal t (e # es) addedkeys keys =
     do { (n, keys) \<leftarrow> fs_fetch_key_id env mal t (strtoull16 e) keys False;
          if addedkeys + n \<ge> fs_maxkeys env then Some (addedkeys + n, keys) else fetch_named env mal t es (addedkeys + n) keys }"

text \<open>The first word is taken from the list without a check that there is one.\<close>

definition fs_fetch_key_text :: "fs_env \<Rightarrow> (nat \<Rightarrow> bool) \<Rightarrow> fs_tree \<Rightarrow> bytes \<Rightarrow> publickeys \<Rightarrow> (int \<times> publickeys) option" where
  "fs_fetch_key_text env mal t search keys =
     (case makewordlist [] search of
        [] \<Rightarrow> None
      | w # ws \<Rightarrow>
          let keylist = internal_get_key_by_word env t w []
          in if keylist = [] then Some (0, keys)
             else fetch_named env mal t (narrow_words env t keylist ws) 0 keys)"

definition fs_fetch_key_skshash :: "fs_env \<Rightarrow> (nat \<Rightarrow> bool) \<Rightarrow> fs_tree \<Rightarrow> bytes \<Rightarrow> publickeys \<Rightarrow> (int \<times> publickeys) option" where
  "fs_fetch_key_skshash env mal t hash keys =
     do { (res, packets) \<leftarrow> onak_read_openpgp_file mal (tree_files t) (skshashpath env hash) [];
          if res = ONAK_E_OK then do { (_, keys) \<leftarrow> parse_keys packets keys; Some (1, keys) } else Some (0, keys) }"

definition fs_iterate_keys :: "fs_tree \<Rightarrow> ('c \<Rightarrow> publickeys \<Rightarrow> 'c) \<Rightarrow> 'c \<Rightarrow> int \<times> 'c" where
  "fs_iterate_keys t iterfunc ctx = (0, ctx)"

text \<open>
  Opening the data base: the tree with the lock file, \<open>Inl True\<close> if the program exits, \<open>Inl False\<close> for a null pointer. \<open>accessible\<close> is
  the result of \<open>access\<close> on a directory that exists.
\<close>

definition keydb_fs_init :: "fs_env \<Rightarrow> bool \<Rightarrow> fs_tree \<Rightarrow> bool + fs_tree" where
  "keydb_fs_init env accessible t =
     (let dir = fs_location env; lock = snprintf_path env (dir @ ascii ''/.lock'') in
      if dir \<in> set (fs_dirs t) \<and> \<not> accessible then Inl True
      else
        let t = (if dir \<in> set (fs_dirs t) then t
                 else let t = mkdir env dir t in case open_creat env lock t of None \<Rightarrow> t | Some (_, t) \<Rightarrow> t)
        in if dir \<notin> set (fs_dirs t) then Inl False
           else (case open_creat env lock t of None \<Rightarrow> Inl True | Some (_, t) \<Rightarrow> Inr t))"

definition fs_ops :: "fs_env \<Rightarrow> hash_funs \<Rightarrow> (nat \<Rightarrow> bool) \<Rightarrow> fs_tree keydb_ops" where
  "fs_ops env H mal =
     \<lparr>db_starttrans = fs_starttrans, db_endtrans = fs_endtrans,
      db_fetch_key_id = fs_fetch_key_id env mal, db_fetch_key_fp = generic_fetch_key_fp (fs_fetch_key_id env mal),
      db_store_key = fs_store_key env H\<rparr>"

section \<open>Numbers in names\<close>

lemma hex_fixed_simps [simp]: "hex_fixed 0 n = []" "hex_fixed (Suc w) n = upper_digit (n div 16 ^ w mod 16) # hex_fixed w n"
  by (simp_all add: hex_fixed_def)

lemma hex_fixed_length [simp]: "length (hex_fixed w n) = w"
  by (simp add: hex_fixed_def)

lemma upper_digit_cases:
  assumes "d < 16"
  shows "hex2bin (upper_digit d) = word_of_nat d" and "upper_digit d \<notin> {43, 45, 46, 47, 88, 120}" and "\<not> isspace (upper_digit d)"
proof -
  have "list_all (\<lambda>d. hex2bin (upper_digit d) = word_of_nat d \<and> upper_digit d \<notin> {43, 45, 46, 47, 88, 120} \<and> \<not> isspace (upper_digit d)) [0..<16]"
    by code_simp
  then have "\<forall>d \<in> {0..<16}. hex2bin (upper_digit d) = word_of_nat d \<and> upper_digit d \<notin> {43, 45, 46, 47, 88, 120} \<and> \<not> isspace (upper_digit d)"
    by (simp only: list_all_iff set_upt)
  with assms show "hex2bin (upper_digit d) = word_of_nat d" and "upper_digit d \<notin> {43, 45, 46, 47, 88, 120}" and "\<not> isspace (upper_digit d)"
    by simp_all
qed

lemma hex_fixed_chars: "c \<in> set (hex_fixed w n) \<Longrightarrow> \<exists>d < 16. c = upper_digit d"
proof -
  assume "c \<in> set (hex_fixed w n)"
  then obtain i where "c = upper_digit (n div 16 ^ i mod 16)" by (auto simp: hex_fixed_def)
  then show ?thesis by (intro exI [of _ "n div 16 ^ i mod 16"]) simp
qed

lemma hex_fixed_no_slash [simp]: "47 \<notin> set (hex_fixed w n)"
  using hex_fixed_chars [of 47 w n] upper_digit_cases(2) by force

lemma hex_value: "foldl (\<lambda>v c. 16 * v + unat (hex2bin c)) a (hex_fixed w n) = a * 16 ^ w + n mod 16 ^ w"
proof (induction w arbitrary: a)
  case (Suc w)
  define d where "d = n div 16 ^ w mod 16"
  have "unat (hex2bin (upper_digit d)) = d" by (simp add: d_def upper_digit_cases(1) unat_of_nat)
  then have "foldl (\<lambda>v c. 16 * v + unat (hex2bin c)) a (hex_fixed (Suc w) n) = (16 * a + d) * 16 ^ w + n mod 16 ^ w"
    by (simp add: Suc flip: d_def)
  also have "n mod 16 ^ w + d * 16 ^ w = n mod 16 ^ Suc w"
    using mod_mult2_eq [of n "16 ^ w" 16] by (simp add: d_def mult.commute)
  then have "(16 * a + d) * 16 ^ w + n mod 16 ^ w = a * 16 ^ Suc w + n mod 16 ^ Suc w"
    by (simp only: distrib_right power_Suc)
  finally show ?case .
qed simp

lemma hex_fixed_inj: "hex_fixed w m = hex_fixed w n \<Longrightarrow> m < 16 ^ w \<Longrightarrow> n < 16 ^ w \<Longrightarrow> m = n"
proof -
  assume eq: "hex_fixed w m = hex_fixed w n" and less: "m < 16 ^ w" "n < 16 ^ w"
  have "0 * 16 ^ w + m mod 16 ^ w = 0 * 16 ^ w + n mod 16 ^ w" by (subst (1 2) hex_value [symmetric], subst eq, rule refl)
  then show "m = n" by (simp only: mult_0 add_0 mod_less [OF less(1)] mod_less [OF less(2)])
qed

lemma hex_name: "\<exists>a b r. hex_fixed 16 n = upper_digit a # upper_digit b # r \<and> a < 16 \<and> b < 16"
  by (metis hex_fixed_simps(2) mod_less_divisor numeral_eq_Suc pred_numeral_simps(3) pred_numeral_simps(2) zero_less_numeral)

lemma strtoull16_name: "strtoull16 (hex_fixed 16 (unat i)) = i"
proof -
  let ?s = "hex_fixed 16 (unat i)"
  obtain a b r where s: "?s = upper_digit a # upper_digit b # r" "a < 16" "b < 16"
    using hex_name by blast
  have x: "takeWhile isxdigit ?s = ?s"
  proof -
    have "isxdigit (upper_digit d)" if "d < 16" for d
    proof -
      have "unat (word_of_nat d :: u8) \<noteq> 255" using that by (simp add: unat_of_nat)
      then have "(word_of_nat d :: u8) \<noteq> 255" by force
      then show ?thesis using upper_digit_cases(1) [OF that] by (simp add: isxdigit_def)
    qed
    then show ?thesis using hex_fixed_chars [of _ 16 "unat i"] by (metis takeWhile_eq_all_conv)
  qed
  have "dropWhile isspace ?s = ?s" "take 1 ?s \<noteq> [43]" "take 1 ?s \<noteq> [45]" "?s ! 1 \<noteq> 120" "?s ! 1 \<noteq> 88"
    using s upper_digit_cases(2,3) [OF s(2)] upper_digit_cases(2) [OF s(3)] by auto
  moreover have "unat i < 2 ^ 64" using unsigned_less [of i] by simp
  ultimately show ?thesis using hex_value [of 0 16 "unat i"]
    by (simp only: strtoull16_def Let_def if_False x simp_thms) (simp add: x)
qed

section \<open>Paths\<close>

text \<open>The three directories that spread the keys, the words and the hashes.\<close>

definition shard :: "u64 \<Rightarrow> bytes" where
  "shard x = hex_fixed 2 (unat (drop_bit 24 x AND 0xFF)) @ [47] @ hex_fixed 2 (unat (drop_bit 16 x AND 0xFF)) @ [47] @
     hex_fixed 8 (unat (x AND 0xFFFFFFFF))"

lemma nat_masks: "n AND 0xFF = n mod 256" "n AND 0xFFFFFFFF = n mod 2 ^ 32" for n :: nat
proof -
  have "(0xFF :: nat) = mask 8" "(0xFFFFFFFF :: nat) = mask 32" by (simp_all add: mask_eq_exp_minus_1)
  then show "n AND 0xFF = n mod 256" "n AND 0xFFFFFFFF = n mod 2 ^ 32"
    by (simp_all only: take_bit_eq_mask [symmetric] take_bit_eq_mod) simp
qed

lemma unat_masks:
  "unat (drop_bit n x AND 0xFF) = unat x div 2 ^ n mod 256" "unat (drop_bit n y AND 0xFF) = unat y div 2 ^ n mod 256"
  "unat (y AND 0xFFFFFFFF) = unat y mod 2 ^ 32"
  for x :: "32 word" and y :: u64
proof -
  have "take_bit 32 (unat x) = unat x" "take_bit 64 (unat y) = unat y"
    using unsigned_less [of x, where 'a = nat] unsigned_less [of y, where 'a = nat] by (simp_all add: take_bit_nat_eq_self)
  then show "unat (drop_bit n x AND 0xFF) = unat x div 2 ^ n mod 256" "unat (drop_bit n y AND 0xFF) = unat y div 2 ^ n mod 256"
      "unat (y AND 0xFFFFFFFF) = unat y mod 2 ^ 32"
    by (simp_all add: unsigned_and_eq unsigned_drop_bit_eq nat_masks flip: drop_bit_eq_div)
qed

lemma shard_word:
  "hex_fixed 2 (unat (drop_bit 24 h AND 0xFF)) @ [47] @ hex_fixed 2 (unat (drop_bit 16 h AND 0xFF)) @ [47] @ hex_fixed 8 (unat h) = shard (ucast h)"
  for h :: "32 word"
proof -
  have "unat h < 2 ^ 32" using unsigned_less [of h] by simp
  then have "unat (ucast h :: u64) = unat h" "unat h mod 2 ^ 32 = unat h" by (simp_all add: unsigned_ucast_eq take_bit_nat_eq_self)
  then show ?thesis by (simp only: shard_def unat_masks)
qed

lemma shard_key:
  "hex_fixed 2 (unat (drop_bit 56 (push_bit 32 i) AND 0xFF)) @ [47] @ hex_fixed 2 (unat (drop_bit 48 (push_bit 32 i) AND 0xFF)) @ [47] @
     hex_fixed 8 (unat (drop_bit 32 (push_bit 32 i))) = shard i"
  for i :: u64
proof -
  have m: "(0xFF :: u64) = mask 8" "(0xFFFFFFFF :: u64) = mask 32" by (simp_all add: mask_eq_exp_minus_1)
  have "drop_bit 56 (push_bit 32 i) AND 0xFF = drop_bit 24 i AND 0xFF" "drop_bit 48 (push_bit 32 i) AND 0xFF = drop_bit 16 i AND 0xFF"
    "drop_bit 32 (push_bit 32 i) = i AND 0xFFFFFFFF"
    unfolding m by (rule bit_eqI; auto simp: bit_simps)+
  then show ?thesis by (simp only: shard_def)
qed

lemma hex_fixed_split: "hex_fixed (v + w) n = hex_fixed v (n div 16 ^ w) @ hex_fixed w n"
proof (induction v)
  case (Suc v)
  have "n div 16 ^ (v + w) = n div 16 ^ w div 16 ^ v" by (simp only: add.commute [of v w] power_add div_mult2_eq)
  then show ?case using Suc by simp
qed simp

lemma hex_fixed_octet: "hex_fixed 2 (256 * x + y) = hex_fixed 2 y"
proof -
  have e: "256 * x + y = y + 16 * (16 * x)" by simp
  have "(256 * x + y) mod 16 = y mod 16" unfolding e by (rule mod_mult_self2)
  moreover have "(256 * x + y) div 16 = y div 16 + 16 * x" unfolding e by (subst div_mult_self2) simp_all
  then have "(256 * x + y) div 16 mod 16 = y div 16 mod 16" by (simp only: mod_mult_self2)
  ultimately show ?thesis by (simp add: numeral_2_eq_2)
qed

lemma hex_bytes_4:
  assumes "length h = 16"
  shows "hex_bytes (take 1 h) @ [47] @ hex_bytes (take 1 (drop 1 h)) @ [47] @ hex_bytes (take 4 h) = shard (be_word (take 4 h))"
proof -
  obtain a b c d r where h: "h = a # b # c # d # r" using assms
    by (cases h; cases "tl h"; cases "tl (tl h)"; cases "tl (tl (tl h))") auto
  define N where "N = ((unat a * 256 + unat b) * 256 + unat c) * 256 + unat d"
  have less: "unat a < 256" "unat b < 256" "unat c < 256" "unat d < 256"
    using unsigned_less [of a] unsigned_less [of b] unsigned_less [of c] unsigned_less [of d] by simp_all
  have "be_nat (take 4 h) = N" "N < 2 ^ 64" "N < 2 ^ 32" using less by (simp_all add: h be_nat_def N_def)
  then have N: "unat (be_word (take 4 h)) = N" "N mod 2 ^ 32 = N"
    by (simp_all only: be_word_be_nat unat_of_nat len_of_numeral_defs) simp_all
  have 1: "N div 256 = (unat a * 256 + unat b) * 256 + unat c" using less by (simp add: N_def)
  have 2: "N div 256 div 256 = unat a * 256 + unat b" using less by (simp add: 1)
  have 3: "N div 256 div 256 div 256 = unat a" using less by (simp add: 2)
  have d: "N div 2 ^ 24 = unat a" "N div 2 ^ 16 = unat a * 256 + unat b"
    using 2 3 by (simp_all flip: div_mult2_eq)
  have "hex_fixed 8 N = hex_fixed 2 (N div 256 div 256 div 256) @ hex_fixed 2 (N div 256 div 256) @ hex_fixed 2 (N div 256) @ hex_fixed 2 N"
    using hex_fixed_split [of 6 2 N] hex_fixed_split [of 4 2 "N div 256"] hex_fixed_split [of 2 2 "N div 256 div 256"] by simp
  also have "\<dots> = hex_fixed 2 (unat a) @ hex_fixed 2 (unat b) @ hex_fixed 2 (unat c) @ hex_fixed 2 (unat d)"
    unfolding 3 unfolding 2 unfolding 1 unfolding N_def by (simp only: mult.commute [of _ 256] hex_fixed_octet)
  finally have "hex_fixed 8 N = hex_fixed 2 (unat a) @ hex_fixed 2 (unat b) @ hex_fixed 2 (unat c) @ hex_fixed 2 (unat d)" .
  moreover have "unat a mod 256 = unat a" "(unat a * 256 + unat b) mod 256 = unat b" using less by simp_all
  ultimately show ?thesis by (simp only: shard_def unat_masks N d) (simp add: h hex_bytes_def)
qed

section \<open>Well-formed trees\<close>

text \<open>
  The paths of files have one more slash than those of directories can have, if the words have none and the directory of the words is not
  counted.
\<close>

definition rank :: "fs_env \<Rightarrow> bytes \<Rightarrow> nat" where
  "rank env p = count_list p 47 - count_list (fs_location env) 47 -
     (if take (length (fs_location env) + 6) p = fs_location env @ ascii ''/words'' then 1 else 0)"

definition lock_path :: "fs_env \<Rightarrow> bytes" where
  "lock_path env = fs_location env @ ascii ''/.lock''"

definition env_ok :: "fs_env \<Rightarrow> bool" where
  "env_ok env \<longleftrightarrow> length (fs_location env) + 257 \<le> path_max env \<and>
     (\<forall>p. length p \<le> length (fs_location env) + 256 \<longrightarrow> fs_accepts env p) \<and> (\<forall>es. set (fs_order env es) = set es)"

definition tree_ok :: "fs_env \<Rightarrow> hash_funs \<Rightarrow> (nat \<Rightarrow> bool) \<Rightarrow> fs_tree \<Rightarrow> bool" where
  "tree_ok env H mal t \<longleftrightarrow> fs_location env \<in> set (fs_dirs t) \<and> (\<forall>p \<in> set (fs_dirs t). rank env p \<le> 4) \<and>
     (\<forall>(p, n) \<in> set (fs_names t). dirname p \<in> set (fs_dirs t)) \<and>
     (\<forall>(p, n) \<in> set (fs_names t). p = lock_path env \<or>
        rank env p = 5 \<and> n < length (fs_inodes t) \<and> (\<exists>k. key_storable H mal k \<and> fs_inodes t ! n = key_file k))"

lemma hex_fixed_slashes [simp]: "count_list (hex_fixed w n) 47 = 0"
  by (simp add: count_list_0_iff)

lemma shard_props [simp]: "length (shard x) = 14" "count_list (shard x) 47 = 2"
  by (simp_all add: shard_def)

lemma path_forms:
  assumes "env_ok env"
  shows "keypath env i = fs_location env @ ascii ''/key/'' @ shard i @ [47] @ hex_fixed 16 (unat i)"
    and "keydir env i = fs_location env @ ascii ''/key/'' @ shard i"
    and "subkeypath env i = fs_location env @ ascii ''/subkeys/'' @ shard i @ [47] @ hex_fixed 16 (unat i)"
    and "subkeydir env i = fs_location env @ ascii ''/subkeys/'' @ shard i"
    and "length w \<le> 217 \<Longrightarrow> wordpath env w h i = fs_location env @ ascii ''/words/'' @ shard (ucast h) @ [47] @ w @ [47] @ hex_fixed 16 (unat i)"
    and "length w \<le> 217 \<Longrightarrow> worddir env w h = fs_location env @ ascii ''/words/'' @ shard (ucast h) @ [47] @ w"
    and "length hash = 16 \<Longrightarrow>
      skshashpath env hash = fs_location env @ ascii ''/skshash/'' @ shard (be_word (take 4 hash)) @ [47] @ hex_bytes (take 12 (drop 4 hash))"
proof -
  have fits: "snprintf_path env (fs_location env @ s) = fs_location env @ s" if "length s \<le> 256" for s
    using assms that unfolding snprintf_path_def env_ok_def by (intro take_all) (simp only: length_append, linarith)
  show "keypath env i = fs_location env @ ascii ''/key/'' @ shard i @ [47] @ hex_fixed 16 (unat i)"
    unfolding keypath_def Let_def using shard_key [of i] by (subst fits) (simp_all add: ascii_def)
  show "keydir env i = fs_location env @ ascii ''/key/'' @ shard i"
    unfolding keydir_def Let_def using shard_key [of i] by (subst fits) (simp_all add: ascii_def)
  show "subkeypath env i = fs_location env @ ascii ''/subkeys/'' @ shard i @ [47] @ hex_fixed 16 (unat i)"
    unfolding subkeypath_def by (subst fits) (simp_all add: ascii_def shard_def)
  show "subkeydir env i = fs_location env @ ascii ''/subkeys/'' @ shard i"
    unfolding subkeydir_def by (subst fits) (simp_all add: ascii_def shard_def)
  show "wordpath env w h i = fs_location env @ ascii ''/words/'' @ shard (ucast h) @ [47] @ w @ [47] @ hex_fixed 16 (unat i)" if "length w \<le> 217"
    unfolding wordpath_def using shard_word [of h] that by (subst fits) (simp_all add: ascii_def)
  show "worddir env w h = fs_location env @ ascii ''/words/'' @ shard (ucast h) @ [47] @ w" if "length w \<le> 217"
    unfolding worddir_def using shard_word [of h] that by (subst fits) (simp_all add: ascii_def)
  have hb: "length (hex_bytes bs) = 2 * length bs" for bs by (induction bs) (simp_all add: hex_bytes_def)
  show "skshashpath env hash = fs_location env @ ascii ''/skshash/'' @ shard (be_word (take 4 hash)) @ [47] @ hex_bytes (take 12 (drop 4 hash))"
    if "length hash = 16"
    unfolding skshashpath_def using hex_bytes_4 [OF that] that by (subst fits) (simp_all add: ascii_def hb)
qed

lemma dirname_append: "47 \<notin> set e \<Longrightarrow> dirname (p @ 47 # e) = p"
proof -
  assume "47 \<notin> set e"
  then have "dropWhile (\<lambda>c. c \<noteq> 47) (rev e @ [47] @ rev p) = 47 # rev p" by (subst dropWhile_append2) auto
  then show ?thesis by (simp add: dirname_def)
qed

text \<open>The same files and at least the same directories.\<close>

definition more_dirs :: "fs_tree \<Rightarrow> fs_tree \<Rightarrow> bool" where
  "more_dirs t t' \<longleftrightarrow> fs_names t' = fs_names t \<and> fs_inodes t' = fs_inodes t \<and> fs_locks t' = fs_locks t \<and> set (fs_dirs t) \<subseteq> set (fs_dirs t')"

lemma more_dirs_refl [simp]: "more_dirs t t"
  by (simp add: more_dirs_def)

lemma more_dirs_trans: "more_dirs t t' \<Longrightarrow> more_dirs t' t'' \<Longrightarrow> more_dirs t t''"
  by (auto simp: more_dirs_def)

lemma no_file_at: "tree_ok env H mal t \<Longrightarrow> rank env p \<noteq> 5 \<Longrightarrow> p \<noteq> lock_path env \<Longrightarrow> file_no t p = None"
  by (auto simp: tree_ok_def map_of_eq_None_iff)

lemma mkdir_ok:
  assumes "env_ok env" and "tree_ok env H mal t" and "q \<in> set (fs_dirs t)" and "47 \<notin> set e"
    and "rank env (q @ 47 # e) \<le> 4" and "q @ 47 # e \<noteq> lock_path env" and "length (q @ 47 # e) \<le> length (fs_location env) + 256"
  shows "q @ 47 # e \<in> set (fs_dirs (mkdir env (q @ 47 # e) t))" and "tree_ok env H mal (mkdir env (q @ 47 # e) t)"
    and "more_dirs t (mkdir env (q @ 47 # e) t)"
proof -
  let ?p = "q @ 47 # e"
  have "file_no t ?p = None" using no_file_at [OF assms(2), of ?p] assms(5,6) by simp
  moreover have "fs_accepts env ?p" using assms(1,7) by (simp add: env_ok_def)
  ultimately have m: "mkdir env ?p t = (if ?p \<in> set (fs_dirs t) then t else t\<lparr>fs_dirs := ?p # fs_dirs t\<rparr>)"
    using assms(3,4) by (simp add: mkdir_def can_make_def dirname_append)
  show "?p \<in> set (fs_dirs (mkdir env ?p t))" "tree_ok env H mal (mkdir env ?p t)" "more_dirs t (mkdir env ?p t)"
    using assms(2,5) by (auto simp: m tree_ok_def more_dirs_def)
qed

lemma prove_path_to_ok:
  assumes "env_ok env" and "tree_ok env H mal t" and "what \<in> {''key'', ''words'', ''subkeys'', ''skshash''}"
  shows "fs_location env @ 47 # ascii what @ 47 # shard x \<in> set (fs_dirs (prove_path_to env x what t))"
    and "tree_ok env H mal (prove_path_to env x what t)" and "more_dirs t (prove_path_to env x what t)"
proof -
  let ?a = "hex_fixed 2 (unat (drop_bit 24 x AND 0xFF))" and ?b = "hex_fixed 2 (unat (drop_bit 16 x AND 0xFF))"
    and ?c = "hex_fixed 8 (unat (x AND 0xFFFFFFFF))"
  let ?p1 = "fs_location env @ 47 # ascii what"
  let ?p2 = "?p1 @ 47 # ?a"
  let ?p3 = "?p2 @ 47 # ?b"
  let ?p4 = "?p3 @ 47 # ?c"
  let ?t1 = "mkdir env ?p1 t" let ?t2 = "mkdir env ?p2 ?t1" let ?t3 = "mkdir env ?p3 ?t2" let ?t4 = "mkdir env ?p4 ?t3"
  have fits: "snprintf_path env (fs_location env @ s) = fs_location env @ s" if "length s \<le> 256" for s
    using assms(1) that unfolding snprintf_path_def env_ok_def by (intro take_all) (simp only: length_append, linarith)
  have len: "length (ascii what) \<le> 7" using assms(3) by (auto simp: ascii_def)
  have eq: "prove_path_to env x what t = ?t4"
    using len by (simp add: prove_path_to_def Let_def fits)
  have shape: "47 \<notin> set (ascii what)" "rank env ?p1 \<le> 4" "rank env ?p2 \<le> 4" "rank env ?p3 \<le> 4" "rank env ?p4 \<le> 4"
    "?p1 \<noteq> lock_path env" "?p2 \<noteq> lock_path env" "?p3 \<noteq> lock_path env" "?p4 \<noteq> lock_path env"
    using assms(3) by (auto simp: ascii_def rank_def lock_path_def)
  have base: "fs_location env \<in> set (fs_dirs t)" using assms(2) by (simp add: tree_ok_def)
  have l: "length ?p1 \<le> length (fs_location env) + 256" "length ?p2 \<le> length (fs_location env) + 256"
    "length ?p3 \<le> length (fs_location env) + 256" "length ?p4 \<le> length (fs_location env) + 256"
    using len by simp_all
  note 1 = mkdir_ok [OF assms(1,2) base shape(1,2,6) l(1)]
  note 2 = mkdir_ok [OF assms(1) 1(2,1) hex_fixed_no_slash shape(3,7) l(2)]
  note 3 = mkdir_ok [OF assms(1) 2(2,1) hex_fixed_no_slash shape(4,8) l(3)]
  note 4 = mkdir_ok [OF assms(1) 3(2,1) hex_fixed_no_slash shape(5,9) l(4)]
  have "more_dirs t ?t4" by (rule more_dirs_trans [OF 1(3) more_dirs_trans [OF 2(3) more_dirs_trans [OF 3(3) 4(3)]]])
  with 4(1,2)
  show "fs_location env @ 47 # ascii what @ 47 # shard x \<in> set (fs_dirs (prove_path_to env x what t))"
    and "tree_ok env H mal (prove_path_to env x what t)" and "more_dirs t (prove_path_to env x what t)"
    unfolding eq by (simp_all add: shard_def)
qed

text \<open>The file \<open>n\<close> gets those of the names \<open>Q\<close> that are free.\<close>

definition adds_names :: "nat \<Rightarrow> bytes set \<Rightarrow> fs_tree \<Rightarrow> fs_tree \<Rightarrow> bool" where
  "adds_names n Q t t' \<longleftrightarrow> fs_inodes t' = fs_inodes t \<and> fs_locks t' = fs_locks t \<and> set (fs_dirs t) \<subseteq> set (fs_dirs t') \<and>
     (\<forall>p. file_no t' p = (if p \<in> Q \<and> file_no t p = None then Some n else file_no t p))"

lemma adds_names_trans: "adds_names n Q t t' \<Longrightarrow> adds_names n R t' t'' \<Longrightarrow> adds_names n (Q \<union> R) t t''"
  by (auto simp: adds_names_def)

lemma more_dirs_adds: "more_dirs t t' \<Longrightarrow> adds_names n {} t t'"
  by (simp add: adds_names_def more_dirs_def)

lemma adds_names_keeps: "adds_names n Q t t' \<Longrightarrow> file_no t p = Some m \<Longrightarrow> file_no t' p = Some m"
  by (simp add: adds_names_def)

lemma tree_ok_file:
  "tree_ok env H mal t \<Longrightarrow> file_no t p = Some n \<Longrightarrow> p \<noteq> lock_path env \<Longrightarrow>
   n < length (fs_inodes t) \<and> (\<exists>k. key_storable H mal k \<and> fs_inodes t ! n = key_file k)"
  by (auto simp: tree_ok_def dest!: map_of_SomeD)

lemma link_ok:
  assumes "env_ok env" and "tree_ok env H mal t" and "file_no t buffer = Some n" and "buffer \<noteq> lock_path env"
    and "q \<in> set (fs_dirs t)" and "47 \<notin> set e" and "rank env (q @ 47 # e) = 5" and "length (q @ 47 # e) \<le> length (fs_location env) + 256"
  shows "tree_ok env H mal (link env buffer (q @ 47 # e) t)" and "adds_names n {q @ 47 # e} t (link env buffer (q @ 47 # e) t)"
proof -
  let ?p = "q @ 47 # e"
  have "?p \<notin> set (fs_dirs t)" using assms(2,7) by (auto simp: tree_ok_def)
  moreover have "fs_accepts env ?p" using assms(1,8) by (simp add: env_ok_def)
  ultimately have l: "link env buffer ?p t = (if file_no t ?p = None then t\<lparr>fs_names := (?p, n) # fs_names t\<rparr> else t)"
    using assms(3,5,6) by (simp add: link_def can_make_def dirname_append)
  show "tree_ok env H mal (link env buffer ?p t)" "adds_names n {?p} t (link env buffer ?p t)"
    using assms(2,5,7) tree_ok_file [OF assms(2-4)] dirname_append [OF assms(6), of q] by (auto simp: l tree_ok_def adds_names_def)
qed

lemma keypath_not_lock: "env_ok env \<Longrightarrow> keypath env i \<noteq> lock_path env"
  by (simp add: path_forms lock_path_def ascii_def)

lemma link_word_ok:
  assumes "env_ok env" and "tree_ok env H mal t" and "file_no t (keypath env i) = Some n" and "length w \<le> 217" and "47 \<notin> set w"
  shows "tree_ok env H mal (link_word env (keypath env i) i w t)"
    and "adds_names n {wordpath env w (calchash w) i} t (link_word env (keypath env i) i w t)"
proof -
  let ?h = "calchash w"
  let ?q = "fs_location env @ 47 # ascii ''words'' @ 47 # shard (ucast ?h)"
  let ?t1 = "prove_path_to env (ucast ?h) ''words'' t"
  let ?t2 = "mkdir env (?q @ 47 # w) ?t1"
  note 1 = prove_path_to_ok [OF assms(1,2), of "''words''" "ucast ?h", simplified]
  have d: "worddir env w ?h = ?q @ 47 # w" "wordpath env w ?h i = (?q @ 47 # w) @ 47 # hex_fixed 16 (unat i)"
    using path_forms(5,6) [OF assms(1,4)] by (simp_all add: ascii_def)
  have "rank env (?q @ 47 # w) \<le> 4" "?q @ 47 # w \<noteq> lock_path env" "length (?q @ 47 # w) \<le> length (fs_location env) + 256"
    using assms(4,5) by (simp_all add: rank_def ascii_def lock_path_def count_list_0_iff)
  note 2 = mkdir_ok [OF assms(1) 1(2,1) assms(5) this]
  have n: "file_no ?t2 (keypath env i) = Some n" using assms(3) 1(3) 2(3) by (simp add: more_dirs_def)
  have "rank env ((?q @ 47 # w) @ 47 # hex_fixed 16 (unat i)) = 5" "length ((?q @ 47 # w) @ 47 # hex_fixed 16 (unat i)) \<le> length (fs_location env) + 256"
    using assms(4,5) by (simp_all add: rank_def ascii_def count_list_0_iff)
  note 3 = link_ok [OF assms(1) 2(2) n keypath_not_lock [OF assms(1)] 2(1) hex_fixed_no_slash this]
  have e: "link_word env (keypath env i) i w t = link env (keypath env i) ((?q @ 47 # w) @ 47 # hex_fixed 16 (unat i)) ?t2"
    by (simp only: link_word_def Let_def d)
  show "tree_ok env H mal (link_word env (keypath env i) i w t)" unfolding e by (rule 3(1))
  show "adds_names n {wordpath env w ?h i} t (link_word env (keypath env i) i w t)"
    unfolding e d(2) using adds_names_trans [OF more_dirs_adds [OF more_dirs_trans [OF 1(3) 2(3)]] 3(2)] by simp
qed

lemma mkdir_dir: "p \<in> set (fs_dirs t) \<Longrightarrow> mkdir env p t = t"
  by (simp add: mkdir_def can_make_def)

lemma link_subkey_ok:
  assumes "env_ok env" and "tree_ok env H mal t" and "file_no t (keypath env i) = Some n"
  shows "tree_ok env H mal (link_subkey env (keypath env i) j t)" and "adds_names n {subkeypath env j} t (link_subkey env (keypath env i) j t)"
proof -
  let ?q = "fs_location env @ 47 # ascii ''subkeys'' @ 47 # shard j"
  let ?t1 = "prove_path_to env j ''subkeys'' t"
  note 1 = prove_path_to_ok [OF assms(1,2), of "''subkeys''" j, simplified]
  have d: "subkeydir env j = ?q" "subkeypath env j = ?q @ 47 # hex_fixed 16 (unat j)"
    using path_forms(3,4) [OF assms(1)] by (simp_all add: ascii_def)
  have n: "file_no ?t1 (keypath env i) = Some n" using assms(3) 1(3) by (simp add: more_dirs_def)
  have "rank env (?q @ 47 # hex_fixed 16 (unat j)) = 5" "length (?q @ 47 # hex_fixed 16 (unat j)) \<le> length (fs_location env) + 256"
    by (simp_all add: rank_def ascii_def)
  note 3 = link_ok [OF assms(1) 1(2) n keypath_not_lock [OF assms(1)] 1(1) hex_fixed_no_slash this]
  have e: "link_subkey env (keypath env i) j t = link env (keypath env i) (?q @ 47 # hex_fixed 16 (unat j)) ?t1"
    by (simp only: link_subkey_def Let_def d mkdir_dir [OF 1(1)])
  show "tree_ok env H mal (link_subkey env (keypath env i) j t)" unfolding e by (rule 3(1))
  show "adds_names n {subkeypath env j} t (link_subkey env (keypath env i) j t)"
    unfolding e d(2) using adds_names_trans [OF more_dirs_adds [OF 1(3)] 3(2)] by simp
qed

lemma hex_bytes_props [simp]: "length (hex_bytes bs) = 2 * length bs" "47 \<notin> set (hex_bytes bs)" "count_list (hex_bytes bs) 47 = 0"
  by (induction bs) (simp_all add: hex_bytes_def)

lemma link_skshash_ok:
  assumes "env_ok env" and "tree_ok env H mal t" and "file_no t (keypath env i) = Some n" and "length hash = 16"
  shows "tree_ok env H mal (link_skshash env (keypath env i) hash t)"
    and "adds_names n {skshashpath env hash} t (link_skshash env (keypath env i) hash t)"
proof -
  let ?q = "fs_location env @ 47 # ascii ''skshash'' @ 47 # shard (be_word (take 4 hash))" and ?e = "hex_bytes (take 12 (drop 4 hash))"
  let ?t1 = "prove_path_to env (be_word (take 4 hash)) ''skshash'' t"
  note 1 = prove_path_to_ok [OF assms(1,2), of "''skshash''" "be_word (take 4 hash)", simplified]
  have d: "skshashpath env hash = ?q @ 47 # ?e" using path_forms(7) [OF assms(1,4)] by (simp add: ascii_def)
  have n: "file_no ?t1 (keypath env i) = Some n" using assms(3) 1(3) by (simp add: more_dirs_def)
  have "rank env (?q @ 47 # ?e) = 5" "length (?q @ 47 # ?e) \<le> length (fs_location env) + 256"
    using assms(4) by (simp_all add: rank_def ascii_def)
  note 3 = link_ok [OF assms(1) 1(2) n keypath_not_lock [OF assms(1)] 1(1) hex_bytes_props(2) this]
  show "tree_ok env H mal (link_skshash env (keypath env i) hash t)" unfolding link_skshash_def d by (rule 3(1))
  show "adds_names n {skshashpath env hash} t (link_skshash env (keypath env i) hash t)"
    unfolding link_skshash_def d using adds_names_trans [OF more_dirs_adds [OF 1(3)] 3(2)] by simp
qed

lemma fold_links:
  assumes "\<And>x t. x \<in> set xs \<Longrightarrow> tree_ok env H mal t \<Longrightarrow> file_no t b = Some n \<Longrightarrow> tree_ok env H mal (f x t) \<and> adds_names n {q x} t (f x t)"
    and "tree_ok env H mal t" and "file_no t b = Some n"
  shows "tree_ok env H mal (fold f xs t) \<and> adds_names n (q ` set xs) t (fold f xs t)"
  using assms
proof (induction xs arbitrary: t)
  case (Cons x xs)
  have x: "tree_ok env H mal (f x t)" "adds_names n {q x} t (f x t)" using Cons.prems by simp_all
  then have "file_no (f x t) b = Some n" using Cons.prems(3) by (simp add: adds_names_def)
  with Cons.IH [of "f x t"] Cons.prems(1) x have "tree_ok env H mal (fold f xs (f x t))" "adds_names n (q ` set xs) (f x t) (fold f xs (f x t))"
    by simp_all
  with adds_names_trans [OF x(2)] show ?case by simp
qed (simp add: adds_names_def)

text \<open>The names that a key gets besides the one for its id.\<close>

definition key_links :: "fs_env \<Rightarrow> hash_funs \<Rightarrow> openpgp_publickey \<Rightarrow> bytes set" where
  "key_links env H k = (\<lambda>w. wordpath env w (calchash w) (key_id H k)) ` set (makewordlistfromkey [] k) \<union>
     subkeypath env ` set (the (subkey_ids H k)) \<union> {skshashpath env (get_skshash H k)}"

definition fs_storable :: "hash_funs \<Rightarrow> (nat \<Rightarrow> bool) \<Rightarrow> openpgp_publickey \<Rightarrow> bool" where
  "fs_storable H mal k \<longleftrightarrow> key_storable H mal k \<and> subkey_ids H k \<noteq> None \<and> list_all (\<lambda>w. length w \<le> 217) (makewordlistfromkey [] k)"

lemma key_word_no_slash: "w \<in> set (makewordlistfromkey [] k) \<Longrightarrow> 47 \<notin> set w"
proof
  assume "w \<in> set (makewordlistfromkey [] k)" and slash: "47 \<in> set w"
  then obtain u where "is_word u w"
    using fold_words_spec [of "[]"] by (auto simp: makewordlistfromkey_def split: option.splits)
  then obtain v where v: "w = map tolower v" "list_all (\<lambda>c. \<not> separator c) v" by (auto simp: is_word_def)
  then obtain c where "c \<in> set v" "tolower c = 47" using slash by auto
  moreover have "c = 47" if "tolower c = 47" for c
  proof (rule ccontr)
    assume "c \<noteq> 47"
    then have c: "65 \<le> c" "c \<le> 90" "c + 32 = 47" using that by (auto simp: tolower_def split: if_splits)
    then show False by (simp add: eq_diff_eq [symmetric] word_le_nat_alt)
  qed
  ultimately have "47 \<in> set v" by metis
  moreover have "separator 47" by (simp add: separator_def ispunct_def)
  ultimately show False using v(2) by (auto simp: list_all_iff)
qed

lemma tree_ok_locks: "tree_ok env H mal (t\<lparr>fs_locks := l\<rparr>) = tree_ok env H mal t"
  by (simp add: tree_ok_def)

text \<open>Opening and writing the file of a key.\<close>

lemma write_key_tree:
  assumes "env_ok env" and "tree_ok env H mal t" and "fs_storable H mal k"
    and "file_no t (keypath env i) = (if update then Some n else None)" and "\<not> update \<Longrightarrow> n = length (fs_inodes t)"
  defines "t1 \<equiv> prove_path_to env i ''key'' t"
  shows "\<exists>t2 fd t3. (if update then open_trunc (keypath env i) t1 else open_creat env (keypath env i) t1) = Some (n, t2) \<and>
    write_openpgp_stream file_putchar (open_file (fs_inodes t2 ! n)) (flatten_publickey [k] []) = Some (ONAK_E_OK, fd) \<and>
    t3 = t2\<lparr>fs_inodes := (fs_inodes t2)[n := fd_contents fd]\<rparr> \<and> tree_ok env H mal t3 \<and>
    fs_inodes t3 = (if update then (fs_inodes t)[n := key_file k] else fs_inodes t @ [key_file k]) \<and>
    (\<forall>p. file_no t3 p = (if p = keypath env i then Some n else file_no t p)) \<and> fs_locks t3 = fs_locks t"
proof -
  let ?q = "fs_location env @ 47 # ascii ''key'' @ 47 # shard i"
  note 1 = prove_path_to_ok [OF assms(1,2), of "''key''" i, simplified, folded t1_def]
  have d: "keypath env i = ?q @ 47 # hex_fixed 16 (unat i)" using path_forms(1) [OF assms(1)] by (simp add: ascii_def)
  have shape: "rank env (keypath env i) = 5" "fs_accepts env (keypath env i)" "keypath env i \<noteq> lock_path env"
    using assms(1) by (simp_all add: d rank_def env_ok_def ascii_def lock_path_def)
  have same: "fs_names t1 = fs_names t" "fs_inodes t1 = fs_inodes t" "fs_locks t1 = fs_locks t" using 1(3) by (simp_all add: more_dirs_def)
  have k: "key_storable H mal k" "\<forall>p \<in> set (key_packets k). packet_wf p" using assms(3) by (simp_all add: fs_storable_def key_storable_def)
  obtain fd where fd: "write_openpgp_stream file_putchar (open_file []) (flatten_publickey [k] []) = Some (ONAK_E_OK, fd)" "fd_contents fd = key_file k"
    using write_key_file [OF k(2)] by blast
  show ?thesis
  proof (cases update)
    case True
    have n: "n < length (fs_inodes t)" using tree_ok_file [OF assms(2) _ shape(3)] assms(4) True by simp
    let ?t2 = "t1\<lparr>fs_inodes := (fs_inodes t1)[n := []]\<rparr>"
    have "open_trunc (keypath env i) t1 = Some (n, ?t2)" "fs_inodes ?t2 ! n = []"
      using assms(4) True n by (simp_all add: open_trunc_def same)
    moreover have "tree_ok env H mal (?t2\<lparr>fs_inodes := (fs_inodes ?t2)[n := fd_contents fd]\<rparr>)"
      using 1(2) k(1) n by (auto simp: tree_ok_def same fd(2) nth_list_update)
    ultimately show ?thesis using True fd assms(4) by (auto simp: same)
  next
    case False
    have n: "n = length (fs_inodes t)" using assms(5) False by simp
    let ?t2 = "t1\<lparr>fs_names := (keypath env i, n) # fs_names t1, fs_inodes := fs_inodes t1 @ [[]]\<rparr>"
    have "keypath env i \<notin> set (fs_dirs t1)" using 1(2) shape(1) by (auto simp: tree_ok_def)
    then have "open_creat env (keypath env i) t1 = Some (n, ?t2)" "fs_inodes ?t2 ! n = []"
      using assms(4) False n shape(2) 1(1) by (simp_all add: open_creat_def can_make_def same d dirname_append [of _ ?q, simplified])
    moreover have "tree_ok env H mal (?t2\<lparr>fs_inodes := (fs_inodes ?t2)[n := fd_contents fd]\<rparr>)"
      using 1(1,2) k(1) n shape(1) dirname_append [of "hex_fixed 16 (unat i)" ?q] unfolding d [symmetric]
      by (auto simp: tree_ok_def same fd(2) nth_append)
    ultimately show ?thesis using False fd assms(4) n by (auto simp: same)
  qed
qed

lemma started_locks: "\<exists>l. (if intrans then t else snd (fs_starttrans t)) = t\<lparr>fs_locks := l\<rparr>"
  by (rule exI [of _ "if intrans then fs_locks t else snd (lock_loop 20 (fs_locks t))"]) (simp add: fs_starttrans_def split: prod.split)

lemma fs_store_key_ok:
  assumes "env_ok env" and "tree_ok env H mal t" and "hash_funs_ok H" and "fs_storable H mal k"
    and "file_no t (keypath env (key_id H k)) = (if update then Some n else None)" and "\<not> update \<Longrightarrow> n = length (fs_inodes t)"
  shows "\<exists>t'. fs_store_key env H t (k # keys) intrans update = Some (1, t') \<and> tree_ok env H mal t' \<and>
    fs_inodes t' = (if update then (fs_inodes t)[n := key_file k] else fs_inodes t @ [key_file k]) \<and>
    (\<forall>p. file_no t' p =
       (if p = keypath env (key_id H k) \<or> p \<in> key_links env H k \<and> file_no t p = None then Some n else file_no t p))"
proof -
  let ?i = "key_id H k" and ?b = "keypath env (key_id H k)"
  let ?t0 = "if intrans then t else snd (fs_starttrans t)"
  obtain l where t0: "?t0 = t\<lparr>fs_locks := l\<rparr>" using started_locks [of intrans t] by blast
  have ok0: "tree_ok env H mal ?t0" "file_no ?t0 ?b = (if update then Some n else None)" "\<not> update \<Longrightarrow> n = length (fs_inodes ?t0)"
    using assms(2,5,6) by (simp_all add: t0 tree_ok_locks)
  have k: "version_known H k" "list_all (\<lambda>w. length w \<le> 217) (makewordlistfromkey [] k)" using assms(4) by (simp_all add: fs_storable_def key_storable_def)
  obtain ids where ids: "subkey_ids H k = Some ids" using assms(4) by (auto simp: fs_storable_def)
  obtain t2 fd t3 where open_key: "(if update then open_trunc ?b (prove_path_to env ?i ''key'' ?t0) else open_creat env ?b (prove_path_to env ?i ''key'' ?t0)) = Some (n, t2)"
      and fd: "write_openpgp_stream file_putchar (open_file (fs_inodes t2 ! n)) (flatten_publickey [k] []) = Some (ONAK_E_OK, fd)"
      and t3: "t3 = t2\<lparr>fs_inodes := (fs_inodes t2)[n := fd_contents fd]\<rparr>" and ok3: "tree_ok env H mal t3"
      and inodes: "fs_inodes t3 = (if update then (fs_inodes ?t0)[n := key_file k] else fs_inodes ?t0 @ [key_file k])"
      and names: "\<forall>p. file_no t3 p = (if p = ?b then Some n else file_no ?t0 p)"
    using write_key_tree [OF assms(1) ok0(1) assms(4) ok0(2,3)] by blast
  have same0: "fs_names ?t0 = fs_names t" "fs_inodes ?t0 = fs_inodes t" by (simp_all only: t0) simp_all
  note names = names [unfolded same0] and inodes = inodes [unfolded same0]
  have n3: "file_no t3 ?b = Some n" using names by simp
  have w: "length w \<le> 217" "47 \<notin> set w" if "w \<in> set (makewordlistfromkey [] k)" for w
    using k(2) key_word_no_slash that by (auto simp: list_all_iff)
  let ?t4 = "fold (link_word env ?b ?i) (makewordlistfromkey [] k) t3"
  have 4: "tree_ok env H mal ?t4 \<and> adds_names n ((\<lambda>w. wordpath env w (calchash w) ?i) ` set (makewordlistfromkey [] k)) t3 ?t4"
    by (rule fold_links [OF _ ok3 n3]) (use link_word_ok [OF assms(1)] w in blast)
  then have n4: "file_no ?t4 ?b = Some n" using adds_names_keeps n3 by blast
  let ?t5 = "fold (link_subkey env ?b) ids ?t4"
  have 5: "tree_ok env H mal ?t5 \<and> adds_names n (subkeypath env ` set ids) ?t4 ?t5"
    by (rule fold_links [OF _ _ n4]) (use link_subkey_ok [OF assms(1)] 4 in blast)+
  then have n5: "file_no ?t5 ?b = Some n" using adds_names_keeps n4 by blast
  have "length (get_skshash H k) = 16" using assms(3) by (simp add: get_skshash_def hash_funs_ok_def)
  note 6 = link_skshash_ok [OF assms(1) conjunct1 [OF 5] n5 this]
  let ?t6 = "link_skshash env ?b (get_skshash H k) ?t5"
  have "adds_names n (key_links env H k) t3 ?t6"
    using adds_names_trans [OF adds_names_trans [OF conjunct2 [OF 4] conjunct2 [OF 5]] 6(2)] by (simp add: key_links_def ids)
  then have "fs_inodes ?t6 = fs_inodes t3" "\<forall>p. file_no ?t6 p = (if p = ?b \<or> p \<in> key_links env H k \<and> file_no t p = None then Some n else file_no t p)"
    using names by (auto simp: adds_names_def)
  moreover have "fs_store_key env H t (k # keys) intrans update = Some (1, ?t6)"
    using key_keyid(1) [OF assms(3) k(1)] by (simp add: fs_store_key_def open_key fd ids Let_def del: if_split flatten_publickey.simps flip: t3)
  ultimately show ?thesis using 6(1) inodes by (intro exI [of _ ?t6]) simp
qed

section \<open>Fetching\<close>

lemma read_named_key:
  assumes "file_no t p = Some n" and "fs_inodes t ! n = key_file k" and "key_storable H mal k"
  shows "onak_read_openpgp_file mal (tree_files t) p [] = Some (ONAK_E_OK, key_packets k)"
    and "parse_keys (key_packets k) keys = Some (1, keys @ [k])"
  using read_key_file [of "tree_files t" p k, OF _ _ assms(3)] assms by (simp_all add: tree_files_def)

lemma fetch_skshash_named:
  assumes "file_no t (skshashpath env hash) = Some n" and "fs_inodes t ! n = key_file k" and "key_storable H mal k"
  shows "fs_fetch_key_skshash env mal t hash keys = Some (1, keys @ [k])"
  by (simp add: fs_fetch_key_skshash_def read_named_key [OF assms])

lemma fetch_id_named:
  assumes "drop_bit 32 i \<noteq> 0" and "file_no t (keypath env i) = Some n" and "fs_inodes t ! n = key_file k" and "key_storable H mal k"
  shows "fs_fetch_key_id env mal t i keys intrans = Some (1, keys @ [k])"
  using assms(1) by (simp add: fs_fetch_key_id_def read_named_key [OF assms(2-4)])

lemma read_no_file: "file_no t p = None \<Longrightarrow> onak_read_openpgp_file mal (tree_files t) p packets = Some (ONAK_E_NOT_FOUND, packets)"
  by (simp add: onak_read_openpgp_file_def tree_files_def)

lemma fetch_id_subkey:
  assumes "drop_bit 32 i \<noteq> 0" and "file_no t (keypath env i) = None"
  shows "file_no t (subkeypath env i) = None \<Longrightarrow> fs_fetch_key_id env mal t i keys intrans = Some (0, keys)"
    and "file_no t (subkeypath env i) = Some n \<Longrightarrow> fs_inodes t ! n = key_file k \<Longrightarrow> key_storable H mal k \<Longrightarrow>
      fs_fetch_key_id env mal t i keys intrans = Some (1, keys @ [k])"
  using assms(1) by (simp_all add: fs_fetch_key_id_def read_no_file [OF assms(2)] read_no_file read_named_key)

section \<open>Deleting\<close>

lemma file_no_unlink: "file_no (unlink p t) q = (if q = p then None else file_no t q)"
proof -
  have "map_of (filter (\<lambda>(q, _). q \<noteq> p) l) q = (if q = p then None else map_of l q)" for l :: "(bytes \<times> nat) list"
    by (induction l) auto
  then show ?thesis by (simp add: unlink_def)
qed

lemma tree_ok_unlink: "tree_ok env H mal t \<Longrightarrow> tree_ok env H mal (unlink p t)"
  by (auto simp: tree_ok_def unlink_def)

text \<open>The names \<open>Q\<close> go.\<close>

definition drops_names :: "bytes set \<Rightarrow> fs_tree \<Rightarrow> fs_tree \<Rightarrow> bool" where
  "drops_names Q t t' \<longleftrightarrow> fs_inodes t' = fs_inodes t \<and> (\<forall>p. file_no t' p = (if p \<in> Q then None else file_no t p))"

lemma drops_names_trans: "drops_names Q t t' \<Longrightarrow> drops_names R t' t'' \<Longrightarrow> drops_names (Q \<union> R) t t''"
  by (auto simp: drops_names_def)

lemma unlink_drops: "drops_names {p} t (unlink p t)"
  unfolding drops_names_def by (simp add: file_no_unlink) (simp add: unlink_def)

lemma fold_unlinks:
  assumes "\<And>x t. x \<in> set xs \<Longrightarrow> tree_ok env H mal t \<Longrightarrow> tree_ok env H mal (f x t) \<and> drops_names {q x} t (f x t)" and "tree_ok env H mal t"
  shows "tree_ok env H mal (fold f xs t) \<and> drops_names (q ` set xs) t (fold f xs t)"
  using assms
proof (induction xs arbitrary: t)
  case (Cons x xs)
  have x: "tree_ok env H mal (f x t)" "drops_names {q x} t (f x t)" using Cons.prems by simp_all
  with Cons.IH [of "f x t"] Cons.prems(1) have "tree_ok env H mal (fold f xs (f x t))" "drops_names (q ` set xs) (f x t) (fold f xs (f x t))"
    by simp_all
  with drops_names_trans [OF x(2)] show ?case by simp
qed (simp add: drops_names_def)

lemma unlink_there:
  assumes "env_ok env" and "tree_ok env H mal t" and "what \<in> {''key'', ''words'', ''subkeys'', ''skshash''}"
  shows "tree_ok env H mal (unlink p (prove_path_to env x what t)) \<and> drops_names {p} t (unlink p (prove_path_to env x what t))"
proof -
  note 1 = prove_path_to_ok [OF assms, of x]
  have "drops_names {} t (prove_path_to env x what t)" using 1(3) by (simp add: drops_names_def more_dirs_def)
  from drops_names_trans [OF this unlink_drops] tree_ok_unlink [OF 1(2)] show ?thesis by simp
qed

lemma fs_delete_key_ok:
  assumes "env_ok env" and "tree_ok env H mal t" and "hash_funs_ok H" and "fs_storable H mal k" and "drop_bit 32 (key_id H k) \<noteq> 0"
    and "file_no t (keypath env (key_id H k)) = Some n" and "fs_inodes t ! n = key_file k"
  shows "\<exists>t'. fs_delete_key env H mal t (key_fp H k) intrans = Some (1, t') \<and> tree_ok env H mal t' \<and>
    drops_names (insert (keypath env (key_id H k)) (key_links env H k)) t t'"
proof -
  let ?i = "key_id H k"
  obtain l where t0: "(if intrans then t else snd (fs_starttrans t)) = t\<lparr>fs_locks := l\<rparr>" using started_locks [of intrans t] by blast
  let ?t0 = "t\<lparr>fs_locks := l\<rparr>"
  have ok0: "tree_ok env H mal ?t0" "drops_names {} t ?t0" using assms(2) by (simp_all add: tree_ok_locks drops_names_def)
  have k: "key_storable H mal k" "version_known H k" using assms(4) by (simp_all add: fs_storable_def key_storable_def)
  obtain ids where ids: "subkey_ids H k = Some ids" using assms(4) by (auto simp: fs_storable_def)
  have fetch: "fs_fetch_key_id env mal ?t0 ?i [] True = Some (1, [k])"
    using fetch_id_named [OF assms(5), of ?t0 env n k H mal "[]" True] assms(6,7) k(1) by simp
  let ?t1 = "fold (unlink_word env ?i) (makewordlistfromkey [] k) ?t0"
  have 1: "tree_ok env H mal ?t1 \<and> drops_names ((\<lambda>w. wordpath env w (calchash w) ?i) ` set (makewordlistfromkey [] k)) ?t0 ?t1"
    by (rule fold_unlinks [OF _ ok0(1)]) (simp add: unlink_word_def Let_def unlink_there [OF assms(1)])
  let ?t2 = "fold (unlink_subkey env) ids ?t1"
  have 2: "tree_ok env H mal ?t2 \<and> drops_names (subkeypath env ` set ids) ?t1 ?t2"
    by (rule fold_unlinks) (simp_all add: unlink_subkey_def unlink_there [OF assms(1)] 1)
  let ?t3 = "unlink (skshashpath env (get_skshash H k)) ?t2"
  let ?t4 = "unlink (keypath env ?i) ?t3"
  have "drops_names (key_links env H k) t ?t3"
    using drops_names_trans [OF ok0(2) drops_names_trans [OF drops_names_trans [OF conjunct2 [OF 1] conjunct2 [OF 2]] unlink_drops]]
    by (simp add: key_links_def ids)
  from drops_names_trans [OF this unlink_drops] have "drops_names (insert (keypath env ?i) (key_links env H k)) t ?t4" by simp
  moreover have "tree_ok env H mal ?t4" using 2 by (simp add: tree_ok_unlink)
  moreover have "?i \<noteq> 0" using assms(5) by auto
  then have "fs_delete_key env H mal t (key_fp H k) intrans = Some (1, ?t4)"
    using key_keyid(2) [OF assms(3) k(2)] by (simp add: fs_delete_key_def t0 fetch ids)
  ultimately show ?thesis by blast
qed

section \<open>Paths are distinct\<close>

lemma hex_bytes_inj: "length as = length bs \<Longrightarrow> hex_bytes as = hex_bytes bs \<Longrightarrow> as = bs"
proof (induction as bs rule: list_induct2)
  case (Cons a as b bs)
  then have "hex_fixed 2 (unat a) = hex_fixed 2 (unat b)" "hex_bytes as = hex_bytes bs" by (simp_all add: hex_bytes_def)
  moreover have "unat a < 16 ^ 2" "unat b < 16 ^ 2" using unsigned_less [of a] unsigned_less [of b] by simp_all
  ultimately show ?case using hex_fixed_inj [of 2 "unat a" "unat b"] Cons.IH by (simp add: word_unat_eq_iff)
qed simp

lemma skshashpath_inj:
  assumes "env_ok env" and "length a = 16" and "length b = 16" and "skshashpath env a = skshashpath env b"
  shows "a = b"
proof -
  have eq: "shard (be_word (take 4 a)) = shard (be_word (take 4 b))" "hex_bytes (take 12 (drop 4 a)) = hex_bytes (take 12 (drop 4 b))"
    using assms(2-4) path_forms(7) [OF assms(1), of a] path_forms(7) [OF assms(1), of b] by (auto simp: append_eq_append_conv)
  have "drop 6 (shard (be_word (take 4 h))) = hex_bytes (take 4 h)" if "length h = 16" for h
    using that unfolding hex_bytes_4 [OF that, symmetric] by simp
  then have "hex_bytes (take 4 a) = hex_bytes (take 4 b)" using eq(1) assms(2,3) by metis
  with eq(2) have "take 4 a = take 4 b" "take 12 (drop 4 a) = take 12 (drop 4 b)" using hex_bytes_inj assms(2,3) by auto
  moreover have "x = take 4 x @ take 12 (drop 4 x)" if "length x = 16" for x :: bytes using that by simp
  ultimately show ?thesis using assms(2,3) by metis
qed

lemma keypath_inj: "env_ok env \<Longrightarrow> keypath env i = keypath env j \<longleftrightarrow> i = j"
  "env_ok env \<Longrightarrow> subkeypath env i = subkeypath env j \<longleftrightarrow> i = j"
proof -
  have "unat x < 16 ^ 16" for x :: u64 using unsigned_less [of x] by simp
  then have "hex_fixed 16 (unat i) = hex_fixed 16 (unat j) \<longleftrightarrow> i = j" using hex_fixed_inj [of 16] by (metis word_unat_eq_iff)
  then show "env_ok env \<Longrightarrow> keypath env i = keypath env j \<longleftrightarrow> i = j" "env_ok env \<Longrightarrow> subkeypath env i = subkeypath env j \<longleftrightarrow> i = j"
    by (auto simp: path_forms append_eq_append_conv)
qed

lemma path_kinds:
  assumes "env_ok env" and "length w \<le> 217" and "length hash = 16"
  shows "keypath env i \<noteq> wordpath env w h j" "keypath env i \<noteq> subkeypath env j" "keypath env i \<noteq> skshashpath env hash"
    "skshashpath env hash \<noteq> wordpath env w h j" "skshashpath env hash \<noteq> subkeypath env j" "subkeypath env i \<noteq> wordpath env w h j"
  using assms by (simp_all add: path_forms ascii_def)

lemma key_links_kinds:
  assumes "env_ok env" and "hash_funs_ok H" and "fs_storable H mal k"
  shows "keypath env i \<notin> key_links env H k"
    and "subkeypath env i \<in> key_links env H k \<longleftrightarrow> i \<in> set (the (subkey_ids H k))"
    and "length hash = 16 \<Longrightarrow> skshashpath env hash \<in> key_links env H k \<longleftrightarrow> hash = get_skshash H k"
proof -
  have w: "length w \<le> 217" if "w \<in> set (makewordlistfromkey [] k)" for w using assms(3) that by (auto simp: fs_storable_def list_all_iff)
  have h: "length (get_skshash H k) = 16" using assms(2) by (simp add: get_skshash_def hash_funs_ok_def)
  show "keypath env i \<notin> key_links env H k"
    using path_kinds [OF assms(1) w h] path_kinds(2,3) [OF assms(1) _ h, of "[]"] by (auto simp: key_links_def)
  show "subkeypath env i \<in> key_links env H k \<longleftrightarrow> i \<in> set (the (subkey_ids H k))"
    using path_kinds(6) [OF assms(1) w h] path_kinds(5) [OF assms(1) _ h, of "[]"] keypath_inj(2) [OF assms(1)] by (auto simp: key_links_def) metis
  show "skshashpath env hash \<in> key_links env H k \<longleftrightarrow> hash = get_skshash H k" if "length hash = 16"
    using path_kinds(4) [OF assms(1) w that] path_kinds(5) [OF assms(1) _ that, of "[]"] skshashpath_inj [OF assms(1) that h] by (auto simp: key_links_def)
qed

section \<open>Searching\<close>

lemma fetch_defined:
  assumes "env_ok env" and "tree_ok env H mal t"
  shows "\<exists>ks. \<forall>keys intrans. fs_fetch_key_id env mal t i keys intrans = Some (int (length ks), keys @ ks)"
proof -
  define j where "j = (if drop_bit 32 i = 0 then fs_getfullkeyid env t i else i)"
  have lock: "keypath env j \<noteq> lock_path env" "subkeypath env j \<noteq> lock_path env"
    using assms(1) by (simp_all add: path_forms lock_path_def ascii_def)
  have f: "fs_fetch_key_id env mal t i keys intrans =
      do { (res, packets) \<leftarrow> onak_read_openpgp_file mal (tree_files t) (keypath env j) [];
           (res, packets) \<leftarrow>
             (if res = ONAK_E_NOT_FOUND then onak_read_openpgp_file mal (tree_files t) (subkeypath env j) packets else Some (res, packets));
           if res = ONAK_E_OK then do { (_, keys) \<leftarrow> parse_keys packets keys; Some (1, keys) } else Some (0, keys) }" for keys intrans
    unfolding fs_fetch_key_id_def Let_def j_def [symmetric] ..
  have found: "\<exists>k. \<forall>keys. onak_read_openpgp_file mal (tree_files t) p [] = Some (ONAK_E_OK, key_packets k) \<and>
      parse_keys (key_packets k) keys = Some (1, keys @ [k])" if "file_no t p = Some n" "p \<noteq> lock_path env" for p n
    using tree_ok_file [OF assms(2) that] read_named_key [OF that(1)] by metis
  show ?thesis
  proof (cases "file_no t (keypath env j)")
    case (Some n)
    then obtain k where "onak_read_openpgp_file mal (tree_files t) (keypath env j) [] = Some (ONAK_E_OK, key_packets k)"
      "\<forall>keys. parse_keys (key_packets k) keys = Some (1, keys @ [k])" using found lock(1) by metis
    then show ?thesis by (intro exI [of _ "[k]"]) (simp add: f)
  next
    case None
    note none = read_no_file [OF None]
    show ?thesis
    proof (cases "file_no t (subkeypath env j)")
      case (Some n)
      then obtain k where "onak_read_openpgp_file mal (tree_files t) (subkeypath env j) [] = Some (ONAK_E_OK, key_packets k)"
        "\<forall>keys. parse_keys (key_packets k) keys = Some (1, keys @ [k])" using found lock(2) by metis
      then show ?thesis by (intro exI [of _ "[k]"]) (simp add: f none)
    next
      case sub: None
      show ?thesis by (intro exI [of _ "[]"]) (simp add: f none read_no_file [OF sub])
    qed
  qed
qed

lemma fetch_named_all:
  assumes "env_ok env" and "tree_ok env H mal t"
  shows "\<exists>ks. fetch_named env mal t es a keys = Some (a + int (length ks), keys @ ks) \<and>
    (a + int (length ks) < fs_maxkeys env \<longrightarrow> (\<forall>e k. e \<in> set es \<and> fs_fetch_key_id env mal t (strtoull16 e) [] False = Some (1, [k]) \<longrightarrow> k \<in> set ks))"
proof (induction es arbitrary: a keys)
  case (Cons e es)
  obtain k1 where k1: "\<forall>keys intrans. fs_fetch_key_id env mal t (strtoull16 e) keys intrans = Some (int (length k1), keys @ k1)"
    using fetch_defined [OF assms] by metis
  obtain ks where ks: "fetch_named env mal t es (a + int (length k1)) (keys @ k1) = Some (a + int (length k1) + int (length ks), (keys @ k1) @ ks)"
    "a + int (length k1) + int (length ks) < fs_maxkeys env \<longrightarrow>
       (\<forall>e k. e \<in> set es \<and> fs_fetch_key_id env mal t (strtoull16 e) [] False = Some (1, [k]) \<longrightarrow> k \<in> set ks)"
    using Cons.IH by blast
  show ?case
  proof (cases "a + int (length k1) \<ge> fs_maxkeys env")
    case True
    then show ?thesis using k1 by (intro exI [of _ k1]) simp
  next
    case False
    then show ?thesis using k1 ks by (intro exI [of _ "k1 @ ks"]) auto
  qed
qed simp

lemma foldl_lladd: "set (foldl (\<lambda>keys e. if P e then lladd keys e else keys) acc es) = set acc \<union> {e \<in> set es. P e}"
  by (induction es arbitrary: acc) (auto simp: lladd_def)

lemma word_finds:
  assumes "env_ok env" and "tree_ok env H mal t" and "length w \<le> 217" and "file_no t (wordpath env w (calchash w) i) = Some n"
    and "mct = [] \<or> hex_fixed 16 (unat i) \<in> set mct"
  shows "hex_fixed 16 (unat i) \<in> set (internal_get_key_by_word env t w mct)"
proof -
  let ?e = "hex_fixed 16 (unat i)" and ?d = "worddir env w (calchash w)"
  have p: "wordpath env w (calchash w) i = ?d @ 47 # ?e" using path_forms(5,6) [OF assms(1,3)] by simp
  obtain m where m: "(?d @ 47 # ?e, m) \<in> set (fs_names t)" using map_of_SomeD [OF assms(4)] by (auto simp: p)
  then have "?d \<in> set (fs_dirs t)" using assms(2) dirname_append [of ?e ?d] by (auto simp: tree_ok_def)
  then obtain es where es: "readdir env ?d t = Some es" "?e \<in> set es"
  proof -
    let ?es = "filter (\<lambda>e. 47 \<notin> set e) (map (\<lambda>(p, _). drop (Suc (length ?d)) p)
      (filter (\<lambda>(p, _). take (Suc (length ?d)) p = ?d @ [47]) (fs_names t)))"
    have "(?d @ 47 # ?e, m) \<in> set (filter (\<lambda>(p, _). take (Suc (length ?d)) p = ?d @ [47]) (fs_names t))" using m by simp
    then have "?e \<in> set ?es" by (force simp: image_iff)
    moreover have "readdir env ?d t = Some (fs_order env ?es)" using \<open>?d \<in> set (fs_dirs t)\<close> by (simp add: readdir_def)
    moreover have "set (fs_order env ?es) = set ?es" using assms(1) by (simp add: env_ok_def)
    ultimately show thesis using that by metis
  qed
  obtain a r where "?e = upper_digit a # r" "a < 16" using hex_name by blast
  then have "take 1 ?e \<noteq> [46]" using upper_digit_cases(2) by simp
  with es assms(5) show ?thesis by (simp add: internal_get_key_by_word_def foldl_lladd)
qed

lemma narrow_finds:
  assumes "env_ok env" and "tree_ok env H mal t"
    and "\<forall>w \<in> set ws. length w \<le> 217 \<and> file_no t (wordpath env w (calchash w) i) = Some n" and "hex_fixed 16 (unat i) \<in> set keylist"
  shows "hex_fixed 16 (unat i) \<in> set (narrow_words env t keylist ws)"
  using assms(3,4)
proof (induction ws arbitrary: keylist)
  case (Cons w ws)
  then have "hex_fixed 16 (unat i) \<in> set (internal_get_key_by_word env t w keylist)" using word_finds [OF assms(1,2)] by simp
  with Cons show ?case by (auto simp: Let_def)
qed simp

lemma text_finds:
  assumes "env_ok env" and "tree_ok env H mal t" and "drop_bit 32 i \<noteq> 0" and "key_storable H mal k"
    and "file_no t (keypath env i) = Some n" and "fs_inodes t ! n = key_file k" and "makewordlist [] search \<noteq> []"
    and "\<forall>w \<in> set (makewordlist [] search). length w \<le> 217 \<and> file_no t (wordpath env w (calchash w) i) = Some n"
  shows "\<exists>m ks. fs_fetch_key_text env mal t search keys = Some (m, keys @ ks) \<and> (m < fs_maxkeys env \<longrightarrow> k \<in> set ks)"
proof -
  obtain w ws where ws: "makewordlist [] search = w # ws" using assms(7) by (cases "makewordlist [] search") auto
  let ?l = "internal_get_key_by_word env t w []" and ?e = "hex_fixed 16 (unat i)"
  have l: "?e \<in> set ?l" using word_finds [OF assms(1,2), of w i n "[]"] assms(8) ws by simp
  then have e: "?e \<in> set (narrow_words env t ?l ws)" using narrow_finds [OF assms(1,2), of ws i n ?l] assms(8) ws by simp
  have "fs_fetch_key_id env mal t (strtoull16 ?e) [] False = Some (1, [k])"
    unfolding strtoull16_name using fetch_id_named [OF assms(3,5,6,4)] by simp
  with e fetch_named_all [OF assms(1,2), of "narrow_words env t ?l ws" 0 keys]
  obtain ks where "fetch_named env mal t (narrow_words env t ?l ws) 0 keys = Some (int (length ks), keys @ ks)"
    "int (length ks) < fs_maxkeys env \<longrightarrow> k \<in> set ks" by auto
  moreover have "?l \<noteq> []" using l by auto
  ultimately show ?thesis by (simp add: fs_fetch_key_text_def ws)
qed

text \<open>A text with no word of two characters ends in a null pointer.\<close>

lemma fs_fetch_key_text_no_words: "makewordlist [] search = [] \<Longrightarrow> fs_fetch_key_text env mal t search keys = None"
  by (simp add: fs_fetch_key_text_def)

section \<open>What is stored is found\<close>

text \<open>
  C30. A key that is stored under names that are free is found again in every way: by its id, by the ids of its subkeys that are not ids of
  other keys, by its hash, and by every text whose words are words of its user ids, unless the limit for the number of keys is reached.
  The tree stays well formed.
\<close>

theorem fs_store_fetch:
  assumes "env_ok env" and "tree_ok env H mal t" and "hash_funs_ok H" and "fs_storable H mal k" and "drop_bit 32 (key_id H k) \<noteq> 0"
    and "file_no t (keypath env (key_id H k)) = None" and "\<forall>p \<in> key_links env H k. file_no t p = None"
  shows "\<exists>t'. fs_store_key env H t (k # keys) intrans False = Some (1, t') \<and> tree_ok env H mal t' \<and>
    fs_fetch_key_id env mal t' (key_id H k) [] intrans = Some (1, [k]) \<and>
    fs_fetch_key_skshash env mal t' (get_skshash H k) [] = Some (1, [k]) \<and>
    (\<forall>j \<in> set (the (subkey_ids H k)). drop_bit 32 j \<noteq> 0 \<and> file_no t (keypath env j) = None \<longrightarrow>
       fs_fetch_key_id env mal t' j [] intrans = Some (1, [k])) \<and>
    (\<forall>search. makewordlist [] search \<noteq> [] \<and> set (makewordlist [] search) \<subseteq> set (makewordlistfromkey [] k) \<longrightarrow>
       (\<exists>n ks. fs_fetch_key_text env mal t' search [] = Some (n, ks) \<and> (n < fs_maxkeys env \<longrightarrow> k \<in> set ks)))"
proof -
  let ?i = "key_id H k" and ?n = "length (fs_inodes t)"
  have k: "key_storable H mal k" using assms(4) by (simp add: fs_storable_def)
  obtain t' where st: "fs_store_key env H t (k # keys) intrans False = Some (1, t')" "tree_ok env H mal t'"
      and inodes: "fs_inodes t' = fs_inodes t @ [key_file k]"
      and names: "\<forall>p. file_no t' p = (if p = keypath env ?i \<or> p \<in> key_links env H k \<and> file_no t p = None then Some ?n else file_no t p)"
    using fs_store_key_ok [OF assms(1-4), of False ?n keys intrans] assms(6) by auto
  have n: "fs_inodes t' ! ?n = key_file k" "file_no t' (keypath env ?i) = Some ?n"
    and links: "\<forall>p \<in> key_links env H k. file_no t' p = Some ?n"
    using inodes names assms(7) by simp_all
  have "fs_fetch_key_id env mal t' j [] intrans = Some (1, [k])"
    if j: "j \<in> set (the (subkey_ids H k))" "drop_bit 32 j \<noteq> 0" "file_no t (keypath env j) = None" for j
  proof (cases "j = ?i")
    case True
    then show ?thesis using fetch_id_named [OF assms(5) n(2,1) k, of "[]"] by simp
  next
    case False
    then have "file_no t' (keypath env j) = None"
      using names j(3) keypath_inj(1) [OF assms(1)] key_links_kinds(1) [OF assms(1,3,4)] by simp
    moreover have "file_no t' (subkeypath env j) = Some ?n" using links j(1) by (simp add: key_links_def)
    ultimately show ?thesis using fetch_id_subkey(2) [OF j(2) _ _ n(1) k, of env "[]"] by simp
  qed
  moreover have "\<exists>m ks. fs_fetch_key_text env mal t' search [] = Some (m, ks) \<and> (m < fs_maxkeys env \<longrightarrow> k \<in> set ks)"
    if w: "makewordlist [] search \<noteq> []" "set (makewordlist [] search) \<subseteq> set (makewordlistfromkey [] k)" for search
  proof -
    have "\<forall>w \<in> set (makewordlist [] search). length w \<le> 217 \<and> file_no t' (wordpath env w (calchash w) ?i) = Some ?n"
      using w(2) links assms(4) by (auto simp: key_links_def fs_storable_def list_all_iff)
    from text_finds [OF assms(1) st(2) assms(5) k n(2,1) w(1) this, of "[]"] show ?thesis by simp
  qed
  ultimately show ?thesis
    using st fetch_id_named [OF assms(5) n(2,1) k, of "[]" intrans] fetch_skshash_named [OF _ n(1) k, of env "get_skshash H k" "[]"] links
    by (auto simp: key_links_def)
qed

text \<open>
  C31. A deleted key is still served under its old hashes. After a key was stored, updated to another content, and deleted, it is not found by
  its id any more, but the hash that it had before the update still leads to it: an update adds names, deleting removes those of the last
  content only, and every name that stays keeps the file.
\<close>

theorem fs_delete_leaves_old_hash:
  assumes "env_ok env" and "tree_ok env H mal t" and "hash_funs_ok H" and "fs_storable H mal k1" and "fs_storable H mal k2"
    and "key_id H k2 = key_id H k1" and "drop_bit 32 (key_id H k1) \<noteq> 0" and "get_skshash H k1 \<noteq> get_skshash H k2"
    and "file_no t (keypath env (key_id H k1)) = None" and "file_no t (skshashpath env (get_skshash H k1)) = None"
    and "file_no t (subkeypath env (key_id H k1)) = None"
    and "key_id H k1 \<notin> set (the (subkey_ids H k1)) \<union> set (the (subkey_ids H k2))"
  shows "\<exists>t1 t2 t3. fs_store_key env H t [k1] intrans False = Some (1, t1) \<and> fs_store_key env H t1 [k2] intrans True = Some (1, t2) \<and>
    fs_delete_key env H mal t2 (key_fp H k2) intrans = Some (1, t3) \<and> fs_fetch_key_id env mal t3 (key_id H k1) [] intrans = Some (0, []) \<and>
    fs_fetch_key_skshash env mal t3 (get_skshash H k1) [] = Some (1, [k2])"
proof -
  let ?i = "key_id H k1" and ?n = "length (fs_inodes t)" and ?old = "skshashpath env (get_skshash H k1)"
  have h: "length (get_skshash H k1) = 16" using assms(3) by (simp add: get_skshash_def hash_funs_ok_def)
  note kinds1 = key_links_kinds [OF assms(1,3,4)] and kinds2 = key_links_kinds [OF assms(1,3,5)]
  have ne: "?old \<noteq> keypath env ?i" "subkeypath env ?i \<noteq> keypath env ?i" "subkeypath env ?i \<noteq> ?old"
    using path_kinds(2,3,5) [OF assms(1) _ h, of "[]"] by (metis list.size(3) zero_le)+
  obtain t1 where t1: "fs_store_key env H t [k1] intrans False = Some (1, t1)" "tree_ok env H mal t1"
      "fs_inodes t1 = fs_inodes t @ [key_file k1]"
      "\<forall>p. file_no t1 p = (if p = keypath env ?i \<or> p \<in> key_links env H k1 \<and> file_no t p = None then Some ?n else file_no t p)"
    using fs_store_key_ok [OF assms(1-4), of False ?n "[]" intrans] assms(9) by auto
  have n1: "file_no t1 (keypath env ?i) = Some ?n" "file_no t1 ?old = Some ?n" "file_no t1 (subkeypath env ?i) = None"
    using t1(4) assms(10-12) kinds1(2,3) h ne by auto
  obtain t2 where t2: "fs_store_key env H t1 [k2] intrans True = Some (1, t2)" "tree_ok env H mal t2"
      "fs_inodes t2 = (fs_inodes t1)[?n := key_file k2]"
      "\<forall>p. file_no t2 p = (if p = keypath env ?i \<or> p \<in> key_links env H k2 \<and> file_no t1 p = None then Some ?n else file_no t1 p)"
    using fs_store_key_ok [OF assms(1) t1(2) assms(3,5), of True ?n "[]" intrans] n1(1) assms(6) by auto
  have n2: "file_no t2 (keypath env ?i) = Some ?n" "file_no t2 ?old = Some ?n" "file_no t2 (subkeypath env ?i) = None"
      "fs_inodes t2 ! ?n = key_file k2"
    using t2(3,4) t1(3) n1 assms(12) kinds2(2) ne by auto
  obtain t3 where t3: "fs_delete_key env H mal t2 (key_fp H k2) intrans = Some (1, t3)"
      "drops_names (insert (keypath env ?i) (key_links env H k2)) t2 t3"
    using fs_delete_key_ok [OF assms(1) t2(2) assms(3,5), of ?n intrans] n2 assms(6,7) by auto
  have "file_no t3 (keypath env ?i) = None" "file_no t3 (subkeypath env ?i) = None" "file_no t3 ?old = Some ?n" "fs_inodes t3 ! ?n = key_file k2"
    using t3(2) n2 kinds2(3) h assms(8) ne by (auto simp: drops_names_def)
  then have "fs_fetch_key_id env mal t3 ?i [] intrans = Some (0, [])" "fs_fetch_key_skshash env mal t3 (get_skshash H k1) [] = Some (1, [k2])"
    using fetch_id_subkey(1) [OF assms(7), of t3 env mal "[]" intrans] fetch_skshash_named [of t3 env "get_skshash H k1" ?n k2 H mal "[]"] assms(5)
    by (simp_all add: fs_storable_def)
  with t1(1) t2(1) t3(1) show ?thesis by blast
qed

section \<open>Instances\<close>

definition sample_fs_env :: fs_env where
  "sample_fs_env = \<lparr>fs_location = [100], path_max = 4096, fs_maxkeys = 128, fs_accepts = \<lambda>_. True, fs_order = rev\<rparr>"

definition empty_tree :: fs_tree where
  "empty_tree = \<lparr>fs_dirs = [[100]], fs_names = [], fs_inodes = [], fs_locks = [False, True]\<rparr>"

definition fs_key :: "bytes \<Rightarrow> openpgp_publickey" where
  "fs_key u = \<lparr>publickey = \<lparr>tag = 6, newformat = False, data = 4 # replicate 8 0 @ [0, 0, 0, 9, 1, 2, 3, 4]\<rparr>, revoked = False, sigs = [],
     uids = [\<lparr>sp_packet = \<lparr>tag = 13, newformat = False, data = u\<rparr>, sp_sigs = []\<rparr>],
     subkeys = [\<lparr>sp_packet = \<lparr>tag = 14, newformat = False, data = 4 # replicate 8 0 @ [0, 0, 0, 7, 1, 2, 3, 4]\<rparr>, sp_sigs = []\<rparr>]\<rparr>"

definition fs_hashes :: hash_funs where
  "fs_hashes = sample_hashes\<lparr>md5 := \<lambda>x. take 16 (rev (take 40 x) @ replicate 16 0)\<rparr>"

lemma sample_fs_ok: "env_ok sample_fs_env" "tree_ok sample_fs_env H mal empty_tree" "hash_funs_ok fs_hashes"
  using sample_hashes_ok
  by (auto simp: env_ok_def sample_fs_env_def tree_ok_def empty_tree_def rank_def hash_funs_ok_def fs_hashes_def)

lemma fs_key_storable: "length u < 200 \<Longrightarrow> key_storable fs_hashes (\<lambda>_. True) (fs_key u)"
  by (simp add: fs_key_def key_storable_def key_ok_def key_mergeable_def mergeable_def version_known_def sig_list_ok_def key_packets_def
      signed_packets_def packet_wf_def packet_writable_def packet_version_ok_def plength_def)

lemma fs_key_ids: "key_id fs_hashes (fs_key u) = 0x0901020304" "subkey_ids fs_hashes (fs_key u) = Some [0x0701020304]"
proof -
  have f: "key_fp fs_hashes (fs_key u) = key_fp fs_hashes (fs_key [])" by (simp add: key_fp_def fs_key_def)
  show "key_id fs_hashes (fs_key u) = 0x0901020304" unfolding key_id_def f by code_simp
  have "subkey_ids fs_hashes (fs_key u) = subkey_ids fs_hashes (fs_key [])" by (simp add: subkey_ids_def keysubkeys_def fs_key_def)
  also have "\<dots> = Some [0x0701020304]" by code_simp
  finally show "subkey_ids fs_hashes (fs_key u) = Some [0x0701020304]" .
qed

lemma fs_key_words: "makewordlistfromkey [] (fs_key [97, 108, 32, 120]) = [[97, 108]]" "makewordlistfromkey [] (fs_key [98, 111]) = [[98, 111]]"
  "makewordlist [] [65, 108] = [[97, 108]]"
  by code_simp+

theorem fs_store_fetch_witness:
  "\<exists>t'. fs_store_key sample_fs_env fs_hashes empty_tree [fs_key [97, 108, 32, 120]] False False = Some (1, t') \<and>
    fs_fetch_key_id sample_fs_env (\<lambda>_. True) t' 0x0701020304 [] False = Some (1, [fs_key [97, 108, 32, 120]]) \<and>
    (\<exists>n ks. fs_fetch_key_text sample_fs_env (\<lambda>_. True) t' [65, 108] [] = Some (n, ks) \<and> (n < 128 \<longrightarrow> fs_key [97, 108, 32, 120] \<in> set ks))"
proof -
  let ?k = "fs_key [97, 108, 32, 120]"
  have k: "fs_storable fs_hashes (\<lambda>_. True) ?k" using fs_key_storable by (simp add: fs_storable_def fs_key_ids fs_key_words)
  have id: "drop_bit 32 (key_id fs_hashes ?k) \<noteq> 0" "drop_bit 32 (0x0701020304 :: u64) \<noteq> 0" unfolding fs_key_ids by code_simp+
  have none: "file_no empty_tree p = None" for p by (simp add: empty_tree_def)
  from fs_store_fetch [OF sample_fs_ok(1) sample_fs_ok(2) sample_fs_ok(3) k id(1) none, of "[]" False]
  show ?thesis using id(2) by (auto simp: none fs_key_ids fs_key_words sample_fs_env_def)
qed

theorem fs_delete_leaves_old_hash_witness:
  "\<exists>t1 t2 t3. fs_store_key sample_fs_env fs_hashes empty_tree [fs_key [97, 108, 32, 120]] False False = Some (1, t1) \<and>
    fs_store_key sample_fs_env fs_hashes t1 [fs_key [98, 111]] False True = Some (1, t2) \<and>
    fs_delete_key sample_fs_env fs_hashes (\<lambda>_. True) t2 (key_fp fs_hashes (fs_key [98, 111])) False = Some (1, t3) \<and>
    fs_fetch_key_skshash sample_fs_env (\<lambda>_. True) t3 (get_skshash fs_hashes (fs_key [97, 108, 32, 120])) [] = Some (1, [fs_key [98, 111]])"
proof -
  let ?k1 = "fs_key [97, 108, 32, 120]" and ?k2 = "fs_key [98, 111]"
  have k: "fs_storable fs_hashes (\<lambda>_. True) ?k1" "fs_storable fs_hashes (\<lambda>_. True) ?k2"
    using fs_key_storable by (simp_all add: fs_storable_def fs_key_ids fs_key_words)
  have id: "drop_bit 32 (key_id fs_hashes ?k1) \<noteq> 0" "key_id fs_hashes ?k2 = key_id fs_hashes ?k1"
    "key_id fs_hashes ?k1 \<notin> set (the (subkey_ids fs_hashes ?k1)) \<union> set (the (subkey_ids fs_hashes ?k2))"
    unfolding fs_key_ids by code_simp+
  have none: "file_no empty_tree p = None" for p by (simp add: empty_tree_def)
  have "get_skshash fs_hashes ?k1 \<noteq> get_skshash fs_hashes ?k2" by code_simp
  from fs_delete_leaves_old_hash [OF sample_fs_ok k id(2,1) this none none none id(3), of False] show ?thesis by auto
qed

end
