(* ===== verification/Onak_Conf.thy ===== *)
theory Onak_Conf
  imports Clean_Key Key_Array Key_Db Word_List
begin

text \<open>
  The configuration (\<open>onak-conf.c\<close>): both styles of the file, finding and reading it, and writing it out. The variable
  \<open>config\<close> and the log threshold of \<open>log.c\<close> are the state. A string is without its final NUL, \<open>None\<close> is a null
  pointer; \<open>cf_backend\<close> is the position of the back end that the pointer points to in the list.
\<close>

section \<open>The configuration\<close>

record onak_db_config =
  bc_name :: "bytes option"
  bc_type :: "bytes option"
  bc_location :: "bytes option"
  bc_hostname :: "bytes option"
  bc_username :: "bytes option"
  bc_password :: "bytes option"

record onak_conf =
  cf_maxkeys :: int
  cf_thissite :: "bytes option"
  cf_adminemail :: "bytes option"
  cf_mta :: "bytes option"
  cf_server_contact :: "bytes option"
  cf_syncsites :: "bytes list"
  cf_logfile :: "bytes option"
  cf_use_keyd :: bool
  cf_sock_dir :: "bytes option"
  cf_backends :: "onak_db_config list"
  cf_backend :: "nat option"
  cf_db_backend :: "bytes option"
  cf_backends_dir :: "bytes option"
  cf_blacklist :: keyarray
  cf_clean_policies :: u64
  cf_max_sigs_per_uid :: int
  cf_max_sigs_per_uat :: int
  cf_template_dir :: "bytes option"
  cf_bin_dir :: "bytes option"
  cf_mail_dir :: "bytes option"
  cf_loglevel :: int

definition no_backend :: onak_db_config where
  "no_backend = \<lparr>bc_name = None, bc_type = None, bc_location = None, bc_hostname = None, bc_username = None, bc_password = None\<rparr>"

abbreviation (input) ONAK_CLEAN_UPDATE_ONLY :: u64 where "ONAK_CLEAN_UPDATE_ONLY \<equiv> 8"

text \<open>The initial value of the variable, with the threshold \<open>LOGTHING_NOTICE\<close>.\<close>

definition default_config :: onak_conf where
  "default_config =
     \<lparr>cf_maxkeys = 128, cf_thissite = None, cf_adminemail = None, cf_mta = None, cf_server_contact = None, cf_syncsites = [],
      cf_logfile = None, cf_use_keyd = False, cf_sock_dir = None, cf_backends = [], cf_backend = None, cf_db_backend = None,
      cf_backends_dir = None, cf_blacklist = \<lparr>ka_keys = [], ka_count = 0, ka_size = 0\<rparr>,
      cf_clean_policies = ONAK_CLEAN_CHECK_SIGHASH OR ONAK_CLEAN_CAP_UIDS OR ONAK_CLEAN_CAP_UATS,
      cf_max_sigs_per_uid = 512, cf_max_sigs_per_uat = 512, cf_template_dir = None, cf_bin_dir = None, cf_mail_dir = None,
      cf_loglevel = 3\<rparr>"

section \<open>Values\<close>

text \<open>The back ends that are looked for come from sections of the new style, which always have a name.\<close>

definition find_db_backend_config :: "onak_db_config list \<Rightarrow> bytes \<Rightarrow> nat option" where
  "find_db_backend_config backends name =
     (let l = takeWhile (\<lambda>b. bc_name b \<noteq> Some name) backends in if length l < length backends then Some (length l) else None)"

definition same_nocase :: "bytes \<Rightarrow> string \<Rightarrow> bool" where
  "same_nocase s t \<longleftrightarrow> map tolower s = ascii t"

definition parsebool :: "bytes \<Rightarrow> bool \<Rightarrow> bool" where
  "parsebool str fallback =
     (if same_nocase str ''false'' \<or> same_nocase str ''no'' \<or> same_nocase str ''0'' then False
      else if same_nocase str ''true'' \<or> same_nocase str ''yes'' \<or> same_nocase str ''1'' then True
      else fallback)"

text \<open>\<open>atoi\<close> is undefined where the number is not an \<open>int\<close>.\<close>

definition isdigit :: "u8 \<Rightarrow> bool" where
  "isdigit c \<longleftrightarrow> 48 \<le> c \<and> c \<le> 57"

definition digits_value :: "bytes \<Rightarrow> nat" where
  "digits_value = foldl (\<lambda>n c. 10 * n + (unat c - 48)) 0"

definition atoi :: "bytes \<Rightarrow> int option" where
  "atoi s =
     (let t = dropWhile isspace s;
          sign = (t \<noteq> [] \<and> (hd t = 43 \<or> hd t = 45));
          n = int (digits_value (takeWhile isdigit (if sign then tl t else t)));
          v = (if sign \<and> hd t = 45 then - n else n)
      in if - (2 ^ 31) \<le> v \<and> v < 2 ^ 31 then Some v else None)"

definition set_policy :: "u64 \<Rightarrow> bytes \<Rightarrow> onak_conf \<Rightarrow> onak_conf" where
  "set_policy flag value c =
     (let p = cf_clean_policies c
      in c\<lparr>cf_clean_policies := if parsebool value (p AND flag \<noteq> 0) then p OR flag else p AND NOT flag\<rparr>)"

section \<open>The old style\<close>

definition starts :: "string \<Rightarrow> bytes \<Rightarrow> bool" where
  "starts s line \<longleftrightarrow> take (length s) line = ascii s"

definition on_backend :: "(onak_db_config \<Rightarrow> onak_db_config) \<Rightarrow> onak_conf \<Rightarrow> onak_conf option" where
  "on_backend f c =
     do { i \<leftarrow> cf_backend c;
          if i < length (cf_backends c) then Some (c\<lparr>cf_backends := (cf_backends c)[i := f (cf_backends c ! i)]\<rparr>) else None }"

text \<open>The result is the return value and the configuration; there is none where the pointer to the back end is null.\<close>

definition parseoldconfigline :: "bytes \<Rightarrow> onak_conf \<Rightarrow> (bool \<times> onak_conf) option" where
  "parseoldconfigline line c =
     (if line = [] \<or> hd line = 35 then Some (True, c)
      else if starts ''db_dir '' line then map_option (Pair True) (on_backend (bc_location_update (\<lambda>_. Some (drop 7 line))) c)
      else if starts ''debug '' line then Some (True, c)
      else if starts ''default_language '' line then Some (True, c)
      else if starts ''mail_delivery_client '' line then Some (True, c\<lparr>cf_mta := Some (drop 21 line)\<rparr>)
      else if starts ''maintainer_email '' line then Some (True, c\<lparr>cf_adminemail := Some (drop 17 line)\<rparr>)
      else if starts ''mail_intro_file '' line then Some (True, c)
      else if starts ''help_dir '' line then Some (True, c)
      else if starts ''max_last '' line then Some (True, c)
      else if starts ''max_reply_keys '' line then map_option (\<lambda>n. (True, c\<lparr>cf_maxkeys := n\<rparr>)) (atoi (drop 15 line))
      else if starts ''pg_dbhost '' line then map_option (Pair True) (on_backend (bc_hostname_update (\<lambda>_. Some (drop 10 line))) c)
      else if starts ''pg_dbname '' line then map_option (Pair True) (on_backend (bc_location_update (\<lambda>_. Some (drop 10 line))) c)
      else if starts ''pg_dbuser '' line then map_option (Pair True) (on_backend (bc_username_update (\<lambda>_. Some (drop 10 line))) c)
      else if starts ''pg_dbpass '' line then map_option (Pair True) (on_backend (bc_password_update (\<lambda>_. Some (drop 10 line))) c)
      else if starts ''syncsite '' line then Some (True, c\<lparr>cf_syncsites := drop 9 line # cf_syncsites c\<rparr>)
      else if starts ''logfile '' line then Some (True, c\<lparr>cf_logfile := Some (drop 8 line)\<rparr>)
      else if starts ''loglevel '' line then map_option (\<lambda>n. (True, c\<lparr>cf_loglevel := n\<rparr>)) (atoi (drop 9 line))
      else if starts ''this_site '' line then Some (True, c\<lparr>cf_thissite := Some (drop 10 line)\<rparr>)
      else if starts ''socket_name '' line \<or> starts ''www_port '' line then Some (True, c)
      else if starts ''pks_bin_dir '' line then Some (True, c\<lparr>cf_bin_dir := Some (drop 12 line)\<rparr>)
      else if starts ''mail_dir '' line then Some (True, c\<lparr>cf_mail_dir := Some (drop 9 line)\<rparr>)
      else if starts ''db_backend '' line then
        map_option (\<lambda>c. (True, c\<lparr>cf_db_backend := Some (drop 11 line)\<rparr>))
          (on_backend (\<lambda>b. b\<lparr>bc_type := Some (drop 11 line), bc_name := Some (drop 11 line)\<rparr>) c)
      else if starts ''backends_dir '' line then Some (True, c\<lparr>cf_backends_dir := Some (drop 13 line)\<rparr>)
      else if starts ''use_keyd '' line then Some (True, c\<lparr>cf_use_keyd := parsebool (drop 9 line) (cf_use_keyd c)\<rparr>)
      else if starts ''sock_dir '' line then Some (True, c\<lparr>cf_sock_dir := Some (drop 9 line)\<rparr>)
      else if starts ''check_sighash '' line then Some (True, set_policy ONAK_CLEAN_CHECK_SIGHASH (drop 14 line) c)
      else Some (False, c))"

section \<open>The new style\<close>

record conf_env =
  have_crypto :: bool
  conf_files :: "bytes \<Rightarrow> bytes option"

text \<open>The back end of a section, which is added at the head of the list if it is not there, so that the others move by one.\<close>

definition set_backend :: "bytes \<Rightarrow> (onak_db_config \<Rightarrow> onak_db_config) \<Rightarrow> onak_conf \<Rightarrow> onak_conf" where
  "set_backend name f c =
     (case find_db_backend_config (cf_backends c) name of
        None \<Rightarrow>
          c\<lparr>cf_backends := f (no_backend\<lparr>bc_name := Some name\<rparr>) # cf_backends c, cf_backend := map_option Suc (cf_backend c)\<rparr>
      | Some i \<Rightarrow> c\<lparr>cf_backends := (cf_backends c)[i := f (cf_backends c ! i)]\<rparr>)"

definition backend_setting :: "bytes \<Rightarrow> bytes \<Rightarrow> onak_db_config \<Rightarrow> onak_db_config" where
  "backend_setting name value b =
     (if name = ascii ''type'' then b\<lparr>bc_type := Some value\<rparr>
      else if name = ascii ''location'' then b\<lparr>bc_location := Some value\<rparr>
      else if name = ascii ''hostname'' then b\<lparr>bc_hostname := Some value\<rparr>
      else if name = ascii ''username'' then b\<lparr>bc_username := Some value\<rparr>
      else if name = ascii ''password'' then b\<lparr>bc_password := Some value\<rparr>
      else b)"

definition main_setting :: "bytes \<Rightarrow> bytes \<Rightarrow> onak_conf \<Rightarrow> (bool \<times> onak_conf) option" where
  "main_setting name value c =
     (if name = ascii ''backend'' then Some (True, c\<lparr>cf_db_backend := Some value\<rparr>)
      else if name = ascii ''backends_dir'' then Some (True, c\<lparr>cf_backends_dir := Some value\<rparr>)
      else if name = ascii ''template_dir'' then Some (True, c\<lparr>cf_template_dir := Some value\<rparr>)
      else if name = ascii ''logfile'' then Some (True, c\<lparr>cf_logfile := Some value\<rparr>)
      else if name = ascii ''loglevel'' then map_option (\<lambda>n. (True, c\<lparr>cf_loglevel := n\<rparr>)) (atoi value)
      else if name = ascii ''use_keyd'' then Some (True, c\<lparr>cf_use_keyd := parsebool value (cf_use_keyd c)\<rparr>)
      else if name = ascii ''sock_dir'' then Some (True, c\<lparr>cf_sock_dir := Some value\<rparr>)
      else if name = ascii ''max_reply_keys'' then map_option (\<lambda>n. (True, c\<lparr>cf_maxkeys := n\<rparr>)) (atoi value)
      else if name = ascii ''server_contact'' then Some (True, c\<lparr>cf_server_contact := Some value\<rparr>)
      else Some (False, c))"

definition mail_setting :: "bytes \<Rightarrow> bytes \<Rightarrow> onak_conf \<Rightarrow> (bool \<times> onak_conf) option" where
  "mail_setting name value c =
     (if name = ascii ''maintainer_email'' then Some (True, c\<lparr>cf_adminemail := Some value\<rparr>)
      else if name = ascii ''mail_dir'' then Some (True, c\<lparr>cf_mail_dir := Some value\<rparr>)
      else if name = ascii ''mta'' then Some (True, c\<lparr>cf_mta := Some value\<rparr>)
      else if name = ascii ''bin_dir'' then Some (True, c\<lparr>cf_bin_dir := Some value\<rparr>)
      else if name = ascii ''this_site'' then Some (True, c\<lparr>cf_thissite := Some value\<rparr>)
      else if name = ascii ''syncsite'' then Some (True, c\<lparr>cf_syncsites := value # cf_syncsites c\<rparr>)
      else Some (False, c))"

definition verification_setting :: "conf_env \<Rightarrow> bytes \<Rightarrow> bytes \<Rightarrow> onak_conf \<Rightarrow> (bool \<times> onak_conf) option" where
  "verification_setting env name value c =
     (if name = ascii ''blacklist'' then
        map_option (\<lambda>(a, _). (True, c\<lparr>cf_blacklist := a\<rparr>)) (array_load (cf_blacklist c) (conf_files env value))
      else if name = ascii ''drop_v3'' then Some (True, c)
      else if name = ascii ''check_sighash'' then Some (True, set_policy ONAK_CLEAN_CHECK_SIGHASH value c)
      else if name = ascii ''check_packet_size'' then Some (True, set_policy ONAK_CLEAN_LARGE_PACKETS value c)
      else if name = ascii ''cap_uids_per_key'' then Some (True, set_policy ONAK_CLEAN_CAP_UIDS value c)
      else if name = ascii ''cap_uats_per_key'' then Some (True, set_policy ONAK_CLEAN_CAP_UATS value c)
      else if name = ascii ''max_sigs_per_uid'' then map_option (\<lambda>n. (True, c\<lparr>cf_max_sigs_per_uid := n\<rparr>)) (atoi value)
      else if name = ascii ''max_sigs_per_uat'' then map_option (\<lambda>n. (True, c\<lparr>cf_max_sigs_per_uat := n\<rparr>)) (atoi value)
      else if name = ascii ''require_other_sig'' then
        Some (True, if have_crypto env then set_policy ONAK_CLEAN_NEED_OTHER_SIG value c else c)
      else if name = ascii ''update_only'' then Some (True, set_policy ONAK_CLEAN_UPDATE_ONLY value c)
      else if name = ascii ''verify_signatures'' then
        Some (True, if have_crypto env then set_policy ONAK_CLEAN_VERIFY_SIGNATURES value c else c)
      else Some (False, c))"

definition setting :: "conf_env \<Rightarrow> bytes \<Rightarrow> bytes \<Rightarrow> bytes \<Rightarrow> onak_conf \<Rightarrow> (bool \<times> onak_conf) option" where
  "setting env section name value c =
     (if starts ''backend:'' section then Some (True, set_backend (drop 8 section) (backend_setting name value) c)
      else if section = ascii ''main'' then main_setting name value c
      else if section = ascii ''mail'' then mail_setting name value c
      else if section = ascii ''verification'' then verification_setting env name value c
      else Some (False, c))"

text \<open>The section is a static variable of 32 octets.\<close>

definition parseconfigline :: "conf_env \<Rightarrow> bytes \<Rightarrow> bytes \<times> onak_conf \<Rightarrow> (bool \<times> bytes \<times> onak_conf) option" where
  "parseconfigline env line = (\<lambda>(section, c).
     if line = [] \<or> hd line = 35 \<or> hd line = 59 then Some (True, section, c)
     else if hd line = 91 then
       if last line \<noteq> 93 then Some (False, section, c)
       else if length line > 32 then Some (False, section, c)
       else Some (True, butlast (tl line), c)
     else if 61 \<in> set line then
       do { (ok, c) \<leftarrow> setting env section (takeWhile (\<lambda>c. c \<noteq> 61) line) (tl (dropWhile (\<lambda>c. c \<noteq> 61) line)) c; Some (ok, section, c) }
     else Some (False, section, c))"

section \<open>Reading\<close>

text \<open>A line without white space at its ends.\<close>

definition conf_line :: "bytes \<Rightarrow> bytes" where
  "conf_line curline = dropWhile isspace (strip_line curline)"

definition parse_line :: "conf_env \<Rightarrow> bool \<Rightarrow> bytes \<Rightarrow> bytes \<times> onak_conf \<Rightarrow> (bytes \<times> onak_conf) option" where
  "parse_line env oldstyle line = (\<lambda>(section, c).
     if oldstyle then map_option (\<lambda>(_, c). (section, c)) (parseoldconfigline line c)
     else map_option snd (parseconfigline env line (section, c)))"

function conf_loop :: "conf_env \<Rightarrow> bool \<Rightarrow> bytes \<times> onak_conf \<Rightarrow> bytes \<Rightarrow> bytes \<Rightarrow> bool \<Rightarrow> (bytes \<times> onak_conf) option" where
  "conf_loop env oldstyle sc curline rest eof =
     (if eof then Some sc
      else (case parse_line env oldstyle (conf_line curline) sc of
              None \<Rightarrow> None
            | Some sc \<Rightarrow>
                (case fgets 1022 rest of
                   None \<Rightarrow> Some sc
                 | Some (curline, rest, eof) \<Rightarrow> conf_loop env oldstyle sc curline rest eof)))"
  by pat_completeness auto
termination
  by (relation "measure (\<lambda>(env, oldstyle, sc, curline, rest, eof). length rest)") (auto dest: fgets_progress)

declare conf_loop.simps [simp del]

text \<open>
  Where the file is looked for: \<open>dir\<close> is \<open>CONFIGDIR\<close>, \<open>xdg\<close> and \<open>home\<close> are \<open>XDG_CONFIG_HOME\<close> and \<open>HOME\<close>. The result says whether it is
  of the old style, and has the text if the file can be opened. For a given name of less than five characters the test of its ending
  reads in front of it.
\<close>

definition conf_or_ini :: "conf_env \<Rightarrow> bytes \<Rightarrow> bool \<times> bytes option" where
  "conf_or_ini env dir =
     (case conf_files env (dir @ ascii ''/onak.conf'') of
        Some text \<Rightarrow> (True, Some text)
      | None \<Rightarrow> (False, conf_files env (dir @ ascii ''/onak.ini'')))"

definition find_config :: "conf_env \<Rightarrow> bytes \<Rightarrow> bytes option \<Rightarrow> bytes option \<Rightarrow> bytes option \<Rightarrow> (bool \<times> bytes option) option" where
  "find_config env dir xdg home configfile =
     (case configfile of
        Some name \<Rightarrow>
          if length name < 5 then None
          else Some (drop (length name - 5) name = ascii ''.conf'', conf_files env name)
      | None \<Rightarrow>
          let (oldstyle, text) = (case xdg of
                Some d \<Rightarrow> conf_or_ini env d
              | None \<Rightarrow> (case home of Some d \<Rightarrow> conf_or_ini env (d @ ascii ''/.config'') | None \<Rightarrow> (False, None)))
          in Some (if text = None then conf_or_ini env dir else (oldstyle, text)))"

definition choose_backend :: "bool \<Rightarrow> onak_conf \<Rightarrow> onak_conf" where
  "choose_backend oldstyle c =
     (case cf_db_backend c of
        None \<Rightarrow> c
      | Some name \<Rightarrow> if oldstyle then c else c\<lparr>cf_backend := find_db_backend_config (cf_backends c) name\<rparr>)"

text \<open>Reading the text; an empty file is a problem.\<close>

definition read_conf :: "conf_env \<Rightarrow> bool \<Rightarrow> bytes \<Rightarrow> bytes \<times> onak_conf \<Rightarrow> (bytes \<times> onak_conf) option" where
  "read_conf env oldstyle text = (\<lambda>(section, c).
     (case fgets 1022 text of
        None \<Rightarrow> Some (section, c)
      | Some (curline, rest, eof) \<Rightarrow>
          map_option (\<lambda>(section, c). (section, choose_backend oldstyle c))
            (conf_loop env oldstyle
              (section, if oldstyle then c\<lparr>cf_backend := Some 0, cf_backends := [no_backend]\<rparr> else c) curline rest eof)))"

definition readconfig :: "conf_env \<Rightarrow> bytes \<Rightarrow> bytes option \<Rightarrow> bytes option \<Rightarrow> bytes option \<Rightarrow> bytes \<times> onak_conf \<Rightarrow>
    (bytes \<times> onak_conf) option" where
  "readconfig env dir xdg home configfile sc =
     do { (oldstyle, text) \<leftarrow> find_config env dir xdg home configfile;
          case text of None \<Rightarrow> Some sc | Some text \<Rightarrow> read_conf env oldstyle text sc }"

section \<open>Writing\<close>

fun decimal_nat :: "nat \<Rightarrow> bytes" where
  "decimal_nat n = (if n < 10 then [48 + word_of_nat n] else decimal_nat (n div 10) @ [48 + word_of_nat (n mod 10)])"

declare decimal_nat.simps [simp del]

definition decimal :: "int \<Rightarrow> bytes" where
  "decimal n = (if n < 0 then 45 # decimal_nat (nat (- n)) else decimal_nat (nat n))"

text \<open>The lines of the file, without their newlines.\<close>

definition conf_value :: "string \<Rightarrow> bytes \<Rightarrow> bytes" where
  "conf_value name v = ascii name @ 61 # v"

definition WRITE_IF_NOT_NULL :: "bytes option \<Rightarrow> string \<Rightarrow> bytes list" where
  "WRITE_IF_NOT_NULL v name = (case v of None \<Rightarrow> [] | Some v \<Rightarrow> [conf_value name v])"

definition WRITE_BOOL :: "bool \<Rightarrow> string \<Rightarrow> bytes list" where
  "WRITE_BOOL b name = [conf_value name (if b then ascii ''true'' else ascii ''false'')]"

definition main_lines :: "onak_db_config \<Rightarrow> onak_conf \<Rightarrow> bytes list" where
  "main_lines b c =
     WRITE_IF_NOT_NULL (bc_name b) ''backend'' @ WRITE_IF_NOT_NULL (cf_backends_dir c) ''backends_dir'' @
     WRITE_IF_NOT_NULL (cf_template_dir c) ''template_dir'' @ WRITE_IF_NOT_NULL (cf_logfile c) ''logfile'' @
     [conf_value ''loglevel'' (decimal (cf_loglevel c))] @ WRITE_BOOL (cf_use_keyd c) ''use_keyd'' @
     WRITE_IF_NOT_NULL (cf_sock_dir c) ''sock_dir'' @ [conf_value ''max_reply_keys'' (decimal (cf_maxkeys c))] @
     WRITE_IF_NOT_NULL (cf_server_contact c) ''server_contact''"

definition verification_lines :: "onak_conf \<Rightarrow> bytes list" where
  "verification_lines c =
     WRITE_BOOL (cf_clean_policies c AND ONAK_CLEAN_CHECK_SIGHASH \<noteq> 0) ''check_sighash'' @
     WRITE_BOOL (cf_clean_policies c AND ONAK_CLEAN_CAP_UIDS \<noteq> 0) ''cap_uids_per_key'' @
     WRITE_BOOL (cf_clean_policies c AND ONAK_CLEAN_CAP_UATS \<noteq> 0) ''cap_uats_per_key'' @
     [conf_value ''max_sigs_per_uid'' (decimal (cf_max_sigs_per_uid c)),
      conf_value ''max_sigs_per_uat'' (decimal (cf_max_sigs_per_uat c))]"

definition mail_lines :: "onak_conf \<Rightarrow> bytes list" where
  "mail_lines c =
     WRITE_IF_NOT_NULL (cf_adminemail c) ''maintainer_email'' @ WRITE_IF_NOT_NULL (cf_mail_dir c) ''mail_dir'' @
     WRITE_IF_NOT_NULL (cf_mta c) ''mta'' @ WRITE_IF_NOT_NULL (cf_bin_dir c) ''bin_dir'' @
     WRITE_IF_NOT_NULL (cf_thissite c) ''this_site'' @ map (conf_value ''syncsite'') (cf_syncsites c)"

text \<open>A null pointer for the name is printed by \<open>%s\<close>, which is undefined.\<close>

definition backend_lines :: "onak_db_config \<Rightarrow> bytes list option" where
  "backend_lines b =
     map_option (\<lambda>name. [[], ascii ''[backend:'' @ name @ [93]] @
       WRITE_IF_NOT_NULL (bc_type b) ''type'' @ WRITE_IF_NOT_NULL (bc_location b) ''location'' @
       WRITE_IF_NOT_NULL (bc_hostname b) ''hostname'' @ WRITE_IF_NOT_NULL (bc_username b) ''username'' @
       WRITE_IF_NOT_NULL (bc_password b) ''password'') (bc_name b)"

fun all_backend_lines :: "onak_db_config list \<Rightarrow> bytes list option" where
  "all_backend_lines [] = Some []"
| "all_backend_lines (b # bs) = do { l \<leftarrow> backend_lines b; ls \<leftarrow> all_backend_lines bs; Some (l @ ls) }"

text \<open>The text that is written; the pointer to the back end is not checked.\<close>

definition writeconfig :: "onak_conf \<Rightarrow> bytes option" where
  "writeconfig c =
     do { i \<leftarrow> cf_backend c;
          ls \<leftarrow> all_backend_lines (cf_backends c);
          if i < length (cf_backends c) then
            Some (file_text
              ([ascii ''[main]''] @ main_lines (cf_backends c ! i) c @ [[], ascii ''[verification]''] @ verification_lines c @
               [[], ascii ''[mail]''] @ mail_lines c @ ls) [])
          else None }"

text \<open>Freeing everything. The pointer to the back end in use stays, and points to nothing of the list.\<close>

definition cleanupconfig :: "onak_conf \<Rightarrow> onak_conf" where
  "cleanupconfig c =
     c\<lparr>cf_backends := [], cf_thissite := None, cf_adminemail := None, cf_mta := None, cf_server_contact := None, cf_syncsites := [],
       cf_logfile := None, cf_db_backend := None, cf_backends_dir := None, cf_template_dir := None, cf_sock_dir := None,
       cf_bin_dir := None, cf_mail_dir := None,
       cf_blacklist := if ka_count (cf_blacklist c) \<noteq> 0 then array_free (cf_blacklist c) else cf_blacklist c\<rparr>"

text \<open>After that a configuration cannot be written: without back ends there is nothing that the pointer can point to.\<close>

lemma writeconfig_cleanup: "writeconfig (cleanupconfig c) = None"
  by (simp add: writeconfig_def cleanupconfig_def split: Option.bind_split)

section \<open>What reading keeps\<close>

text \<open>
  The name of the section fits into its buffer, the back end in use is one of the list, no two back ends have the same name and
  the array of blocked keys is as \<open>keyarray.c\<close> needs it.
\<close>

fun conf_wf :: "bytes \<times> onak_conf \<Rightarrow> bool" where
  "conf_wf (section, c) \<longleftrightarrow> length section < 32 \<and> pred_option (\<lambda>i. i < length (cf_backends c)) (cf_backend c) \<and>
     distinct (map bc_name (cf_backends c)) \<and> keyarray_ok (cf_blacklist c)"

lemma array_load_loop_ok:
  "keyarray_ok arr \<Longrightarrow> array_load_loop arr curline rest eof = Some arr' \<Longrightarrow> keyarray_ok arr'"
proof (induction arr curline rest eof rule: array_load_loop.induct)
  case (1 arr curline rest eof)
  have "keyarray_ok a" if "array_add arr f = Some (a, b)" "line_entry curline = Some f" for a b f
    using keyarray_set.add_law [OF 1(2) line_entry_ok [OF that(2)]] that(1) by auto
  then have "keyarray_ok a" if "(case line_entry curline of None \<Rightarrow> Some arr | Some f \<Rightarrow> map_option fst (array_add arr f)) = Some a" for a
    using that 1(2) by (auto split: option.splits)
  with 1(1,3) 1(2) show ?case
    by (subst (asm) (2) array_load_loop.simps) (auto split: if_splits option.splits)
qed

lemma array_load_ok: "keyarray_ok arr \<Longrightarrow> array_load arr file = Some (arr', b) \<Longrightarrow> keyarray_ok arr'"
  by (auto simp: array_load_def split: option.splits Option.bind_splits dest: array_load_loop_ok)

lemma find_backend_None: "find_db_backend_config bs name = None \<longleftrightarrow> Some name \<notin> bc_name ` set bs"
proof -
  have "length (takeWhile P l) < length l \<longleftrightarrow> \<not> list_all P l" for P and l :: "onak_db_config list"
    by (induction l) auto
  then show ?thesis by (auto simp: find_db_backend_config_def Let_def list_all_iff intro: rev_image_eqI)
qed

lemma find_backend_bound: "find_db_backend_config bs name = Some i \<Longrightarrow> i < length bs"
  by (auto simp: find_db_backend_config_def Let_def split: if_splits)

lemma update_names: "bc_name (f (bs ! i)) = bc_name (bs ! i) \<Longrightarrow> map bc_name (bs[i := f (bs ! i)]) = map bc_name bs"
  by (cases "i < length bs") (simp_all add: map_update list_update_beyond nth_map [symmetric, of i bs bc_name] del: nth_map)

lemma set_backend_wf:
  assumes "\<And>b. bc_name (f b) = bc_name b" and "conf_wf (section, c)"
  shows "conf_wf (section, set_backend name f c)"
proof (cases "find_db_backend_config (cf_backends c) name")
  case None
  then have "Some name \<notin> bc_name ` set (cf_backends c)" by (simp add: find_backend_None)
  with assms None show ?thesis by (cases "cf_backend c") (auto simp: set_backend_def)
next
  case (Some i)
  then show ?thesis using assms by (simp add: set_backend_def update_names)
qed

lemma same_wf:
  assumes "conf_wf (section, c)" and "cf_backends c' = cf_backends c" and "cf_backend c' = cf_backend c" and "keyarray_ok (cf_blacklist c')"
  shows "conf_wf (section, c')"
  using assms by simp

lemmas setting_defs = main_setting_def mail_setting_def verification_setting_def set_policy_def Let_def

lemma setting_same:
  "main_setting name value c = Some (ok, c') \<Longrightarrow> cf_backends c' = cf_backends c \<and> cf_backend c' = cf_backend c \<and> cf_blacklist c' = cf_blacklist c"
  "mail_setting name value c = Some (ok, c') \<Longrightarrow> cf_backends c' = cf_backends c \<and> cf_backend c' = cf_backend c \<and> cf_blacklist c' = cf_blacklist c"
  "verification_setting env name value c = Some (ok, c') \<Longrightarrow> keyarray_ok (cf_blacklist c) \<Longrightarrow>
    cf_backends c' = cf_backends c \<and> cf_backend c' = cf_backend c \<and> keyarray_ok (cf_blacklist c')"
  by (auto simp: setting_defs dest: array_load_ok split: if_splits)

lemma setting_wf:
  assumes "setting env section name value c = Some (ok, c')" and "conf_wf (section, c)"
  shows "conf_wf (section, c')"
proof -
  have "bc_name (backend_setting name value b) = bc_name b" for b by (simp add: backend_setting_def)
  note backend = set_backend_wf [OF this assms(2)]
  have k: "keyarray_ok (cf_blacklist c)" using assms(2) by simp
  consider "c' = set_backend (drop 8 section) (backend_setting name value) c" | "main_setting name value c = Some (ok, c')"
    | "mail_setting name value c = Some (ok, c')" | "verification_setting env name value c = Some (ok, c')" | "c' = c"
    using assms(1) unfolding setting_def by (auto split: if_splits)
  then show ?thesis
  proof cases
    case 1
    then show ?thesis using backend by simp
  next
    case 2
    then show ?thesis using setting_same(1) k by (intro same_wf [OF assms(2)]) auto
  next
    case 3
    then show ?thesis using setting_same(2) k by (intro same_wf [OF assms(2)]) auto
  next
    case 4
    then show ?thesis using setting_same(3) k by (intro same_wf [OF assms(2)]) auto
  qed (use assms in simp)
qed

lemma oldline_same:
  assumes "parseoldconfigline line c = Some (ok, c')"
  shows "length (cf_backends c') = length (cf_backends c) \<and> cf_backend c' = cf_backend c \<and> cf_blacklist c' = cf_blacklist c"
  using assms by (auto simp: parseoldconfigline_def on_backend_def set_policy_def Let_def split: if_splits Option.bind_splits)

lemma parse_line_wf:
  assumes "parse_line env oldstyle line (section, c) = Some (section', c')" and "conf_wf (section, c)"
    and "oldstyle \<longrightarrow> length (cf_backends c) = 1"
  shows "conf_wf (section', c') \<and> (oldstyle \<longrightarrow> length (cf_backends c') = 1)"
proof (cases oldstyle)
  case True
  obtain ok where "parseoldconfigline line c = Some (ok, c')" "section' = section" using assms(1) True by (auto simp: parse_line_def)
  moreover have "distinct (map bc_name bs)" if "length bs = 1" for bs :: "onak_db_config list" using that by (cases bs) auto
  ultimately show ?thesis using oldline_same [of line c ok c'] assms True by simp
next
  case False
  then show ?thesis using assms(1,2) setting_wf [OF _ assms(2)]
    by (auto simp: parse_line_def parseconfigline_def split: if_splits Option.bind_splits)
qed

lemma conf_loop_wf:
  "conf_loop env oldstyle sc curline rest eof = Some sc' \<Longrightarrow> conf_wf sc \<Longrightarrow> oldstyle \<longrightarrow> length (cf_backends (snd sc)) = 1 \<Longrightarrow> conf_wf sc'"
proof (induction env oldstyle sc curline rest eof rule: conf_loop.induct)
  case (1 env oldstyle sc curline rest eof)
  show ?case
  proof (cases "eof \<or> parse_line env oldstyle (conf_line curline) sc = None")
    case True
    then show ?thesis using 1(2,3) by (subst (asm) conf_loop.simps) (auto split: if_splits)
  next
    case False
    then obtain sc1 where p: "\<not> eof" "parse_line env oldstyle (conf_line curline) sc = Some sc1" by auto
    then have wf: "conf_wf sc1" "oldstyle \<longrightarrow> length (cf_backends (snd sc1)) = 1"
      using parse_line_wf [of env oldstyle "conf_line curline" "fst sc" "snd sc" "fst sc1" "snd sc1"] 1(3,4) by simp_all
    from 1(2) p show ?thesis
      using 1(1) [OF p _ refl refl _ wf] wf(1) by (subst (asm) conf_loop.simps) (auto split: option.splits)
  qed
qed


definition sample_env :: conf_env where
  "sample_env = \<lparr>have_crypto = True, conf_files = \<lambda>_. Some (ascii ''[backend:a]'' @ 10 # ascii ''type=fs'' @ 10 # ascii ''[main]'' @ 10 # ascii ''backend=a'' @ [10])\<rparr>"


section \<open>Reading what was written\<close>

text \<open>The lines of a text, one after the other.\<close>

fun parse_lines :: "conf_env \<Rightarrow> bool \<Rightarrow> bytes list \<Rightarrow> bytes \<times> onak_conf \<Rightarrow> (bytes \<times> onak_conf) option" where
  "parse_lines env oldstyle [] sc = Some sc"
| "parse_lines env oldstyle (l # ls) sc = do { sc \<leftarrow> parse_line env oldstyle l sc; parse_lines env oldstyle ls sc }"

lemma parse_lines_append:
  "parse_lines env oldstyle (ls @ ls') sc = do { sc \<leftarrow> parse_lines env oldstyle ls sc; parse_lines env oldstyle ls' sc }"
  by (induction ls arbitrary: sc) (auto split: Option.bind_split)

lemma conf_loop_lines:
  "list_all line_ok (l # ls) \<Longrightarrow>
   conf_loop env oldstyle sc (l @ [10]) (file_text ls []) False =
     parse_lines env oldstyle (map (\<lambda>l. conf_line (l @ [10])) (l # ls)) sc"
proof (induction ls arbitrary: l sc)
  case Nil
  then show ?case by (subst conf_loop.simps) (simp add: file_text_def fgets_Nil split: option.split Option.bind_split)
next
  case (Cons l2 ls)
  have f: "fgets 1022 (file_text (l2 # ls) []) = Some (l2 @ [10], file_text ls [], False)"
    using fgets_line [of l2 1022 "file_text ls []"] Cons.prems by (simp add: file_text_def line_ok_def)
  have ih: "conf_loop env oldstyle sc (l2 @ [10]) (file_text ls []) False =
      parse_lines env oldstyle (map (\<lambda>l. conf_line (l @ [10])) (l2 # ls)) sc" for sc
    using Cons by simp
  show ?case by (subst conf_loop.simps) (simp add: f ih split: option.split Option.bind_split)
qed

text \<open>A line with no white space at its ends and no NUL is taken as it is.\<close>

definition conf_line_ok :: "bytes \<Rightarrow> bool" where
  "conf_line_ok l \<longleftrightarrow> line_ok l \<and> 0 \<notin> set l \<and> (l \<noteq> [] \<longrightarrow> \<not> isspace (hd l) \<and> \<not> isspace (last l))"

lemma conf_line_id: "conf_line_ok l \<Longrightarrow> conf_line (l @ [10]) = l"
proof -
  assume l: "conf_line_ok l"
  have "takeWhile (\<lambda>c. c \<noteq> 0) (l @ [10]) = l @ [10]" using l by (auto simp: conf_line_ok_def takeWhile_eq_all_conv)
  moreover have "isspace 10" by (simp add: isspace_def)
  moreover have "rev (dropWhile isspace (rev l)) = l" using l
    by (cases l rule: rev_cases) (auto simp: conf_line_ok_def)
  moreover have "dropWhile isspace l = l" using l by (cases l) (auto simp: conf_line_ok_def)
  ultimately show ?thesis by (simp add: conf_line_def strip_line_def)
qed

lemma read_conf_lines:
  assumes "list_all conf_line_ok ls" and "ls \<noteq> []"
  shows "read_conf env False (file_text ls []) (section, c) =
    map_option (\<lambda>(section, c). (section, choose_backend False c)) (parse_lines env False ls (section, c))"
proof -
  obtain l ls' where ls: "ls = l # ls'" using assms(2) by (cases ls) auto
  have ok: "list_all line_ok (l # ls')" using assms(1) by (auto simp: ls conf_line_ok_def list_all_iff)
  have f: "fgets 1022 (file_text ls []) = Some (l @ [10], file_text ls' [], False)"
    using fgets_line [of l 1022 "file_text ls' []"] ok by (simp add: ls file_text_def line_ok_def)
  have "map (\<lambda>l. conf_line (l @ [10])) ls = ls" using assms(1) by (auto simp: list_all_iff conf_line_id intro: map_idI)
  then show ?thesis using conf_loop_lines [OF ok, of env False] by (simp add: read_conf_def f [unfolded ls] ls)
qed

lemma octet_inj: "inj (\<lambda>c. word_of_nat (of_char c) :: u8)"
proof (rule injI)
  fix c d :: char assume "(word_of_nat (of_char c) :: u8) = word_of_nat (of_char d)"
  then have "unat (word_of_nat (of_char c) :: u8) = unat (word_of_nat (of_char d) :: u8)" by simp
  then have "(of_char c :: nat) = of_char d" by (simp add: unat_of_nat)
  then show "c = d" by simp
qed

lemma ascii_inj [simp]: "ascii s = ascii t \<longleftrightarrow> s = t"
  unfolding ascii_def by (rule inj_map_eq_map [OF octet_inj])

lemma ascii_simps [simp]:
  "length (ascii s) = length s" "take n (ascii s) = ascii (take n s)" "drop n (ascii s) = ascii (drop n s)"
  "ascii s = [] \<longleftrightarrow> s = []" "ascii [] = []"
  by (simp_all add: ascii_def take_map drop_map)

lemma in_ascii: "word_of_nat (of_char c) \<in> set (ascii s) \<longleftrightarrow> c \<in> set s"
  unfolding ascii_def set_map by (rule inj_image_mem_iff [OF octet_inj])

definition plain_name :: "string \<Rightarrow> bool" where
  "plain_name s \<longleftrightarrow> s \<noteq> [] \<and> CHR ''='' \<notin> set s \<and> hd s \<notin> {CHR ''#'', CHR '';'', CHR ''[''}"

lemma plain_name_ascii:
  assumes "plain_name s"
  shows "ascii s \<noteq> []" and "61 \<notin> set (ascii s)" and "hd (ascii s) \<notin> {35, 59, 91}"
proof -
  have "(word_of_nat (of_char (CHR ''=''))) = (61 :: u8)" by simp
  with assms in_ascii [of "CHR ''=''" s] show "61 \<notin> set (ascii s)" by (simp add: plain_name_def)
  show "ascii s \<noteq> []" using assms by (simp add: plain_name_def)
  have eq: "word_of_nat (of_char c) = (word_of_nat (of_char d) :: u8) \<longleftrightarrow> c = d" for c d
    using injD [OF octet_inj] by blast
  have h: "hd (ascii s) = word_of_nat (of_char (hd s))" using assms by (cases s) (simp_all add: ascii_def plain_name_def)
  have "hd (ascii s) \<noteq> word_of_nat (of_char c)" if "c \<in> {CHR ''#'', CHR '';'', CHR ''[''}" for c
    using assms that by (auto simp: h eq plain_name_def)
  from this [of "CHR ''#''"] this [of "CHR '';''"] this [of "CHR ''[''"] show "hd (ascii s) \<notin> {35, 59, 91}" by simp
qed

lemma parse_setting:
  assumes "plain_name name"
  shows "parse_line env False (conf_value name v) (section, c) =
    map_option (\<lambda>(_, c). (section, c)) (setting env section (ascii name) v c)"
proof -
  note n = plain_name_ascii [OF assms]
  have "takeWhile (\<lambda>c. c \<noteq> 61) (ascii name @ 61 # v) = ascii name" "dropWhile (\<lambda>c. c \<noteq> 61) (ascii name @ 61 # v) = 61 # v"
    using n(2) by (auto simp: takeWhile_append dropWhile_append)
  with n show ?thesis
    by (auto simp: parse_line_def parseconfigline_def conf_value_def split: option.split Option.bind_split)
qed

lemma parse_section:
  "length name \<le> 30 \<Longrightarrow> parse_line env False (91 # name @ [93]) (section, c) = Some (name, c)"
  by (simp add: parse_line_def parseconfigline_def butlast_append)

lemma parse_empty: "parse_line env False [] (section, c) = Some (section, c)"
  by (simp add: parse_line_def parseconfigline_def)

section \<open>Numbers\<close>

lemma decimal_nat_digits: "list_all isdigit (decimal_nat n) \<and> decimal_nat n \<noteq> [] \<and> digits_value (decimal_nat n) = n"
proof (induction n rule: less_induct)
  case (less n)
  have d: "isdigit (48 + word_of_nat m)" "unat (48 + word_of_nat m :: u8) - 48 = m" if "m < 10" for m
  proof -
    have "unat (48 + word_of_nat m :: u8) = 48 + m" using that by (simp add: unat_word_ariths unat_of_nat)
    then show "isdigit (48 + word_of_nat m)" "unat (48 + word_of_nat m :: u8) - 48 = m"
      using that by (simp_all add: isdigit_def word_le_nat_alt)
  qed
  show ?case
  proof (cases "n < 10")
    case True
    then show ?thesis using d by (subst (1 2 3) decimal_nat.simps) (simp add: digits_value_def)
  next
    case False
    then have "n div 10 < n" by simp
    from less.IH [OF this] False d [of "n mod 10"] show ?thesis
      by (subst (1 2 3) decimal_nat.simps) (simp add: digits_value_def)
  qed
qed

lemma atoi_decimal:
  assumes "- (2 ^ 31) \<le> n" and "n < 2 ^ 31"
  shows "atoi (decimal n) = Some n"
proof -
  have digits: "takeWhile isdigit (decimal_nat m) = decimal_nat m" "hd (decimal_nat m) \<noteq> 43" "hd (decimal_nat m) \<noteq> 45"
    "dropWhile isspace (decimal_nat m) = decimal_nat m" for m
  proof -
    obtain c l where l: "decimal_nat m = c # l" "isdigit c" "list_all isdigit (decimal_nat m)"
      using decimal_nat_digits [of m] by (cases "decimal_nat m") auto
    have c: "c \<noteq> 43" "c \<noteq> 45" "\<not> isspace c" using l(2) by (auto simp: isdigit_def isspace_def word_le_nat_alt)
    show "takeWhile isdigit (decimal_nat m) = decimal_nat m" using l(3) by (simp add: takeWhile_eq_all_conv list_all_iff)
    show "hd (decimal_nat m) \<noteq> 43" "hd (decimal_nat m) \<noteq> 45" "dropWhile isspace (decimal_nat m) = decimal_nat m"
      using c l(1) by simp_all
  qed
  have "\<not> isspace 45" by (simp add: isspace_def)
  moreover have "int (digits_value (takeWhile isdigit (decimal_nat m))) = int m" for m
    by (simp only: digits(1)) (simp add: decimal_nat_digits)
  ultimately show ?thesis using assms
    by (simp only: atoi_def decimal_def Let_def) (auto simp: digits(2-4) decimal_nat_digits nat_less_iff nat_le_iff)
qed

section \<open>The round trip\<close>

definition given :: "'a option \<Rightarrow> 'a option \<Rightarrow> 'a option" where
  "given v w = (if v = None then w else v)"

lemma given_simps [simp]: "given (Some x) w = Some x" "given None w = w" "given v None = v"
  by (simp_all add: given_def)

lemma read_if_not_null:
  assumes "plain_name name" and "\<And>x. setting env section (ascii name) x d = Some (True, upd (\<lambda>_. Some x) d)" and "upd (\<lambda>w. w) d = d"
  shows "parse_lines env False (WRITE_IF_NOT_NULL v name) (section, d) = Some (section, upd (given v) d)"
proof (cases v)
  case None
  have g: "given None = (\<lambda>w. w)" by (rule ext) simp
  show ?thesis unfolding None g assms(3) by (simp add: WRITE_IF_NOT_NULL_def)
next
  case (Some x)
  have g: "given (Some x) = (\<lambda>w. Some x)" by (rule ext) simp
  show ?thesis unfolding Some g using assms(1,2) by (simp add: WRITE_IF_NOT_NULL_def parse_setting)
qed

lemma parsebool_written: "parsebool (if b then ascii ''true'' else ascii ''false'') f = b"
  by (simp add: parsebool_def same_nocase_def) (simp add: ascii_def tolower_def)

lemma read_main:
  assumes "- (2 ^ 31) \<le> cf_loglevel c" "cf_loglevel c < 2 ^ 31" "- (2 ^ 31) \<le> cf_maxkeys c" "cf_maxkeys c < 2 ^ 31"
  shows "parse_lines env False (main_lines b c) (ascii ''main'', d) =
    Some (ascii ''main'', d\<lparr>cf_db_backend := given (bc_name b) (cf_db_backend d), cf_backends_dir := given (cf_backends_dir c) (cf_backends_dir d),
      cf_template_dir := given (cf_template_dir c) (cf_template_dir d), cf_logfile := given (cf_logfile c) (cf_logfile d),
      cf_loglevel := cf_loglevel c, cf_use_keyd := cf_use_keyd c, cf_sock_dir := given (cf_sock_dir c) (cf_sock_dir d),
      cf_maxkeys := cf_maxkeys c, cf_server_contact := given (cf_server_contact c) (cf_server_contact d)\<rparr>)"
proof -
  have main: "setting env (ascii ''main'') name v d = main_setting name v d" for name v d
    by (simp add: setting_def starts_def)
  have w: "parse_lines env False (WRITE_IF_NOT_NULL v ''backend'') (ascii ''main'', d) = Some (ascii ''main'', cf_db_backend_update (given v) d)"
    "parse_lines env False (WRITE_IF_NOT_NULL v ''backends_dir'') (ascii ''main'', d) = Some (ascii ''main'', cf_backends_dir_update (given v) d)"
    "parse_lines env False (WRITE_IF_NOT_NULL v ''template_dir'') (ascii ''main'', d) = Some (ascii ''main'', cf_template_dir_update (given v) d)"
    "parse_lines env False (WRITE_IF_NOT_NULL v ''logfile'') (ascii ''main'', d) = Some (ascii ''main'', cf_logfile_update (given v) d)"
    "parse_lines env False (WRITE_IF_NOT_NULL v ''sock_dir'') (ascii ''main'', d) = Some (ascii ''main'', cf_sock_dir_update (given v) d)"
    "parse_lines env False (WRITE_IF_NOT_NULL v ''server_contact'') (ascii ''main'', d) = Some (ascii ''main'', cf_server_contact_update (given v) d)"
    for v d
    by (rule read_if_not_null; simp add: main main_setting_def plain_name_def)+
  have n: "parse_line env False (conf_value ''loglevel'' (decimal (cf_loglevel c))) (ascii ''main'', d) = Some (ascii ''main'', d\<lparr>cf_loglevel := cf_loglevel c\<rparr>)"
    "parse_line env False (conf_value ''max_reply_keys'' (decimal (cf_maxkeys c))) (ascii ''main'', d) = Some (ascii ''main'', d\<lparr>cf_maxkeys := cf_maxkeys c\<rparr>)"
    "parse_lines env False (WRITE_BOOL (cf_use_keyd c) ''use_keyd'') (ascii ''main'', d) = Some (ascii ''main'', d\<lparr>cf_use_keyd := cf_use_keyd c\<rparr>)"
    for d
    using assms by (simp_all add: parse_setting plain_name_def main main_setting_def atoi_decimal WRITE_BOOL_def parsebool_written)
  show ?thesis unfolding main_lines_def by (simp add: parse_lines_append w n)
qed

lemma set_policy_written:
  "set_policy flag (if b then ascii ''true'' else ascii ''false'') d =
     d\<lparr>cf_clean_policies := if b then cf_clean_policies d OR flag else cf_clean_policies d AND NOT flag\<rparr>"
  unfolding set_policy_def parsebool_written Let_def ..

definition kept_policies :: "u64 \<Rightarrow> u64 \<Rightarrow> u64 \<Rightarrow> u64" where
  "kept_policies flag p q = (if p AND flag \<noteq> 0 then q OR flag else q AND NOT flag)"

lemma read_verification:
  assumes "- (2 ^ 31) \<le> cf_max_sigs_per_uid c" "cf_max_sigs_per_uid c < 2 ^ 31" "- (2 ^ 31) \<le> cf_max_sigs_per_uat c" "cf_max_sigs_per_uat c < 2 ^ 31"
  shows "parse_lines env False (verification_lines c) (ascii ''verification'', d) =
    Some (ascii ''verification'', d\<lparr>cf_clean_policies := kept_policies ONAK_CLEAN_CAP_UATS (cf_clean_policies c)
        (kept_policies ONAK_CLEAN_CAP_UIDS (cf_clean_policies c)
          (kept_policies ONAK_CLEAN_CHECK_SIGHASH (cf_clean_policies c) (cf_clean_policies d))),
      cf_max_sigs_per_uid := cf_max_sigs_per_uid c, cf_max_sigs_per_uat := cf_max_sigs_per_uat c\<rparr>)"
proof -
  have ver: "setting env (ascii ''verification'') name v d = verification_setting env name v d" for name v d
    by (simp add: setting_def starts_def)
  have "parse_lines env False (WRITE_BOOL b ''check_sighash'') (ascii ''verification'', d) =
      Some (ascii ''verification'', d\<lparr>cf_clean_policies := if b then cf_clean_policies d OR 1 else cf_clean_policies d AND NOT 1\<rparr>)"
    "parse_lines env False (WRITE_BOOL b ''cap_uids_per_key'') (ascii ''verification'', d) =
      Some (ascii ''verification'', d\<lparr>cf_clean_policies := if b then cf_clean_policies d OR 64 else cf_clean_policies d AND NOT 64\<rparr>)"
    "parse_lines env False (WRITE_BOOL b ''cap_uats_per_key'') (ascii ''verification'', d) =
      Some (ascii ''verification'', d\<lparr>cf_clean_policies := if b then cf_clean_policies d OR 128 else cf_clean_policies d AND NOT 128\<rparr>)"
    "parse_line env False (conf_value ''max_sigs_per_uid'' (decimal (cf_max_sigs_per_uid c))) (ascii ''verification'', d) =
      Some (ascii ''verification'', d\<lparr>cf_max_sigs_per_uid := cf_max_sigs_per_uid c\<rparr>)"
    "parse_line env False (conf_value ''max_sigs_per_uat'' (decimal (cf_max_sigs_per_uat c))) (ascii ''verification'', d) =
      Some (ascii ''verification'', d\<lparr>cf_max_sigs_per_uat := cf_max_sigs_per_uat c\<rparr>)" for b d
    using assms
    by (simp_all only: WRITE_BOOL_def parse_lines.simps parse_setting plain_name_def ver)
      (simp_all add: parse_setting plain_name_def ver verification_setting_def set_policy_written atoi_decimal)
  then show ?thesis unfolding verification_lines_def kept_policies_def by (simp add: parse_lines_append)
qed

lemma read_mail:
  "parse_lines env False (mail_lines c) (ascii ''mail'', d) =
    Some (ascii ''mail'', d\<lparr>cf_adminemail := given (cf_adminemail c) (cf_adminemail d), cf_mail_dir := given (cf_mail_dir c) (cf_mail_dir d),
      cf_mta := given (cf_mta c) (cf_mta d), cf_bin_dir := given (cf_bin_dir c) (cf_bin_dir d),
      cf_thissite := given (cf_thissite c) (cf_thissite d), cf_syncsites := rev (cf_syncsites c) @ cf_syncsites d\<rparr>)"
proof -
  have mail: "setting env (ascii ''mail'') name v d = mail_setting name v d" for name v d
    by (simp add: setting_def starts_def)
  have w: "parse_lines env False (WRITE_IF_NOT_NULL v ''maintainer_email'') (ascii ''mail'', d) = Some (ascii ''mail'', cf_adminemail_update (given v) d)"
    "parse_lines env False (WRITE_IF_NOT_NULL v ''mail_dir'') (ascii ''mail'', d) = Some (ascii ''mail'', cf_mail_dir_update (given v) d)"
    "parse_lines env False (WRITE_IF_NOT_NULL v ''mta'') (ascii ''mail'', d) = Some (ascii ''mail'', cf_mta_update (given v) d)"
    "parse_lines env False (WRITE_IF_NOT_NULL v ''bin_dir'') (ascii ''mail'', d) = Some (ascii ''mail'', cf_bin_dir_update (given v) d)"
    "parse_lines env False (WRITE_IF_NOT_NULL v ''this_site'') (ascii ''mail'', d) = Some (ascii ''mail'', cf_thissite_update (given v) d)"
    for v d
    by (rule read_if_not_null; simp add: mail mail_setting_def plain_name_def)+
  have "parse_lines env False (map (conf_value ''syncsite'') l) (ascii ''mail'', d) =
      Some (ascii ''mail'', d\<lparr>cf_syncsites := rev l @ cf_syncsites d\<rparr>)" for l d
    by (induction l arbitrary: d) (simp_all add: parse_setting plain_name_def mail mail_setting_def)
  with w show ?thesis unfolding mail_lines_def by (simp add: parse_lines_append)
qed

lemma find_backend_head: "bc_name b = Some name \<Longrightarrow> find_db_backend_config (b # bs) name = Some 0"
  by (simp add: find_db_backend_config_def)

lemma read_backend:
  assumes "backend_lines b = Some ls" and "bc_name b = Some name" and "bc_type b \<noteq> None" and "length name \<le> 22"
    and "Some name \<notin> bc_name ` set (cf_backends d)" and "cf_backend d = None"
  shows "parse_lines env False ls (section, d) = Some (ascii ''backend:'' @ name, d\<lparr>cf_backends := b # cf_backends d\<rparr>)"
proof -
  let ?s = "ascii ''backend:'' @ name"
  have s: "setting env ?s n v d = Some (True, set_backend name (backend_setting n v) d)" for n v d
    by (simp add: setting_def starts_def)
  have hd: "set_backend name f (d\<lparr>cf_backends := x # bs\<rparr>) = d\<lparr>cf_backends := f x # bs\<rparr>" if "bc_name x = Some name" for f x bs
    using that by (simp add: set_backend_def find_backend_head)
  have new: "set_backend name f d = d\<lparr>cf_backends := f (no_backend\<lparr>bc_name := Some name\<rparr>) # cf_backends d\<rparr>" for f
    using assms(5,6) by (simp add: set_backend_def find_backend_None [THEN iffD2])
  obtain t where t: "bc_type b = Some t" using assms(3) by auto
  have first: "parse_lines env False (WRITE_IF_NOT_NULL (bc_type b) ''type'') (?s, d) =
      Some (?s, d\<lparr>cf_backends := (no_backend\<lparr>bc_name := Some name, bc_type := Some t\<rparr>) # cf_backends d\<rparr>)"
    by (simp add: t WRITE_IF_NOT_NULL_def parse_setting plain_name_def s new backend_setting_def)
  have w: "parse_lines env False (WRITE_IF_NOT_NULL v n) (?s, d\<lparr>cf_backends := x # bs\<rparr>) =
      Some (?s, d\<lparr>cf_backends := (case v of None \<Rightarrow> x | Some v \<Rightarrow> backend_setting (ascii n) v x) # bs\<rparr>)"
    if "bc_name x = Some name" "plain_name n" for v n x bs
    using that by (simp add: WRITE_IF_NOT_NULL_def parse_setting s hd split: option.split)
  have name: "bc_name (case v of None \<Rightarrow> x | Some v \<Rightarrow> backend_setting n v x) = bc_name x" for v n x
    by (simp add: backend_setting_def split: option.split)
  have header: "parse_line env False (ascii ''[backend:'' @ name @ [93]) (section, d) = Some (?s, d)"
    using parse_section [of "?s" env "section" d] assms(4) by (simp add: ascii_def)
  have plain: "plain_name ''location''" "plain_name ''hostname''" "plain_name ''username''" "plain_name ''password''"
    by (simp_all add: plain_name_def)
  have "ls = [[], ascii ''[backend:'' @ name @ [93]] @
       WRITE_IF_NOT_NULL (bc_type b) ''type'' @ WRITE_IF_NOT_NULL (bc_location b) ''location'' @
       WRITE_IF_NOT_NULL (bc_hostname b) ''hostname'' @ WRITE_IF_NOT_NULL (bc_username b) ''username'' @
       WRITE_IF_NOT_NULL (bc_password b) ''password''"
    using assms(1,2) by (simp add: backend_lines_def)
  moreover have "(let x1 = no_backend\<lparr>bc_name := Some name, bc_type := Some t\<rparr>;
       x2 = (case bc_location b of None \<Rightarrow> x1 | Some v \<Rightarrow> backend_setting (ascii ''location'') v x1);
       x3 = (case bc_hostname b of None \<Rightarrow> x2 | Some v \<Rightarrow> backend_setting (ascii ''hostname'') v x2);
       x4 = (case bc_username b of None \<Rightarrow> x3 | Some v \<Rightarrow> backend_setting (ascii ''username'') v x3)
     in case bc_password b of None \<Rightarrow> x4 | Some v \<Rightarrow> backend_setting (ascii ''password'') v x4) = b"
    using assms(2) t by (cases b) (simp add: no_backend_def backend_setting_def Let_def split: option.split)
  ultimately show ?thesis
    by (simp add: parse_lines_append parse_empty header first w name plain Let_def)
qed

lemma read_backends:
  assumes "all_backend_lines bs = Some ls" and "distinct (map bc_name bs)" and "bc_name ` set bs \<inter> bc_name ` set (cf_backends d) = {}"
    and "list_all (\<lambda>b. bc_type b \<noteq> None \<and> (\<forall>name. bc_name b = Some name \<longrightarrow> length name \<le> 22)) bs" and "cf_backend d = None"
  shows "\<exists>section'. parse_lines env False ls (section, d) = Some (section', d\<lparr>cf_backends := rev bs @ cf_backends d\<rparr>)"
  using assms
proof (induction bs arbitrary: ls "section" d)
  case (Cons b bs)
  obtain l ls' name where l: "backend_lines b = Some l" "all_backend_lines bs = Some ls'" "ls = l @ ls'" "bc_name b = Some name"
    using Cons.prems(1) by (auto simp: backend_lines_def split: Option.bind_splits)
  let ?d = "d\<lparr>cf_backends := b # cf_backends d\<rparr>"
  have b: "bc_type b \<noteq> None" "length name \<le> 22" "Some name \<notin> bc_name ` set (cf_backends d)" "cf_backend d = None"
    using Cons.prems(3-5) l(4) by auto
  have "bc_name ` set bs \<inter> bc_name ` set (cf_backends ?d) = {}" using Cons.prems(2,3) by auto
  with Cons.IH [OF l(2) _ this, of "ascii ''backend:'' @ name"] Cons.prems(2,4,5)
  obtain section' where "parse_lines env False ls' (ascii ''backend:'' @ name, ?d) = Some (section', ?d\<lparr>cf_backends := rev bs @ b # cf_backends d\<rparr>)"
    by auto
  with read_backend [OF l(1,4) b] l(3) show ?case by (simp add: parse_lines_append)
qed simp

text \<open>Configurations whose values can be written in a line each, with back ends of different names.\<close>

definition value_ok :: "bytes \<Rightarrow> bool" where
  "value_ok v \<longleftrightarrow> length v \<le> 1000 \<and> 10 \<notin> set v \<and> 0 \<notin> set v \<and> (v \<noteq> [] \<longrightarrow> \<not> isspace (last v))"

definition int_ok :: "int \<Rightarrow> bool" where
  "int_ok n \<longleftrightarrow> - (2 ^ 31) \<le> n \<and> n < 2 ^ 31"

definition backend_ok :: "onak_db_config \<Rightarrow> bool" where
  "backend_ok b \<longleftrightarrow> bc_name b \<noteq> None \<and> bc_type b \<noteq> None \<and> length (the (bc_name b)) \<le> 22 \<and>
     list_all (pred_option value_ok) [bc_name b, bc_type b, bc_location b, bc_hostname b, bc_username b, bc_password b]"

definition config_ok :: "onak_conf \<Rightarrow> bool" where
  "config_ok c \<longleftrightarrow> (\<exists>i < length (cf_backends c). cf_backend c = Some i) \<and> list_all backend_ok (cf_backends c) \<and>
     distinct (map bc_name (cf_backends c)) \<and> list_all value_ok (cf_syncsites c) \<and>
     list_all int_ok [cf_maxkeys c, cf_loglevel c, cf_max_sigs_per_uid c, cf_max_sigs_per_uat c] \<and>
     list_all (pred_option value_ok) [cf_thissite c, cf_adminemail c, cf_mta c, cf_server_contact c, cf_logfile c, cf_sock_dir c,
       cf_backends_dir c, cf_template_dir c, cf_bin_dir c, cf_mail_dir c]"

text \<open>What is read of a configuration that was written.\<close>

definition read_back :: "onak_conf \<Rightarrow> onak_conf" where
  "read_back c =
     c\<lparr>cf_syncsites := rev (cf_syncsites c), cf_backends := rev (cf_backends c),
       cf_backend := map_option (\<lambda>i. length (cf_backends c) - Suc i) (cf_backend c),
       cf_db_backend := bc_name (cf_backends c ! the (cf_backend c)),
       cf_blacklist := cf_blacklist default_config,
       cf_clean_policies := cf_clean_policies c AND
         (ONAK_CLEAN_CHECK_SIGHASH OR ONAK_CLEAN_CAP_UIDS OR ONAK_CLEAN_CAP_UATS)\<rparr>"

lemma kept_policies_default:
  "kept_policies ONAK_CLEAN_CAP_UATS p (kept_policies ONAK_CLEAN_CAP_UIDS p
     (kept_policies ONAK_CLEAN_CHECK_SIGHASH p (cf_clean_policies default_config))) =
   p AND (ONAK_CLEAN_CHECK_SIGHASH OR ONAK_CLEAN_CAP_UIDS OR ONAK_CLEAN_CAP_UATS)"
proof -
  have flag: "p AND 2 ^ n = (if bit p n then 2 ^ n else 0)" for n
    by (rule bit_eqI) (auto simp: bit_simps)
  have "p AND 1 = (if bit p 0 then 1 else 0)" "p AND 64 = (if bit p 6 then 64 else 0)" "p AND 128 = (if bit p 7 then 128 else 0)"
    using flag [of 0] flag [of 6] flag [of 7] by simp_all
  moreover have "p AND 193 = (p AND 1) OR (p AND 64) OR (p AND 128)"
    using bit.conj_disj_distrib [of p 1 "64 OR 128"] bit.conj_disj_distrib [of p 64 128] by simp
  ultimately show ?thesis by (simp add: kept_policies_def default_config_def)
qed

lemma conf_value_ok:
  assumes "plain_name name" and "value_ok v" and "length name \<le> 20" and "10 \<notin> set (ascii name)" and "0 \<notin> set (ascii name)"
    and "\<not> isspace (hd (ascii name))"
  shows "conf_line_ok (conf_value name v)"
proof -
  have "\<not> isspace 61" by (simp add: isspace_def)
  then have "\<not> isspace (last (61 # v))" using assms(2) by (simp add: value_ok_def)
  with assms show ?thesis
    by (auto simp: conf_line_ok_def conf_value_def line_ok_def value_ok_def plain_name_def)
qed

lemma decimal_nat_length: "n < 10 ^ Suc k \<Longrightarrow> length (decimal_nat n) \<le> Suc k"
proof (induction k arbitrary: n)
  case 0
  then show ?case by (subst decimal_nat.simps) simp
next
  case (Suc k)
  then have "n div 10 < 10 ^ Suc k" by (simp add: less_mult_imp_div_less mult.commute)
  from Suc.IH [OF this] show ?case by (subst decimal_nat.simps) simp
qed

lemma decimal_ok:
  assumes "int_ok n"
  shows "value_ok (decimal n)"
proof -
  have "nat (- n) < 10 ^ Suc 9" "nat n < 10 ^ Suc 9" using assms by (auto simp: int_ok_def nat_less_iff)
  then have "length (decimal_nat (nat (- n))) \<le> 10" "length (decimal_nat (nat n)) \<le> 10" using decimal_nat_length [of _ 9] by simp_all
  then have len: "length (decimal n) \<le> 11" by (simp add: decimal_def)
  have digits: "c \<noteq> 10 \<and> c \<noteq> 0 \<and> \<not> isspace c" if "c \<in> set (decimal_nat m)" for c m
    using that decimal_nat_digits [of m] by (auto simp: list_all_iff isdigit_def isspace_def word_le_nat_alt)
  have ne: "decimal_nat m \<noteq> []" for m using decimal_nat_digits [of m] by simp
  have "\<not> isspace (last (decimal_nat m))" for m using digits [OF last_in_set [OF ne]] by simp
  with digits len ne show ?thesis by (auto simp: value_ok_def decimal_def)
qed

definition config_names :: "string list" where
  "config_names = [''backend'', ''backends_dir'', ''template_dir'', ''logfile'', ''loglevel'', ''use_keyd'', ''sock_dir'',
     ''max_reply_keys'', ''server_contact'', ''check_sighash'', ''cap_uids_per_key'', ''cap_uats_per_key'', ''max_sigs_per_uid'',
     ''max_sigs_per_uat'', ''maintainer_email'', ''mail_dir'', ''mta'', ''bin_dir'', ''this_site'', ''syncsite'', ''type'', ''location'',
     ''hostname'', ''username'', ''password'']"

lemma config_names_ok:
  "list_all (\<lambda>n. plain_name n \<and> length n \<le> 20 \<and> 10 \<notin> set (ascii n) \<and> 0 \<notin> set (ascii n) \<and> \<not> isspace (hd (ascii n))) config_names"
  by code_simp

lemma written_value_ok: "name \<in> set config_names \<Longrightarrow> value_ok v \<Longrightarrow> conf_line_ok (conf_value name v)"
  using config_names_ok by (auto simp: list_all_iff intro!: conf_value_ok)

lemma if_not_null_ok: "name \<in> set config_names \<Longrightarrow> pred_option value_ok v \<Longrightarrow> list_all conf_line_ok (WRITE_IF_NOT_NULL v name)"
  by (cases v) (auto simp: WRITE_IF_NOT_NULL_def written_value_ok)

lemma bool_ok: "name \<in> set config_names \<Longrightarrow> list_all conf_line_ok (WRITE_BOOL b name)"
proof -
  assume n: "name \<in> set config_names"
  have "value_ok (ascii ''true'')" "value_ok (ascii ''false'')" by code_simp+
  with n show ?thesis by (simp add: WRITE_BOOL_def written_value_ok)
qed

lemma section_names_ok:
  "conf_line_ok []" "conf_line_ok (ascii ''[main]'')" "conf_line_ok (ascii ''[verification]'')" "conf_line_ok (ascii ''[mail]'')"
  by code_simp+

lemma backend_header_ok: "value_ok name \<Longrightarrow> length name \<le> 22 \<Longrightarrow> conf_line_ok (ascii ''[backend:'' @ name @ [93])"
proof -
  assume n: "value_ok name" "length name \<le> 22"
  have "10 \<notin> set (ascii ''[backend:'')" "0 \<notin> set (ascii ''[backend:'')" "\<not> isspace (hd (ascii ''[backend:''))" "\<not> isspace 93"
    by code_simp+
  with n show ?thesis by (simp add: conf_line_ok_def line_ok_def value_ok_def)
qed

lemmas written_ok = if_not_null_ok bool_ok written_value_ok decimal_ok section_names_ok

lemma all_lines_ok:
  assumes "config_ok c" and "pred_option value_ok (bc_name b)"
  shows "list_all conf_line_ok (main_lines b c)" and "list_all conf_line_ok (verification_lines c)"
    and "list_all conf_line_ok (mail_lines c)"
proof -
  show "list_all conf_line_ok (main_lines b c)"
    using assms unfolding main_lines_def config_ok_def
    by (simp add: written_ok config_names_def)
  show "list_all conf_line_ok (verification_lines c)"
    using assms unfolding verification_lines_def config_ok_def
    by (simp add: written_ok config_names_def)
  have "list_all value_ok (cf_syncsites c)" using assms(1) by (simp add: config_ok_def)
  then have "list_all conf_line_ok (map (conf_value ''syncsite'') (cf_syncsites c))"
    by (auto simp: list_all_iff config_names_def intro: written_value_ok)
  then show "list_all conf_line_ok (mail_lines c)"
    using assms unfolding mail_lines_def config_ok_def
    by (simp add: written_ok config_names_def)
qed

lemma backend_lines_ok:
  assumes "backend_ok b"
  shows "\<exists>ls. backend_lines b = Some ls \<and> list_all conf_line_ok ls"
proof -
  obtain name where n: "bc_name b = Some name" using assms by (auto simp: backend_ok_def)
  then have "value_ok name" "length name \<le> 22" using assms by (simp_all add: backend_ok_def)
  from backend_header_ok [OF this] n assms show ?thesis
    by (simp add: backend_lines_def backend_ok_def written_ok config_names_def)
qed

lemma all_backend_lines_ok:
  "list_all backend_ok bs \<Longrightarrow> \<exists>ls. all_backend_lines bs = Some ls \<and> list_all conf_line_ok ls"
proof (induction bs)
  case (Cons b bs)
  then obtain l ls where "backend_lines b = Some l" "list_all conf_line_ok l" "all_backend_lines bs = Some ls" "list_all conf_line_ok ls"
    using backend_lines_ok [of b] by auto
  then show ?case by simp
qed simp

lemma find_backend_rev:
  assumes "distinct (map bc_name bs)" and "i < length bs" and "bc_name (bs ! i) = Some name"
  shows "find_db_backend_config (rev bs) name = Some (length bs - Suc i)"
proof -
  let ?k = "length bs - Suc i"
  have k: "?k < length (rev bs)" "bc_name (rev bs ! ?k) = Some name" using assms(2,3) by (simp_all add: rev_nth)
  have "bc_name (rev bs ! j) \<noteq> Some name" if "j < ?k" for j
  proof -
    have "map bc_name (rev bs) ! j \<noteq> map bc_name (rev bs) ! ?k"
      using that k(1) assms(1) by (subst nth_eq_iff_index_eq) (simp_all flip: rev_map)
    then show ?thesis using that k by simp
  qed
  then have "takeWhile (\<lambda>b. bc_name b \<noteq> Some name) (rev bs) = take ?k (rev bs)"
    using k by (intro takeWhile_eq_take_P_nth) auto
  then show ?thesis using k(1) by (simp add: find_db_backend_config_def)
qed

lemma parsed_lines:
  assumes "config_ok c" and "cf_backend c = Some i" and "all_backend_lines (cf_backends c) = Some ls"
  shows "\<exists>section'. parse_lines env False
      ([ascii ''[main]''] @ main_lines (cf_backends c ! i) c @ [[], ascii ''[verification]''] @ verification_lines c @
       [[], ascii ''[mail]''] @ mail_lines c @ ls) ([], default_config) = Some (section', (read_back c)\<lparr>cf_backend := None\<rparr>)"
proof -
  have header: "parse_line env False (ascii ''[main]'') (section, d) = Some (ascii ''main'', d)"
    "parse_line env False (ascii ''[verification]'') (section, d) = Some (ascii ''verification'', d)"
    "parse_line env False (ascii ''[mail]'') (section, d) = Some (ascii ''mail'', d)" for "section" d
    using parse_section [of "ascii ''main''"] parse_section [of "ascii ''verification''"] parse_section [of "ascii ''mail''"]
    by (simp_all add: ascii_def)
  have ints: "int_ok (cf_loglevel c)" "int_ok (cf_maxkeys c)" "int_ok (cf_max_sigs_per_uid c)" "int_ok (cf_max_sigs_per_uat c)"
    and bs: "distinct (map bc_name (cf_backends c))"
      "list_all (\<lambda>b. bc_type b \<noteq> None \<and> (\<forall>name. bc_name b = Some name \<longrightarrow> length name \<le> 22)) (cf_backends c)"
    and b: "i < length (cf_backends c)" "bc_name (cf_backends c ! i) \<noteq> None"
    using assms(1,2) by (auto simp: config_ok_def backend_ok_def list_all_iff)
  let ?d = "(read_back c)\<lparr>cf_backend := None, cf_backends := []\<rparr>"
  let ?ls = "[ascii ''[main]''] @ main_lines (cf_backends c ! i) c @ [[], ascii ''[verification]''] @ verification_lines c @
       [[], ascii ''[mail]''] @ mail_lines c"
  have "parse_lines env False ?ls ([], default_config) = Some (ascii ''mail'', ?d)"
    using ints [unfolded int_ok_def] assms(2) b kept_policies_default [of "cf_clean_policies c"]
    by (simp add: parse_lines_append header parse_empty read_main read_verification read_mail) (simp add: default_config_def read_back_def)
  moreover obtain section' where "parse_lines env False ls (ascii ''mail'', ?d) = Some (section', (read_back c)\<lparr>cf_backend := None\<rparr>)"
    using read_backends [OF assms(3) bs(1) _ bs(2), of ?d env "ascii ''mail''"] by (auto simp: read_back_def)
  ultimately have "parse_lines env False (?ls @ ls) ([], default_config) = Some (section', (read_back c)\<lparr>cf_backend := None\<rparr>)"
    by (simp only: parse_lines_append bind.bind_lunit)
  then show ?thesis by (simp only: append_assoc append_Cons append_Nil) blast
qed

text \<open>
  C20. Writing a configuration and reading it back: \<open>writeconfig\<close> gives a text, and a process that starts from the default configuration and
  reads a file with that text has every value of the configuration, including the back end in use, but for these: the sites and the
  back ends come in reverse order, and the list of blocked keys and all policies but the three that are written are lost.
\<close>

theorem writeconfig_readconfig:
  assumes "config_ok c" and "conf_files env file = writeconfig c"
    and "length file \<ge> 5" and "drop (length file - 5) file \<noteq> ascii ''.conf''"
  shows "writeconfig c \<noteq> None \<and> (\<exists>section. readconfig env dir xdg home (Some file) ([], default_config) = Some (section, read_back c))"
proof -
  obtain i name where i: "cf_backend c = Some i" "i < length (cf_backends c)" and b: "backend_ok (cf_backends c ! i)"
      "bc_name (cf_backends c ! i) = Some name"
    using assms(1) by (auto simp: config_ok_def list_all_length backend_ok_def)
  obtain ls where ls: "all_backend_lines (cf_backends c) = Some ls" "list_all conf_line_ok ls"
    using assms(1) all_backend_lines_ok by (auto simp: config_ok_def)
  let ?main = "main_lines (cf_backends c ! i) c"
  let ?lines = "[ascii ''[main]''] @ ?main @ [[], ascii ''[verification]''] @ verification_lines c @ [[], ascii ''[mail]''] @ mail_lines c @ ls"
  have w: "writeconfig c = Some (file_text ?lines [])" using i ls by (simp add: writeconfig_def)
  have "list_all conf_line_ok ?lines"
    using all_lines_ok [OF assms(1), of "cf_backends c ! i"] b ls(2) section_names_ok by (simp add: backend_ok_def)
  from read_conf_lines [OF this] have r: "readconfig env dir xdg home (Some file) ([], default_config) =
      map_option (\<lambda>(section, c). (section, choose_backend False c)) (parse_lines env False ?lines ([], default_config))"
    using assms(2-4) w by (simp add: readconfig_def find_config_def)
  obtain section' where p: "parse_lines env False ?lines ([], default_config) =
      Some (section', (read_back c)\<lparr>cf_backend := None\<rparr>)"
    using parsed_lines [OF assms(1) i(1) ls(1)] by blast
  have "find_db_backend_config (rev (cf_backends c)) name = Some (length (cf_backends c) - Suc i)"
    using assms(1) i(2) b(2) by (intro find_backend_rev) (simp_all add: config_ok_def)
  with w r p i b(2) show ?thesis by (simp add: choose_backend_def read_back_def)
qed

definition sample_backend :: "string \<Rightarrow> onak_db_config" where
  "sample_backend name = no_backend\<lparr>bc_name := Some (ascii name), bc_type := Some (ascii ''fs''), bc_location := Some (ascii ''/var/lib/onak'')\<rparr>"

definition sample_config :: onak_conf where
  "sample_config = default_config\<lparr>cf_backends := [sample_backend ''one'', sample_backend ''two''], cf_backend := Some 1,
     cf_maxkeys := - 1, cf_use_keyd := True, cf_syncsites := [ascii ''a@example.org'', ascii ''b@example.org''], cf_thissite := Some (ascii ''me''),
     cf_clean_policies := ONAK_CLEAN_CHECK_SIGHASH OR ONAK_CLEAN_VERIFY_SIGNATURES\<rparr>"

theorem writeconfig_readconfig_witness:
  "\<exists>section. readconfig \<lparr>have_crypto = True, conf_files = \<lambda>_. writeconfig sample_config\<rparr> [] None None (Some (ascii ''onak.ini''))
     ([], default_config) = Some (section, read_back sample_config)"
proof -
  have ok: "value_ok (ascii ''one'')" "value_ok (ascii ''two'')" "value_ok (ascii ''fs'')" "value_ok (ascii ''/var/lib/onak'')"
    "value_ok (ascii ''a@example.org'')" "value_ok (ascii ''b@example.org'')" "value_ok (ascii ''me'')"
    by code_simp+
  have "config_ok sample_config"
    using ok by (simp add: config_ok_def sample_config_def default_config_def sample_backend_def no_backend_def backend_ok_def int_ok_def)
  from writeconfig_readconfig [OF this, of "\<lparr>have_crypto = True, conf_files = \<lambda>_. writeconfig sample_config\<rparr>" "ascii ''onak.ini''" "[]" None None]
  show ?thesis by simp
qed

text \<open>
  The loss of the policies on an instance: the written configuration verifies signatures, the one that is read back does not.
\<close>

lemma read_back_loses_verification:
  "cf_clean_policies sample_config AND ONAK_CLEAN_VERIFY_SIGNATURES \<noteq> 0"
  "cf_clean_policies (read_back sample_config) AND ONAK_CLEAN_VERIFY_SIGNATURES = 0"
  by (simp_all add: sample_config_def read_back_def)

end
