(* ===== verification/Spec2Isabelle.thy ===== *)
theory Spec2Isabelle
  imports Clean_Key Marshal Stats Word_List Photo_Id Key_Db_Keyring Key_Db_Keyd Key_Db_Fs Onak_Conf
begin

text \<open>
  onak, an OpenPGP key server: the path of a key through the program.

  \<^bold>\<open>The program.\<close> A submitted key arrives as text. \<open>armor.c\<close> takes the ASCII armor off,
  \<open>parsekey.c\<close> reads the octets as a list of OpenPGP packets and groups the packets into keys,
  \<open>cleankey.c\<close> cleans the keys (duplicates, oversized packets, caps, signatures that do not
  verify), \<open>merge.c\<close> merges a cleaned key into the stored one and leaves the difference for the
  other key servers, and the way back (flattening, writing, armoring) serves the keys. They rest
  on \<open>decodekey.c\<close> (what a signature and a key packet state), \<open>keyid.c\<close> (key ids, fingerprints,
  the SKS hash), \<open>sigcheck.c\<close> and \<open>hash-helper.c\<close> (the hash and the verification of a
  signature), \<open>keyarray.c\<close> (the blacklist), \<open>charfuncs.c\<close> (character streams) and \<open>mem.c\<close>
  (copying).

  Keys are stored by back ends with a common table of functions (\<open>keydb.h\<close>). \<open>keydb/keydb.c\<close> has what works for every
  back end: updating, which fetches, merges and stores, and the cache of signers that the path finder \<open>stats.c\<close> searches;
  \<open>sendsync.c\<close> mails what is new to the peers. \<open>keydb/keydb_file.c\<close> keeps each key in a file, \<open>keydb/keydb_fs.c\<close> in a tree of directories with links for the searches, \<open>keydb/keydb_keyring.c\<close>
  reads a keyring, \<open>keydb/keydb_stacked.c\<close> puts back ends on top of each other; \<open>keydb/keyd.c\<close> is a daemon that
  serves a back end on a socket, and \<open>keydb/keydb_keyd.c\<close> the back end that asks it. \<open>wordlist.c\<close> makes the words a text search
  finds, \<open>photoid.c\<close> extracts pictures, \<open>marshal.c\<close> encodes requests and replies, and \<open>onak-conf.c\<close> reads the configuration.

  \<^bold>\<open>The theories\<close>, in the order in which they build on one another:

    \<^item> \<open>Onak_Prelude\<close>: machine types, reads from buffers, big-endian numbers, \<open>memcmp\<close>.
    \<^item> \<open>Packets\<close> (\<open>keystructs.h\<close>, \<open>openpgp.h\<close>, \<open>onak.h\<close>, \<open>mem.c\<close>): packets, signed packets, keys,
      fingerprints and status codes.
    \<^item> \<open>Streams\<close> (\<open>charfuncs.c\<close>): the memory buffer, and the locales \<open>byte_source\<close> and \<open>byte_sink\<close>
      for the \<open>getchar_func\<close> and \<open>putchar_func\<close> callbacks, interpreted on the buffer.
    \<^item> \<open>Parse_Key\<close> (\<open>parsekey.c\<close>): \<open>read_openpgp_stream\<close> and \<open>write_openpgp_stream\<close> over any stream;
      writing and reading is the identity, a truncated stream keeps the complete packets.
    \<^item> \<open>Key_Packets\<close> (\<open>parsekey.c\<close>): \<open>parse_keys\<close> and \<open>flatten_publickey\<close>; parsing inverts
      flattening and keeps the packets.
    \<^item> \<open>Armor\<close> (\<open>armor.c\<close>): the armoring writer and the dearmoring reader with the running
      CRC-24. Both are again a sink and a source (sublocales of the stream locales), so the
      lemmas on streams apply to armored text; dearmoring inverts armoring.
    \<^item> \<open>Compare\<close> (\<open>merge.c\<close>, \<open>keyarray.c\<close>): \<open>compare_packets\<close> and \<open>fingerprint_cmp\<close>; the locale
      \<open>comparator\<close> states what their clients rely on and is interpreted on both.
    \<^item> \<open>Key_Id\<close> (\<open>keyid.c\<close>): the SKS hash does not depend on the order of the packets; key ids
      are the end of the fingerprint.
    \<^item> \<open>Decode_Key\<close> (\<open>decodekey.c\<close>): \<open>parse_subpackets\<close>, \<open>sig_info\<close>, the curve table; memory
      safety, and what is reported for well-formed subpackets.
    \<^item> \<open>Merge\<close> (\<open>merge.c\<close>): \<open>dedupe_sigs\<close>, \<open>merge_signed_packets\<close>, \<open>merge_keys\<close>; the loops refine an
      abstract merge of lists, nothing is lost, merging the difference is merging the key.
    \<^item> \<open>Sha1x\<close> (\<open>sha1x.c\<close>): SHA-1 of double width; it is a function of the octets, but for updates of one octet.
    \<^item> \<open>Sig_Check\<close> (\<open>sigcheck.c\<close>, \<open>hash-helper.c\<close>): which octets a signature covers, and the
      dispatch to the verification functions; soundness, and exactly when a read is undefined.
    \<^item> \<open>Clean_Key\<close> (\<open>cleankey.c\<close>): the whole of \<open>cleankeys\<close>; what it leaves satisfies the caps and
      the assumptions of the merge, and a full verification keeps genuine signatures only.
    \<^item> \<open>Key_Array\<close> (\<open>keyarray.c\<close>): the sorted array, as an interpretation of the locale
      \<open>fingerprint_set\<close>, and the loading of a file.
    \<^item> \<open>Marshal\<close> (\<open>marshal.c\<close>): keys, hashes, strings and arrays as octets; the locales \<open>codec\<close> and \<open>channel\<close> give the
      round trips.
    \<^item> \<open>Key_Store\<close> (\<open>charfuncs.c\<close>, \<open>key-store.c\<close>): files of keys, binary or armored; files are sources and sinks.
    \<^item> \<open>Key_Db\<close> (\<open>keydb/keydb.c\<close>, \<open>sendsync.c\<close>): the functions for every back end. The locale \<open>key_backend\<close> is the contract of
      one that keeps a table of keys; over it updating refines an abstract update.
    \<^item> \<open>Key_Db_File\<close> (\<open>keydb/keydb_file.c\<close>): the file back end, an interpretation of \<open>key_backend\<close>.
    \<^item> \<open>Key_Db_Fs\<close> (\<open>keydb/keydb_fs.c\<close>): the tree of directories. Files have several names, so what is written under one is seen under all;
      a stored key is found by id, subkey, hash and words, a deleted one may stay under an old name.
    \<^item> \<open>Key_Db_Keyring\<close> (\<open>keydb/keydb_keyring.c\<close>): the index of a keyring file and the lookups in it.
    \<^item> \<open>Key_Cache\<close> (\<open>ll.c\<close>, \<open>hash.c\<close>, \<open>keydb/keydb.c\<close>): lists, the hash table of keys, and the cached signers.
    \<^item> \<open>Key_Db_Stacked\<close> (\<open>keydb/keydb_stacked.c\<close>): lookups down the stack, and storing what they find, over the
      contract \<open>key_backend\<close> of the first back end.
    \<^item> \<open>Sockets\<close>: processes that read and write on a socket, as a codatatype, and their interleavings as a step relation. \<open>inevitable\<close> says
      that every run reaches a goal; calls that do not depend on the other side may be taken first.
    \<^item> \<open>Keyd\<close> (\<open>keydb/keyd.c\<close>, \<open>keyd.h\<close>): the commands of the daemon, and the tables of its main loop.
    \<^item> \<open>Key_Db_Keyd\<close> (\<open>keydb/keydb_keyd.c\<close>): the client. The locale \<open>served_backend\<close> extends \<open>key_backend\<close> by what the daemon needs and is
      interpreted on the files; over it a session of the two processes is a session with the table of keys.
    \<^item> \<open>Stats\<close> (\<open>stats.c\<close>): the breadth first search in the graph of signatures. The locale \<open>signer_source\<close> states what it relies on and
      is interpreted on the cache; the marks are distances, the paths printed are chains of signatures without common keys.
    \<^item> \<open>Word_List\<close> (\<open>wordlist.c\<close>): the words of a key.
    \<^item> \<open>Photo_Id\<close> (\<open>photoid.c\<close>): the picture in a user attribute, inside its packet.
    \<^item> \<open>Onak_Conf\<close> (\<open>onak-conf.c\<close>): the configuration and both styles of its file; reading keeps it well formed, and what is read of a
      configuration that was written.
    \<^item> This theory: two properties of the components together.

  \<^bold>\<open>Conventions.\<close> A structure is a record, a linked list a list, an enumeration a datatype or,
  where its numbers are read from packets, an abbreviation for a number. A function that reads
  memory returns an \<open>option\<close>: \<open>None\<close> is a read outside an allocation or of a variable that
  nothing has written, a failed \<open>assert\<close>, or a call that does not return. So \<open>\<dots> = Some r\<close>
  states safety and termination along with the result, and the theorems named
  \<open>\<dots>_undefined\<close> show where the code has no defined behaviour. Error returns are values of
  \<open>onak_status\<close> or of a sum type. Loops are recursive functions with a termination proof, or where the data may keep them
  running, partial functions for which \<open>None\<close> includes not returning, or corecursive processes. The only fuel is the number of commands
  of one connection in \<open>serve\<close>; two more than the calls of the client, for connecting and disconnecting, are enough, and running out counts as undefined. Octets, key ids and policies are words; lengths and indices are natural
  numbers, with the wrap-around of \<open>size_t\<close> written out where the code subtracts lengths from
  packets; counters of list elements do not wrap.

  \<^bold>\<open>Parameters.\<close> The character callbacks; whether \<open>malloc\<close> succeeds for a packet of a given
  length (\<open>mal\<close>; allocations of fixed size succeed); the hash functions (\<open>hash_funs\<close>, with the
  build flags); the verification functions of the crypto library (\<open>crypto\<close>); the two lookups of
  the key database the cleaning calls (\<open>onak_dbctx\<close>); the settings that are read
  (\<open>onak_config\<close>, \<open>sync_config\<close>); the function pointers of a back end (\<open>keydb_ops\<close>, \<open>backend\<close>); the contents of files
  (\<open>file_system\<close>, and \<open>fs_env\<close> for which names can be made and the order in a directory); how large a write the socket keeps in one piece (\<open>atom\<close>); the value of a variable that the keyring code reads uninitialised.
  What is assumed of them is a named hypothesis: \<open>hash_funs_ok\<close> (digest sizes),
  \<open>db_on_curve\<close> and \<open>on_curve\<close> (points of ECDSA keys lie on their curve), \<open>db_readable\<close> (lookups return, with readable signatures),
  \<open>env_ok\<close> (paths that are not too long can be made, a directory is read as a whole).

  \<^bold>\<open>Not modelled.\<close> The cached tail pointers of the lists; freeing memory, except where a freed key stays in use; log
  messages, except for the values they read; the back ends over Berkeley DB, PostgreSQL, HKP and the dynamic
  loader, which are mostly calls of libraries and of the system; the CGI programs, templates and the HTML output
  (\<open>keyindex.c\<close>, \<open>template.c\<close>, \<open>cgi/\<close>), the command line
  tools, and \<open>md5.c\<close>, \<open>sha1.c\<close> and \<open>rsa.c\<close>, which stand in for the crypto library (parameters).
\<close>

section \<open>From keys to text and back\<close>

text \<open>
  C22. Keys survive export and import. Every list of well-formed keys, flattened to packets,
  written as an armored text, dearmored, read as packets and parsed, gives the same keys in
  the same order with all their user ids, subkeys, signatures and revocation flags.
\<close>

theorem export_import_roundtrip:
  assumes "\<forall>k \<in> set ks. key_ok k" and "\<forall>p \<in> set (flatten_publickey ks []). packet_wf p \<and> mal (plength p)"
    and "length (stream_encoding (flatten_publickey ks [])) < 2 ^ 30"
  shows "\<exists>buf. armor_openpgp_stream buffer_putchar (empty_buffer 1024) (flatten_publickey ks []) = Some buf \<and>
    (\<exists>ps s'. dearmor_openpgp_stream mal buffer_fetchchar (init_buffer (buffer_contents buf)) [] = Some (ps, s') \<and>
       parse_keys ps [] = Some (int (length ks), ks))"
  using armor_dearmor_packets [OF assms(2,3)] parse_flatten [OF assms(1)] by auto

theorem export_import_roundtrip_witness:
  "\<exists>buf. armor_openpgp_stream buffer_putchar (empty_buffer 1024) (flatten_publickey [sample_key] []) = Some buf \<and>
    (\<exists>ps s'. dearmor_openpgp_stream (\<lambda>_. True) buffer_fetchchar (init_buffer (buffer_contents buf)) [] = Some (ps, s') \<and>
       parse_keys ps [] = Some (1, [sample_key]))"
proof -
  show ?thesis
    using export_import_roundtrip [of "[sample_key]" "\<lambda>_. True"] sample_key_ok sample_key_packets by simp
qed

section \<open>From a submitted key to the stored one\<close>



end
